(* ===== verification/Kernel_Prelude.thy ===== *)
theory Kernel_Prelude
  imports Main "HOL-Library.Word"
begin

text \<open>
  Shared vocabulary of the development: the machine types of the 32-bit targets
  (\<^verbatim>\<open>src/kernel/libk/types.h\<close>: \<^verbatim>\<open>uint_t\<close>, \<^verbatim>\<open>sint_t\<close> and \<^verbatim>\<open>error_t\<close> are
  \<^verbatim>\<open>long\<close>), the error codes of \<^verbatim>\<open>src/kernel/libk/errno.h\<close>, the configuration
  constants of \<^verbatim>\<open>mm-config.h\<close>, \<^verbatim>\<open>kernel-config.h\<close> and \<^verbatim>\<open>cpu-config.h\<close>, and the generic
  lemmas on lists, options and words that the components share.
\<close>

unbundle bit_operations_syntax

named_theorems kconfig \<open>configuration constants, unfolded for evaluation\<close>
named_theorems karray \<open>checked array accesses inside their bounds\<close>

section \<open>Machine types\<close>

type_synonym u8 = "8 word"
type_synonym u32 = "32 word"
type_synonym u64 = "64 word"

text \<open>\<^verbatim>\<open>sizeof(uint_t)\<close> is 4 on both supported processors, so \<^verbatim>\<open>__CPU_WIDTH\<close> is 32.\<close>

abbreviation (input) CPU_WIDTH :: nat where
  "CPU_WIDTH \<equiv> 32"

section \<open>Error codes\<close>

datatype errno =
    EPERM | ENOENT | ESRCH | EIO | EBADF | EAGAIN | ENOMEM | EACCES | EFAULT | EBUSY | EEXIST | ENODEV | EISDIR | EINVAL | ENFILE | EMFILE
  | ERANGE | EDEADLK | ENOSYS | EOVERFLOW | EBADFD | ECANCELED

text \<open>
  \<^verbatim>\<open>error_t\<close> is 0 on success and an error code otherwise: \<open>None\<close> stands for 0.
\<close>

type_synonym error_t = "errno option"

abbreviation OK :: error_t where
  "OK \<equiv> None"

section \<open>Checked array accesses\<close>

text \<open>
  A C array access outside the array is undefined. The components that index arrays make
  the access checked: \<open>None\<close> is an access outside the array, and every property shows that
  it does not happen.
\<close>

definition arr_get :: "'a list \<Rightarrow> nat \<Rightarrow> 'a option" where
  "arr_get xs i = (if i < length xs then Some (xs ! i) else None)"

definition arr_set :: "'a list \<Rightarrow> nat \<Rightarrow> 'a \<Rightarrow> 'a list option" where
  "arr_set xs i v = (if i < length xs then Some (xs[i := v]) else None)"

lemma arr_get_in [karray]: "i < length xs \<Longrightarrow> arr_get xs i = Some (xs ! i)"
  by (simp add: arr_get_def)

lemma arr_set_in [karray]: "i < length xs \<Longrightarrow> arr_set xs i v = Some (xs[i := v])"
  by (simp add: arr_set_def)

lemma arr_get_Some_iff: "arr_get xs i = Some v \<longleftrightarrow> i < length xs \<and> xs ! i = v"
  by (auto simp: arr_get_def)

lemma arr_set_Some_iff: "arr_set xs i v = Some ys \<longleftrightarrow> i < length xs \<and> ys = xs[i := v]"
  by (auto simp: arr_set_def)

section \<open>Generic lemmas on words\<close>

lemma bit_push_bit_1: "j < 32 \<Longrightarrow> bit (push_bit j (1 :: u32)) k \<longleftrightarrow> k = j"
  by (auto simp: bit_simps)

lemma push_bit_1_minus_1: "push_bit n (1 :: u32) - 1 = mask n"
  by (simp add: mask_eq_exp_minus_1)

lemma unat_take_bit: "unat (take_bit k (v :: u32)) = unat v mod 2 ^ k"
  by (simp add: unsigned_take_bit_eq flip: take_bit_eq_mod)

lemma unat_and_mask: "unat (v AND mask k :: u32) = unat v mod 2 ^ k"
  by (simp add: unat_take_bit flip: take_bit_eq_mask)

lemma unat_and_not_mask: "unat (v AND NOT (mask k) :: u32) = unat v - unat v mod 2 ^ k"
proof -
  have "v AND NOT (mask k) = push_bit k (drop_bit k v)"
    by (rule bit_word_eqI) (auto simp: bit_simps)
  then have "v AND NOT (mask k) = v - take_bit k v"
    by (metis add_diff_cancel_right' bits_ident)
  moreover have "take_bit k v \<le> v"
    by (simp add: word_le_nat_alt unat_take_bit)
  ultimately show ?thesis by (simp add: unat_sub unat_take_bit)
qed

lemma unat_exp_u32: "k < 32 \<Longrightarrow> unat ((2 :: u32) ^ k) = 2 ^ k"
proof -
  assume "k < 32"
  then have "(2 :: nat) ^ k < 2 ^ 32" by (intro power_strict_increasing) auto
  moreover have "unat (word_of_nat (2 ^ k) :: u32) = 2 ^ k mod 2 ^ 32" by (simp only: unat_of_nat len_bit0 len_num1) simp
  ultimately show ?thesis by simp
qed

lemma unat_bound: "unat (w :: u32) < 4294967296"
  by (rule order_less_le_trans [OF unsigned_less]) simp

lemma unat_small: "n < 4294967296 \<Longrightarrow> unat (of_nat n :: u32) = n"
  by (simp add: unat_of_nat)

lemma u32_eq: "x < 4294967296 \<Longrightarrow> y < 4294967296 \<Longrightarrow> (of_nat x :: u32) = of_nat y \<longleftrightarrow> x = y"
  by (metis unat_small)

lemma unat_drop: "unat (drop_bit k w) = unat w div 2 ^ k" for w :: u32
  using unat_bound [of w] by (subst unsigned_drop_bit_eq) (simp add: drop_bit_eq_div take_bit_nat_eq_self)

section \<open>Positions in an array of 32-bit words\<close>

lemma div32_eq: "32 * i \<le> l \<Longrightarrow> l < 32 * Suc i \<Longrightarrow> l div 32 = (i :: nat)"
  by simp

lemma mod32_eq: "32 * i \<le> l \<Longrightarrow> l < 32 * Suc i \<Longrightarrow> l mod 32 = l - 32 * (i :: nat)"
  using div32_eq [of i l] by (simp add: minus_div_mult_eq_mod [symmetric])

lemma word_pos_iff:
  "(l div 32 = i \<and> a \<le> l mod 32 \<and> l mod 32 < b) \<longleftrightarrow> 32 * i + a \<le> l \<and> l < 32 * i + b"
  if "b \<le> 32" for l i a b :: nat
proof
  assume "l div 32 = i \<and> a \<le> l mod 32 \<and> l mod 32 < b"
  then show "32 * i + a \<le> l \<and> l < 32 * i + b"
    by (metis add_le_cancel_left mult_div_mod_eq nat_add_left_cancel_less)
next
  assume "32 * i + a \<le> l \<and> l < 32 * i + b"
  then show "l div 32 = i \<and> a \<le> l mod 32 \<and> l mod 32 < b"
    using that div32_eq [of i l] mod32_eq [of i l] by auto
qed

lemma word_tail_iff: "(l div 32 = i \<and> a \<le> l mod 32) \<longleftrightarrow> 32 * i + a \<le> l \<and> l < 32 * Suc i"
  for l i a :: nat
  using word_pos_iff [of 32 l i a] by auto

end
