(* ===== verification/Libk_Bits.thy ===== *)
theory Libk_Bits
  imports Kernel_Prelude
begin

text \<open>
  The bitmap helpers of \<^verbatim>\<open>src/kernel/libk/bits.h\<close> and \<^verbatim>\<open>src/kernel/libk/bits.c\<close>. A bitmap is
  the array of 32-bit words the C code indexes; every access is checked against the array,
  so a result \<open>None\<close> is an access outside the array. Bit positions and byte sizes are the
  values of \<^verbatim>\<open>uint_t\<close> variables, as \<open>nat\<close>; the one multiplication that can overflow
  (\<^verbatim>\<open>size <<= 3\<close>) is written with its wrap-around.
\<close>

section \<open>Model\<close>

type_synonym bitmap = "u32 list"

definition bitmap_set :: "bitmap \<Rightarrow> nat \<Rightarrow> bitmap option" where
  "bitmap_set bm index =
     (let i = index div CPU_WIDTH; j = index mod CPU_WIDTH in
      Option.bind (arr_get bm i) (\<lambda>w. arr_set bm i (w OR push_bit j 1)))"

definition bitmap_clear :: "bitmap \<Rightarrow> nat \<Rightarrow> bitmap option" where
  "bitmap_clear bm index =
     (let i = index div CPU_WIDTH; j = index mod CPU_WIDTH in
      Option.bind (arr_get bm i) (\<lambda>w. arr_set bm i (w AND NOT (push_bit j 1))))"

definition bitmap_state :: "bitmap \<Rightarrow> nat \<Rightarrow> bool option" where
  "bitmap_state bm index =
     (let i = index div CPU_WIDTH; j = index mod CPU_WIDTH in
      map_option (\<lambda>w. w AND push_bit j 1 \<noteq> 0) (arr_get bm i))"

text \<open>
  The search loops. \<^verbatim>\<open>bitmap_ffs2\<close> and \<^verbatim>\<open>bitmap_ffc2\<close> are the same two loops with two
  different tests: \<open>hit w j\<close> is the test on bit \<open>j\<close> of a word, \<open>skip w\<close> the test that
  skips a whole word. \<open>scan_word\<close> is the loop over the bits of one word.
\<close>

function scan_word :: "(u32 \<Rightarrow> nat \<Rightarrow> bool) \<Rightarrow> u32 \<Rightarrow> nat \<Rightarrow> nat option" where
  "scan_word hit w j =
     (if j < CPU_WIDTH then (if hit w j then Some j else scan_word hit w (Suc j)) else None)"
  by pat_completeness auto
termination
  by (relation "measure (\<lambda>(hit, w, j). CPU_WIDTH - j)") auto

declare scan_word.simps [simp del]

function scan_words ::
  "(u32 \<Rightarrow> nat \<Rightarrow> bool) \<Rightarrow> (u32 \<Rightarrow> bool) \<Rightarrow> bitmap \<Rightarrow> nat \<Rightarrow> nat \<Rightarrow> int option" where
  "scan_words hit skip bm i n =
     (if i < n then
        (case arr_get bm i of
           None \<Rightarrow> None
         | Some w \<Rightarrow>
             (if skip w then scan_words hit skip bm (Suc i) n
              else (case scan_word hit w 0 of
                      Some j \<Rightarrow> Some (int (i * CPU_WIDTH + j))
                    | None \<Rightarrow> scan_words hit skip bm (Suc i) n)))
      else Some (-1))"
  by pat_completeness auto
termination
  by (relation "measure (\<lambda>(hit, skip, bm, i, n). n - i)") auto

declare scan_words.simps [simp del]

definition size_to_bits :: "nat \<Rightarrow> nat" where
  "size_to_bits sz = (sz * 8) mod 2 ^ 32"

definition bitmap_scan2 ::
  "(u32 \<Rightarrow> nat \<Rightarrow> bool) \<Rightarrow> (u32 \<Rightarrow> bool) \<Rightarrow> bitmap \<Rightarrow> nat \<Rightarrow> nat \<Rightarrow> int option" where
  "bitmap_scan2 hit skip bm index sz =
     (let i = index div CPU_WIDTH; j = index mod CPU_WIDTH;
          n = size_to_bits sz div CPU_WIDTH in
      if j \<noteq> 0 then
        (case arr_get bm i of
           None \<Rightarrow> None
         | Some w \<Rightarrow>
             (case scan_word hit w j of
                Some k \<Rightarrow> Some (int (i * CPU_WIDTH + k))
              | None \<Rightarrow> scan_words hit skip bm (Suc i) n))
      else scan_words hit skip bm i n)"

abbreviation hit_set :: "u32 \<Rightarrow> nat \<Rightarrow> bool" where
  "hit_set w j \<equiv> w AND push_bit j 1 \<noteq> 0"

abbreviation hit_clear :: "u32 \<Rightarrow> nat \<Rightarrow> bool" where
  "hit_clear w j \<equiv> w AND push_bit j 1 = 0"

definition bitmap_ffs2 :: "bitmap \<Rightarrow> nat \<Rightarrow> nat \<Rightarrow> int option" where
  "bitmap_ffs2 = bitmap_scan2 hit_set (\<lambda>w. w = 0)"

definition bitmap_ffc2 :: "bitmap \<Rightarrow> nat \<Rightarrow> nat \<Rightarrow> int option" where
  "bitmap_ffc2 = bitmap_scan2 hit_clear (\<lambda>w. w = - 1)"

definition bitmap_ffs :: "bitmap \<Rightarrow> nat \<Rightarrow> int option" where
  "bitmap_ffs bm sz = scan_words hit_set (\<lambda>w. w = 0) bm 0 (size_to_bits sz div CPU_WIDTH)"

definition bitmap_ffc :: "bitmap \<Rightarrow> nat \<Rightarrow> int option" where
  "bitmap_ffc bm sz = scan_words hit_clear (\<lambda>w. w = - 1) bm 0 (size_to_bits sz div CPU_WIDTH)"

text \<open>
  \<^verbatim>\<open>bitmap_set_range\<close> and \<^verbatim>\<open>bitmap_clear_range\<close> share their loop; \<open>upd w m\<close> is the
  assignment to the word (\<^verbatim>\<open>|=\<close> or \<^verbatim>\<open>&= ~\<close>). Both take signed arguments; the model covers
  the non-negative ones. The last iteration of the loop is the one that breaks.
\<close>

function range_loop ::
  "(u32 \<Rightarrow> u32 \<Rightarrow> u32) \<Rightarrow> bitmap \<Rightarrow> nat \<Rightarrow> nat \<Rightarrow> nat \<Rightarrow> bitmap option" where
  "range_loop upd bm i index len =
     (if 0 < len then
        (if CPU_WIDTH \<le> len + index then
           (let val = (if index = 0 then - 1 else push_bit (CPU_WIDTH - index) 1 - 1) in
            case arr_get bm i of
              None \<Rightarrow> None
            | Some w \<Rightarrow>
                range_loop upd (bm[i := upd w (push_bit index val)]) (Suc i) 0
                  (len - (CPU_WIDTH - index)))
         else
           (case arr_get bm i of
              None \<Rightarrow> None
            | Some w \<Rightarrow> Some (bm[i := upd w (push_bit index (push_bit len 1 - 1))])))
      else Some bm)"
  by pat_completeness auto
termination
  by (relation "measure (\<lambda>(upd, bm, i, index, len). len + (if index < CPU_WIDTH then 0 else 1))")
     auto

declare range_loop.simps [simp del]

definition bitmap_set_range :: "bitmap \<Rightarrow> nat \<Rightarrow> nat \<Rightarrow> bitmap option" where
  "bitmap_set_range bm index len =
     range_loop (\<lambda>w m. w OR m) bm (index div CPU_WIDTH) (index mod CPU_WIDTH) len"

definition bitmap_clear_range :: "bitmap \<Rightarrow> nat \<Rightarrow> nat \<Rightarrow> bitmap option" where
  "bitmap_clear_range bm index len =
     range_loop (\<lambda>w m. w AND NOT m) bm (index div CPU_WIDTH) (index mod CPU_WIDTH) len"

text \<open>\<^verbatim>\<open>bits_nr\<close>: the loop that shifts the value to the right until it is zero.\<close>

fun bits_nr :: "nat \<Rightarrow> nat" where
  "bits_nr val = (if 0 < val then Suc (bits_nr (val div 2)) else 0)"

declare bits_nr.simps [simp del]

definition bits_log2 :: "nat \<Rightarrow> nat" where
  "bits_log2 val = (if val = 0 then 1 else bits_nr val - 1)"

definition ARROUND_UP :: "u32 \<Rightarrow> u32 \<Rightarrow> u32" where
  "ARROUND_UP val sz =
     (if val AND (sz - 1) \<noteq> 0 then (val AND NOT (sz - 1)) + sz else val)"

definition ARROUND_DOWN :: "u32 \<Rightarrow> u32 \<Rightarrow> u32" where
  "ARROUND_DOWN val sz = val AND NOT (sz - 1)"

section \<open>Abstraction: the bits of a bitmap\<close>

definition bmbit :: "bitmap \<Rightarrow> nat \<Rightarrow> bool" where
  "bmbit bm k \<longleftrightarrow> bit (bm ! (k div CPU_WIDTH)) (k mod CPU_WIDTH)"

text \<open>
  \<open>first_hit P a b r\<close>: \<open>r\<close> is the least position of \<open>[a, b)\<close> with \<open>P\<close>, or -1 when there is
  none.
\<close>

definition first_hit :: "(nat \<Rightarrow> bool) \<Rightarrow> nat \<Rightarrow> nat \<Rightarrow> int \<Rightarrow> bool" where
  "first_hit P a b r \<longleftrightarrow>
     (if r = - 1 then \<forall>k. a \<le> k \<and> k < b \<longrightarrow> \<not> P k
      else 0 \<le> r \<and> a \<le> nat r \<and> nat r < b \<and> P (nat r) \<and> (\<forall>k. a \<le> k \<and> k < nat r \<longrightarrow> \<not> P k))"

lemma first_hit_skip:
  "first_hit P b c r \<Longrightarrow> a \<le> b \<Longrightarrow> \<forall>k. a \<le> k \<and> k < b \<longrightarrow> \<not> P k \<Longrightarrow> first_hit P a c r"
  unfolding first_hit_def by (auto split: if_splits) (meson not_le order_trans)+

lemma first_hit_found:
  "P k \<Longrightarrow> a \<le> k \<Longrightarrow> k < b \<Longrightarrow> \<forall>l. a \<le> l \<and> l < k \<longrightarrow> \<not> P l \<Longrightarrow> first_hit P a b (int k)"
  by (simp add: first_hit_def)

section \<open>Single bits\<close>

lemma bitmap_set_in [karray]:
  "k < 32 * length bm \<Longrightarrow>
     bitmap_set bm k = Some (bm[k div 32 := bm ! (k div 32) OR push_bit (k mod 32) 1])"
  by (simp add: bitmap_set_def Let_def arr_get_in arr_set_in less_mult_imp_div_less mult.commute)

lemma bitmap_clear_in [karray]:
  "k < 32 * length bm \<Longrightarrow>
     bitmap_clear bm k = Some (bm[k div 32 := bm ! (k div 32) AND NOT (push_bit (k mod 32) 1)])"
  by (simp add: bitmap_clear_def Let_def arr_get_in arr_set_in less_mult_imp_div_less mult.commute)

lemma bitmap_set_bits:
  assumes "bitmap_set bm k = Some bm'"
  shows "length bm' = length bm \<and> (\<forall>l < 32 * length bm. bmbit bm' l \<longleftrightarrow> l = k \<or> bmbit bm l)"
  using assms
  by (auto simp: bitmap_set_def Let_def bind_eq_Some_conv arr_get_Some_iff arr_set_Some_iff bmbit_def
      nth_list_update bit_simps) (metis mod_div_mult_eq)+

lemma bitmap_clear_bits:
  assumes "bitmap_clear bm k = Some bm'"
  shows "length bm' = length bm \<and> (\<forall>l < 32 * length bm. bmbit bm' l \<longleftrightarrow> l \<noteq> k \<and> bmbit bm l)"
  using assms
  by (auto simp: bitmap_clear_def Let_def bind_eq_Some_conv arr_get_Some_iff arr_set_Some_iff bmbit_def
      nth_list_update bit_simps) (metis mod_div_mult_eq)+

lemma bitmap_state_in: "k < 32 * length bm \<Longrightarrow> bitmap_state bm k = Some (bmbit bm k)"
  by (simp add: bitmap_state_def Let_def arr_get_in less_mult_imp_div_less mult.commute bmbit_def
      and_exp_eq_0_iff_not_bit)

section \<open>Ranges\<close>

text \<open>
  The contract of a word update: \<open>upd w m\<close> forces the bits of the mask \<open>m\<close> to \<open>v\<close> and keeps
  the others. The range loop then forces exactly the bits of the range.
\<close>

locale masked_update =
  fixes upd :: "u32 \<Rightarrow> u32 \<Rightarrow> u32" and v :: bool
  assumes upd_bit: "k < 32 \<Longrightarrow> bit (upd w m) k \<longleftrightarrow> (if bit m k then v else bit w k)"
begin

lemma bmbit_upd_word:
  assumes "i < length bm" and "l < 32 * length bm"
  shows "bmbit (bm[i := upd (bm ! i) m]) l \<longleftrightarrow>
    (if l div 32 = i \<and> bit m (l mod 32) then v else bmbit bm l)"
  using assms by (auto simp: bmbit_def nth_list_update upd_bit)

lemma full_word_mask:
  assumes "j < 32" and "k < 32"
  shows "bit (push_bit j (if j = 0 then - 1 else push_bit (32 - j) 1 - 1) :: u32) k \<longleftrightarrow> j \<le> k"
  unfolding push_bit_1_minus_1 using assms by (auto simp: bit_simps)

lemma part_word_mask:
  assumes "len + j < 32" and "k < 32"
  shows "bit (push_bit j (push_bit len 1 - 1) :: u32) k \<longleftrightarrow> j \<le> k \<and> k < j + len"
  unfolding push_bit_1_minus_1 using assms by (auto simp: bit_simps)

lemma range_loop_bits:
  assumes "j < 32" and "32 * i + j + len \<le> 32 * length bm"
  shows "\<exists>bm'. range_loop upd bm i j len = Some bm' \<and> length bm' = length bm \<and>
    (\<forall>l < 32 * length bm. bmbit bm' l \<longleftrightarrow>
       (if 32 * i + j \<le> l \<and> l < 32 * i + j + len then v else bmbit bm l))"
  using assms
proof (induction len arbitrary: bm i j rule: less_induct)
  case (less len)
  consider (none) "len = 0" | (full) "0 < len" "32 \<le> len + j" | (part) "0 < len" "len + j < 32"
    by linarith
  then show ?case
  proof cases
    case none
    then show ?thesis by (auto simp: range_loop.simps)
  next
    case part
    let ?m = "push_bit j (push_bit len 1 - 1) :: u32"
    from part less.prems have i: "i < length bm" by linarith
    have pos: "(l div 32 = i \<and> bit ?m (l mod 32)) = (32 * i + j \<le> l \<and> l < 32 * i + j + len)" for l
      unfolding part_word_mask [OF part(2) mod_less_divisor [OF zero_less_numeral]]
      using part word_pos_iff [of "j + len" l i j] by (simp add: add.assoc)
    show ?thesis
      using part i by (auto simp: range_loop.simps arr_get_in bmbit_upd_word pos simp del: push_bit_of_1)
  next
    case full
    let ?m = "push_bit j (if j = 0 then - 1 else push_bit (32 - j) 1 - 1) :: u32"
    let ?bm = "bm[i := upd (bm ! i) ?m]"
    from full less.prems have i: "i < length bm" by linarith
    have pos: "(l div 32 = i \<and> bit ?m (l mod 32)) = (32 * i + j \<le> l \<and> l < 32 * Suc i)" for l
      unfolding full_word_mask [OF less.prems(1) mod_less_divisor [OF zero_less_numeral]]
      by (rule word_tail_iff)
    have "\<exists>bm'. range_loop upd ?bm (Suc i) 0 (len - (32 - j)) = Some bm' \<and> length bm' = length ?bm \<and>
      (\<forall>l < 32 * length ?bm. bmbit bm' l \<longleftrightarrow>
         (if 32 * Suc i + 0 \<le> l \<and> l < 32 * Suc i + 0 + (len - (32 - j)) then v else bmbit ?bm l))"
      by (rule less.IH) (use full less.prems in auto)
    then obtain bm' where bm': "range_loop upd ?bm (Suc i) 0 (len - (32 - j)) = Some bm'"
      "length bm' = length bm"
      "\<forall>l < 32 * length bm. bmbit bm' l \<longleftrightarrow>
         (if 32 * Suc i \<le> l \<and> l < 32 * Suc i + (len - (32 - j)) then v else bmbit ?bm l)"
      by auto
    have "bmbit bm' l \<longleftrightarrow> (if 32 * i + j \<le> l \<and> l < 32 * i + j + len then v else bmbit bm l)"
      if l: "l < 32 * length bm" for l
    proof -
      have "bmbit ?bm l \<longleftrightarrow> (if 32 * i + j \<le> l \<and> l < 32 * Suc i then v else bmbit bm l)"
        unfolding bmbit_upd_word [OF i l] pos ..
      then show ?thesis using bm'(3) l full less.prems(1) by auto
    qed
    moreover have "range_loop upd bm i j len = Some bm'"
      using full i bm'(1) by (subst range_loop.simps) (simp add: arr_get_in Let_def)
    ultimately show ?thesis using bm'(2) by blast
  qed
qed

end

interpretation set_mask: masked_update "\<lambda>w m. w OR m" True
  by unfold_locales (simp add: bit_simps)

interpretation clear_mask: masked_update "\<lambda>w m. w AND NOT m" False
  by unfold_locales (simp add: bit_simps)

lemma bitmap_set_range_bits:
  assumes "index + len \<le> 32 * length bm"
  shows "\<exists>bm'. bitmap_set_range bm index len = Some bm' \<and> length bm' = length bm \<and>
    (\<forall>l < 32 * length bm. bmbit bm' l \<longleftrightarrow> (index \<le> l \<and> l < index + len) \<or> bmbit bm l)"
  using set_mask.range_loop_bits [of "index mod 32" "index div 32" len bm] assms
  by (auto simp: bitmap_set_range_def)

lemma bitmap_clear_range_bits:
  assumes "index + len \<le> 32 * length bm"
  shows "\<exists>bm'. bitmap_clear_range bm index len = Some bm' \<and> length bm' = length bm \<and>
    (\<forall>l < 32 * length bm. bmbit bm' l \<longleftrightarrow> \<not> (index \<le> l \<and> l < index + len) \<and> bmbit bm l)"
  using clear_mask.range_loop_bits [of "index mod 32" "index div 32" len bm] assms
  by (auto simp: bitmap_clear_range_def)

text \<open>The range operations change exactly the bits of their range: for a range inside the bitmap,
  \<^verbatim>\<open>bitmap_set_range\<close> and \<^verbatim>\<open>bitmap_clear_range\<close> stay inside the array, set (clear) the bits from the
  index on for the given length, and leave every other bit as it was.\<close>

theorem bitmap_range_exact:
  assumes "index + len \<le> 32 * length bm"
  shows "\<exists>s c. bitmap_set_range bm index len = Some s \<and> bitmap_clear_range bm index len = Some c
    \<and> (\<forall>l < 32 * length bm.
         (bmbit s l \<longleftrightarrow> index \<le> l \<and> l < index + len \<or> bmbit bm l)
       \<and> (bmbit c l \<longleftrightarrow> \<not> (index \<le> l \<and> l < index + len) \<and> bmbit bm l))"
  using bitmap_set_range_bits [OF assms] bitmap_clear_range_bits [OF assms] by blast

theorem bitmap_range_exact_witness:
  "\<exists>s. bitmap_set_range [0, 8, 1] 30 10 = Some s \<and> bmbit s 33 \<and> bmbit s 64 \<and> \<not> bmbit s 29"
proof -
  obtain s where "bitmap_set_range [0, 8, 1] 30 10 = Some s"
    and "\<forall>l < 96. bmbit s l \<longleftrightarrow> 30 \<le> l \<and> l < 40 \<or> bmbit [0, 8, 1] l"
    using bitmap_range_exact [of 30 10 "[0, 8, 1]"] by auto
  moreover have "bmbit [0, 8, 1] 64" "\<not> bmbit [0, 8, 1] 29" by (simp_all add: bmbit_def)
  ultimately show ?thesis by auto
qed

section \<open>Searches\<close>

text \<open>
  The contract of a search: a word that is skipped has no hit. Then the two loops find the
  first hit of the bitmap at or after the given position.
\<close>

definition bmhit :: "(u32 \<Rightarrow> nat \<Rightarrow> bool) \<Rightarrow> bitmap \<Rightarrow> nat \<Rightarrow> bool" where
  "bmhit hit bm k \<longleftrightarrow> hit (bm ! (k div 32)) (k mod 32)"

lemma scan_word_cases:
  "(case scan_word hit w j of
      Some k \<Rightarrow> j \<le> k \<and> k < 32 \<and> hit w k \<and> (\<forall>l. j \<le> l \<and> l < k \<longrightarrow> \<not> hit w l)
    | None \<Rightarrow> \<forall>l. j \<le> l \<and> l < 32 \<longrightarrow> \<not> hit w l)"
proof (induction hit w j rule: scan_word.induct)
  case (1 hit w j)
  show ?case
    using "1.IH" by (subst scan_word.simps) (auto split: option.splits simp: nat_less_le Suc_le_eq)
qed

locale word_scan =
  fixes hit :: "u32 \<Rightarrow> nat \<Rightarrow> bool" and skip :: "u32 \<Rightarrow> bool"
  assumes skip_no_hit: "skip w \<Longrightarrow> j < 32 \<Longrightarrow> \<not> hit w j"
begin

lemma no_hit_in_word:
  "\<forall>j < 32. a \<le> j \<longrightarrow> \<not> hit (bm ! i) j \<Longrightarrow> 32 * i + a \<le> k \<Longrightarrow> k < 32 * Suc i \<Longrightarrow> \<not> bmhit hit bm k"
proof -
  assume none: "\<forall>j < 32. a \<le> j \<longrightarrow> \<not> hit (bm ! i) j" and k: "32 * i + a \<le> k" "k < 32 * Suc i"
  then have "k div 32 = i" and "a \<le> k mod 32" using word_tail_iff [of k i a] by auto
  with none show ?thesis by (simp add: bmhit_def)
qed

lemma hit_in_word:
  assumes "scan_word hit (bm ! i) a = Some j" and "i < n" and "a < 32"
  shows "first_hit (bmhit hit bm) (32 * i + a) (32 * n) (int (i * 32 + j))"
proof (rule first_hit_found)
  have j: "a \<le> j" "j < 32" "hit (bm ! i) j" "\<forall>l. a \<le> l \<and> l < j \<longrightarrow> \<not> hit (bm ! i) l"
    using scan_word_cases [where hit = hit and w = "bm ! i" and j = a] assms(1) by auto
  then show "bmhit hit bm (i * 32 + j)" by (simp add: bmhit_def)
  show "32 * i + a \<le> i * 32 + j" and "i * 32 + j < 32 * n" using j assms(2) by auto
  show "\<forall>l. 32 * i + a \<le> l \<and> l < i * 32 + j \<longrightarrow> \<not> bmhit hit bm l"
  proof (intro allI impI)
    fix l assume l: "32 * i + a \<le> l \<and> l < i * 32 + j"
    then have "l div 32 = i" "a \<le> l mod 32" "l mod 32 < j"
      using word_pos_iff [of j l i a] j(2) by auto
    then show "\<not> bmhit hit bm l" using j(4) by (simp add: bmhit_def)
  qed
qed

lemma no_hit_word_None:
  "scan_word hit (bm ! i) a = None \<Longrightarrow> \<forall>k. 32 * i + a \<le> k \<and> k < 32 * Suc i \<longrightarrow> \<not> bmhit hit bm k"
proof -
  assume "scan_word hit (bm ! i) a = None"
  then have "\<forall>j < 32. a \<le> j \<longrightarrow> \<not> hit (bm ! i) j"
    using scan_word_cases [where hit = hit and w = "bm ! i" and j = a] by auto
  then show ?thesis using no_hit_in_word by blast
qed

lemma scan_words_first:
  "n \<le> length bm \<Longrightarrow>
     \<exists>r. scan_words hit skip bm i n = Some r \<and> first_hit (bmhit hit bm) (32 * i) (32 * n) r"
proof (induction "n - i" arbitrary: i)
  case 0
  then show ?case by (auto simp: scan_words.simps first_hit_def)
next
  case (Suc d)
  then have i: "i < n" "i < length bm" by auto
  obtain r where r: "scan_words hit skip bm (Suc i) n = Some r"
      "first_hit (bmhit hit bm) (32 * Suc i) (32 * n) r"
    using Suc.hyps(1) [of "Suc i"] Suc.hyps(2) Suc.prems by (metis Suc_diff_Suc i(1) old.nat.inject)
  have next_word: "first_hit (bmhit hit bm) (32 * i) (32 * n) r"
    if "\<forall>k. 32 * i + 0 \<le> k \<and> k < 32 * Suc i \<longrightarrow> \<not> bmhit hit bm k"
    by (rule first_hit_skip [OF r(2)]) (use that in auto)
  show ?case
  proof (cases "skip (bm ! i)")
    case True
    then show ?thesis
      using i r(1) next_word no_hit_in_word [of 0 bm i] skip_no_hit [OF True]
      by (subst scan_words.simps) (auto simp: arr_get_in)
  next
    case False
    show ?thesis
    proof (cases "scan_word hit (bm ! i) 0")
      case None
      then show ?thesis using False i r(1) next_word no_hit_word_None
        by (subst scan_words.simps) (auto simp: arr_get_in)
    next
      case (Some j)
      then show ?thesis using False i hit_in_word [OF Some]
        by (subst scan_words.simps) (auto simp: arr_get_in)
    qed
  qed
qed

lemma bitmap_scan2_first:
  assumes "32 * length bm < 2 ^ 32" and "sz = 4 * length bm" and "index \<le> 32 * length bm"
  shows "\<exists>r. bitmap_scan2 hit skip bm index sz = Some r \<and>
    first_hit (bmhit hit bm) index (32 * length bm) r"
proof -
  let ?i = "index div 32" and ?j = "index mod 32"
  have n: "size_to_bits sz div 32 = length bm"
    using assms(1,2) by (simp add: size_to_bits_def)
  show ?thesis
  proof (cases "?j = 0")
    case True
    then have "32 * ?i = index" by auto
    with True n show ?thesis using scan_words_first [of "length bm" bm ?i]
      by (simp add: bitmap_scan2_def)
  next
    case False
    with assms(3) have i: "?i < length bm"
      by (metis div_less_dividend le_neq_implies_less less_mult_imp_div_less mod_mult_self1_is_0 mult.commute)
    show ?thesis
    proof (cases "scan_word hit (bm ! ?i) ?j")
      case None
      obtain r where "scan_words hit skip bm (Suc ?i) (length bm) = Some r"
          "first_hit (bmhit hit bm) (32 * Suc ?i) (32 * length bm) r"
        using scan_words_first by blast
      moreover have "\<forall>k. index \<le> k \<and> k < 32 * Suc ?i \<longrightarrow> \<not> bmhit hit bm k"
        using no_hit_word_None [OF None] by (metis mult_div_mod_eq)
      ultimately show ?thesis
        using False None n i first_hit_skip [of "bmhit hit bm" "32 * Suc ?i" "32 * length bm" r index]
        by (auto simp: bitmap_scan2_def Let_def arr_get_in)
    next
      case (Some k)
      then show ?thesis
        using False n i hit_in_word [OF Some i] by (auto simp: bitmap_scan2_def Let_def arr_get_in)
    qed
  qed
qed

end

interpretation scan_set: word_scan hit_set "\<lambda>w. w = 0"
  by unfold_locales simp

interpretation scan_clear: word_scan hit_clear "\<lambda>w. w = - 1"
  by unfold_locales (simp add: and_exp_eq_0_iff_not_bit)

lemma bmhit_set: "bmhit hit_set bm = bmbit bm"
  by (simp add: fun_eq_iff bmhit_def bmbit_def and_exp_eq_0_iff_not_bit)

lemma bmhit_clear: "bmhit hit_clear bm = (\<lambda>k. \<not> bmbit bm k)"
  by (simp add: fun_eq_iff bmhit_def bmbit_def and_exp_eq_0_iff_not_bit)

lemma bitmap_ffs2_hit:
  assumes "32 * length bm < 2 ^ 32" and "sz = 4 * length bm" and "index \<le> 32 * length bm"
  shows "\<exists>r. bitmap_ffs2 bm index sz = Some r \<and> first_hit (bmbit bm) index (32 * length bm) r"
  using scan_set.bitmap_scan2_first [OF assms] unfolding bitmap_ffs2_def bmhit_set .

lemma bitmap_ffc2_hit:
  assumes "32 * length bm < 2 ^ 32" and "sz = 4 * length bm" and "index \<le> 32 * length bm"
  shows "\<exists>r. bitmap_ffc2 bm index sz = Some r \<and>
    first_hit (\<lambda>k. \<not> bmbit bm k) index (32 * length bm) r"
  using scan_clear.bitmap_scan2_first [OF assms] unfolding bitmap_ffc2_def bmhit_clear .

text \<open>For a bitmap given with its size in bytes, the searches stay inside the array:
  \<^verbatim>\<open>bitmap_ffs2\<close> returns the first set bit at or after the given position, \<^verbatim>\<open>bitmap_ffc2\<close> the first
  clear one, and each returns -1 when there is none.\<close>

theorem bitmap_search_first:
  assumes "32 * length bm < 2 ^ 32" and "sz = 4 * length bm" and "index \<le> 32 * length bm"
  shows "\<exists>r s. bitmap_ffs2 bm index sz = Some r \<and> first_hit (bmbit bm) index (32 * length bm) r
    \<and> bitmap_ffc2 bm index sz = Some s \<and> first_hit (\<lambda>k. \<not> bmbit bm k) index (32 * length bm) s"
  using bitmap_ffs2_hit [OF assms] bitmap_ffc2_hit [OF assms] by blast

theorem bitmap_search_first_witness:
  "\<exists>r. bitmap_ffs2 [0, 8, 1] 3 12 = Some r \<and> first_hit (bmbit [0, 8, 1]) 3 96 r"
  using bitmap_search_first [of "[0, 8, 1]" 12 3] by auto

lemma bitmap_ffs_eq_ffs2: "bitmap_ffs bm sz = bitmap_ffs2 bm 0 sz"
  by (simp add: bitmap_ffs_def bitmap_ffs2_def bitmap_scan2_def)

lemma bitmap_ffc_eq_ffc2: "bitmap_ffc bm sz = bitmap_ffc2 bm 0 sz"
  by (simp add: bitmap_ffc_def bitmap_ffc2_def bitmap_scan2_def)

section \<open>Rounding and logarithms\<close>

lemma bits_nr_bounds: "0 < n \<Longrightarrow> 2 ^ (bits_nr n - 1) \<le> n \<and> n < 2 ^ bits_nr n \<and> 0 < bits_nr n"
proof (induction n rule: bits_nr.induct)
  case (1 n)
  show ?case
  proof (cases "n div 2 = 0")
    case True
    with "1.prems" have "n = 1" by auto
    then show ?thesis by (simp add: bits_nr.simps)
  next
    case False
    let ?b = "bits_nr (n div 2)"
    from False "1" have IH: "2 ^ (?b - 1) \<le> n div 2" "n div 2 < 2 ^ ?b" "0 < ?b" by auto
    then have "(2 :: nat) ^ ?b = 2 * 2 ^ (?b - 1)" by (cases ?b) auto
    with IH "1.prems" show ?thesis by (subst (1 2 3) bits_nr.simps) (auto, linarith+)
  qed
qed

lemma bits_log2_power: "bits_log2 (2 ^ n) = n"
proof -
  have b: "2 ^ (bits_nr (2 ^ n) - 1) \<le> (2 :: nat) ^ n" "(2 :: nat) ^ n < 2 ^ bits_nr (2 ^ n)"
    using bits_nr_bounds [of "2 ^ n"] by auto
  then have "bits_nr (2 ^ n) - 1 \<le> n" "n < bits_nr (2 ^ n)" by (simp_all add: power_increasing_iff)
  then show ?thesis by (simp add: bits_log2_def)
qed

text \<open>Rounding to a power of two, where the sum does not leave the 32-bit range.\<close>

lemma ARROUND_DOWN_pow2:
  "unat (ARROUND_DOWN v (2 ^ k)) = unat v - unat v mod 2 ^ k"
  by (simp add: ARROUND_DOWN_def unat_and_not_mask flip: mask_eq_exp_minus_1)

lemma ARROUND_UP_pow2:
  assumes "k < 32" and "unat v + 2 ^ k \<le> 2 ^ 32"
  shows "2 ^ k dvd unat (ARROUND_UP v (2 ^ k)) \<and> unat v \<le> unat (ARROUND_UP v (2 ^ k)) \<and>
    unat (ARROUND_UP v (2 ^ k)) < unat v + 2 ^ k"
proof (cases "v AND mask k = 0")
  case True
  then have "unat v mod 2 ^ k = 0" using unat_and_mask [of v k] by simp
  with True show ?thesis
    by (auto simp: ARROUND_UP_def simp flip: mask_eq_exp_minus_1)
next
  case False
  then have m: "0 < unat v mod 2 ^ k"
    using unat_and_mask [of v k] by (metis gr_zeroI unat_eq_zero)
  have p: "unat ((2 :: u32) ^ k) = 2 ^ k" using assms(1) by (rule unat_exp_u32)
  have le: "unat v mod 2 ^ k \<le> unat v" by simp
  have e: "unat (ARROUND_UP v (2 ^ k)) = unat v - unat v mod 2 ^ k + 2 ^ k"
    using False m le assms(2)
    by (simp add: ARROUND_UP_def unat_word_ariths p unat_and_not_mask flip: mask_eq_exp_minus_1)
  have d: "2 ^ k dvd unat v - unat v mod 2 ^ k + 2 ^ k" by (simp add: minus_mod_eq_mult_div)
  have "unat v mod 2 ^ k < 2 ^ k" by simp
  with m le show ?thesis unfolding e by (intro conjI d) linarith+
qed

end
