(* ===== verification/Libk_List.thy ===== *)
theory Libk_List
  imports Kernel_Prelude
begin

text \<open>
  The intrusive circular lists of \<^verbatim>\<open>src/kernel/libk/list.h\<close>, on a heap of list entries. The
  doubly linked list refines a HOL list: \<open>dlist h r xs\<close> says that the entries linked from the
  root \<open>r\<close> are exactly \<open>xs\<close>, in order and in both directions. The other components keep their
  kernel queues as HOL lists; the lemmas here are the justification.
\<close>

section \<open>Model\<close>

type_synonym addr = nat

text \<open>The two fields of \<^verbatim>\<open>struct list_entry\<close>, for every entry address.\<close>

record list_heap =
  nxt :: "addr \<Rightarrow> addr"
  prd :: "addr \<Rightarrow> addr"

definition NULL :: addr where "NULL = 0"
definition LIST_NEXT_DEAD :: addr where "LIST_NEXT_DEAD = 0xb0C1"
definition LIST_SNEXT_DEAD :: addr where "LIST_SNEXT_DEAD = 0xA0A1"
definition LIST_PRED_DEAD :: addr where "LIST_PRED_DEAD = 0xc0b1"

abbreviation set_nxt :: "addr \<Rightarrow> addr \<Rightarrow> list_heap \<Rightarrow> list_heap" where
  "set_nxt a v h \<equiv> h\<lparr>nxt := (nxt h)(a := v)\<rparr>"

abbreviation set_prd :: "addr \<Rightarrow> addr \<Rightarrow> list_heap \<Rightarrow> list_heap" where
  "set_prd a v h \<equiv> h\<lparr>prd := (prd h)(a := v)\<rparr>"

definition list_root_init :: "list_heap \<Rightarrow> addr \<Rightarrow> list_heap" where
  "list_root_init h root = set_prd root root (set_nxt root root h)"

definition list_entry_init :: "list_heap \<Rightarrow> addr \<Rightarrow> list_heap" where
  "list_entry_init h entry = set_prd entry NULL (set_nxt entry NULL h)"

definition list_add :: "list_heap \<Rightarrow> addr \<Rightarrow> addr \<Rightarrow> list_heap" where
  "list_add h root entry =
     (let pred_entry = root; next_entry = nxt h root;
          h1 = set_nxt entry next_entry h;
          h2 = set_prd entry pred_entry h1;
          h3 = set_nxt pred_entry entry h2
      in set_prd next_entry entry h3)"

definition list_add_first :: "list_heap \<Rightarrow> addr \<Rightarrow> addr \<Rightarrow> list_heap" where
  "list_add_first h root entry = list_add h root entry"

definition list_add_last :: "list_heap \<Rightarrow> addr \<Rightarrow> addr \<Rightarrow> list_heap" where
  "list_add_last h root entry = list_add h (prd h root) entry"

definition list_empty :: "list_heap \<Rightarrow> addr \<Rightarrow> bool" where
  "list_empty h root \<longleftrightarrow> root = nxt h root"

definition list_first :: "list_heap \<Rightarrow> addr \<Rightarrow> addr" where
  "list_first h root = nxt h root"

definition list_last :: "list_heap \<Rightarrow> addr \<Rightarrow> addr" where
  "list_last h root = prd h root"

definition list_next :: "list_heap \<Rightarrow> addr \<Rightarrow> addr \<Rightarrow> addr" where
  "list_next h root current =
     (if root = nxt h root \<or> nxt h current = root then NULL else nxt h current)"

definition list_pred :: "list_heap \<Rightarrow> addr \<Rightarrow> addr \<Rightarrow> addr" where
  "list_pred h root current =
     (if root = nxt h root \<or> prd h current = root then NULL else prd h current)"

definition list_unlink :: "list_heap \<Rightarrow> addr \<Rightarrow> list_heap" where
  "list_unlink h entry =
     (let pred_entry = prd h entry; next_entry = nxt h entry;
          h1 = set_nxt pred_entry (nxt h entry) h;
          h2 = set_prd next_entry (prd h1 entry) h1;
          h3 = set_nxt entry LIST_NEXT_DEAD h2
      in set_prd entry LIST_PRED_DEAD h3)"

definition list_replace :: "list_heap \<Rightarrow> addr \<Rightarrow> addr \<Rightarrow> list_heap" where
  "list_replace h current new =
     (let pred_entry = prd h current; next_entry = nxt h current;
          h1 = set_nxt new next_entry h;
          h2 = set_prd new pred_entry h1;
          h3 = set_nxt pred_entry new h2
      in set_prd next_entry new h3)"

text \<open>
  \<^verbatim>\<open>list_foreach_forward\<close> reads the successor of the current entry before the body runs, so
  that the body may unlink the entry. The model returns the entries the loop visits while
  the body keeps the links of the entries still to come; \<open>fuel\<close> bounds the iterations.
\<close>

fun list_foreach :: "nat \<Rightarrow> list_heap \<Rightarrow> addr \<Rightarrow> (list_heap \<Rightarrow> addr \<Rightarrow> list_heap) \<Rightarrow> addr \<Rightarrow> addr \<Rightarrow>
    (addr list \<times> list_heap) option" where
  "list_foreach 0 h root body iter ptr = None"
| "list_foreach (Suc fuel) h root body iter ptr =
     (if iter = root then Some ([], h)
      else (let h' = body h iter in
            map_option (\<lambda>(visited, hf). (iter # visited, hf))
              (list_foreach fuel h' root body ptr (nxt h' ptr))))"

definition list_foreach_forward ::
  "nat \<Rightarrow> list_heap \<Rightarrow> addr \<Rightarrow> (list_heap \<Rightarrow> addr \<Rightarrow> list_heap) \<Rightarrow> (addr list \<times> list_heap) option" where
  "list_foreach_forward fuel h root body =
     (let iter = nxt h root in list_foreach fuel h root body iter (nxt h iter))"

text \<open>The singly linked circular list, used as a stack.\<close>

definition slist_root_init :: "(addr \<Rightarrow> addr) \<Rightarrow> addr \<Rightarrow> (addr \<Rightarrow> addr)" where
  "slist_root_init snxt root = snxt(root := root)"

definition list_push :: "(addr \<Rightarrow> addr) \<Rightarrow> addr \<Rightarrow> addr \<Rightarrow> (addr \<Rightarrow> addr)" where
  "list_push snxt root entry = (let s1 = snxt(entry := snxt root) in s1(root := entry))"

definition list_pop :: "(addr \<Rightarrow> addr) \<Rightarrow> addr \<Rightarrow> addr \<times> (addr \<Rightarrow> addr)" where
  "list_pop snxt root =
     (let entry = snxt root; s1 = snxt(root := snxt entry)
      in (entry, s1(entry := LIST_NEXT_DEAD)))"

section \<open>Abstraction\<close>

fun links :: "list_heap \<Rightarrow> addr \<Rightarrow> addr list \<Rightarrow> addr \<Rightarrow> bool" where
  "links h a [] b \<longleftrightarrow> nxt h a = b \<and> prd h b = a"
| "links h a (x # xs) b \<longleftrightarrow> nxt h a = x \<and> prd h x = a \<and> links h x xs b"

definition dlist :: "list_heap \<Rightarrow> addr \<Rightarrow> addr list \<Rightarrow> bool" where
  "dlist h r xs \<longleftrightarrow> distinct (r # xs) \<and> links h r xs r"

fun slinks :: "(addr \<Rightarrow> addr) \<Rightarrow> addr \<Rightarrow> addr list \<Rightarrow> addr \<Rightarrow> bool" where
  "slinks s a [] b \<longleftrightarrow> s a = b"
| "slinks s a (x # xs) b \<longleftrightarrow> s a = x \<and> slinks s x xs b"

definition slist :: "(addr \<Rightarrow> addr) \<Rightarrow> addr \<Rightarrow> addr list \<Rightarrow> bool" where
  "slist s r xs \<longleftrightarrow> distinct (r # xs) \<and> slinks s r xs r"

section \<open>Links\<close>

lemma links_append:
  "links h a (xs @ y # ys) b \<longleftrightarrow> links h a xs y \<and> links h y ys b"
  by (induction xs arbitrary: a) auto

lemma links_cong:
  assumes "\<forall>c \<in> insert a (set xs). nxt h' c = nxt h c" and "\<forall>c \<in> insert b (set xs). prd h' c = prd h c"
  shows "links h' a xs b = links h a xs b"
  using assms by (induction xs arbitrary: a) auto

lemma links_nxt_last: "links h a xs b \<Longrightarrow> nxt h (last (a # xs)) = b"
  by (induction xs arbitrary: a) auto

lemma links_prd_last: "links h a xs b \<Longrightarrow> prd h b = last (a # xs)"
  by (induction xs arbitrary: a) auto

lemma list_add_nxt: "nxt (list_add h p e) = (nxt h)(e := nxt h p, p := e)"
  by (simp add: list_add_def Let_def)

lemma list_add_prd: "prd (list_add h p e) = (prd h)(e := p, nxt h p := e)"
  by (simp add: list_add_def Let_def)

lemma links_insert:
  assumes l: "links h a xs b" and e: "e \<notin> insert a (insert b (set xs))"
    and d: "distinct xs" "b \<notin> set xs" "a \<notin> set xs"
  shows "links (list_add h a e) a (e # xs) b"
proof (cases xs)
  case Nil
  with l e show ?thesis by (simp add: list_add_nxt list_add_prd)
next
  case (Cons x ys)
  with l have x: "nxt h a = x" "prd h x = a" "links h x ys b" by auto
  have "links (list_add h a e) x ys b = links h x ys b"
    by (rule links_cong) (use Cons x e d in \<open>auto simp: list_add_nxt list_add_prd\<close>)
  with Cons x e d show ?thesis by (auto simp: list_add_nxt list_add_prd)
qed

text \<open>Insertion after any position of a list: after the root, or after an entry.\<close>

lemma dlist_add_root:
  assumes "dlist h r xs" and "e \<notin> set (r # xs)"
  shows "dlist (list_add h r e) r (e # xs)"
  using assms links_insert [of h r xs r e] by (auto simp: dlist_def)

lemma dlist_add_after:
  assumes d: "dlist h r (xs @ y # ys)" and e: "e \<notin> set (r # xs @ y # ys)"
  shows "dlist (list_add h y e) r (xs @ y # e # ys)"
proof -
  from d have l: "links h r xs y" "links h y ys r" and ds: "distinct (r # xs @ y # ys)"
    by (auto simp: dlist_def links_append)
  have n: "nxt h y = hd (ys @ [r])" using l(2) by (cases ys) auto
  have "links (list_add h y e) y (e # ys) r"
    by (rule links_insert [OF l(2)]) (use e ds in auto)
  moreover have "links (list_add h y e) r xs y = links h r xs y"
    by (rule links_cong) (use n e ds in \<open>cases ys; auto simp: list_add_nxt list_add_prd\<close>)+
  ultimately show ?thesis using l(1) e ds by (simp add: dlist_def links_append)
qed

lemma dlist_add_last:
  assumes d: "dlist h r xs" and e: "e \<notin> set (r # xs)"
  shows "dlist (list_add_last h r e) r (xs @ [e])"
proof (cases xs rule: rev_cases)
  case Nil
  then show ?thesis using assms dlist_add_root [of h r "[]" e]
    by (simp add: list_add_last_def dlist_def)
next
  case (snoc ys y)
  have "prd h r = y" using d snoc by (auto simp: dlist_def links_append)
  then show ?thesis using d e snoc dlist_add_after [of h r ys y "[]" e]
    by (simp add: list_add_last_def)
qed

section \<open>Unlinking\<close>

lemma links_relink:
  assumes "links h a xs e" and "distinct (a # xs)" and "prd h' b = last (a # xs)"
    and "\<forall>c \<in> set xs. prd h' c = prd h c"
    and "\<forall>c \<in> set (a # xs). nxt h' c = (if c = last (a # xs) then b else nxt h c)"
  shows "links h' a xs b"
  using assms
proof (induction xs arbitrary: a)
  case Nil
  then show ?case by simp
next
  case (Cons x xs)
  then have "a \<noteq> last (x # xs)" by (metis distinct.simps(2) last_in_set list.distinct(1))
  with Cons show ?case by auto
qed

lemma list_unlink_nxt:
  "nxt (list_unlink h e) = (nxt h)(prd h e := nxt h e, e := LIST_NEXT_DEAD)"
  by (simp add: list_unlink_def Let_def)

lemma list_unlink_prd:
  "prd (list_unlink h e) = (prd h)(nxt h e := prd h e, e := LIST_PRED_DEAD)"
  by (simp add: list_unlink_def Let_def)

lemma dlist_unlink:
  assumes d: "dlist h r (xs @ e # ys)"
  shows "dlist (list_unlink h e) r (xs @ ys)"
proof -
  let ?p = "last (r # xs)" and ?n = "hd (ys @ [r])"
  from d have l: "links h r xs e" "links h e ys r" and ds: "distinct (r # xs @ e # ys)"
    by (auto simp: dlist_def links_append)
  have p: "prd h e = ?p" using links_prd_last [OF l(1)] .
  have n: "nxt h e = ?n" using l(2) by (cases ys) auto
  have pin: "?p \<in> set (r # xs)" by (rule last_in_set) simp
  have nin: "?n \<in> set (ys @ [r])" by (rule hd_in_set) simp
  have pn: "?p \<notin> set ys" using pin ds by auto
  have r: "links (list_unlink h e) r xs ?n"
    by (rule links_relink [OF l(1)])
       (use ds pin nin p n in \<open>auto simp: list_unlink_nxt list_unlink_prd\<close>)
  show ?thesis
  proof (cases ys)
    case Nil
    with r ds show ?thesis by (simp add: dlist_def)
  next
    case (Cons y zs)
    have "links (list_unlink h e) y zs r = links h y zs r"
      by (rule links_cong)
         (use ds Cons p n pn in \<open>auto simp: list_unlink_nxt list_unlink_prd\<close>)
    with r l(2) ds Cons show ?thesis by (auto simp: dlist_def links_append)
  qed
qed

lemma list_unlink_dead:
  "e \<noteq> nxt h e \<Longrightarrow> e \<noteq> prd h e \<Longrightarrow>
     nxt (list_unlink h e) e = LIST_NEXT_DEAD \<and> prd (list_unlink h e) e = LIST_PRED_DEAD"
  by (simp add: list_unlink_nxt list_unlink_prd)

section \<open>Observers and the frame\<close>

lemma dlist_empty: "dlist h r xs \<Longrightarrow> list_empty h r \<longleftrightarrow> xs = []"
  by (cases xs) (auto simp: dlist_def list_empty_def)

lemma dlist_first: "dlist h r (x # xs) \<Longrightarrow> list_first h r = x"
  by (simp add: dlist_def list_first_def)

lemma dlist_last: "dlist h r (xs @ [x]) \<Longrightarrow> list_last h r = x"
  by (auto simp: dlist_def list_last_def links_append)

lemma dlist_root_init: "dlist (list_root_init h r) r []"
  by (simp add: dlist_def list_root_init_def)

lemma dlist_next:
  assumes "dlist h r (xs @ x # ys)"
  shows "list_next h r x = (case ys of [] \<Rightarrow> NULL | y # _ \<Rightarrow> y)"
  using assms by (cases xs; cases ys) (auto simp: dlist_def list_next_def links_append)

lemma dlist_pred:
  assumes "dlist h r (xs @ x # ys)"
  shows "list_pred h r x = (if xs = [] then NULL else last xs)"
  using assms links_prd_last [of h r xs x]
  by (cases xs) (auto simp: dlist_def list_pred_def links_append split: if_splits)

text \<open>Two lists with no entry in common do not disturb each other.\<close>

lemma dlist_frame:
  assumes "dlist h r xs" and "\<forall>c \<in> set (r # xs). nxt h' c = nxt h c \<and> prd h' c = prd h c"
  shows "dlist h' r xs"
  using assms links_cong [of r xs h' h r] by (auto simp: dlist_def)

lemma slinks_cong: "\<forall>c \<in> set (a # xs). s' c = s c \<Longrightarrow> slinks s' a xs b = slinks s a xs b"
  by (induction xs arbitrary: a) auto

lemma slist_push: "slist s r xs \<Longrightarrow> e \<notin> set (r # xs) \<Longrightarrow> slist (list_push s r e) r (e # xs)"
proof (cases xs)
  case (Cons x ys)
  assume "slist s r xs" and "e \<notin> set (r # xs)"
  moreover from this Cons have "slinks (list_push s r e) x ys r = slinks s x ys r"
    by (intro slinks_cong) (auto simp: slist_def list_push_def)
  ultimately show ?thesis using Cons by (auto simp: slist_def list_push_def)
qed (auto simp: slist_def list_push_def)

lemma slist_pop:
  assumes "slist s r (x # xs)"
  shows "fst (list_pop s r) = x \<and> slist (snd (list_pop s r)) r xs"
proof (cases xs)
  case (Cons y ys)
  with assms have "slinks (snd (list_pop s r)) y ys r = slinks s y ys r"
    by (intro slinks_cong) (auto simp: slist_def list_pop_def)
  with assms Cons show ?thesis by (auto simp: slist_def list_pop_def Let_def)
qed (use assms in \<open>auto simp: slist_def list_pop_def Let_def\<close>)

section \<open>The queue contract\<close>

text \<open>
  What the kernel queues rely on: appending, looking at the first entry and unlinking act on
  the list of entries. \<open>fresh e\<close> is the condition under which an entry may be linked.
\<close>

locale kernel_queue =
  fixes lst :: "'h \<Rightarrow> 'e list \<Rightarrow> bool"
    and put :: "'h \<Rightarrow> 'e \<Rightarrow> 'h"
    and first :: "'h \<Rightarrow> 'e"
    and remove :: "'h \<Rightarrow> 'e \<Rightarrow> 'h"
    and isempty :: "'h \<Rightarrow> bool"
    and fresh :: "'e \<Rightarrow> bool"
  assumes put: "lst h xs \<Longrightarrow> fresh e \<Longrightarrow> e \<notin> set xs \<Longrightarrow> lst (put h e) (xs @ [e])"
    and first: "lst h (x # xs) \<Longrightarrow> first h = x"
    and remove: "lst h (xs @ e # ys) \<Longrightarrow> lst (remove h e) (xs @ ys)"
    and isempty: "lst h xs \<Longrightarrow> isempty h \<longleftrightarrow> xs = []"

primrec drain :: "('h \<Rightarrow> 'e) \<Rightarrow> ('h \<Rightarrow> 'e \<Rightarrow> 'h) \<Rightarrow> nat \<Rightarrow> 'h \<Rightarrow> 'e list \<times> 'h" where
  "drain first remove 0 h = ([], h)"
| "drain first remove (Suc n) h =
     (let x = first h; (xs, h') = drain first remove n (remove h x) in (x # xs, h'))"

context kernel_queue
begin

lemma put_all:
  "lst h xs \<Longrightarrow> distinct (xs @ es) \<Longrightarrow> \<forall>e \<in> set es. fresh e \<Longrightarrow> lst (foldl put h es) (xs @ es)"
proof (induction es arbitrary: h xs)
  case Nil
  then show ?case by simp
next
  case (Cons e es)
  then have "lst (put h e) (xs @ [e])" by (intro put) auto
  then show ?case using Cons.IH [of "put h e" "xs @ [e]"] Cons.prems by auto
qed

lemma drain_all:
  "lst h xs \<Longrightarrow> n \<le> length xs \<Longrightarrow>
     fst (drain first remove n h) = take n xs \<and> lst (snd (drain first remove n h)) (drop n xs)"
proof (induction n arbitrary: h xs)
  case 0
  then show ?case by simp
next
  case (Suc n)
  then obtain x ys where xs: "xs = x # ys" by (cases xs) auto
  with Suc.prems have "first h = x" "lst (remove h x) ys"
    using first remove [of h "[]" x ys] by auto
  with Suc.IH [of "remove h x" ys] Suc.prems xs show ?case by (auto split: prod.splits)
qed

lemma fifo_order:
  assumes "lst h []" and "distinct es" and "\<forall>e \<in> set es. fresh e"
  shows "fst (drain first remove (length es) (foldl put h es)) = es \<and>
    isempty (snd (drain first remove (length es) (foldl put h es)))"
  using drain_all [OF put_all [of h "[]" es], of "length es"] assms isempty by auto

end

interpretation dl: kernel_queue "\<lambda>h. dlist h r" "\<lambda>h. list_add_last h r" "\<lambda>h. list_first h r" list_unlink
  "\<lambda>h. list_empty h r" "\<lambda>e. e \<noteq> r" for r
  by unfold_locales (auto intro: dlist_add_last dlist_first dlist_unlink simp: dlist_empty)

text \<open>Entries appended with \<^verbatim>\<open>list_add_last\<close> to an initialised root and then taken one by
  one with \<^verbatim>\<open>list_first\<close> and \<^verbatim>\<open>list_unlink\<close> come out in the order in which they went in, and the
  list is empty again.\<close>

theorem list_fifo_order:
  assumes "distinct es" and "r \<notin> set es"
  shows "fst (drain (\<lambda>h. list_first h r) list_unlink (length es)
      (foldl (\<lambda>h. list_add_last h r) (list_root_init h r) es)) = es \<and>
    list_empty (snd (drain (\<lambda>h. list_first h r) list_unlink (length es)
      (foldl (\<lambda>h. list_add_last h r) (list_root_init h r) es))) r"
  using dl.fifo_order [OF dlist_root_init] assms by blast

theorem list_fifo_order_witness:
  "fst (drain (\<lambda>h. list_first h 100) list_unlink (length [7, 3, 5])
      (foldl (\<lambda>h. list_add_last h 100)
        (list_root_init \<lparr>nxt = (\<lambda>_. 0), prd = (\<lambda>_. 0)\<rparr> 100) [7, 3, 5])) = [7, 3, 5]"
  using list_fifo_order [of "[7, 3, 5]" 100] by simp

section \<open>Traversal with deletion\<close>

lemma list_foreach_consume:
  assumes body: "\<And>h x xs. dlist h r (x # xs) \<Longrightarrow> dlist (body h x) r xs"
  shows "dlist h r xs \<Longrightarrow> iter = hd (xs @ [r]) \<Longrightarrow> ptr = nxt h iter \<Longrightarrow> length xs < fuel \<Longrightarrow>
    \<exists>h'. list_foreach fuel h r body iter ptr = Some (xs, h') \<and> dlist h' r []"
proof (induction xs arbitrary: h iter ptr fuel)
  case Nil
  then show ?case by (cases fuel) auto
next
  case (Cons x xs)
  then obtain f where f: "fuel = Suc f" "length xs < f" by (cases fuel) auto
  have x: "iter = x" "x \<noteq> r" "ptr = hd (xs @ [r])"
    using Cons.prems by (auto simp: dlist_def) (cases xs; auto)
  have "dlist (body h x) r xs" using body Cons.prems(1) by blast
  from Cons.IH [OF this _ refl f(2)] x(3) obtain h' where
    "list_foreach f (body h x) r body ptr (nxt (body h x) ptr) = Some (xs, h')" "dlist h' r []"
    by auto
  with f(1) x show ?case by (simp add: Let_def)
qed

text \<open>A traversal with \<^verbatim>\<open>list_foreach_forward\<close> whose body unlinks the current entry visits
  every entry once, in order, ends, and leaves the list empty.\<close>

theorem list_foreach_unlink_all:
  assumes "dlist h r xs" and "length xs < fuel"
  shows "\<exists>h'. list_foreach_forward fuel h r list_unlink = Some (xs, h') \<and> dlist h' r []"
proof -
  have "nxt h r = hd (xs @ [r])" using assms(1) by (cases xs) (auto simp: dlist_def)
  then show ?thesis
    using list_foreach_consume [OF _ assms(1) _ refl assms(2), of list_unlink] dlist_unlink [of _ r "[]"]
    by (simp add: list_foreach_forward_def Let_def)
qed

theorem list_foreach_unlink_all_witness:
  "\<exists>h. dlist h 100 [7, 3] \<and> (\<exists>h'. list_foreach_forward 3 h 100 list_unlink = Some ([7, 3], h'))"
proof -
  let ?h = "list_add_last (list_add_last (list_root_init \<lparr>nxt = (\<lambda>_. 0), prd = (\<lambda>_. 0)\<rparr> 100) 100 7) 100 3"
  have "dlist ?h 100 [7, 3]"
    by (simp add: dlist_def list_add_last_def list_add_def list_root_init_def Let_def)
  with list_foreach_unlink_all [of ?h 100 "[7, 3]" 3] show ?thesis by auto
qed

end
