(* ===== verification/Libk_Memory.thy ===== *)
theory Libk_Memory
  imports Kernel_Prelude "HOL-Library.Monad_Syntax"
begin

text \<open>
  Block copy and block fill: \<^verbatim>\<open>src/kernel/libk/memcpy.c\<close> and \<^verbatim>\<open>memset.c\<close>. Memory is a byte store over 32-bit
  addresses. A word access is little-endian and must be aligned, \<open>None\<close> is the address error of an unaligned one.
  The cache-line invalidations of the copy do not change what memory holds and are left out.
\<close>

section \<open>Memory\<close>

type_synonym mem = "u32 \<Rightarrow> u8"

definition word_at :: "mem \<Rightarrow> u32 \<Rightarrow> u32" where
  "word_at m a = ucast (m a) OR push_bit 8 (ucast (m (a + 1))) OR push_bit 16 (ucast (m (a + 2))) OR push_bit 24 (ucast (m (a + 3)))"

definition put_word :: "u32 \<Rightarrow> u32 \<Rightarrow> mem \<Rightarrow> mem" where
  "put_word a w m = m(a := ucast w, a + 1 := ucast (drop_bit 8 w), a + 2 := ucast (drop_bit 16 w), a + 3 := ucast (drop_bit 24 w))"

definition load32 :: "mem \<Rightarrow> u32 \<Rightarrow> u32 option" where
  "load32 m a = (if a AND 3 = 0 then Some (word_at m a) else None)"

definition store32 :: "u32 \<Rightarrow> u32 \<Rightarrow> mem \<Rightarrow> mem option" where
  "store32 a w m = (if a AND 3 = 0 then Some (put_word a w m) else None)"

primrec read_words :: "nat \<Rightarrow> u32 \<Rightarrow> mem \<Rightarrow> u32 list option" where
  "read_words 0 a m = Some []"
| "read_words (Suc n) a m = do { w \<leftarrow> load32 m a; ws \<leftarrow> read_words n (a + 4) m; Some (w # ws) }"

primrec write_words :: "u32 list \<Rightarrow> u32 \<Rightarrow> mem \<Rightarrow> mem option" where
  "write_words [] a m = Some m"
| "write_words (w # ws) a m = do { m \<leftarrow> store32 a w m; write_words ws (a + 4) m }"

section \<open>The copy\<close>

lemma unat_inc: "i < n \<Longrightarrow> unat (i + 1) = Suc (unat i)" for i n :: u32
proof -
  assume "i < n"
  then show ?thesis using unat_bound [of n] by (simp add: unat_word_ariths(1) word_less_nat_alt)
qed

lemma loop_measure: "i < n \<Longrightarrow> unat (n - (i + 1)) < unat (n - i)" for i n :: u32
  using unat_inc [of i n] by (simp add: unat_sub_if_size word_less_nat_alt word_le_nat_alt)

function byte_copy :: "u32 \<Rightarrow> u32 \<Rightarrow> u32 \<Rightarrow> u32 \<Rightarrow> mem \<Rightarrow> mem" where
  "byte_copy i sz dest src m =
     (if i < sz then byte_copy (i + 1) sz dest src (m(dest + i := m (src + i))) else m)"
  by pat_completeness auto
termination by (relation "measure (\<lambda>(i, n, _). unat (n - i))") (auto simp: loop_measure)

function word_copy :: "u32 \<Rightarrow> u32 \<Rightarrow> u32 \<Rightarrow> u32 \<Rightarrow> mem \<Rightarrow> mem option" where
  "word_copy i isize dest src m =
     (if i < isize
      then do {
        w \<leftarrow> load32 m (src + 4 * i);
        m \<leftarrow> store32 (dest + 4 * i) w m;
        word_copy (i + 1) isize dest src m }
      else Some m)"
  by pat_completeness auto
termination by (relation "measure (\<lambda>(i, n, _). unat (n - i))") (auto simp: loop_measure)

text \<open>\<^verbatim>\<open>do_memcpy_8\<close> from iteration \<open>i\<close> on: eight loads, eight stores.\<close>

function memcpy_8_loop :: "u32 \<Rightarrow> u32 \<Rightarrow> u32 \<Rightarrow> u32 \<Rightarrow> mem \<Rightarrow> mem option" where
  "memcpy_8_loop i count dst_ptr src_ptr m =
     (if i < count
      then do {
        bs \<leftarrow> read_words 8 src_ptr m;
        m \<leftarrow> write_words bs dst_ptr m;
        memcpy_8_loop (i + 1) count (dst_ptr + 32) (src_ptr + 32) m }
      else Some m)"
  by pat_completeness auto
termination by (relation "measure (\<lambda>(i, n, _). unat (n - i))") (auto simp: loop_measure)

declare byte_copy.simps [simp del] word_copy.simps [simp del] memcpy_8_loop.simps [simp del]

definition do_memcpy_8 :: "u32 \<Rightarrow> u32 \<Rightarrow> u32 \<Rightarrow> mem \<Rightarrow> mem option" where
  "do_memcpy_8 dst src sz m = memcpy_8_loop 0 sz dst src m"

definition memcpy :: "u32 \<Rightarrow> u32 \<Rightarrow> u32 \<Rightarrow> mem \<Rightarrow> (u32 \<times> mem) option" where
  "memcpy dest src sz m =
     (if dest AND 3 \<noteq> 0 \<or> src AND 3 \<noteq> 0 then Some (dest, byte_copy 0 sz dest src m)
      else do {
        let isize = drop_bit 5 sz;
        m \<leftarrow> (if isize \<noteq> 0 then do_memcpy_8 dest src isize m else Some m);
        let count = push_bit 5 isize;
        let sz = sz - count;
        if sz = 0 then Some (dest, m)
        else do {
          let dest = dest + count;
          let src = src + count;
          let isize = drop_bit 2 sz;
          m \<leftarrow> word_copy 0 isize dest src m;
          Some (dest, byte_copy (push_bit 2 isize) sz dest src m) } })"

section \<open>The fill\<close>

text \<open>\<^verbatim>\<open>do_memset_8\<close> stops only when the pointer meets the limit.\<close>

partial_function (option) memset_8_loop :: "u32 \<Rightarrow> u32 \<Rightarrow> u32 \<Rightarrow> mem \<Rightarrow> mem option" where
  "memset_8_loop dst_ptr limit_ptr val m =
     (if dst_ptr \<noteq> limit_ptr
      then do {
        m \<leftarrow> write_words (replicate 8 val) dst_ptr m;
        memset_8_loop (dst_ptr + 32) limit_ptr val m }
      else Some m)"

definition do_memset_8 :: "u32 \<Rightarrow> u32 \<Rightarrow> u32 \<Rightarrow> mem \<Rightarrow> mem option" where
  "do_memset_8 dst val sz m = memset_8_loop dst (dst + push_bit 5 sz) val m"

text \<open>The first loop, to an aligned address or to the end; it leaves the pointer and the size.\<close>

function memset_head :: "u32 \<Rightarrow> u32 \<Rightarrow> u8 \<Rightarrow> mem \<Rightarrow> u32 \<times> u32 \<times> mem" where
  "memset_head ptr sz c m =
     (if ptr AND 3 \<noteq> 0 \<and> sz \<noteq> 0 then memset_head (ptr + 1) (sz - 1) c (m(ptr := c)) else (ptr, sz, m))"
  by pat_completeness auto
termination by (relation "measure (\<lambda>(_, n, _). unat n)") (auto simp: unat_minus_one unat_gt_0)

function memset_words :: "u32 \<Rightarrow> u32 \<Rightarrow> u32 \<Rightarrow> mem \<Rightarrow> (u32 \<times> mem) option" where
  "memset_words isize wptr val m =
     (if isize \<noteq> 0 then do { m \<leftarrow> store32 wptr val m; memset_words (isize - 1) (wptr + 4) val m } else Some (wptr, m))"
  by pat_completeness auto
termination by (relation "measure (\<lambda>(n, _). unat n)") (auto simp: unat_minus_one unat_gt_0)

function memset_tail :: "u32 \<Rightarrow> u32 \<Rightarrow> u8 \<Rightarrow> mem \<Rightarrow> mem" where
  "memset_tail ptr sz c m = (if sz \<noteq> 0 then memset_tail (ptr + 1) (sz - 1) c (m(ptr := c)) else m)"
  by pat_completeness auto
termination by (relation "measure (\<lambda>(_, n, _). unat n)") (auto simp: unat_minus_one unat_gt_0)

declare memset_head.simps [simp del] memset_words.simps [simp del] memset_tail.simps [simp del]

declare memset_8_loop.simps [code]

definition memset :: "u32 \<Rightarrow> u32 \<Rightarrow> u32 \<Rightarrow> mem \<Rightarrow> (u32 \<times> mem) option" where
  "memset s c sz m =
     (let c = c AND 0xFF;
          (ptr, sz, m) = memset_head s sz (ucast c) m
      in if sz = 0 then Some (s, m)
      else do {
        let val = push_bit 24 c OR push_bit 16 c OR push_bit 8 c OR (c AND 0xFF);
        let isize = drop_bit 5 sz;
        m \<leftarrow> (if isize \<noteq> 0 then do_memset_8 ptr val isize m else Some m);
        let count = push_bit 5 isize;
        let sz = sz - count;
        if sz = 0 then Some (s, m)
        else do {
          let isize = drop_bit 2 sz;
          (wptr, m) \<leftarrow> memset_words isize (ptr + count) val m;
          Some (s, memset_tail wptr (sz - push_bit 2 isize) (ucast c) m) } })"

section \<open>Bytes of words\<close>

lemma byte_bits [simp]: "n < 8 \<Longrightarrow> \<not> bit (b :: u8) (8 + n)" "\<not> bit (b :: u8) (16 + n)" "\<not> bit (b :: u8) (24 + n)"
  by (auto dest: bit_imp_le_length)

lemma word_at_bytes:
  "ucast (word_at m a) = m a" "ucast (drop_bit 8 (word_at m a)) = m (a + 1)"
  "ucast (drop_bit 16 (word_at m a)) = m (a + 2)" "ucast (drop_bit 24 (word_at m a)) = m (a + 3)"
  by (rule bit_word_eqI; auto simp: word_at_def bit_simps)+

lemma put_word_at:
  "put_word b (word_at m a) m' = m'(b := m a, b + 1 := m (a + 1), b + 2 := m (a + 2), b + 3 := m (a + 3))"
  by (simp add: put_word_def word_at_bytes)

lemma word_at_cong:
  "m a = m' a \<Longrightarrow> m (a + 1) = m' (a + 1) \<Longrightarrow> m (a + 2) = m' (a + 2) \<Longrightarrow> m (a + 3) = m' (a + 3) \<Longrightarrow> word_at m a = word_at m' a"
  by (simp add: word_at_def)

lemma aligned_iff: "a AND 3 = 0 \<longleftrightarrow> 4 dvd unat a" for a :: u32
proof -
  have "unat (a AND 3) = unat a mod 4" using unat_and_mask [of a 2] by (simp add: mask_eq_exp_minus_1)
  then show ?thesis by (metis dvd_eq_mod_eq_0 unat_0 unat_eq_0)
qed

lemma aligned_add: "a AND 3 = 0 \<Longrightarrow> 4 dvd k \<Longrightarrow> (a + of_nat k) AND 3 = 0" for a :: u32
  unfolding aligned_iff by (simp add: unat_word_ariths unat_of_nat dvd_mod)

section \<open>Correctness of the copy\<close>

text \<open>Two blocks of \<open>sz\<close> bytes that have no byte in common, also when one of them wraps around.\<close>

definition separate :: "u32 \<Rightarrow> u32 \<Rightarrow> u32 \<Rightarrow> bool" where
  "separate dest src sz \<longleftrightarrow> sz \<le> dest - src \<and> sz \<le> src - dest"

text \<open>The reference: the first \<open>k\<close> bytes of the destination hold those of the source.\<close>

definition copied :: "u32 \<Rightarrow> u32 \<Rightarrow> nat \<Rightarrow> mem \<Rightarrow> mem" where
  "copied dest src k m = (\<lambda>a. if unat (a - dest) < k then m (src + (a - dest)) else m a)"

lemma copied_0 [simp]: "copied dest src 0 m = m"
  by (simp add: copied_def)

lemma wrap_sum:
  assumes "4294967296 dvd x + y" and "x < 4294967296" and "y < 4294967296" and "s \<le> x" and "s \<le> y" and "j < s"
  shows "x + j < (4294967296 :: nat)"
proof -
  obtain q where q: "x + y = 4294967296 * q" using assms(1) by blast
  then have "q = 1" using assms(2-6) by linarith
  then show ?thesis using q assms(5,6) by linarith
qed

lemma separate_src:
  assumes "separate dest src sz" and "j < unat sz"
  shows "\<not> unat (src + of_nat j - dest) < unat sz"
proof -
  have le: "unat sz \<le> unat (src - dest)" "unat sz \<le> unat (dest - src)"
    using assms(1) by (simp_all add: separate_def word_le_nat_alt)
  have "unat ((src - dest) + (dest - src)) = 0" by simp
  then have "(unat (src - dest) + unat (dest - src)) mod 2 ^ 32 = 0"
    unfolding unat_word_ariths(1) by (simp only: len_bit0 len_num1) simp
  then have "4294967296 dvd unat (src - dest) + unat (dest - src)" by (simp add: dvd_eq_mod_eq_0)
  note lt = wrap_sum [OF this unat_bound unat_bound le assms(2)]
  have "unat (of_nat j :: u32) = j" using unat_bound [of sz] assms(2) by (simp add: unat_of_nat)
  then have "unat (src - dest + of_nat j) = unat (src - dest) + j"
    using lt by (simp only: unat_word_ariths(1) len_bit0 len_num1) simp
  then show ?thesis using \<open>unat sz \<le> unat (src - dest)\<close> by (simp add: algebra_simps)
qed

lemma copied_src:
  assumes "separate dest src sz" and "j < unat sz" and "k \<le> unat sz"
  shows "copied dest src k m (src + of_nat j) = m (src + of_nat j)"
  using separate_src [OF assms(1,2)] assms(3) by (auto simp: copied_def)

lemma dest_offset: "j < 2 ^ 32 \<Longrightarrow> a = dest + of_nat j \<longleftrightarrow> unat (a - dest) = j" for a dest :: u32
proof -
  assume "j < 2 ^ 32"
  then have "unat (of_nat j :: u32) = j" by (simp add: unat_of_nat)
  moreover have "a = dest + of_nat (unat (a - dest))" by simp
  ultimately show ?thesis by (metis add_diff_cancel_left')
qed

lemma copied_byte:
  assumes "separate dest src sz" and "k < unat sz"
  shows "(copied dest src k m)(dest + of_nat k := m (src + of_nat k)) = copied dest src (Suc k) m"
proof
  fix a
  have "k < 2 ^ 32" using assms(2) unat_bound [of sz] by simp
  then show "((copied dest src k m)(dest + of_nat k := m (src + of_nat k))) a = copied dest src (Suc k) m a"
    using dest_offset [of k a dest] by (auto simp: copied_def less_Suc_eq)
qed

lemma copied_step:
  assumes "separate dest src sz" and "k < unat sz"
  shows "(copied dest src k m)(dest + of_nat k := copied dest src k m (src + of_nat k)) = copied dest src (Suc k) m"
  using copied_byte [OF assms] copied_src [OF assms] assms(2) by simp

lemma byte_copy_copied:
  assumes "separate dest src sz" and "k + unat n \<le> unat sz" and "i \<le> n"
  shows "byte_copy i n (dest + of_nat k) (src + of_nat k) (copied dest src (k + unat i) m) = copied dest src (k + unat n) m"
  using assms(3)
proof (induction "unat n - unat i" arbitrary: i)
  case 0
  then show ?case by (subst byte_copy.simps) (simp add: word_le_nat_alt word_less_nat_alt)
next
  case (Suc d)
  then have lt: "i < n" by (simp add: word_less_nat_alt)
  note inc = unat_inc [OF lt]
  have "d = unat n - unat (i + 1)" "i + 1 \<le> n" using Suc.hyps(2) lt inc by (auto simp: word_le_nat_alt)
  note IH = Suc.hyps(1) [OF this]
  have "k + unat i < unat sz" using assms(2) lt by (simp add: word_less_nat_alt)
  from copied_step [OF assms(1) this, of m] IH inc lt show ?case
    by (subst byte_copy.simps) (simp add: add.assoc)
qed

lemma copied_word:
  assumes "separate dest src sz" and "k + 4 \<le> unat sz"
  shows "l \<le> unat sz \<Longrightarrow> word_at (copied dest src l m) (src + of_nat k) = word_at m (src + of_nat k)"
    and "put_word (dest + of_nat k) (word_at m (src + of_nat k)) (copied dest src k m) = copied dest src (k + 4) m"
proof -
  have s: "copied dest src l m (src + of_nat (k + j)) = m (src + of_nat (k + j))" if "j < 4" "l \<le> unat sz" for j
    using copied_src [OF assms(1), of "k + j" l m] that assms(2) by (simp del: of_nat_add)
  show "word_at (copied dest src l m) (src + of_nat k) = word_at m (src + of_nat k)" if "l \<le> unat sz"
    using s [of 0] s [of 1] s [of 2] s [of 3] that by (intro word_at_cong) (simp_all add: ac_simps)
  have "(copied dest src (k + j) m)(dest + of_nat (k + j) := m (src + of_nat (k + j))) = copied dest src (k + Suc j) m" if "j < 4" for j
    using copied_byte [OF assms(1), of "k + j"] that assms(2) by simp
  from this [of 0] this [of 1] this [of 2] this [of 3]
  show "put_word (dest + of_nat k) (word_at m (src + of_nat k)) (copied dest src k m) = copied dest src (k + 4) m"
    unfolding put_word_at by (simp add: ac_simps eval_nat_numeral)
qed

primrec words :: "mem \<Rightarrow> nat \<Rightarrow> u32 \<Rightarrow> u32 list" where
  "words m 0 a = []"
| "words m (Suc n) a = word_at m a # words m n (a + 4)"

lemma read_copied:
  assumes "separate dest src sz" and "src AND 3 = 0" and "l \<le> unat sz"
  shows "4 dvd k \<Longrightarrow> k + 4 * n \<le> unat sz \<Longrightarrow>
    read_words n (src + of_nat k) (copied dest src l m) = Some (words m n (src + of_nat k))"
proof (induction n arbitrary: k)
  case (Suc n)
  from Suc.IH [of "k + 4"] Suc.prems aligned_add [OF assms(2), of k] copied_word(1) [OF assms(1), of k l m] assms(3)
  show ?case by (simp add: load32_def add.assoc)
qed simp

lemma write_copied:
  assumes "separate dest src sz" and "dest AND 3 = 0"
  shows "4 dvd k \<Longrightarrow> k + 4 * n \<le> unat sz \<Longrightarrow>
    write_words (words m n (src + of_nat k)) (dest + of_nat k) (copied dest src k m) = Some (copied dest src (k + 4 * n) m)"
proof (induction n arbitrary: k)
  case (Suc n)
  from Suc.IH [of "k + 4"] Suc.prems aligned_add [OF assms(2), of k] copied_word(2) [OF assms(1), of k m]
  show ?case by (simp add: store32_def add.assoc)
qed simp

lemma word_copy_copied:
  assumes "separate dest src sz" and "dest AND 3 = 0" and "src AND 3 = 0" and "4 dvd k"
    and "k + 4 * unat n \<le> unat sz" and "i \<le> n"
  shows "word_copy i n (dest + of_nat k) (src + of_nat k) (copied dest src (k + 4 * unat i) m)
    = Some (copied dest src (k + 4 * unat n) m)"
  using assms(6)
proof (induction "unat n - unat i" arbitrary: i)
  case 0
  then show ?case by (subst word_copy.simps) (simp add: word_le_nat_alt word_less_nat_alt)
next
  case (Suc d)
  then have lt: "i < n" by (simp add: word_less_nat_alt)
  note inc = unat_inc [OF lt]
  have "d = unat n - unat (i + 1)" "i + 1 \<le> n" using Suc.hyps(2) lt inc by (auto simp: word_le_nat_alt)
  note IH = Suc.hyps(1) [OF this]
  let ?j = "k + 4 * unat i"
  have le: "?j + 4 * 1 \<le> unat sz" "?j \<le> unat sz" "4 dvd ?j" using assms(4,5) lt by (auto simp: word_less_nat_alt)
  have "read_words 1 (src + of_nat ?j) (copied dest src ?j m) = Some (words m 1 (src + of_nat ?j))"
    "write_words (words m 1 (src + of_nat ?j)) (dest + of_nat ?j) (copied dest src ?j m) = Some (copied dest src (?j + 4) m)"
    using read_copied [OF assms(1,3) le(2,3,1)] write_copied [OF assms(1,2) le(3,1)] by simp_all
  then have "load32 (copied dest src ?j m) (src + of_nat k + 4 * i) = Some (word_at m (src + of_nat ?j))"
    "store32 (dest + of_nat k + 4 * i) (word_at m (src + of_nat ?j)) (copied dest src ?j m) = Some (copied dest src (?j + 4) m)"
    by (simp_all add: bind_eq_Some_conv add.assoc)
  then show ?case using IH inc lt by (subst word_copy.simps) (simp add: add.commute add.left_commute)
qed

lemma memcpy_8_copied:
  assumes "separate dest src sz" and "dest AND 3 = 0" and "src AND 3 = 0" and "32 * unat n \<le> unat sz" and "i \<le> n"
  shows "memcpy_8_loop i n (dest + of_nat (32 * unat i)) (src + of_nat (32 * unat i)) (copied dest src (32 * unat i) m)
    = Some (copied dest src (32 * unat n) m)"
  using assms(5)
proof (induction "unat n - unat i" arbitrary: i)
  case 0
  then show ?case by (subst memcpy_8_loop.simps) (simp add: word_le_nat_alt word_less_nat_alt)
next
  case (Suc d)
  then have lt: "i < n" by (simp add: word_less_nat_alt)
  note inc = unat_inc [OF lt]
  have "d = unat n - unat (i + 1)" "i + 1 \<le> n" using Suc.hyps(2) lt inc by (auto simp: word_le_nat_alt)
  note IH = Suc.hyps(1) [OF this]
  let ?j = "32 * unat i"
  have le: "?j + 4 * 8 \<le> unat sz" "?j \<le> unat sz" "4 dvd ?j" using assms(4) lt by (auto simp: word_less_nat_alt)
  have "read_words 8 (src + of_nat ?j) (copied dest src ?j m) = Some (words m 8 (src + of_nat ?j))"
    "write_words (words m 8 (src + of_nat ?j)) (dest + of_nat ?j) (copied dest src ?j m) = Some (copied dest src (?j + 32) m)"
    using read_copied [OF assms(1,3) le(2,3,1)] write_copied [OF assms(1,2) le(3,1)] by simp_all
  moreover have "32 * unat (i + 1) = ?j + 32" using inc by simp
  ultimately show ?case using IH lt by (subst memcpy_8_loop.simps) (simp add: add.assoc)
qed

lemma shift_out: "push_bit k (drop_bit k w) = of_nat (2 ^ k * (unat w div 2 ^ k))" for w :: u32
proof -
  have "push_bit k (drop_bit k w) = of_nat (unat (drop_bit k w)) * 2 ^ k" by (simp add: push_bit_eq_mult)
  then show ?thesis unfolding unat_drop by (simp add: mult.commute)
qed

lemma shift_rest: "w - push_bit k (drop_bit k w) = of_nat (unat w mod 2 ^ k)" for w :: u32
proof -
  have "of_nat (2 ^ k * (unat w div 2 ^ k)) + of_nat (unat w mod 2 ^ k) = w"
    by (metis mult_div_mod_eq of_nat_add of_nat_unat ucast_id)
  then show ?thesis unfolding shift_out by (simp add: algebra_simps)
qed

text \<open>The part after the 32-byte blocks.\<close>

lemma memcpy_rest:
  assumes "separate dest src sz" and "dest AND 3 = 0" and "src AND 3 = 0" and "4 dvd k" and "k + unat n = unat sz"
  shows "do { m \<leftarrow> word_copy 0 (drop_bit 2 n) (dest + of_nat k) (src + of_nat k) (copied dest src k m);
              Some (r, byte_copy (push_bit 2 (drop_bit 2 n)) n (dest + of_nat k) (src + of_nat k) m) }
    = Some (r, copied dest src (unat sz) m)"
proof -
  have q: "unat (drop_bit 2 n) = unat n div 4" using unat_drop [of 2 n] by simp
  have p: "unat (push_bit 2 (drop_bit 2 n)) = 4 * (unat n div 4)"
    using unat_small [of "4 * (unat n div 4)"] shift_out [of 2 n] unat_bound [of n] by (simp del: of_nat_mult)
  have "word_copy 0 (drop_bit 2 n) (dest + of_nat k) (src + of_nat k) (copied dest src k m)
      = Some (copied dest src (k + 4 * (unat n div 4)) m)"
    using word_copy_copied [OF assms(1-4), of "drop_bit 2 n" 0 m] assms(5) q by simp
  moreover have "byte_copy (push_bit 2 (drop_bit 2 n)) n (dest + of_nat k) (src + of_nat k) (copied dest src (k + 4 * (unat n div 4)) m)
      = copied dest src (unat sz) m"
    using byte_copy_copied [OF assms(1), of k n "push_bit 2 (drop_bit 2 n)" m] assms(5) p by (simp add: word_le_nat_alt)
  ultimately show ?thesis by simp
qed

definition memcpy_ret :: "u32 \<Rightarrow> u32 \<Rightarrow> u32 \<Rightarrow> u32" where
  "memcpy_ret dest src sz =
     (if dest AND 3 = 0 \<and> src AND 3 = 0 \<and> sz AND 31 \<noteq> 0 then dest + push_bit 5 (drop_bit 5 sz) else dest)"

text \<open>
  C26: On two blocks that do not overlap, with or without alignment and also when a block wraps around the
  address space, \<^verbatim>\<open>memcpy\<close> with its three unrolled loops is the plain byte copy: it makes no
  unaligned word access, the destination holds the source bytes and every other byte is unchanged. Its answer is the
  destination except for aligned blocks whose size is not a multiple of 32, where it is the end of the last whole 32-byte block.
\<close>

theorem memcpy_copies:
  assumes "separate dest src sz"
  shows "memcpy dest src sz m =
    Some (memcpy_ret dest src sz, \<lambda>a. if a - dest < sz then m (src + (a - dest)) else m a)"
proof -
  have ref: "(\<lambda>a. if a - dest < sz then m (src + (a - dest)) else m a) = copied dest src (unat sz) m"
    by (simp add: copied_def word_less_nat_alt)
  let ?k = "32 * (unat sz div 32)"
  have cnt: "push_bit 5 (drop_bit 5 sz) = of_nat ?k" and rest: "sz - of_nat ?k = of_nat (unat sz mod 32)"
    using shift_out [of 5 sz] shift_rest [of sz 5] by simp_all
  have low: "unat (of_nat (unat sz mod 32) :: u32) = unat sz mod 32" by (rule unat_small) simp
  have mask: "sz AND 31 = of_nat (unat sz mod 32)"
    using unat_and_mask [of sz 5] low by (intro unsigned_word_eqI [where 'a = nat]) (simp add: mask_eq_exp_minus_1)
  show ?thesis
  proof (cases "dest AND 3 = 0 \<and> src AND 3 = 0")
    case False
    then show ?thesis using byte_copy_copied [OF assms, of 0 sz 0 m] unfolding ref
      by (auto simp: memcpy_def memcpy_ret_def)
  next
    case True
    have "(if drop_bit 5 sz \<noteq> 0 then do_memcpy_8 dest src (drop_bit 5 sz) m else Some m) = Some (copied dest src ?k m)"
      using memcpy_8_copied [OF assms, of "drop_bit 5 sz" 0 m] True unat_drop [of 5 sz]
      by (auto simp: do_memcpy_8_def simp flip: unat_eq_0)
    moreover have "unat sz mod 32 = 0 \<Longrightarrow> ?k = unat sz" by auto
    moreover note memcpy_rest [OF assms _ _ _, of ?k "of_nat (unat sz mod 32)" m "dest + of_nat ?k"]
    ultimately show ?thesis using True low unfolding ref
      by (auto simp: memcpy_def memcpy_ret_def Let_def cnt rest mask simp del: of_nat_mult split: if_splits simp flip: unat_eq_0)
  qed
qed

theorem memcpy_copies_witness:
  "memcpy 0x1000 0x2000 37 (\<lambda>a. ucast a) =
     Some (0x1020, \<lambda>a. if a - 0x1000 < 37 then ucast (0x2000 + (a - 0x1000)) else ucast a)"
  using memcpy_copies [of "0x1000" "0x2000" 37 "\<lambda>a. ucast a"]
  by (simp add: separate_def memcpy_ret_def)

section \<open>Correctness of the fill\<close>

definition filled :: "u32 \<Rightarrow> nat \<Rightarrow> u8 \<Rightarrow> mem \<Rightarrow> mem" where
  "filled s k c m = (\<lambda>a. if unat (a - s) < k then c else m a)"

lemma filled_0 [simp]: "filled s 0 c m = m"
  by (simp add: filled_def)

lemma filled_byte: "k < 4294967296 \<Longrightarrow> (filled s k c m)(s + of_nat k := c) = filled s (Suc k) c m"
  using dest_offset [of k _ s] by (auto simp: filled_def less_Suc_eq fun_eq_iff)

definition splat :: "u8 \<Rightarrow> u32" where
  "splat c = push_bit 24 (ucast c) OR push_bit 16 (ucast c) OR push_bit 8 (ucast c) OR ucast c"

lemma splat_bytes:
  "ucast (splat c) = c" "ucast (drop_bit 8 (splat c)) = c" "ucast (drop_bit 16 (splat c)) = c" "ucast (drop_bit 24 (splat c)) = c"
  by (rule bit_word_eqI; auto simp: splat_def bit_simps)+

lemma filled_word:
  assumes "k + 4 \<le> 4294967296"
  shows "put_word (s + of_nat k) (splat c) (filled s k c m) = filled s (k + 4) c m"
proof -
  have "(filled s (k + j) c m)(s + of_nat (k + j) := c) = filled s (k + Suc j) c m" if "j < 4" for j
    using filled_byte [of "k + j" s c m] that assms by simp
  from this [of 0] this [of 1] this [of 2] this [of 3]
  show ?thesis unfolding put_word_def splat_bytes by (simp add: ac_simps eval_nat_numeral)
qed

lemma filled_words:
  assumes "s + of_nat k AND 3 = 0" and "k + 4 * n \<le> 4294967296"
  shows "write_words (replicate n (splat c)) (s + of_nat k) (filled s k c m) = Some (filled s (k + 4 * n) c m)"
  using assms
proof (induction n arbitrary: k)
  case (Suc n)
  have "s + of_nat (k + 4) AND 3 = 0" using aligned_add [OF Suc.prems(1), of 4] by (simp add: add.assoc)
  from Suc.IH [OF this] Suc.prems filled_word [of k s c m] show ?case by (simp add: store32_def add.assoc)
qed simp

lemma memset_head_filled:
  assumes "k + unat n < 4294967296"
  shows "\<exists>l\<le>unat n. memset_head (s + of_nat k) n c (filled s k c m) = (s + of_nat (k + l), n - of_nat l, filled s (k + l) c m)
    \<and> (l = unat n \<or> s + of_nat (k + l) AND 3 = 0)"
  using assms
proof (induction "unat n" arbitrary: n k)
  case 0
  then have "n = 0" using unat_eq_0 [of n] by simp
  then show ?case by (subst memset_head.simps) simp
next
  case (Suc d)
  show ?case
  proof (cases "s + of_nat k AND 3 = 0")
    case True
    then show ?thesis by (subst memset_head.simps) (auto intro!: exI [of _ 0])
  next
    case False
    have nz: "n \<noteq> 0" using Suc.hyps(2) by auto
    then have d: "d = unat (n - 1)" using Suc.hyps(2) by (simp add: unat_minus_one)
    have "Suc k + unat (n - 1) < 4294967296" using Suc.prems Suc.hyps(2) d by simp
    from Suc.hyps(1) [OF d this] obtain l where l: "l \<le> d"
      "memset_head (s + of_nat (Suc k)) (n - 1) c (filled s (Suc k) c m) = (s + of_nat (Suc k + l), n - 1 - of_nat l, filled s (Suc k + l) c m)"
      "l = d \<or> s + of_nat (Suc k + l) AND 3 = 0" unfolding d [symmetric] by blast
    have "memset_head (s + of_nat k) n c (filled s k c m) = memset_head (s + of_nat (Suc k)) (n - 1) c (filled s (Suc k) c m)"
      using False nz Suc.prems filled_byte [of k s c m] by (subst memset_head.simps) (simp add: ac_simps)
    moreover have "s + of_nat (Suc k + l) = s + of_nat (k + Suc l)" "n - 1 - of_nat l = n - of_nat (Suc l)" by (simp_all add: ac_simps)
    ultimately show ?thesis using l unfolding Suc.hyps(2) [symmetric] by (intro exI [of _ "Suc l"]) simp
  qed
qed

lemma memset_8_filled:
  assumes "s + of_nat k AND 3 = 0" and "k + 32 * n < 4294967296"
  shows "memset_8_loop (s + of_nat k) (s + of_nat (k + 32 * n)) (splat c) (filled s k c m) = Some (filled s (k + 32 * n) c m)"
  using assms
proof (induction n arbitrary: k)
  case 0
  then show ?case by (subst memset_8_loop.simps) simp
next
  case (Suc n)
  have "unat (of_nat (32 * Suc n) :: u32) = 32 * Suc n" using Suc.prems(2) by (intro unat_small) simp
  then have "(of_nat (32 * Suc n) :: u32) \<noteq> 0" by (metis Zero_not_Suc mult_eq_0_iff unat_0 zero_neq_numeral)
  then have ne: "s + of_nat k \<noteq> s + of_nat (k + 32 * Suc n)" unfolding of_nat_add by (simp del: of_nat_mult)
  have al: "s + of_nat (k + 32) AND 3 = 0" using aligned_add [OF Suc.prems(1), of 32] by (simp add: add.assoc)
  have "write_words (replicate 8 (splat c)) (s + of_nat k) (filled s k c m) = Some (filled s (k + 32) c m)"
    using filled_words [OF Suc.prems(1), of 8 c m] Suc.prems(2) by simp
  with Suc.IH [OF al] Suc.prems(2) ne show ?case
    by (subst memset_8_loop.simps) (simp add: add.assoc)
qed

lemma memset_words_filled:
  assumes "s + of_nat k AND 3 = 0" and "k + 4 * unat n < 4294967296"
  shows "memset_words n (s + of_nat k) (splat c) (filled s k c m) = Some (s + of_nat (k + 4 * unat n), filled s (k + 4 * unat n) c m)"
  using assms
proof (induction "unat n" arbitrary: n k)
  case 0
  then have "n = 0" using unat_eq_0 [of n] by simp
  then show ?case by (subst memset_words.simps) simp
next
  case (Suc d)
  have nz: "n \<noteq> 0" using Suc.hyps(2) by auto
  then have d: "d = unat (n - 1)" using Suc.hyps(2) by (simp add: unat_minus_one)
  have al: "s + of_nat (k + 4) AND 3 = 0" using aligned_add [OF Suc.prems(1), of 4] by (simp add: add.assoc)
  have "k + 4 + 4 * unat (n - 1) = k + 4 * unat n" using d Suc.hyps(2) by simp
  with Suc.hyps(1) [OF d al] Suc.prems nz filled_word [of k s c m] show ?case
    by (subst memset_words.simps) (simp add: store32_def add.assoc)
qed

lemma memset_tail_filled:
  assumes "k + unat n < 4294967296"
  shows "memset_tail (s + of_nat k) n c (filled s k c m) = filled s (k + unat n) c m"
  using assms
proof (induction "unat n" arbitrary: n k)
  case 0
  then have "n = 0" using unat_eq_0 [of n] by simp
  then show ?case by (subst memset_tail.simps) simp
next
  case (Suc d)
  have nz: "n \<noteq> 0" using Suc.hyps(2) by auto
  then have d: "d = unat (n - 1)" using Suc.hyps(2) by (simp add: unat_minus_one)
  have "Suc (k + unat (n - 1)) = k + unat n" using d Suc.hyps(2) by simp
  with Suc.hyps(1) [OF d, of "Suc k"] Suc.prems nz filled_byte [of k s c m] show ?case
    by (subst memset_tail.simps) (simp add: add.assoc add.commute [of 1] del: unat_minus_one)
qed

text \<open>From an aligned address on: the blocks, the words and the last bytes.\<close>

lemma memset_aligned:
  assumes "s + of_nat k AND 3 = 0" and "k + unat n < 4294967296"
  shows "(if drop_bit 5 n \<noteq> 0 then do_memset_8 (s + of_nat k) (splat c) (drop_bit 5 n) (filled s k c m) else Some (filled s k c m))
      = Some (filled s (k + 32 * (unat n div 32)) c m)"
    and "k' = k + 32 * (unat n div 32) \<Longrightarrow> n' = of_nat (unat n mod 32) \<Longrightarrow>
      do { (wptr, m) \<leftarrow> memset_words (drop_bit 2 n') (s + of_nat k') (splat c) (filled s k' c m);
           Some (s, memset_tail wptr (n' - push_bit 2 (drop_bit 2 n')) c m) } = Some (s, filled s (k + unat n) c m)"
proof -
  have cnt: "push_bit 5 (drop_bit 5 n) = of_nat (32 * (unat n div 32))" using shift_out [of 5 n] by simp
  show "(if drop_bit 5 n \<noteq> 0 then do_memset_8 (s + of_nat k) (splat c) (drop_bit 5 n) (filled s k c m) else Some (filled s k c m))
      = Some (filled s (k + 32 * (unat n div 32)) c m)"
    using memset_8_filled [OF assms(1), of "unat n div 32" c m] assms(2) unat_drop [of 5 n]
    by (auto simp: do_memset_8_def cnt add.assoc simp flip: unat_eq_0)
  assume k': "k' = k + 32 * (unat n div 32)" and n': "n' = of_nat (unat n mod 32)"
  have "unat n' = unat n mod 32" unfolding n' by (rule unat_small) simp
  then have sum: "k' + unat n' = k + unat n" using k' by simp
  have al: "s + of_nat k' AND 3 = 0" using aligned_add [OF assms(1), of "32 * (unat n div 32)"] unfolding k' by (simp add: add.assoc)
  have q: "unat (drop_bit 2 n') = unat n' div 4" using unat_drop [of 2 n'] by simp
  have rest: "n' - push_bit 2 (drop_bit 2 n') = of_nat (unat n' mod 4)" using shift_rest [of n' 2] by simp
  have "memset_words (drop_bit 2 n') (s + of_nat k') (splat c) (filled s k' c m)
      = Some (s + of_nat (k' + 4 * (unat n' div 4)), filled s (k' + 4 * (unat n' div 4)) c m)"
    using memset_words_filled [OF al, of "drop_bit 2 n'" c m] sum assms(2) q by simp
  moreover have "unat (of_nat (unat n' mod 4) :: u32) = unat n' mod 4" by (rule unat_small) simp
  then have "memset_tail (s + of_nat (k' + 4 * (unat n' div 4))) (of_nat (unat n' mod 4)) c (filled s (k' + 4 * (unat n' div 4)) c m)
      = filled s (k + unat n) c m"
    using memset_tail_filled [of "k' + 4 * (unat n' div 4)" "of_nat (unat n' mod 4)" s c m] sum assms(2) by (simp add: add.assoc)
  ultimately show "do { (wptr, m) \<leftarrow> memset_words (drop_bit 2 n') (s + of_nat k') (splat c) (filled s k' c m);
           Some (s, memset_tail wptr (n' - push_bit 2 (drop_bit 2 n')) c m) } = Some (s, filled s (k + unat n) c m)"
    unfolding rest by simp
qed

text \<open>
  For every address, size and fill value, \<^verbatim>\<open>memset\<close> with its aligning, 32-byte, word and byte loops ends, makes
  no unaligned word access, and is the plain fill: the \<open>sz\<close> bytes from \<open>s\<close> on hold the low byte of \<open>c\<close>, every
  other byte is unchanged, and it answers \<open>s\<close>.
\<close>

theorem memset_fills:
  "memset s c sz m = Some (s, \<lambda>a. if a - s < sz then ucast c else m a)"
proof -
  have ref: "(\<lambda>a. if a - s < sz then ucast c else m a) = filled s (unat sz) (ucast c) m"
    by (simp add: filled_def word_less_nat_alt)
  have byte: "x AND 0xFF = take_bit 8 x" for x :: u32 by (simp add: take_bit_eq_mask mask_eq_exp_minus_1)
  have low: "ucast (c AND 0xFF) = (ucast c :: u8)" and
    val: "push_bit 24 (c AND 0xFF) OR push_bit 16 (c AND 0xFF) OR push_bit 8 (c AND 0xFF) OR ((c AND 0xFF) AND 0xFF) = splat (ucast c)"
    unfolding byte by (rule bit_word_eqI; auto simp: splat_def bit_simps)+
  obtain l where l: "l \<le> unat sz"
    "memset_head s sz (ucast c) m = (s + of_nat l, sz - of_nat l, filled s l (ucast c) m)" "l = unat sz \<or> s + of_nat l AND 3 = 0"
    using memset_head_filled [of 0 sz s "ucast c" m] unat_bound [of sz] by auto
  show ?thesis
  proof (cases "sz - of_nat l = 0")
    case True
    then have "sz = of_nat l" by simp
    then have "unat sz = l" using l(1) unat_bound [of sz] by (simp add: unat_small)
    then show ?thesis using True l(2) low unfolding ref by (simp add: memset_def)
  next
    case False
    have sz: "unat (sz - of_nat l) = unat sz - l"
      using l(1) unat_bound [of sz] by (simp add: unat_sub word_le_nat_alt unat_small)
    let ?n = "sz - of_nat l"
    have al: "s + of_nat l AND 3 = 0" using l(3) False by auto
    have lt: "l + unat ?n < 4294967296" and sum: "l + unat ?n = unat sz" using sz l(1) unat_bound [of sz] by simp_all
    have cnt: "push_bit 5 (drop_bit 5 ?n) = of_nat (32 * (unat ?n div 32))" and rest: "?n - of_nat (32 * (unat ?n div 32)) = of_nat (unat ?n mod 32)"
      using shift_out [of 5 ?n] shift_rest [of ?n 5] by simp_all
    have fin: "(of_nat (unat ?n mod 32) :: u32) = 0 \<Longrightarrow> l + 32 * (unat ?n div 32) = unat sz"
    proof -
      assume "(of_nat (unat ?n mod 32) :: u32) = 0"
      moreover have "unat ?n mod 32 < 32" by simp
      ultimately have "unat ?n mod 32 = 0" using unat_small [of "unat ?n mod 32"] by simp
      then show "l + 32 * (unat ?n div 32) = unat sz" using sum by auto
    qed
    show ?thesis
      unfolding ref memset_def Let_def low l(2) prod.case val memset_aligned(1) [OF al lt] cnt rest bind.bind_lunit if_not_P [OF False]
      using memset_aligned(2) [OF al lt refl refl, of "ucast c" m] fin sum by (simp add: add.assoc)
  qed
qed

end
