(* ===== verification/Libk_String.thy ===== *)
theory Libk_String
  imports Libk_Memory
begin

text \<open>
  Strings in memory: \<^verbatim>\<open>strlen.c\<close>, \<^verbatim>\<open>strcpy.c\<close>, \<^verbatim>\<open>strcmp.c\<close>, \<^verbatim>\<open>strchr.c\<close>, \<^verbatim>\<open>strrchr.c\<close>, \<^verbatim>\<open>atoi.c\<close> and
  \<^verbatim>\<open>ctype.c\<close> of \<^verbatim>\<open>src/kernel/libk\<close>. A \<^verbatim>\<open>char\<close> is a signed byte. A loop that need not end is a partial function: not
  returning is \<open>None\<close>.
\<close>

section \<open>Characters\<close>

definition isprint :: "int \<Rightarrow> bool" where
  "isprint c \<longleftrightarrow> 127 - 32 > (c - 32) mod 256"

definition isalpha :: "int \<Rightarrow> bool" where
  "isalpha c \<longleftrightarrow> (or c 0x20 - 97) mod 256 < 26"

definition isspace :: "int \<Rightarrow> bool" where
  "isspace c \<longleftrightarrow> c = 32 \<or> c - 9 < 5"

definition toupper :: "int \<Rightarrow> int" where
  "toupper c = (if isalpha c then and c (not 0x20) else c)"

section \<open>Length and copies\<close>

partial_function (option) skip_string :: "u32 \<Rightarrow> mem \<Rightarrow> u32 option" where
  "skip_string ptr m = (if m ptr \<noteq> 0 then skip_string (ptr + 1) m else Some ptr)"

definition strlen :: "u32 \<Rightarrow> mem \<Rightarrow> u32 option" where
  "strlen str m = (if str = 0 then Some 0 else do { ptr \<leftarrow> skip_string str m; Some (ptr - str) })"

function strnlen_loop :: "u32 \<Rightarrow> int \<Rightarrow> mem \<Rightarrow> u32" where
  "strnlen_loop ptr count m = (if m ptr \<noteq> 0 \<and> count > 0 then strnlen_loop (ptr + 1) (count - 1) m else ptr)"
  by pat_completeness auto
termination by (relation "measure (\<lambda>(_, n, _). nat n)") auto

declare strnlen_loop.simps [simp del]

definition strnlen :: "u32 \<Rightarrow> int \<Rightarrow> mem \<Rightarrow> u32" where
  "strnlen str count m = (if str = 0 then 0 else strnlen_loop str count m - str)"

partial_function (option) strcpy_loop :: "u32 \<Rightarrow> u32 \<Rightarrow> mem \<Rightarrow> (u32 \<times> mem) option" where
  "strcpy_loop dst_ptr src_ptr m =
     (if m src_ptr \<noteq> 0 then strcpy_loop (dst_ptr + 1) (src_ptr + 1) (m(dst_ptr := m src_ptr)) else Some (dst_ptr, m))"

definition strcpy :: "u32 \<Rightarrow> u32 \<Rightarrow> mem \<Rightarrow> (u32 \<times> mem) option" where
  "strcpy dest src m =
     (if dest = 0 \<or> src = 0 then Some (dest, m)
      else do { (dst_ptr, m) \<leftarrow> strcpy_loop dest src m; Some (dest, m(dst_ptr := 0)) })"

text \<open>The two loops of \<^verbatim>\<open>strncpy\<close>.\<close>

function strncpy_copy :: "u32 \<Rightarrow> u32 \<Rightarrow> u32 \<Rightarrow> u32 \<Rightarrow> mem \<Rightarrow> u32 \<times> mem" where
  "strncpy_copy i n dest src m =
     (if i < n \<and> m (src + i) \<noteq> 0 then strncpy_copy (i + 1) n dest src (m(dest + i := m (src + i))) else (i, m))"
  by pat_completeness auto
termination by (relation "measure (\<lambda>(i, n, _). unat (n - i))") (auto simp: loop_measure)

function strncpy_pad :: "u32 \<Rightarrow> u32 \<Rightarrow> u32 \<Rightarrow> mem \<Rightarrow> mem" where
  "strncpy_pad i n dest m = (if i < n then strncpy_pad (i + 1) n dest (m(dest + i := 0)) else m)"
  by pat_completeness auto
termination by (relation "measure (\<lambda>(i, n, _). unat (n - i))") (auto simp: loop_measure)

declare strncpy_copy.simps [simp del] strncpy_pad.simps [simp del]

definition strncpy :: "u32 \<Rightarrow> u32 \<Rightarrow> u32 \<Rightarrow> mem \<Rightarrow> u32 \<times> mem" where
  "strncpy dest src n m = (let (i, m) = strncpy_copy 0 n dest src m in (dest, strncpy_pad i n dest m))"

section \<open>Comparison and search\<close>

partial_function (option) strcmp_loop :: "u32 \<Rightarrow> u32 \<Rightarrow> mem \<Rightarrow> int option" where
  "strcmp_loop s1 s2 m =
     (if m s1 \<noteq> 0 \<and> m s1 = m s2 then strcmp_loop (s1 + 1) (s2 + 1) m else Some (sint (m s1) - sint (m s2)))"

definition strcmp :: "u32 \<Rightarrow> u32 \<Rightarrow> mem \<Rightarrow> int option" where
  "strcmp s1 s2 m = (if s1 = 0 \<or> s2 = 0 then Some (sint (s1 - s2)) else strcmp_loop s1 s2 m)"

text \<open>Both pointers are incremented before each character is read.\<close>

partial_function (option) strcasecmp_loop :: "u32 \<Rightarrow> u32 \<Rightarrow> mem \<Rightarrow> int option" where
  "strcasecmp_loop str1 str2 m =
     (let c1 = toupper (sint (m (str1 + 1))); c2 = toupper (sint (m (str2 + 1)))
      in if c1 \<noteq> 0 \<and> c1 = c2 then strcasecmp_loop (str1 + 1) (str2 + 1) m else Some (c1 - c2))"

definition strcasecmp :: "u32 \<Rightarrow> u32 \<Rightarrow> mem \<Rightarrow> int option" where
  "strcasecmp str1 str2 m = (if str1 = 0 \<or> str2 = 0 then Some (sint (str1 - str2)) else strcasecmp_loop str1 str2 m)"

function strncmp_loop :: "u32 \<Rightarrow> u32 \<Rightarrow> u32 \<Rightarrow> mem \<Rightarrow> int" where
  "strncmp_loop s1 s2 n m =
     (if m s1 \<noteq> 0 \<and> m s1 = m s2 \<and> n > 1 then strncmp_loop (s1 + 1) (s2 + 1) (n - 1) m else sint (m s1) - sint (m s2))"
  by pat_completeness auto
termination
  by (relation "measure (\<lambda>(_, _, n, _). unat n)") (auto simp: word_less_nat_alt unat_sub_if_size)

declare strncmp_loop.simps [simp del]

definition strncmp :: "u32 \<Rightarrow> u32 \<Rightarrow> u32 \<Rightarrow> mem \<Rightarrow> int" where
  "strncmp s1 s2 n m = (if s1 = 0 \<or> s2 = 0 \<or> n = 0 then sint (s1 - s2) else strncmp_loop s1 s2 n m)"

partial_function (option) strchr_loop :: "u32 \<Rightarrow> u8 \<Rightarrow> mem \<Rightarrow> u32 option" where
  "strchr_loop s c m = (if m s \<noteq> 0 \<and> m s \<noteq> c then strchr_loop (s + 1) c m else Some s)"

definition strchr :: "u32 \<Rightarrow> u32 \<Rightarrow> mem \<Rightarrow> u32 option" where
  "strchr s c m =
     (if s = 0 then Some s
      else do { s \<leftarrow> strchr_loop s (ucast c) m; if m s = ucast c then Some s else Some 0 })"

partial_function (option) strrchr_loop :: "u32 \<Rightarrow> u8 \<Rightarrow> u32 \<Rightarrow> mem \<Rightarrow> u32 option" where
  "strrchr_loop t ch l m =
     (let l = (if m t = ch then t else l) in if m t = 0 then Some l else strrchr_loop (t + 1) ch l m)"

definition strrchr :: "u32 \<Rightarrow> u32 \<Rightarrow> mem \<Rightarrow> u32 option" where
  "strrchr t c m = strrchr_loop t (ucast c) 0 m"

section \<open>Numbers\<close>

text \<open>\<^verbatim>\<open>while(isspace(*nptr));\<close> does not advance the pointer.\<close>

partial_function (option) skip_space :: "u32 \<Rightarrow> mem \<Rightarrow> unit option" where
  "skip_space nptr m = (if isspace (sint (m nptr)) then skip_space nptr m else Some ())"

partial_function (option) atoi_loop :: "u32 \<Rightarrow> u32 \<Rightarrow> mem \<Rightarrow> u32 option" where
  "atoi_loop nptr num m =
     (if m nptr \<noteq> 0
      then atoi_loop (nptr + 1)
             (if sint (m nptr) \<ge> 48 \<and> sint (m nptr) \<le> 57 then num * 10 + (scast (m nptr) - 48) else num) m
      else Some num)"

definition atoi :: "u32 \<Rightarrow> mem \<Rightarrow> u32 option" where
  "atoi nptr m = do {
     skip_space nptr m;
     let signe = (if m nptr = 45 then - 1 else 1);
     num \<leftarrow> atoi_loop nptr 0 m;
     Some (num * signe) }"

declare skip_string.simps [code] strcpy_loop.simps [code] strcmp_loop.simps [code] strcasecmp_loop.simps [code] strchr_loop.simps [code] strrchr_loop.simps [code] skip_space.simps [code] atoi_loop.simps [code]

section \<open>Correctness\<close>

text \<open>\<open>cstr m p xs\<close>: the string at \<open>p\<close> has the characters \<open>xs\<close>.\<close>

fun cstr :: "mem \<Rightarrow> u32 \<Rightarrow> u8 list \<Rightarrow> bool" where
  "cstr m p [] \<longleftrightarrow> m p = 0"
| "cstr m p (x # xs) \<longleftrightarrow> m p = x \<and> x \<noteq> 0 \<and> cstr m (p + 1) xs"

lemma cstr_nth: "cstr m p xs \<Longrightarrow> i < length xs \<Longrightarrow> m (p + of_nat i) = xs ! i \<and> xs ! i \<noteq> 0"
  by (induction xs arbitrary: p i) (auto simp: nth_Cons simp flip: add.assoc split: nat.split)

lemma cstr_end: "cstr m p xs \<Longrightarrow> m (p + of_nat (length xs)) = 0"
  by (induction xs arbitrary: p) (auto simp flip: add.assoc)

lemma cstrI:
  "(\<And>i. i < length xs \<Longrightarrow> m (p + of_nat i) = xs ! i \<and> xs ! i \<noteq> 0) \<Longrightarrow> m (p + of_nat (length xs)) = 0 \<Longrightarrow> cstr m p xs"
proof (induction xs arbitrary: p)
  case (Cons x xs)
  have "m (p + 1 + of_nat i) = xs ! i \<and> xs ! i \<noteq> 0" if "i < length xs" for i
    using Cons.prems(1) [of "Suc i"] that by (simp add: add.assoc)
  then show ?case using Cons.IH [of "p + 1"] Cons.prems(1) [of 0] Cons.prems(2) by (simp add: add.assoc)
qed simp

lemma skip_string_cstr: "cstr m p xs \<Longrightarrow> skip_string p m = Some (p + of_nat (length xs))"
  by (induction xs arbitrary: p; subst skip_string.simps) (auto simp: add.assoc)

lemma strlen_cstr: "cstr m p xs \<Longrightarrow> p \<noteq> 0 \<Longrightarrow> strlen p m = Some (of_nat (length xs))"
  by (simp add: strlen_def skip_string_cstr)

lemma strnlen_loop_cstr:
  "cstr m p xs \<Longrightarrow> strnlen_loop p n m = p + of_nat (min (length xs) (nat n))"
proof (induction xs arbitrary: p n)
  case (Cons x xs)
  show ?case
  proof (cases "n > 0")
    case True
    then have "nat n = Suc (nat (n - 1))" by simp
    then show ?thesis using Cons True by (subst strnlen_loop.simps) (simp add: add.assoc)
  qed (use Cons.prems in \<open>subst strnlen_loop.simps, simp\<close>)
qed (subst strnlen_loop.simps, simp)

lemma strnlen_cstr: "cstr m p xs \<Longrightarrow> p \<noteq> 0 \<Longrightarrow> strnlen p n m = of_nat (min (length xs) (nat n))"
  by (simp add: strnlen_def strnlen_loop_cstr)

lemma sint_eq_iff: "sint x = sint y \<longleftrightarrow> x = y" for x y :: u8
  by (metis signed_word_eqI)

lemma sint_diff_0: "sint x - sint y = 0 \<longleftrightarrow> x = y" "sint x = 0 \<longleftrightarrow> x = 0" for x y :: u8
  using sint_eq_iff [of x y] sint_eq_iff [of x 0] by simp_all

lemma strcmp_cstr:
  "cstr m p xs \<Longrightarrow> cstr m q ys \<Longrightarrow> \<exists>d. strcmp_loop p q m = Some d \<and> (d = 0 \<longleftrightarrow> xs = ys)"
proof (induction xs arbitrary: p q ys)
  case Nil
  then show ?case by (cases ys; subst strcmp_loop.simps) (auto simp: sint_diff_0)
next
  case (Cons x xs)
  then show ?case by (cases ys; subst strcmp_loop.simps) (auto simp: sint_diff_0 sint_eq_iff)
qed

lemma strncmp_cstr:
  "cstr m p xs \<Longrightarrow> cstr m q ys \<Longrightarrow> n \<noteq> 0 \<Longrightarrow> strncmp_loop p q n m = 0 \<longleftrightarrow> take (unat n) xs = take (unat n) ys"
proof (induction xs arbitrary: p q ys n)
  case Nil
  then show ?case by (cases ys; subst strncmp_loop.simps) (auto simp: sint_diff_0 unat_eq_0 take_Cons')
next
  case (Cons x xs)
  have n: "unat n = Suc (unat (n - 1))" using Cons.prems(3) by (simp add: unat_minus_one unat_gt_0)
  have "n > 1 \<longleftrightarrow> n - 1 \<noteq> 0" using Cons.prems(3) n by (auto simp: word_less_nat_alt unat_gt_0)
  then show ?case using Cons n
    by (cases ys; subst strncmp_loop.simps) (auto simp: sint_diff_0 sint_eq_iff unat_eq_0)
qed

lemma strcpy_copied:
  assumes "cstr m src xs" and "length xs < 4294967295" and "separate dest src (of_nat (Suc (length xs)))" and "dest \<noteq> 0" and "src \<noteq> 0"
  shows "strcpy dest src m = Some (dest, copied dest src (Suc (length xs)) m)"
proof -
  have n: "unat (of_nat (Suc (length xs)) :: u32) = Suc (length xs)" using assms(2) by (intro unat_small) simp
  have here: "copied dest src k m (src + of_nat k) = m (src + of_nat k)" if "k \<le> length xs" for k
    using copied_src [OF assms(3), of k k m] n that by simp
  have "strcpy_loop (dest + of_nat k) (src + of_nat k) (copied dest src k m)
      = Some (dest + of_nat (length xs), copied dest src (length xs) m)" if "k \<le> length xs" for k
    using that
  proof (induction "length xs - k" arbitrary: k)
    case 0
    then show ?case using here [of k] cstr_end [OF assms(1)] by (subst strcpy_loop.simps) simp
  next
    case (Suc d)
    then have "copied dest src k m (src + of_nat k) \<noteq> 0" using here [of k] cstr_nth [OF assms(1), of k] by simp
    moreover have "(copied dest src k m)(dest + of_nat k := copied dest src k m (src + of_nat k)) = copied dest src (Suc k) m"
      using copied_step [OF assms(3), of k m] n Suc.prems by simp
    ultimately show ?case using Suc.hyps(1) [of "Suc k"] Suc.hyps(2)
      by (subst strcpy_loop.simps) (simp add: add.assoc add.commute [of 1])
  qed
  from this [of 0] show ?thesis
    using assms(4,5) copied_byte [OF assms(3), of "length xs" m] n cstr_end [OF assms(1)] by (simp add: strcpy_def)
qed

lemma strncpy_copy_copied:
  assumes "cstr m src xs" and "separate dest src n" and "unat i \<le> min (length xs) (unat n)"
  shows "\<exists>j. strncpy_copy i n dest src (copied dest src (unat i) m) = (j, copied dest src (unat j) m) \<and> unat j = min (length xs) (unat n)"
  using assms(3)
proof (induction "min (length xs) (unat n) - unat i" arbitrary: i)
  case 0
  then have i: "unat i = min (length xs) (unat n)" by simp
  have "copied dest src (unat i) m (src + i) = 0" if "i < n"
  proof -
    have "unat i = length xs" using i that by (simp add: word_less_nat_alt)
    then have "src + i = src + of_nat (length xs)" by (metis of_nat_unat ucast_id)
    then show ?thesis using copied_src [OF assms(2), of "unat i" "unat i" m] that cstr_end [OF assms(1)] \<open>unat i = length xs\<close>
      by (simp add: word_less_nat_alt)
  qed
  then have "strncpy_copy i n dest src (copied dest src (unat i) m) = (i, copied dest src (unat i) m)"
    by (subst strncpy_copy.simps) auto
  then show ?case using i by blast
next
  case (Suc d)
  then have lt: "i < n" "unat i < length xs" by (auto simp: word_less_nat_alt)
  note inc = unat_inc [OF lt(1)]
  have k: "unat i < unat n" using lt(1) by (simp add: word_less_nat_alt)
  have "copied dest src (unat i) m (src + i) \<noteq> 0"
    using copied_src [OF assms(2) k, of "unat i" m] k cstr_nth [OF assms(1) lt(2)] by simp
  moreover have "(copied dest src (unat i) m)(dest + i := copied dest src (unat i) m (src + i)) = copied dest src (unat (i + 1)) m"
    using copied_step [OF assms(2) k, of m] inc by simp
  moreover have "d = min (length xs) (unat n) - unat (i + 1)" "unat (i + 1) \<le> min (length xs) (unat n)" using Suc.hyps(2) inc by auto
  ultimately show ?case using Suc.hyps(1) [of "i + 1"] lt(1) by (subst strncpy_copy.simps) simp
qed

lemma strncpy_pad_eq: "strncpy_pad i n dest m = (\<lambda>a. if unat i \<le> unat (a - dest) \<and> unat (a - dest) < unat n then 0 else m a)"
proof (induction i n dest m rule: strncpy_pad.induct)
  case (1 i n dest m)
  show ?case
  proof (cases "i < n")
    case True
    note inc = unat_inc [OF True]
    have at: "a = dest + i \<longleftrightarrow> unat (a - dest) = unat i" for a using dest_offset [of "unat i" a dest] unat_bound [of i] by simp
    have "strncpy_pad i n dest m = strncpy_pad (i + 1) n dest (m(dest + i := 0))" using True by (subst strncpy_pad.simps) simp
    also have "\<dots> = (\<lambda>a. if unat i \<le> unat (a - dest) \<and> unat (a - dest) < unat n then 0 else m a)"
      unfolding 1 [OF True] unfolding inc fun_upd_def at using True by (auto simp: fun_eq_iff word_less_nat_alt Suc_le_eq)
    finally show ?thesis .
  qed (subst strncpy_pad.simps, auto simp: fun_eq_iff word_less_nat_alt)
qed

lemma strncpy_cstr:
  assumes "cstr m src xs" and "separate dest src n"
  shows "strncpy dest src n m = (dest, \<lambda>a. if a - dest < n
      then (if unat (a - dest) < length xs then m (src + (a - dest)) else 0) else m a)"
proof -
  obtain j where "strncpy_copy 0 n dest src m = (j, copied dest src (unat j) m)" "unat j = min (length xs) (unat n)"
    using strncpy_copy_copied [OF assms, of 0] by auto
  then show ?thesis by (auto simp: strncpy_def strncpy_pad_eq copied_def fun_eq_iff word_less_nat_alt)
qed

lemma strchr_found:
  assumes "cstr m p (ys @ c # zs)" and "c \<notin> set ys"
  shows "strchr_loop p c m = Some (p + of_nat (length ys)) \<and> m (p + of_nat (length ys)) = c"
  using assms by (induction ys arbitrary: p; subst strchr_loop.simps) (auto simp flip: add.assoc)

lemma strchr_absent: "cstr m p xs \<Longrightarrow> c \<notin> set xs \<Longrightarrow> strchr_loop p c m = Some (p + of_nat (length xs))"
  by (induction xs arbitrary: p; subst strchr_loop.simps) (auto simp: add.assoc)

lemma strrchr_absent: "cstr m p xs \<Longrightarrow> c \<notin> set xs \<Longrightarrow> c \<noteq> 0 \<Longrightarrow> strrchr_loop p c l m = Some l"
  by (induction xs arbitrary: p; subst strrchr_loop.simps) auto

lemma strrchr_found:
  assumes "cstr m p (ys @ c # zs)" and "c \<notin> set zs"
  shows "strrchr_loop p c l m = Some (p + of_nat (length ys))"
  using assms
proof (induction ys arbitrary: p l)
  case Nil
  then show ?case using strrchr_absent [of m "p + 1" zs c p] by (subst strrchr_loop.simps) simp
next
  case (Cons y ys)
  then show ?case by (subst strrchr_loop.simps) (simp add: add.assoc)
qed

text \<open>
  \<^verbatim>\<open>strchr\<close> finds the first and \<^verbatim>\<open>strrchr\<close> the last place of a character in a string, and both answer \<open>NULL\<close>
  when it does not occur.
\<close>

theorem string_search:
  assumes "cstr m p xs" and "p \<noteq> 0" and "ucast c = x" and "x \<noteq> 0"
  shows "(x \<notin> set xs \<longrightarrow> strchr p c m = Some 0 \<and> strrchr p c m = Some 0)
    \<and> (\<forall>ys zs. xs = ys @ x # zs \<and> x \<notin> set ys \<longrightarrow> strchr p c m = Some (p + of_nat (length ys)))
    \<and> (\<forall>ys zs. xs = ys @ x # zs \<and> x \<notin> set zs \<longrightarrow> strrchr p c m = Some (p + of_nat (length ys)))"
  using assms strchr_found [of m p _ x] strchr_absent [of m p xs x] strrchr_found [of m p _ x] strrchr_absent [of m p xs x]
    cstr_end [OF assms(1)]
  by (auto simp: strchr_def strrchr_def)

section \<open>The string to number conversion\<close>

lemma skip_space_returns: "skip_space p m = Some r \<Longrightarrow> \<not> isspace (sint (m p))"
  by (induction rule: skip_space.raw_induct [rotated, consumes 1]) (auto split: if_splits)

definition digit :: "u8 \<Rightarrow> bool" where
  "digit x \<longleftrightarrow> 48 \<le> sint x \<and> sint x \<le> 57"

definition digits_value :: "u8 list \<Rightarrow> u32 \<Rightarrow> u32" where
  "digits_value xs n = foldl (\<lambda>n x. n * 10 + (scast x - 48)) n (filter digit xs)"

lemma atoi_loop_cstr: "cstr m p xs \<Longrightarrow> atoi_loop p n m = Some (digits_value xs n)"
  by (induction xs arbitrary: p n; subst atoi_loop.simps) (auto simp: digits_value_def digit_def)

text \<open>
  \<^verbatim>\<open>atoi\<close> never returns on a string that starts with a white space, with a control or non-ASCII character, or that is
  empty: it spins on the first character. On any other string it returns the decimal value modulo \<open>2 ^ 32\<close> of
  all its digits, other characters skipped, negated when the string starts with a minus sign.
\<close>

theorem atoi_result:
  assumes "cstr m p xs"
  shows "atoi p m = (if xs = [] \<or> sint (hd xs) < 14 \<or> hd xs = 32 then None
    else Some (digits_value xs 0 * (if hd xs = 45 then - 1 else 1)))"
proof -
  have first: "m p = (if xs = [] then 0 else hd xs)" using assms by (cases xs) auto
  have sp: "isspace (sint (m p)) \<longleftrightarrow> xs = [] \<or> sint (hd xs) < 14 \<or> hd xs = 32"
    using first sint_eq_iff [of "hd xs" 32] by (auto simp: isspace_def)
  show ?thesis
  proof (cases "isspace (sint (m p))")
    case True
    then have "skip_space p m = None" using skip_space_returns [of p m] by (cases "skip_space p m") auto
    then show ?thesis using True sp by (simp add: atoi_def)
  next
    case False
    then have "skip_space p m = Some ()" by (subst skip_space.simps) simp
    then show ?thesis using False sp first atoi_loop_cstr [OF assms, of 0] by (simp add: atoi_def)
  qed
qed

theorem atoi_result_witness:
  "atoi 16 ((\<lambda>_. 0)(16 := 45, 17 := 49, 18 := 50)) = Some (- 12) \<and> atoi 32 ((\<lambda>_. 0)(16 := 45, 17 := 49, 18 := 50)) = None"
  using atoi_result [of "(\<lambda>_. 0)(16 := 45, 17 := 49, 18 := 50)" 16 "[45, 49, 50]"]
    atoi_result [of "(\<lambda>_. 0)(16 := 45, 17 := 49, 18 := 50)" 32 "[]"]
  by (simp add: digits_value_def digit_def)

text \<open>\<^verbatim>\<open>strcasecmp\<close> does not look at the first characters.\<close>

lemma strcasecmp_ignores_first:
  assumes "cstr m p (x # xs)" and "cstr m q (y # xs)" and "p \<noteq> 0" and "q \<noteq> 0"
  shows "strcasecmp p q m = Some 0"
proof -
  have "cstr m (p + 1) xs \<Longrightarrow> cstr m (q + 1) xs \<Longrightarrow> strcasecmp_loop p q m = Some 0" for p q
  proof (induction xs arbitrary: p q)
    case Nil
    then show ?case by (subst strcasecmp_loop.simps) (simp add: toupper_def isalpha_def)
  next
    case (Cons z zs)
    then show ?case by (subst strcasecmp_loop.simps) (auto simp: Let_def)
  qed
  then show ?thesis using assms by (simp add: strcasecmp_def)
qed

end
