(* ===== verification/Libk_Rbtree.thy ===== *)
theory Libk_Rbtree
  imports Main "HOL-Library.Monad_Syntax"
begin

text \<open>
  Red-black trees with parent pointers: \<^verbatim>\<open>src/kernel/libk/rbtree.c\<close> and \<^verbatim>\<open>rbtree.h\<close>. Nodes live in a store; address 0 is \<^verbatim>\<open>NULL\<close>,
  and what the store holds there is arbitrary. Parent and colour, packed in one word in the code, are two
  fields. A loop that climbs the tree is a partial function; not returning is \<open>None\<close>.
\<close>

section \<open>Model\<close>

type_synonym addr = nat

datatype rb_colour = RB_RED | RB_BLACK

record rb_node =
  rb_parent :: addr
  rb_color :: rb_colour
  rb_right :: addr
  rb_left :: addr

record rb_root =
  nodes :: "addr \<Rightarrow> rb_node"
  rb_top :: addr

definition rb_set_parent :: "addr \<Rightarrow> addr \<Rightarrow> rb_root \<Rightarrow> rb_root" where
  "rb_set_parent rb p S = S\<lparr>nodes := (nodes S)(rb := (nodes S rb)\<lparr>rb_parent := p\<rparr>)\<rparr>"

definition rb_set_color :: "addr \<Rightarrow> rb_colour \<Rightarrow> rb_root \<Rightarrow> rb_root" where
  "rb_set_color rb c S = S\<lparr>nodes := (nodes S)(rb := (nodes S rb)\<lparr>rb_color := c\<rparr>)\<rparr>"

abbreviation "rb_set_red rb \<equiv> rb_set_color rb RB_RED"
abbreviation "rb_set_black rb \<equiv> rb_set_color rb RB_BLACK"

definition set_left :: "addr \<Rightarrow> addr \<Rightarrow> rb_root \<Rightarrow> rb_root" where
  "set_left rb p S = S\<lparr>nodes := (nodes S)(rb := (nodes S rb)\<lparr>rb_left := p\<rparr>)\<rparr>"

definition set_right :: "addr \<Rightarrow> addr \<Rightarrow> rb_root \<Rightarrow> rb_root" where
  "set_right rb p S = S\<lparr>nodes := (nodes S)(rb := (nodes S rb)\<lparr>rb_right := p\<rparr>)\<rparr>"

definition rb_is_red :: "rb_root \<Rightarrow> addr \<Rightarrow> bool" where
  "rb_is_red S rb \<longleftrightarrow> rb_color (nodes S rb) = RB_RED"

text \<open>\<^verbatim>\<open>rb_link_node\<close>: \<open>link\<close> tells which pointer \<^verbatim>\<open>*rb_link\<close> is: the root, or a child pointer of the parent.\<close>

datatype rb_link = Top | LeftOf addr | RightOf addr

fun set_link :: "rb_link \<Rightarrow> addr \<Rightarrow> rb_root \<Rightarrow> rb_root" where
  "set_link Top p S = S\<lparr>rb_top := p\<rparr>"
| "set_link (LeftOf a) p S = set_left a p S"
| "set_link (RightOf a) p S = set_right a p S"

definition rb_link_node :: "addr \<Rightarrow> addr \<Rightarrow> rb_link \<Rightarrow> rb_root \<Rightarrow> rb_root" where
  "rb_link_node node parent link S =
     set_link link node
       (S\<lparr>nodes := (nodes S)(node := \<lparr>rb_parent = parent, rb_color = RB_RED, rb_right = 0, rb_left = 0\<rparr>)\<rparr>)"

text \<open>\<^verbatim>\<open>if (child) rb_set_parent(child, node)\<close>\<close>

definition adopt :: "addr \<Rightarrow> addr \<Rightarrow> rb_root \<Rightarrow> rb_root" where
  "adopt child node S = (if child \<noteq> 0 then rb_set_parent child node S else S)"

text \<open>The pointer to \<open>old\<close>, in its parent or at the top, is redirected; the left child or the right child is tested first.\<close>

definition redirect :: "addr \<Rightarrow> addr \<Rightarrow> addr \<Rightarrow> rb_root \<Rightarrow> rb_root" where
  "redirect parent old new S =
     (if parent \<noteq> 0
      then if rb_left (nodes S parent) = old then set_left parent new S else set_right parent new S
      else S\<lparr>rb_top := new\<rparr>)"

definition redirect_right :: "addr \<Rightarrow> addr \<Rightarrow> addr \<Rightarrow> rb_root \<Rightarrow> rb_root" where
  "redirect_right parent old new S =
     (if parent \<noteq> 0
      then if rb_right (nodes S parent) = old then set_right parent new S else set_left parent new S
      else S\<lparr>rb_top := new\<rparr>)"

definition rb_rotate_left :: "addr \<Rightarrow> rb_root \<Rightarrow> rb_root" where
  "rb_rotate_left node S =
     (let right = rb_right (nodes S node);
          parent = rb_parent (nodes S node);
          child = rb_left (nodes S right)
      in rb_set_parent node right
           (redirect parent node right
             (rb_set_parent right parent
               (set_left right node (adopt child node (set_right node child S))))))"

definition rb_rotate_right :: "addr \<Rightarrow> rb_root \<Rightarrow> rb_root" where
  "rb_rotate_right node S =
     (let left = rb_left (nodes S node);
          parent = rb_parent (nodes S node);
          child = rb_right (nodes S left)
      in rb_set_parent node left
           (redirect_right parent node left
             (rb_set_parent left parent
               (set_right left node (adopt child node (set_left node child S))))))"

text \<open>The end of an iteration of \<^verbatim>\<open>rb_insert_color\<close> when the uncle is not red, by the side of the parent; it leaves the next node.\<close>

definition insert_fix_left :: "addr \<Rightarrow> addr \<Rightarrow> addr \<Rightarrow> rb_root \<Rightarrow> addr \<times> rb_root" where
  "insert_fix_left node parent gparent S =
     (let (parent, node, S) =
        (if rb_right (nodes S parent) = node then (node, parent, rb_rotate_left parent S) else (parent, node, S))
      in (node, rb_rotate_right gparent (rb_set_red gparent (rb_set_black parent S))))"

definition insert_fix_right :: "addr \<Rightarrow> addr \<Rightarrow> addr \<Rightarrow> rb_root \<Rightarrow> addr \<times> rb_root" where
  "insert_fix_right node parent gparent S =
     (let (parent, node, S) =
        (if rb_left (nodes S parent) = node then (node, parent, rb_rotate_right parent S) else (parent, node, S))
      in (node, rb_rotate_left gparent (rb_set_red gparent (rb_set_black parent S))))"

partial_function (option) insert_loop :: "addr \<Rightarrow> rb_root \<Rightarrow> rb_root option" where
  "insert_loop node S =
     (let parent = rb_parent (nodes S node)
      in if parent \<noteq> 0 \<and> rb_is_red S parent
         then let gparent = rb_parent (nodes S parent)
              in if parent = rb_left (nodes S gparent)
                 then let uncle = rb_right (nodes S gparent)
                      in if uncle \<noteq> 0 \<and> rb_is_red S uncle
                         then insert_loop gparent (rb_set_red gparent (rb_set_black parent (rb_set_black uncle S)))
                         else let (node, S) = insert_fix_left node parent gparent S in insert_loop node S
                 else let uncle = rb_left (nodes S gparent)
                      in if uncle \<noteq> 0 \<and> rb_is_red S uncle
                         then insert_loop gparent (rb_set_red gparent (rb_set_black parent (rb_set_black uncle S)))
                         else let (node, S) = insert_fix_right node parent gparent S in insert_loop node S
         else Some S)"

definition rb_insert_color :: "addr \<Rightarrow> rb_root \<Rightarrow> rb_root option" where
  "rb_insert_color node S = do { S \<leftarrow> insert_loop node S; Some (rb_set_black (rb_top S) S) }"

text \<open>\<^verbatim>\<open>__rb_erase_color\<close>: the last case of an iteration, by the side of the node.\<close>

definition black_or_null :: "rb_root \<Rightarrow> addr \<Rightarrow> bool" where
  "black_or_null S a \<longleftrightarrow> a = 0 \<or> \<not> rb_is_red S a"

definition erase_fix_left :: "addr \<Rightarrow> addr \<Rightarrow> rb_root \<Rightarrow> rb_root" where
  "erase_fix_left other parent S =
     (let (other, S) =
        (if black_or_null S (rb_right (nodes S other))
         then let S = rb_set_black (rb_left (nodes S other)) S;
                  S = rb_set_red other S;
                  S = rb_rotate_right other S
              in (rb_right (nodes S parent), S)
         else (other, S));
          S = rb_set_color other (rb_color (nodes S parent)) S;
          S = rb_set_black parent S;
          S = rb_set_black (rb_right (nodes S other)) S
      in rb_rotate_left parent S)"

definition erase_fix_right :: "addr \<Rightarrow> addr \<Rightarrow> rb_root \<Rightarrow> rb_root" where
  "erase_fix_right other parent S =
     (let (other, S) =
        (if black_or_null S (rb_left (nodes S other))
         then let S = rb_set_black (rb_right (nodes S other)) S;
                  S = rb_set_red other S;
                  S = rb_rotate_left other S
              in (rb_left (nodes S parent), S)
         else (other, S));
          S = rb_set_color other (rb_color (nodes S parent)) S;
          S = rb_set_black parent S;
          S = rb_set_black (rb_left (nodes S other)) S
      in rb_rotate_right parent S)"

text \<open>The sibling of the node; a red one is rotated away first.\<close>

definition erase_sibling_left :: "addr \<Rightarrow> rb_root \<Rightarrow> addr \<times> rb_root" where
  "erase_sibling_left parent S =
     (let other = rb_right (nodes S parent)
      in if rb_is_red S other
         then let S = rb_rotate_left parent (rb_set_red parent (rb_set_black other S)) in (rb_right (nodes S parent), S)
         else (other, S))"

definition erase_sibling_right :: "addr \<Rightarrow> rb_root \<Rightarrow> addr \<times> rb_root" where
  "erase_sibling_right parent S =
     (let other = rb_left (nodes S parent)
      in if rb_is_red S other
         then let S = rb_rotate_right parent (rb_set_red parent (rb_set_black other S)) in (rb_left (nodes S parent), S)
         else (other, S))"

partial_function (option) erase_loop :: "addr \<Rightarrow> addr \<Rightarrow> rb_root \<Rightarrow> (addr \<times> rb_root) option" where
  "erase_loop node parent S =
     (if black_or_null S node \<and> node \<noteq> rb_top S
      then if rb_left (nodes S parent) = node
           then case erase_sibling_left parent S of (other, S) \<Rightarrow>
                  if black_or_null S (rb_left (nodes S other)) \<and> black_or_null S (rb_right (nodes S other))
                  then let S = rb_set_red other S in erase_loop parent (rb_parent (nodes S parent)) S
                  else let S = erase_fix_left other parent S in Some (rb_top S, S)
           else case erase_sibling_right parent S of (other, S) \<Rightarrow>
                  if black_or_null S (rb_left (nodes S other)) \<and> black_or_null S (rb_right (nodes S other))
                  then let S = rb_set_red other S in erase_loop parent (rb_parent (nodes S parent)) S
                  else let S = erase_fix_right other parent S in Some (rb_top S, S)
      else Some (node, S))"

definition rb_erase_color :: "addr \<Rightarrow> addr \<Rightarrow> rb_root \<Rightarrow> rb_root option" where
  "rb_erase_color node parent S = do {
     (node, S) \<leftarrow> erase_loop node parent S;
     Some (if node \<noteq> 0 then rb_set_black node S else S) }"

partial_function (option) leftmost :: "addr \<Rightarrow> rb_root \<Rightarrow> addr option" where
  "leftmost n S = (let left = rb_left (nodes S n) in if left \<noteq> 0 then leftmost left S else Some n)"

partial_function (option) rightmost :: "addr \<Rightarrow> rb_root \<Rightarrow> addr option" where
  "rightmost n S = (let right = rb_right (nodes S n) in if right \<noteq> 0 then rightmost right S else Some n)"

text \<open>
  \<^verbatim>\<open>rb_erase\<close> of a node \<open>old\<close> with two children puts its successor \<open>node\<close> in its place; it leaves the parent from which the colours
  are restored.
\<close>

definition erase_relink :: "addr \<Rightarrow> addr \<Rightarrow> rb_root \<Rightarrow> addr \<times> rb_root" where
  "erase_relink old node S =
     (let S = redirect (rb_parent (nodes S old)) old node S;
          child = rb_right (nodes S node);
          parent = rb_parent (nodes S node);
          (parent, S) =
            (if parent = old then (node, S)
             else let S = set_left parent child (adopt child parent S);
                      S = set_right node (rb_right (nodes S old)) S
                  in (parent, rb_set_parent (rb_right (nodes S old)) node S));
          S = rb_set_color node (rb_color (nodes S old)) (rb_set_parent node (rb_parent (nodes S old)) S);
          S = set_left node (rb_left (nodes S old)) S
      in (parent, rb_set_parent (rb_left (nodes S old)) node S))"

definition rb_erase :: "addr \<Rightarrow> rb_root \<Rightarrow> rb_root option" where
  "rb_erase node S =
     (if rb_left (nodes S node) \<noteq> 0 \<and> rb_right (nodes S node) \<noteq> 0
      then do {
        let old = node;
        node \<leftarrow> leftmost (rb_right (nodes S old)) S;
        let child = rb_right (nodes S node);
        let color = rb_color (nodes S node);
        let (parent, S) = erase_relink old node S;
        if color = RB_BLACK then rb_erase_color child parent S else Some S }
      else do {
        let child = (if rb_left (nodes S node) = 0 then rb_right (nodes S node) else rb_left (nodes S node));
        let parent = rb_parent (nodes S node);
        let color = rb_color (nodes S node);
        let S = redirect parent node child (adopt child parent S);
        if color = RB_BLACK then rb_erase_color child parent S else Some S })"

definition rb_first :: "rb_root \<Rightarrow> addr option" where
  "rb_first S = (if rb_top S = 0 then Some 0 else leftmost (rb_top S) S)"

definition rb_last :: "rb_root \<Rightarrow> addr option" where
  "rb_last S = (if rb_top S = 0 then Some 0 else rightmost (rb_top S) S)"

partial_function (option) climb_right :: "addr \<Rightarrow> rb_root \<Rightarrow> addr option" where
  "climb_right node S =
     (let parent = rb_parent (nodes S node)
      in if parent \<noteq> 0 \<and> node = rb_right (nodes S parent) then climb_right parent S else Some parent)"

partial_function (option) climb_left :: "addr \<Rightarrow> rb_root \<Rightarrow> addr option" where
  "climb_left node S =
     (let parent = rb_parent (nodes S node)
      in if parent \<noteq> 0 \<and> node = rb_left (nodes S parent) then climb_left parent S else Some parent)"

definition rb_next :: "addr \<Rightarrow> rb_root \<Rightarrow> addr option" where
  "rb_next node S =
     (if rb_parent (nodes S node) = node then Some 0
      else if rb_right (nodes S node) \<noteq> 0 then leftmost (rb_right (nodes S node)) S
      else climb_right node S)"

definition rb_prev :: "addr \<Rightarrow> rb_root \<Rightarrow> addr option" where
  "rb_prev node S =
     (if rb_parent (nodes S node) = node then Some 0
      else if rb_left (nodes S node) \<noteq> 0 then rightmost (rb_left (nodes S node)) S
      else climb_left node S)"

definition rb_replace_node :: "addr \<Rightarrow> addr \<Rightarrow> rb_root \<Rightarrow> rb_root" where
  "rb_replace_node victim new S =
     (let parent = rb_parent (nodes S victim);
          S = redirect parent victim new S;
          S = adopt (rb_left (nodes S victim)) new S;
          S = adopt (rb_right (nodes S victim)) new S
      in S\<lparr>nodes := (nodes S)(new := nodes S victim)\<rparr>)"

declare insert_loop.simps [code] erase_loop.simps [code] leftmost.simps [code] rightmost.simps [code]
  climb_right.simps [code] climb_left.simps [code]

end
