(* ===== verification/Rbtree_Rep.thy ===== *)
theory Rbtree_Rep
  imports Libk_Rbtree
begin

text \<open>
  The trees that a store of \<^verbatim>\<open>rbtree.c\<close> nodes represents, seen from a node in the tree: a subtree and the path from it to the root. The
  lemmas say what each elementary operation of the code does to the tree at the focus; the fix-up loops are
  then followed by moving the focus.
\<close>

section \<open>Trees and paths\<close>

datatype rbt = Leaf | Node rb_colour rbt addr rbt

datatype side = L | R

text \<open>A path: for each node above the focus the side the focus is on, its colour, its address and its other subtree.\<close>

type_synonym path = "(side \<times> rb_colour \<times> addr \<times> rbt) list"

fun root_of :: "rbt \<Rightarrow> addr" where
  "root_of Leaf = 0"
| "root_of (Node c l a r) = a"

fun up_of :: "path \<Rightarrow> addr" where
  "up_of [] = 0"
| "up_of ((d, c, a, t) # C) = a"

fun plug :: "path \<Rightarrow> rbt \<Rightarrow> rbt" where
  "plug [] t = t"
| "plug ((L, c, a, sib) # C) t = plug C (Node c t a sib)"
| "plug ((R, c, a, sib) # C) t = plug C (Node c sib a t)"

fun addrs :: "rbt \<Rightarrow> addr list" where
  "addrs Leaf = []"
| "addrs (Node c l a r) = addrs l @ a # addrs r"

fun path_addrs :: "path \<Rightarrow> addr list" where
  "path_addrs [] = []"
| "path_addrs ((d, c, a, t) # C) = a # addrs t @ path_addrs C"

section \<open>Representation\<close>

fun tr :: "(addr \<Rightarrow> rb_node) \<Rightarrow> addr \<Rightarrow> rbt \<Rightarrow> bool" where
  "tr m p Leaf \<longleftrightarrow> True"
| "tr m p (Node c l a r) \<longleftrightarrow> a \<noteq> 0 \<and> m a = \<lparr>rb_parent = p, rb_color = c, rb_right = root_of r, rb_left = root_of l\<rparr> \<and> tr m a l \<and> tr m a r"

fun pa :: "(addr \<Rightarrow> rb_node) \<Rightarrow> addr \<Rightarrow> path \<Rightarrow> addr \<Rightarrow> bool" where
  "pa m rt [] h \<longleftrightarrow> rt = h"
| "pa m rt ((L, c, a, t) # C) h \<longleftrightarrow>
     a \<noteq> 0 \<and> m a = \<lparr>rb_parent = up_of C, rb_color = c, rb_right = root_of t, rb_left = h\<rparr> \<and> tr m a t \<and> pa m rt C a"
| "pa m rt ((R, c, a, t) # C) h \<longleftrightarrow>
     a \<noteq> 0 \<and> m a = \<lparr>rb_parent = up_of C, rb_color = c, rb_right = h, rb_left = root_of t\<rparr> \<and> tr m a t \<and> pa m rt C a"

definition rep :: "rb_root \<Rightarrow> path \<Rightarrow> rbt \<Rightarrow> bool" where
  "rep S C t \<longleftrightarrow> tr (nodes S) (up_of C) t \<and> pa (nodes S) (rb_top S) C (root_of t) \<and> distinct (addrs t @ path_addrs C)"

lemma rep_left: "rep S ((L, c, a, r) # C) l \<longleftrightarrow> rep S C (Node c l a r)"
  by (auto simp: rep_def)

lemma rep_right: "rep S ((R, c, a, l) # C) r \<longleftrightarrow> rep S C (Node c l a r)"
  by (auto simp: rep_def)

lemmas rep_move = rep_left rep_right

lemma rep_node:
  "rep S C (Node c l a r) \<Longrightarrow> nodes S a = \<lparr>rb_parent = up_of C, rb_color = c, rb_right = root_of r, rb_left = root_of l\<rparr> \<and> a \<noteq> 0"
  by (simp add: rep_def)

lemma rep_plug: "rep S C t \<longleftrightarrow> rep S [] (plug C t)"
  by (induction C t rule: plug.induct) (simp_all add: rep_move)

lemma rep_root: "rep S [] t \<Longrightarrow> rb_top S = root_of t"
  by (simp add: rep_def)

lemma tr_nz: "tr m p t \<Longrightarrow> 0 \<notin> set (addrs t)"
  by (induction m p t rule: tr.induct) auto

lemma top_in: "t \<noteq> Leaf \<Longrightarrow> root_of t \<in> set (addrs t)"
  by (cases t) auto

lemma tr_top_0: "tr m p t \<Longrightarrow> root_of t = 0 \<longleftrightarrow> t = Leaf"
  by (cases t) auto

lemma above_in: "C \<noteq> [] \<Longrightarrow> up_of C \<in> set (path_addrs C)"
  by (cases C) auto

lemma pa_nz: "pa m rt C h \<Longrightarrow> 0 \<notin> set (path_addrs C)"
  by (induction m rt C h rule: pa.induct) (auto dest: tr_nz)

lemma above_0: "pa m rt C h \<Longrightarrow> up_of C = 0 \<longleftrightarrow> C = []"
  by (induction m rt C h rule: pa.induct) auto

lemma tr_cong: "(\<And>a. a \<in> set (addrs t) \<Longrightarrow> m' a = m a) \<Longrightarrow> tr m' p t \<longleftrightarrow> tr m p t"
  by (induction t arbitrary: p) auto

lemma pa_cong: "(\<And>a. a \<in> set (path_addrs C) \<Longrightarrow> m' a = m a) \<Longrightarrow> pa m' rt C h \<longleftrightarrow> pa m rt C h"
proof (induction C arbitrary: h)
  case (Cons x C)
  obtain d c a t where x: "x = (d, c, a, t)" by (cases x)
  have "tr m' a t \<longleftrightarrow> tr m a t" using Cons.prems x by (intro tr_cong) auto
  moreover have "pa m' rt C a \<longleftrightarrow> pa m rt C a" using Cons.prems x by (intro Cons.IH) auto
  ultimately show ?case using Cons.prems [of a] x by (cases d) auto
qed simp

lemma tr_reparent:
  assumes "tr m p t" and "distinct (addrs t)" and "\<And>a. a \<in> set (addrs t) \<Longrightarrow> a \<noteq> root_of t \<Longrightarrow> m' a = m a"
    and "t \<noteq> Leaf \<Longrightarrow> m' (root_of t) = (m (root_of t))\<lparr>rb_parent := q\<rparr>"
  shows "tr m' q t"
proof (cases t)
  case (Node c l a r)
  then have "tr m' a l" "tr m' a r" using assms tr_cong [of l m' m a] tr_cong [of r m' m a] by auto
  then show ?thesis using Node assms(1,4) by simp
qed simp

text \<open>Redirecting the pointer above the focus, found by comparing one of the two child pointers.\<close>

definition child_set :: "addr \<Rightarrow> addr \<Rightarrow> rb_node \<Rightarrow> rb_node" where
  "child_set h g n = (if rb_left n = h then n\<lparr>rb_left := g\<rparr> else n\<lparr>rb_right := g\<rparr>)"

lemma pa_redirect:
  assumes "pa m rt C h" and "distinct (path_addrs C)" and "h \<notin> set (path_addrs C)" and "h = 0 \<Longrightarrow> C \<noteq> [] \<Longrightarrow> fst (hd C) = L"
    and "\<And>a. a \<in> set (path_addrs C) \<Longrightarrow> a \<noteq> up_of C \<Longrightarrow> m' a = m a"
    and "C \<noteq> [] \<Longrightarrow> m' (up_of C) = child_set h g (m (up_of C))" and "rt' = (if C = [] then g else rt)"
  shows "pa m' rt' C g"
proof (cases C)
  case (Cons x D)
  obtain d c a t where x: "x = (d, c, a, t)" by (cases x)
  have t: "root_of t \<noteq> h" if "d = R" using assms(3,4) Cons x that top_in [of t] by (cases t) auto
  have "tr m' a t" "pa m' rt D a"
    using assms(1,2,5) Cons x tr_cong [of t m' m a] pa_cong [of D m' m rt a] by (cases d; auto)+
  then show ?thesis using assms(1,6,7) Cons x t by (cases d) (auto simp: child_set_def)
qed (use assms(7) in simp)

lemma pa_child:
  assumes "pa m rt C h" and "C \<noteq> []" and "h \<noteq> 0" and "h \<notin> set (path_addrs C)"
  shows "h = rb_right (m (up_of C)) \<longleftrightarrow> h \<noteq> rb_left (m (up_of C))"
proof (cases C)
  case (Cons x D)
  obtain d c a t where x: "x = (d, c, a, t)" by (cases x)
  have "root_of t \<noteq> h" using assms(3,4) Cons x top_in [of t] by (cases t) auto
  then show ?thesis using assms(1) Cons x by (cases d) auto
qed (use assms in simp)

section \<open>Colours and rotations\<close>

lemmas rb_ops = rb_set_parent_def rb_set_color_def set_left_def set_right_def adopt_def redirect_def redirect_right_def

lemma rep_color:
  assumes "rep S C (Node c l a r)"
  shows "rep (rb_set_color a c' S) C (Node c' l a r)"
proof -
  have a: "a \<notin> set (addrs l)" "a \<notin> set (addrs r)" "a \<notin> set (path_addrs C)" using assms by (auto simp: rep_def)
  let ?m = "(nodes S)(a := (nodes S a)\<lparr>rb_color := c'\<rparr>)"
  have "tr ?m a l \<longleftrightarrow> tr (nodes S) a l" "tr ?m a r \<longleftrightarrow> tr (nodes S) a r" "pa ?m (rb_top S) C a \<longleftrightarrow> pa (nodes S) (rb_top S) C a"
    using a by (auto intro!: tr_cong pa_cong)
  then show ?thesis using assms by (simp add: rep_def rb_ops)
qed

lemma rotate_left_nodes:
  assumes "nodes S x = \<lparr>rb_parent = p, rb_color = c, rb_right = y, rb_left = xa\<rparr>" and "nodes S y = \<lparr>rb_parent = x, rb_color = d, rb_right = yd, rb_left = b\<rparr>"
    and "x \<noteq> y" and "b \<noteq> x" and "b \<noteq> y" and "p \<noteq> x" and "p \<noteq> y" and "p \<noteq> 0 \<longrightarrow> p \<noteq> b"
  shows "nodes (rb_rotate_left x S) = (\<lambda>a. if a = x then \<lparr>rb_parent = y, rb_color = c, rb_right = b, rb_left = xa\<rparr>
      else if a = y then \<lparr>rb_parent = p, rb_color = d, rb_right = yd, rb_left = x\<rparr>
      else if a = b \<and> b \<noteq> 0 then (nodes S b)\<lparr>rb_parent := x\<rparr>
      else if a = p \<and> p \<noteq> 0 then child_set x y (nodes S p) else nodes S a)"
    and "rb_top (rb_rotate_left x S) = (if p = 0 then y else rb_top S)"
proof -
  let ?S2 = "adopt b x (set_right x b S)" and ?S4 = "rb_set_parent y p (set_left y x (adopt b x (set_right x b S)))"
  let ?S5 = "redirect p x y ?S4"
  have rot: "rb_rotate_left x S = rb_set_parent x y ?S5"
    using assms(1,2) by (simp add: rb_rotate_left_def)
  have n2: "nodes ?S2 = (if b \<noteq> 0 then (nodes S)(x := \<lparr>rb_parent = p, rb_color = c, rb_right = b, rb_left = xa\<rparr>, b := (nodes S b)\<lparr>rb_parent := x\<rparr>)
      else (nodes S)(x := \<lparr>rb_parent = p, rb_color = c, rb_right = b, rb_left = xa\<rparr>))" "rb_top ?S2 = rb_top S"
    using assms(1,4) by (simp_all add: rb_ops)
  have n4: "nodes ?S4 = (nodes ?S2)(y := \<lparr>rb_parent = p, rb_color = d, rb_right = yd, rb_left = x\<rparr>)" "rb_top ?S4 = rb_top S"
    using assms(2,3,5) n2 by (simp_all add: rb_set_parent_def set_left_def)
  have "p \<noteq> 0 \<Longrightarrow> nodes ?S4 p = nodes S p" using assms(6-8) unfolding n4 n2 by simp
  then have n5: "nodes ?S5 = (if p \<noteq> 0 then (nodes ?S4)(p := child_set x y (nodes S p)) else nodes ?S4)"
      "rb_top ?S5 = (if p = 0 then y else rb_top S)"
    using n4(2) by (auto simp: redirect_def set_left_def set_right_def child_set_def)
  have "nodes ?S5 x = \<lparr>rb_parent = p, rb_color = c, rb_right = b, rb_left = xa\<rparr>" using assms(3,4,6) unfolding n5 n4 n2 by simp
  then have n6: "nodes (rb_rotate_left x S) = (nodes ?S5)(x := \<lparr>rb_parent = y, rb_color = c, rb_right = b, rb_left = xa\<rparr>)" "rb_top (rb_rotate_left x S) = rb_top ?S5"
    unfolding rot by (simp_all add: rb_set_parent_def [of x y])
  show "nodes (rb_rotate_left x S) = (\<lambda>a. if a = x then \<lparr>rb_parent = y, rb_color = c, rb_right = b, rb_left = xa\<rparr>
      else if a = y then \<lparr>rb_parent = p, rb_color = d, rb_right = yd, rb_left = x\<rparr>
      else if a = b \<and> b \<noteq> 0 then (nodes S b)\<lparr>rb_parent := x\<rparr>
      else if a = p \<and> p \<noteq> 0 then child_set x y (nodes S p) else nodes S a)"
    and "rb_top (rb_rotate_left x S) = (if p = 0 then y else rb_top S)"
    unfolding n6 n5 n4 n2 using assms(3-8) by (cases "b = 0"; cases "p = 0"; simp add: fun_eq_iff)+
qed

lemma rotate_right_nodes:
  assumes "nodes S x = \<lparr>rb_parent = p, rb_color = c, rb_right = xd, rb_left = y\<rparr>" and "nodes S y = \<lparr>rb_parent = x, rb_color = d, rb_right = b, rb_left = ya\<rparr>"
    and "x \<noteq> y" and "b \<noteq> x" and "b \<noteq> y" and "p \<noteq> x" and "p \<noteq> y" and "p \<noteq> 0 \<longrightarrow> p \<noteq> b"
    and "p \<noteq> 0 \<longrightarrow> (x = rb_right (nodes S p) \<longleftrightarrow> x \<noteq> rb_left (nodes S p))"
  shows "nodes (rb_rotate_right x S) = (\<lambda>a. if a = x then \<lparr>rb_parent = y, rb_color = c, rb_right = xd, rb_left = b\<rparr>
      else if a = y then \<lparr>rb_parent = p, rb_color = d, rb_right = x, rb_left = ya\<rparr>
      else if a = b \<and> b \<noteq> 0 then (nodes S b)\<lparr>rb_parent := x\<rparr>
      else if a = p \<and> p \<noteq> 0 then child_set x y (nodes S p) else nodes S a)"
    and "rb_top (rb_rotate_right x S) = (if p = 0 then y else rb_top S)"
proof -
  let ?S2 = "adopt b x (set_left x b S)" and ?S4 = "rb_set_parent y p (set_right y x (adopt b x (set_left x b S)))"
  let ?S5 = "redirect_right p x y ?S4"
  have rot: "rb_rotate_right x S = rb_set_parent x y ?S5"
    using assms(1,2) by (simp add: rb_rotate_right_def)
  have n2: "nodes ?S2 = (if b \<noteq> 0 then (nodes S)(x := \<lparr>rb_parent = p, rb_color = c, rb_right = xd, rb_left = b\<rparr>, b := (nodes S b)\<lparr>rb_parent := x\<rparr>)
      else (nodes S)(x := \<lparr>rb_parent = p, rb_color = c, rb_right = xd, rb_left = b\<rparr>))" "rb_top ?S2 = rb_top S"
    using assms(1,4) by (simp_all add: rb_ops)
  have n4: "nodes ?S4 = (nodes ?S2)(y := \<lparr>rb_parent = p, rb_color = d, rb_right = x, rb_left = ya\<rparr>)" "rb_top ?S4 = rb_top S"
    using assms(2,3,5) n2 by (simp_all add: rb_set_parent_def set_right_def)
  have "p \<noteq> 0 \<Longrightarrow> nodes ?S4 p = nodes S p" using assms(6-8) unfolding n4 n2 by simp
  then have n5: "nodes ?S5 = (if p \<noteq> 0 then (nodes ?S4)(p := child_set x y (nodes S p)) else nodes ?S4)"
      "rb_top ?S5 = (if p = 0 then y else rb_top S)"
    using n4(2) assms(9) by (auto simp: redirect_right_def set_left_def set_right_def child_set_def)
  have "nodes ?S5 x = \<lparr>rb_parent = p, rb_color = c, rb_right = xd, rb_left = b\<rparr>" using assms(3,4,6) unfolding n5 n4 n2 by simp
  then have n6: "nodes (rb_rotate_right x S) = (nodes ?S5)(x := \<lparr>rb_parent = y, rb_color = c, rb_right = xd, rb_left = b\<rparr>)" "rb_top (rb_rotate_right x S) = rb_top ?S5"
    unfolding rot by (simp_all add: rb_set_parent_def [of x y])
  show "nodes (rb_rotate_right x S) = (\<lambda>a. if a = x then \<lparr>rb_parent = y, rb_color = c, rb_right = xd, rb_left = b\<rparr>
      else if a = y then \<lparr>rb_parent = p, rb_color = d, rb_right = x, rb_left = ya\<rparr>
      else if a = b \<and> b \<noteq> 0 then (nodes S b)\<lparr>rb_parent := x\<rparr>
      else if a = p \<and> p \<noteq> 0 then child_set x y (nodes S p) else nodes S a)"
    and "rb_top (rb_rotate_right x S) = (if p = 0 then y else rb_top S)"
    unfolding n6 n5 n4 n2 using assms(3-8) by (cases "b = 0"; cases "p = 0"; simp add: fun_eq_iff)+
qed

lemma rep_rotate_left:
  assumes "rep S C (Node c A x (Node d B y D))"
  shows "rep (rb_rotate_left x S) C (Node d (Node c A x B) y D)"
proof -
  let ?S = "rb_rotate_left x S"
  have f: "nodes S x = \<lparr>rb_parent = up_of C, rb_color = c, rb_right = y, rb_left = root_of A\<rparr>"
      "nodes S y = \<lparr>rb_parent = x, rb_color = d, rb_right = root_of D, rb_left = root_of B\<rparr>"
      "tr (nodes S) x A" "tr (nodes S) y B" "tr (nodes S) y D" "pa (nodes S) (rb_top S) C x" "x \<noteq> 0" "y \<noteq> 0"
    and ds: "distinct (addrs A @ x # addrs B @ y # addrs D @ path_addrs C)" using assms by (auto simp: rep_def)
  have B: "root_of B \<noteq> 0 \<longleftrightarrow> B \<noteq> Leaf" "B \<noteq> Leaf \<Longrightarrow> root_of B \<in> set (addrs B)" using tr_top_0 [OF f(4)] top_in [of B] by auto
  have P: "up_of C \<noteq> 0 \<longleftrightarrow> C \<noteq> []" "C \<noteq> [] \<Longrightarrow> up_of C \<in> set (path_addrs C)" using above_0 [OF f(6)] above_in by auto
  have ne: "x \<noteq> y" "root_of B \<noteq> x" "root_of B \<noteq> y" "up_of C \<noteq> x" "up_of C \<noteq> y" "up_of C \<noteq> 0 \<longrightarrow> up_of C \<noteq> root_of B"
    using ds B P f(7,8) by (cases "B = Leaf"; cases "C = []"; auto)+
  note n = rotate_left_nodes [OF f(1,2) ne]
  have same: "nodes ?S a = nodes S a" if "a \<noteq> x" "a \<noteq> y" "a \<noteq> root_of B" "a \<noteq> up_of C" for a using n(1) that by simp
  have tA: "tr (nodes ?S) x A"
    using f(3) ds B P tr_nz [OF f(3)] by (subst tr_cong [of A _ "nodes S"]) (auto intro!: same)
  have tD: "tr (nodes ?S) y D"
    using f(5) ds B P tr_nz [OF f(5)] by (subst tr_cong [of D _ "nodes S"]) (auto intro!: same)
  have tB: "tr (nodes ?S) x B"
    using ds B P tr_nz [OF f(4)] by (intro tr_reparent [OF f(4)]) (auto simp: n(1) intro!: same)
  have pC: "pa (nodes ?S) (rb_top ?S) C y"
    using ds B P ne f(7) pa_nz [OF f(6)] by (intro pa_redirect [OF f(6)]) (auto simp: n intro!: same)
  have "nodes ?S x = \<lparr>rb_parent = y, rb_color = c, rb_right = root_of B, rb_left = root_of A\<rparr>" "nodes ?S y = \<lparr>rb_parent = up_of C, rb_color = d, rb_right = root_of D, rb_left = x\<rparr>"
    using n(1) ne by simp_all
  then show ?thesis using tA tB tD pC f(7,8) ds by (auto simp: rep_def)
qed

lemma rep_rotate_right:
  assumes "rep S C (Node c (Node d A y B) x D)"
  shows "rep (rb_rotate_right x S) C (Node d A y (Node c B x D))"
proof -
  let ?S = "rb_rotate_right x S"
  have f: "nodes S x = \<lparr>rb_parent = up_of C, rb_color = c, rb_right = root_of D, rb_left = y\<rparr>"
      "nodes S y = \<lparr>rb_parent = x, rb_color = d, rb_right = root_of B, rb_left = root_of A\<rparr>"
      "tr (nodes S) y A" "tr (nodes S) y B" "tr (nodes S) x D" "pa (nodes S) (rb_top S) C x" "x \<noteq> 0" "y \<noteq> 0"
    and ds: "distinct (addrs A @ y # addrs B @ x # addrs D @ path_addrs C)" using assms by (auto simp: rep_def)
  have B: "root_of B \<noteq> 0 \<longleftrightarrow> B \<noteq> Leaf" "B \<noteq> Leaf \<Longrightarrow> root_of B \<in> set (addrs B)" using tr_top_0 [OF f(4)] top_in [of B] by auto
  have P: "up_of C \<noteq> 0 \<longleftrightarrow> C \<noteq> []" "C \<noteq> [] \<Longrightarrow> up_of C \<in> set (path_addrs C)" using above_0 [OF f(6)] above_in by auto
  have ne: "x \<noteq> y" "root_of B \<noteq> x" "root_of B \<noteq> y" "up_of C \<noteq> x" "up_of C \<noteq> y" "up_of C \<noteq> 0 \<longrightarrow> up_of C \<noteq> root_of B"
    using ds B P f(7,8) by (cases "B = Leaf"; cases "C = []"; auto)+
  have ch: "up_of C \<noteq> 0 \<longrightarrow> (x = rb_right (nodes S (up_of C)) \<longleftrightarrow> x \<noteq> rb_left (nodes S (up_of C)))"
    using pa_child [OF f(6) _ f(7)] ds above_0 [OF f(6)] by auto
  note n = rotate_right_nodes [OF f(1,2) ne ch]
  have same: "nodes ?S a = nodes S a" if "a \<noteq> x" "a \<noteq> y" "a \<noteq> root_of B" "a \<noteq> up_of C" for a using n(1) that by simp
  have tA: "tr (nodes ?S) y A"
    using f(3) ds B P tr_nz [OF f(3)] by (subst tr_cong [of A _ "nodes S"]) (auto intro!: same)
  have tD: "tr (nodes ?S) x D"
    using f(5) ds B P tr_nz [OF f(5)] by (subst tr_cong [of D _ "nodes S"]) (auto intro!: same)
  have tB: "tr (nodes ?S) x B"
    using ds B P tr_nz [OF f(4)] by (intro tr_reparent [OF f(4)]) (auto simp: n(1) intro!: same)
  have pC: "pa (nodes ?S) (rb_top ?S) C y"
    using ds B P ne f(7) pa_nz [OF f(6)] by (intro pa_redirect [OF f(6)]) (auto simp: n intro!: same)
  have "nodes ?S x = \<lparr>rb_parent = y, rb_color = c, rb_right = root_of D, rb_left = root_of B\<rparr>" "nodes ?S y = \<lparr>rb_parent = up_of C, rb_color = d, rb_right = x, rb_left = root_of A\<rparr>"
    using n(1) ne by simp_all
  then show ?thesis using tA tB tD pC f(7,8) ds by (auto simp: rep_def)
qed

end
