(* ===== verification/Rbtree_Insert.thy ===== *)
theory Rbtree_Insert
  imports Rbtree_Rep
begin

text \<open>
  Insertion in the red-black trees of \<^verbatim>\<open>rbtree.c\<close>: the colour and balance rules, on trees and on paths, and the proof that
  \<^verbatim>\<open>rb_link_node\<close> followed by \<^verbatim>\<open>rb_insert_color\<close> returns a red-black tree that has the new node in the linked place.
\<close>

section \<open>Colour and balance\<close>

fun col :: "rbt \<Rightarrow> rb_colour" where
  "col Leaf = RB_BLACK"
| "col (Node c l a r) = c"

fun invc :: "rbt \<Rightarrow> bool" where
  "invc Leaf \<longleftrightarrow> True"
| "invc (Node c l a r) \<longleftrightarrow> (c = RB_RED \<longrightarrow> col l = RB_BLACK \<and> col r = RB_BLACK) \<and> invc l \<and> invc r"

text \<open>\<open>bh t n\<close>: every way down from the root of \<open>t\<close> has \<open>n\<close> black nodes.\<close>

fun bh :: "rbt \<Rightarrow> nat \<Rightarrow> bool" where
  "bh Leaf n \<longleftrightarrow> n = 0"
| "bh (Node RB_RED l a r) n \<longleftrightarrow> bh l n \<and> bh r n"
| "bh (Node RB_BLACK l a r) n \<longleftrightarrow> (case n of 0 \<Rightarrow> False | Suc k \<Rightarrow> bh l k \<and> bh r k)"

definition rb_ok :: "rbt \<Rightarrow> bool" where
  "rb_ok t \<longleftrightarrow> invc t \<and> (\<exists>n. bh t n) \<and> col t = RB_BLACK"

fun up_col :: "path \<Rightarrow> rb_colour" where
  "up_col [] = RB_BLACK"
| "up_col ((d, c, a, s) # C) = c"

text \<open>\<open>path_ok C n\<close>: the path obeys the rules when a tree of black height \<open>n\<close> is put at its end.\<close>

fun path_ok :: "path \<Rightarrow> nat \<Rightarrow> bool" where
  "path_ok [] n \<longleftrightarrow> True"
| "path_ok ((d, c, a, s) # C) n \<longleftrightarrow> invc s \<and> bh s n \<and> (c = RB_RED \<longrightarrow> col s = RB_BLACK \<and> C \<noteq> [] \<and> up_col C = RB_BLACK)
     \<and> path_ok C (if c = RB_BLACK then Suc n else n)"

lemma not_red [simp]: "c \<noteq> RB_RED \<longleftrightarrow> c = RB_BLACK" "c \<noteq> RB_BLACK \<longleftrightarrow> c = RB_RED"
  by (cases c; simp)+

lemma bh_node: "bh (Node c l a r) n \<longleftrightarrow> (if c = RB_RED then bh l n \<and> bh r n else (\<exists>k. n = Suc k \<and> bh l k \<and> bh r k))"
  by (cases c; cases n) auto

lemma bh_black [simp]: "bh (Node RB_BLACK l a r) (Suc k) \<longleftrightarrow> bh l k \<and> bh r k"
  by simp

lemma bh_black_iff: "bh (Node RB_BLACK l a r) n \<longleftrightarrow> (\<exists>k. n = Suc k \<and> bh l k \<and> bh r k)"
  by (cases n) auto

lemma plug_ok_iff:
  "rb_ok (plug C t) \<longleftrightarrow> (\<exists>n. path_ok C n \<and> invc t \<and> bh t n \<and> (C = [] \<or> up_col C = RB_RED \<longrightarrow> col t = RB_BLACK))"
proof (induction C arbitrary: t)
  case (Cons e C)
  obtain d c a s where e: "e = (d, c, a, s)" by (cases e)
  let ?t = "if d = L then Node c t a s else Node c s a t"
  have "rb_ok (plug (e # C) t) \<longleftrightarrow> (\<exists>n. path_ok C n \<and> invc ?t \<and> bh ?t n \<and> (C = [] \<or> up_col C = RB_RED \<longrightarrow> c = RB_BLACK))"
    using Cons.IH [of ?t] e by (cases d) simp_all
  also have "\<dots> \<longleftrightarrow> (\<exists>n. path_ok (e # C) n \<and> invc t \<and> bh t n \<and> (c = RB_RED \<longrightarrow> col t = RB_BLACK))"
  proof (cases c)
    case RB_RED
    then show ?thesis unfolding e by (cases d) (simp_all, blast+)
  next
    case RB_BLACK
    then show ?thesis unfolding e RB_BLACK by (cases d) (simp_all add: bh_black_iff del: bh.simps, blast+)
  qed
  finally show ?case unfolding e by simp
qed (auto simp: rb_ok_def)

lemma plug_node: "plug C (Node c l a r) \<noteq> Leaf"
proof (induction C arbitrary: c l a r)
  case (Cons e C)
  then show ?case by (cases e; cases "fst e") auto
qed simp

lemma addrs_plug: "addrs t = addrs t' \<Longrightarrow> addrs (plug C t) = addrs (plug C t')"
  by (induction C t arbitrary: t' rule: plug.induct) auto

section \<open>Insertion\<close>

fun link_of :: "path \<Rightarrow> rb_link" where
  "link_of [] = Top"
| "link_of ((L, c, a, s) # C) = LeftOf a"
| "link_of ((R, c, a, s) # C) = RightOf a"

lemma rep_link_node:
  assumes "rep S C Leaf" and "x \<noteq> 0" and "x \<notin> set (path_addrs C)"
  shows "rep (rb_link_node x (up_of C) (link_of C) S) C (Node RB_RED Leaf x Leaf)"
proof (cases C)
  case Nil
  then show ?thesis using assms by (simp add: rep_def rb_link_node_def)
next
  case (Cons e D)
  obtain d c a s where e: "e = (d, c, a, s)" by (cases e)
  let ?S = "rb_link_node x (up_of C) (link_of C) S"
  have f: "tr (nodes S) a s" "pa (nodes S) (rb_top S) D a" "a \<noteq> 0" "distinct (a # addrs s @ path_addrs D)"
    using assms(1) Cons e by (cases d; simp add: rep_def)+
  have x: "x \<noteq> a" "x \<notin> set (addrs s)" "x \<notin> set (path_addrs D)" using assms(3) Cons e by auto
  have n: "nodes ?S b = nodes S b" if "b \<noteq> x" "b \<noteq> a" for b
    using that Cons e by (cases d) (simp_all add: rb_link_node_def rb_ops)
  have t: "tr (nodes ?S) a s" using f(1,4) x by (subst tr_cong [of s _ "nodes S"]) (auto intro!: n)
  have p: "pa (nodes ?S) (rb_top S) D a" using f(2,4) x by (subst pa_cong [of D _ "nodes S"]) (auto intro!: n)
  have "nodes ?S x = \<lparr>rb_parent = a, rb_color = RB_RED, rb_right = 0, rb_left = 0\<rparr>" "rb_top ?S = rb_top S"
    using Cons e x(1) by (cases d; simp add: rb_link_node_def rb_ops)+
  moreover have "nodes ?S a = \<lparr>rb_parent = up_of D, rb_color = c, rb_right = (if d = L then root_of s else x), rb_left = (if d = L then x else root_of s)\<rparr>"
    using assms(1) Cons e x(1) by (cases d) (simp_all add: rep_def rb_link_node_def rb_ops)
  ultimately show ?thesis using Cons e t p f(3,4) x assms(2) by (cases d) (simp_all add: rep_def)
qed

lemma red_node: "rep S C (Node c l a r) \<Longrightarrow> rb_is_red S a \<longleftrightarrow> c = RB_RED"
  using rep_node [of S C c l a r] by (simp add: rb_is_red_def)

lemma red_top: "rep S C t \<Longrightarrow> root_of t \<noteq> 0 \<and> rb_is_red S (root_of t) \<longleftrightarrow> col t = RB_RED"
  using red_node [of S C] rep_node [of S C] by (cases t) auto

lemma rep_up: "rep S ((d, c, a, s) # C) t \<Longrightarrow> rep S C (if d = L then Node c t a s else Node c s a t)"
  by (cases d) (simp_all add: rep_move)

lemma up_node:
  "rep S ((d, c, a, s) # C) t \<Longrightarrow> nodes S a = \<lparr>rb_parent = up_of C, rb_color = c,
     rb_right = (if d = L then root_of s else root_of t), rb_left = (if d = L then root_of t else root_of s)\<rparr> \<and> a \<noteq> 0"
  by (cases d) (simp_all add: rep_def)

lemma insert_done: "rep S C (Node c l x r) \<Longrightarrow> C = [] \<or> up_col C = RB_BLACK \<Longrightarrow> insert_loop x S = Some S"
proof -
  assume a: "rep S C (Node c l x r)" "C = [] \<or> up_col C = RB_BLACK"
  have x: "rb_parent (nodes S x) = up_of C" using rep_node [OF a(1)] by simp
  have "\<not> (up_of C \<noteq> 0 \<and> rb_is_red S (up_of C))"
    using a by (cases C) (auto simp: rb_is_red_def dest!: up_node)
  then show ?thesis unfolding insert_loop.simps [of x S] Let_def x by (rule if_not_P)
qed

lemma rep_top_ne: "rep S ((d, c, a, s) # C) t \<Longrightarrow> t \<noteq> Leaf \<Longrightarrow> root_of s \<noteq> root_of t"
  using top_in [of s] top_in [of t] tr_nz [of "nodes S" a t] by (cases "s = Leaf") (auto simp: rep_def)

text \<open>The two ends of an iteration with a black uncle.\<close>

lemma insert_fix_left_rep:
  assumes "rep S ((s, RB_RED, p, sib) # (L, RB_BLACK, g, u) # C) (Node RB_RED l x r)"
  shows "\<exists>y S' A B E q. insert_fix_left x p g S = (y, S') \<and> rep S' ((L, RB_BLACK, q, Node RB_RED E g u) # C) (Node RB_RED A y B)
    \<and> (if s = L then (A, y, B, q, E) = (l, x, r, p, sib) else (A, y, B, q, E) = (sib, p, l, x, r))"
proof -
  have p: "rb_right (nodes S p) = (if s = L then root_of sib else x)" using up_node [OF assms] by simp
  show ?thesis
  proof (cases s)
    case L
    then have "rb_right (nodes S p) \<noteq> x" using p rep_top_ne [OF assms] by simp
    moreover have "rep S ((L, RB_BLACK, g, u) # C) (Node RB_RED (Node RB_RED l x r) p sib)" using assms L by (simp add: rep_move)
    from rep_color [OF this, of RB_BLACK]
    have "rep (rb_set_black p S) C (Node RB_BLACK (Node RB_BLACK (Node RB_RED l x r) p sib) g u)" by (simp add: rep_move)
    from rep_rotate_right [OF rep_color [OF this, of RB_RED]]
    have "rep (rb_rotate_right g (rb_set_red g (rb_set_black p S))) C (Node RB_BLACK (Node RB_RED l x r) p (Node RB_RED sib g u))" .
    ultimately show ?thesis using L by (simp add: insert_fix_left_def rep_move)
  next
    case R
    then have "rb_right (nodes S p) = x" using p by simp
    moreover have "rep S ((L, RB_BLACK, g, u) # C) (Node RB_RED sib p (Node RB_RED l x r))" using assms R by (simp add: rep_move)
    from rep_color [OF rep_rotate_left [OF this], of RB_BLACK]
    have "rep (rb_set_black x (rb_rotate_left p S)) C (Node RB_BLACK (Node RB_BLACK (Node RB_RED sib p l) x r) g u)" by (simp add: rep_move)
    from rep_rotate_right [OF rep_color [OF this, of RB_RED]]
    have "rep (rb_rotate_right g (rb_set_red g (rb_set_black x (rb_rotate_left p S)))) C (Node RB_BLACK (Node RB_RED sib p l) x (Node RB_RED r g u))" .
    ultimately show ?thesis using R by (simp add: insert_fix_left_def rep_move)
  qed
qed

lemma insert_fix_right_rep:
  assumes "rep S ((s, RB_RED, p, sib) # (R, RB_BLACK, g, u) # C) (Node RB_RED l x r)"
  shows "\<exists>y S' A B E q. insert_fix_right x p g S = (y, S') \<and> rep S' ((R, RB_BLACK, q, Node RB_RED u g E) # C) (Node RB_RED A y B)
    \<and> (if s = R then (A, y, B, q, E) = (l, x, r, p, sib) else (A, y, B, q, E) = (r, p, sib, x, l))"
proof -
  have p: "rb_left (nodes S p) = (if s = L then x else root_of sib)" using up_node [OF assms] by simp
  show ?thesis
  proof (cases s)
    case R
    then have "rb_left (nodes S p) \<noteq> x" using p rep_top_ne [OF assms] by simp
    moreover have "rep S ((R, RB_BLACK, g, u) # C) (Node RB_RED sib p (Node RB_RED l x r))" using assms R by (simp add: rep_move)
    from rep_color [OF this, of RB_BLACK]
    have "rep (rb_set_black p S) C (Node RB_BLACK u g (Node RB_BLACK sib p (Node RB_RED l x r)))" by (simp add: rep_move)
    from rep_rotate_left [OF rep_color [OF this, of RB_RED]]
    have "rep (rb_rotate_left g (rb_set_red g (rb_set_black p S))) C (Node RB_BLACK (Node RB_RED u g sib) p (Node RB_RED l x r))" .
    ultimately show ?thesis using R by (simp add: insert_fix_right_def rep_move)
  next
    case L
    then have "rb_left (nodes S p) = x" using p by simp
    moreover have "rep S ((R, RB_BLACK, g, u) # C) (Node RB_RED (Node RB_RED l x r) p sib)" using assms L by (simp add: rep_move)
    from rep_color [OF rep_rotate_right [OF this], of RB_BLACK]
    have "rep (rb_set_black x (rb_rotate_right p S)) C (Node RB_BLACK u g (Node RB_BLACK l x (Node RB_RED r p sib)))" by (simp add: rep_move)
    from rep_rotate_left [OF rep_color [OF this, of RB_RED]]
    have "rep (rb_rotate_left g (rb_set_red g (rb_set_black x (rb_rotate_right p S)))) C (Node RB_BLACK (Node RB_RED u g l) x (Node RB_RED r p sib))" .
    ultimately show ?thesis using L by (simp add: insert_fix_right_def rep_move)
  qed
qed

text \<open>The iteration, by the facts that decide its branches.\<close>

lemma insert_loop_red:
  assumes "rb_parent (nodes S x) = p" and "p \<noteq> 0" and "rb_is_red S p" and "rb_parent (nodes S p) = g"
  shows "p = rb_left (nodes S g) \<Longrightarrow> rb_right (nodes S g) = u \<Longrightarrow> insert_loop x S =
      (if u \<noteq> 0 \<and> rb_is_red S u then insert_loop g (rb_set_red g (rb_set_black p (rb_set_black u S)))
       else case insert_fix_left x p g S of (y, S) \<Rightarrow> insert_loop y S)"
    and "p \<noteq> rb_left (nodes S g) \<Longrightarrow> rb_left (nodes S g) = u \<Longrightarrow> insert_loop x S =
      (if u \<noteq> 0 \<and> rb_is_red S u then insert_loop g (rb_set_red g (rb_set_black p (rb_set_black u S)))
       else case insert_fix_right x p g S of (y, S) \<Rightarrow> insert_loop y S)"
  using assms by (subst insert_loop.simps; simp add: Let_def)+

lemma recolor_left:
  assumes "rep S ((s, RB_RED, p, sib) # (L, RB_BLACK, g, Node RB_RED ul u ur) # C) t"
  shows "rep (rb_set_red g (rb_set_black p (rb_set_black u S))) C
    (Node RB_RED (if s = L then Node RB_BLACK t p sib else Node RB_BLACK sib p t) g (Node RB_BLACK ul u ur))"
proof -
  let ?p = "\<lambda>c. if s = L then Node c t p sib else Node c sib p t"
  have "rep S ((L, RB_BLACK, g, Node RB_RED ul u ur) # C) (?p RB_RED)" using rep_up [OF assms] by simp
  then have "rep S ((R, RB_BLACK, g, ?p RB_RED) # C) (Node RB_RED ul u ur)" by (simp only: rep_move)
  from rep_color [OF this, of RB_BLACK]
  have "rep (rb_set_black u S) ((L, RB_BLACK, g, Node RB_BLACK ul u ur) # C) (?p RB_RED)" by (simp only: rep_move)
  then have "rep (rb_set_black p (rb_set_black u S)) ((L, RB_BLACK, g, Node RB_BLACK ul u ur) # C) (?p RB_BLACK)"
    using rep_color [where a = p] by (cases s) auto
  then show ?thesis using rep_color by (simp only: rep_move) 
qed

lemma recolor_right:
  assumes "rep S ((s, RB_RED, p, sib) # (R, RB_BLACK, g, Node RB_RED ul u ur) # C) t"
  shows "rep (rb_set_red g (rb_set_black p (rb_set_black u S))) C
    (Node RB_RED (Node RB_BLACK ul u ur) g (if s = L then Node RB_BLACK t p sib else Node RB_BLACK sib p t))"
proof -
  let ?p = "\<lambda>c. if s = L then Node c t p sib else Node c sib p t"
  have "rep S ((R, RB_BLACK, g, Node RB_RED ul u ur) # C) (?p RB_RED)" using rep_up [OF assms] by simp
  then have "rep S ((L, RB_BLACK, g, ?p RB_RED) # C) (Node RB_RED ul u ur)" by (simp only: rep_move)
  from rep_color [OF this, of RB_BLACK]
  have "rep (rb_set_black u S) ((R, RB_BLACK, g, Node RB_BLACK ul u ur) # C) (?p RB_RED)" by (simp only: rep_move)
  then have "rep (rb_set_black p (rb_set_black u S)) ((R, RB_BLACK, g, Node RB_BLACK ul u ur) # C) (?p RB_BLACK)"
    using rep_color [where a = p] by (cases s) auto
  then show ?thesis using rep_color by (simp only: rep_move)
qed

text \<open>What the loop has to reach: the same nodes in the same order, balanced, the root possibly red.\<close>

definition insert_goal :: "rb_root \<Rightarrow> addr \<Rightarrow> addr list \<Rightarrow> bool" where
  "insert_goal S x as \<longleftrightarrow> (\<exists>S' t. insert_loop x S = Some S' \<and> rep S' [] t \<and> addrs t = as \<and> t \<noteq> Leaf \<and> invc t \<and> (\<exists>n. bh t n))"

lemma insert_goal_done:
  assumes "rep S C (Node RB_RED l x r)" and "C = [] \<or> up_col C = RB_BLACK" and "invc (Node RB_RED l x r)" and "bh (Node RB_RED l x r) n"
    and "path_ok C n"
  shows "insert_goal S x (addrs (plug C (Node RB_RED l x r)))"
proof -
  have "invc (plug C (Node RB_RED l x r)) \<and> (\<exists>n. bh (plug C (Node RB_RED l x r)) n)"
  proof (cases "C = []")
    case False
    then have "rb_ok (plug C (Node RB_RED l x r))" using assms by (auto simp: plug_ok_iff)
    then show ?thesis by (simp add: rb_ok_def)
  qed (use assms(3,4) in auto)
  moreover have "plug C (Node RB_RED l x r) \<noteq> Leaf" by (rule plug_node)
  ultimately show ?thesis using insert_done [OF assms(1,2)] rep_plug [of S C] assms(1) unfolding insert_goal_def by blast
qed

lemma insert_loop_left:
  assumes r: "rep S ((s, RB_RED, p, sib) # (L, RB_BLACK, g, u) # C) (Node RB_RED l x r)"
    and t: "invc (Node RB_RED l x r)" "bh (Node RB_RED l x r) n" and ok: "path_ok ((s, RB_RED, p, sib) # (L, RB_BLACK, g, u) # C) n"
    and IH: "\<And>S l x r n. rep S C (Node RB_RED l x r) \<Longrightarrow> invc (Node RB_RED l x r) \<Longrightarrow> bh (Node RB_RED l x r) n \<Longrightarrow> path_ok C n
      \<Longrightarrow> insert_goal S x (addrs (plug C (Node RB_RED l x r)))"
  shows "insert_goal S x (addrs (plug ((s, RB_RED, p, sib) # (L, RB_BLACK, g, u) # C) (Node RB_RED l x r)))"
proof -
  note up = rep_up [OF r]
  have par: "rb_parent (nodes S x) = p" using rep_node [OF r] by simp
  have red: "p \<noteq> 0" "rb_is_red S p" using up_node [OF r] by (auto simp: rb_is_red_def)
  have gp: "rb_parent (nodes S p) = g" using up_node [OF r] by simp
  have side: "rb_left (nodes S g) = p" "rb_right (nodes S g) = root_of u" using up_node [OF up] by (cases s; simp)+
  note eq = insert_loop_red(1) [OF par red(1,2) gp, of "root_of u"] side
  let ?p = "if s = L then Node RB_BLACK (Node RB_RED l x r) p sib else Node RB_BLACK sib p (Node RB_RED l x r)"
  have rep_u: "rep S ((R, RB_BLACK, g, if s = L then Node RB_RED (Node RB_RED l x r) p sib else Node RB_RED sib p (Node RB_RED l x r)) # C) u"
    using up by (simp only: rep_move)
  note uncle = red_top [OF rep_u]
  have sib: "invc sib" "bh sib n" "col sib = RB_BLACK" and u: "invc u" "bh u n" and C: "path_ok C (Suc n)" using ok by auto
  show ?thesis
  proof (cases "col u")
    case RB_RED
    then obtain ul ua ur where U: "u = Node RB_RED ul ua ur" by (cases u) auto
    let ?T = "Node RB_RED ?p g (Node RB_BLACK ul ua ur)"
    have "insert_loop x S = insert_loop g (rb_set_red g (rb_set_black p (rb_set_black ua S)))"
      using eq uncle RB_RED U by simp
    moreover have "insert_goal (rb_set_red g (rb_set_black p (rb_set_black ua S))) g (addrs (plug C ?T))"
      using recolor_left [OF r [unfolded U]] t sib u U C by (intro IH [where n = "Suc n"]) (cases s; simp)+
    moreover have "addrs (plug C ?T) = addrs (plug ((s, RB_RED, p, sib) # (L, RB_BLACK, g, u) # C) (Node RB_RED l x r))"
      using U by (cases s) (auto intro: addrs_plug)
    ultimately show ?thesis by (simp add: insert_goal_def)
  next
    case RB_BLACK
    obtain y S' A B E q where fx: "insert_fix_left x p g S = (y, S')"
        "rep S' ((L, RB_BLACK, q, Node RB_RED E g u) # C) (Node RB_RED A y B)"
        "if s = L then (A, y, B, q, E) = (l, x, r, p, sib) else (A, y, B, q, E) = (sib, p, l, x, r)"
      using insert_fix_left_rep [OF r] by blast
    have "insert_loop x S = insert_loop y S'" using eq uncle RB_BLACK fx(1) by auto
    moreover have "insert_goal S' y (addrs (plug ((L, RB_BLACK, q, Node RB_RED E g u) # C) (Node RB_RED A y B)))"
      using fx(3) t sib u C RB_BLACK by (intro insert_goal_done [OF fx(2), where n = n]) (cases s; simp)+
    moreover have "addrs (plug ((L, RB_BLACK, q, Node RB_RED E g u) # C) (Node RB_RED A y B))
        = addrs (plug ((s, RB_RED, p, sib) # (L, RB_BLACK, g, u) # C) (Node RB_RED l x r))"
      using fx(3) by (cases s) (auto intro: addrs_plug)
    ultimately show ?thesis by (simp add: insert_goal_def)
  qed
qed

lemma insert_loop_right:
  assumes r: "rep S ((s, RB_RED, p, sib) # (R, RB_BLACK, g, u) # C) (Node RB_RED l x r)"
    and t: "invc (Node RB_RED l x r)" "bh (Node RB_RED l x r) n" and ok: "path_ok ((s, RB_RED, p, sib) # (R, RB_BLACK, g, u) # C) n"
    and IH: "\<And>S l x r n. rep S C (Node RB_RED l x r) \<Longrightarrow> invc (Node RB_RED l x r) \<Longrightarrow> bh (Node RB_RED l x r) n \<Longrightarrow> path_ok C n
      \<Longrightarrow> insert_goal S x (addrs (plug C (Node RB_RED l x r)))"
  shows "insert_goal S x (addrs (plug ((s, RB_RED, p, sib) # (R, RB_BLACK, g, u) # C) (Node RB_RED l x r)))"
proof -
  note up = rep_up [OF r]
  have par: "rb_parent (nodes S x) = p" using rep_node [OF r] by simp
  have red: "p \<noteq> 0" "rb_is_red S p" using up_node [OF r] by (auto simp: rb_is_red_def)
  have gp: "rb_parent (nodes S p) = g" using up_node [OF r] by simp
  have side: "rb_right (nodes S g) = p" "rb_left (nodes S g) = root_of u" using up_node [OF up] by (cases s; simp)+
  have ne: "p \<noteq> root_of u" using rep_top_ne [OF up] by (cases s) auto
  note eq = insert_loop_red(2) [OF par red(1,2) gp, of "root_of u"] side ne
  let ?p = "if s = L then Node RB_BLACK (Node RB_RED l x r) p sib else Node RB_BLACK sib p (Node RB_RED l x r)"
  have rep_u: "rep S ((L, RB_BLACK, g, if s = L then Node RB_RED (Node RB_RED l x r) p sib else Node RB_RED sib p (Node RB_RED l x r)) # C) u"
    using up by (simp only: rep_move)
  note uncle = red_top [OF rep_u]
  have sib: "invc sib" "bh sib n" "col sib = RB_BLACK" and u: "invc u" "bh u n" and C: "path_ok C (Suc n)" using ok by auto
  show ?thesis
  proof (cases "col u")
    case RB_RED
    then obtain ul ua ur where U: "u = Node RB_RED ul ua ur" by (cases u) auto
    let ?T = "Node RB_RED (Node RB_BLACK ul ua ur) g ?p"
    have "insert_loop x S = insert_loop g (rb_set_red g (rb_set_black p (rb_set_black ua S)))"
      using eq uncle RB_RED U by simp
    moreover have "insert_goal (rb_set_red g (rb_set_black p (rb_set_black ua S))) g (addrs (plug C ?T))"
      using recolor_right [OF r [unfolded U]] t sib u U C by (intro IH [where n = "Suc n"]) (cases s; simp)+
    moreover have "addrs (plug C ?T) = addrs (plug ((s, RB_RED, p, sib) # (R, RB_BLACK, g, u) # C) (Node RB_RED l x r))"
      using U by (cases s) (auto intro: addrs_plug)
    ultimately show ?thesis by (simp add: insert_goal_def)
  next
    case RB_BLACK
    obtain y S' A B E q where fx: "insert_fix_right x p g S = (y, S')"
        "rep S' ((R, RB_BLACK, q, Node RB_RED u g E) # C) (Node RB_RED A y B)"
        "if s = R then (A, y, B, q, E) = (l, x, r, p, sib) else (A, y, B, q, E) = (r, p, sib, x, l)"
      using insert_fix_right_rep [OF r] by blast
    have "insert_loop x S = insert_loop y S'" using eq uncle RB_BLACK fx(1) by auto
    moreover have "insert_goal S' y (addrs (plug ((R, RB_BLACK, q, Node RB_RED u g E) # C) (Node RB_RED A y B)))"
      using fx(3) t sib u C RB_BLACK by (intro insert_goal_done [OF fx(2), where n = n]) (cases s; simp)+
    moreover have "addrs (plug ((R, RB_BLACK, q, Node RB_RED u g E) # C) (Node RB_RED A y B))
        = addrs (plug ((s, RB_RED, p, sib) # (R, RB_BLACK, g, u) # C) (Node RB_RED l x r))"
      using fx(3) by (cases s) (auto intro: addrs_plug)
    ultimately show ?thesis by (simp add: insert_goal_def)
  qed
qed

lemma insert_loop_ok:
  "rep S C (Node RB_RED l x r) \<Longrightarrow> invc (Node RB_RED l x r) \<Longrightarrow> bh (Node RB_RED l x r) n \<Longrightarrow> path_ok C n
    \<Longrightarrow> insert_goal S x (addrs (plug C (Node RB_RED l x r)))"
proof (induction C arbitrary: S l x r n rule: length_induct)
  case (1 C)
  show ?case
  proof (cases "C = [] \<or> up_col C = RB_BLACK")
    case True
    then show ?thesis using insert_goal_done 1(2-5) by blast
  next
    case False
    then obtain s p sib C1 where C: "C = (s, RB_RED, p, sib) # C1" by (cases C rule: up_col.cases) auto
    then have "C1 \<noteq> []" "up_col C1 = RB_BLACK" using 1(5) by auto
    then obtain d g u C2 where C1: "C1 = (d, RB_BLACK, g, u) # C2" by (cases C1 rule: up_col.cases) auto
    have IH: "insert_goal S x (addrs (plug C2 (Node RB_RED l x r)))"
      if "rep S C2 (Node RB_RED l x r)" "invc (Node RB_RED l x r)" "bh (Node RB_RED l x r) n" "path_ok C2 n" for S l x r n
      using 1(1) that C C1 by simp
    show ?thesis
    proof (cases d)
      case L
      show ?thesis unfolding C C1 L
        by (rule insert_loop_left [OF 1(2) [unfolded C C1 L] 1(3,4) 1(5) [unfolded C C1 L]]) (rule IH, assumption+)
    next
      case R
      show ?thesis unfolding C C1 R
        by (rule insert_loop_right [OF 1(2) [unfolded C C1 R] 1(3,4) 1(5) [unfolded C C1 R]]) (rule IH, assumption+)
    qed
  qed
qed

text \<open>Linking a node and restoring the colours.\<close>

lemma rb_insert_ok:
  assumes "rep S C Leaf" and "rb_ok (plug C Leaf)" and "x \<noteq> 0" and "x \<notin> set (path_addrs C)"
  shows "\<exists>S' t. rb_insert_color x (rb_link_node x (up_of C) (link_of C) S) = Some S' \<and> rep S' [] t \<and> rb_ok t
    \<and> addrs t = addrs (plug C (Node RB_RED Leaf x Leaf))"
proof -
  note r = rep_link_node [OF assms(1,3,4)]
  have "path_ok C 0" using assms(2) by (auto simp: plug_ok_iff)
  from insert_loop_ok [OF r _ _ this] obtain S' t where s: "insert_loop x (rb_link_node x (up_of C) (link_of C) S) = Some S'" "rep S' [] t"
    "addrs t = addrs (plug C (Node RB_RED Leaf x Leaf))" "t \<noteq> Leaf" "invc t" "\<exists>n. bh t n" unfolding insert_goal_def by auto
  obtain c l a rr n where t: "t = Node c l a rr" "bh t n" using s(4,6) by (cases t) auto
  have "rep (rb_set_black a S') [] (Node RB_BLACK l a rr)" using rep_color s(2) t by blast
  moreover have "rb_ok (Node RB_BLACK l a rr)"
    using s(5) t by (cases c) (auto simp: rb_ok_def bh_black_iff simp del: bh.simps(3))
  moreover have "rb_top S' = a" using rep_root [OF s(2)] t by simp
  ultimately show ?thesis using s t(1) by (intro exI [of _ "rb_set_black a S'"] exI [of _ "Node RB_BLACK l a rr"]) (simp add: rb_insert_color_def)
qed

end
