(* ===== verification/Rbtree_Erase.thy ===== *)
theory Rbtree_Erase
  imports Rbtree_Insert
begin

text \<open>
  Removal from the red-black trees of \<^verbatim>\<open>rbtree.c\<close>: \<^verbatim>\<open>__rb_erase_color\<close> restores the colours after a black node was taken out, and
  \<^verbatim>\<open>rb_erase\<close> returns a red-black tree of the other nodes in their order.
\<close>

section \<open>One iteration\<close>

lemma sibling_left:
  assumes r: "rep S ((L, c, p, s) # C) t" and ok: "path_ok ((L, c, p, s) # C) (Suc n)"
  shows "\<exists>o' S' c' C' near far. erase_sibling_left p S = (o', S') \<and> rep S' ((L, c', p, (Node RB_BLACK near o' far)) # C') t
    \<and> path_ok ((L, c', p, (Node RB_BLACK near o' far)) # C') (Suc n)
    \<and> addrs (plug ((L, c', p, (Node RB_BLACK near o' far)) # C') t) = addrs (plug ((L, c, p, s) # C) t)
    \<and> (c' = RB_RED \<or> c' = c \<and> C' = C)"
proof -
  obtain k near o' far where s: "s = (Node k near o' far)" using ok by (cases s) auto
  have oth: "rb_right (nodes S p) = o'" using up_node [OF r] s by simp
  have o: "rep S ((R, c, p, t) # C) s" using r by (simp only: rep_move)
  then have red: "rb_is_red S o' \<longleftrightarrow> k = RB_RED" using red_node s by blast
  show ?thesis
  proof (cases k)
    case RB_BLACK
    then have "erase_sibling_left p S = (o', S)" using oth red by (simp add: erase_sibling_left_def)
    then show ?thesis using r ok unfolding s RB_BLACK by blast
  next
    case RB_RED
    then have c: "c = RB_BLACK" using ok s by auto
    have "rep (rb_set_black o' S) C (Node c t p (Node RB_BLACK near o' far))"
      using rep_color [OF o [unfolded s]] by (simp only: rep_move)
    from rep_rotate_left [OF rep_color [OF this, of RB_RED]]
    have R: "rep (rb_rotate_left p (rb_set_red p (rb_set_black o' S))) ((L, RB_RED, p, near) # (L, RB_BLACK, o', far) # C) t"
      by (simp only: rep_move)
    have sub: "invc near" "col near = RB_BLACK" "bh near (Suc n)" "invc far" "bh far (Suc n)" "path_ok C (Suc (Suc n))"
      using ok s RB_RED c by auto
    then obtain a q b where near: "near = Node RB_BLACK a q b" by (cases near) auto
    have "erase_sibling_left p S = (q, rb_rotate_left p (rb_set_red p (rb_set_black o' S)))"
      using red RB_RED oth up_node [OF R] near by (simp add: erase_sibling_left_def Let_def)
    moreover have "path_ok ((L, RB_RED, p, near) # (L, RB_BLACK, o', far) # C) (Suc n)" using sub by simp
    moreover have "addrs (plug ((L, RB_RED, p, near) # (L, RB_BLACK, o', far) # C) t) = addrs (plug ((L, c, p, s) # C) t)"
      using s by (auto intro: addrs_plug)
    ultimately show ?thesis using R unfolding near by blast
  qed
qed

lemma erase_fix_left_rep:
  assumes r: "rep S ((L, c, p, (Node RB_BLACK near o' far)) # C) t" and red: "col near = RB_RED \<or> col far = RB_RED"
    and ok: "path_ok ((L, c, p, (Node RB_BLACK near o' far)) # C) (Suc n)" "invc t" "bh t n"
  shows "\<exists>T. rep (erase_fix_left o' p S) C T \<and> addrs T = addrs (Node c t p (Node RB_BLACK near o' far)) \<and> rb_ok (plug C T)"
proof -
  have o: "rep S ((R, c, p, t) # C) (Node RB_BLACK near o' far)" using r by (simp only: rep_move)
  have rn: "rep S ((L, RB_BLACK, o', far) # (R, c, p, t) # C) near" and rf: "rep S ((R, RB_BLACK, o', near) # (R, c, p, t) # C) far"
    using o by (simp_all only: rep_move)
  have fo: "rb_right (nodes S o') = root_of far" "rb_left (nodes S o') = root_of near" using rep_node [OF o] by simp_all
  have blk: "black_or_null S (root_of far) \<longleftrightarrow> col far = RB_BLACK" using red_top [OF rf] by (auto simp: black_or_null_def)
  have fin: "rep (rb_rotate_left p (rb_set_black q (rb_set_black p (rb_set_color y c S')))) C (Node c (Node RB_BLACK t p A) y (Node RB_BLACK E q B))"
    "rb_right (nodes (rb_set_black p (rb_set_color y c S')) y) = q" "rb_color (nodes S' p) = c"
    if "rep S' ((L, c, p, (Node e A y (Node h E q B))) # C) t" for S' e A y h E q B
  proof -
    have "rep S' ((R, c, p, t) # C) (Node e A y (Node h E q B))" using that by (simp only: rep_move)
    from rep_color [OF this, of c] have "rep (rb_set_color y c S') C (Node c t p (Node c A y (Node h E q B)))" by (simp only: rep_move)
    from rep_color [OF this, of RB_BLACK]
    have 1: "rep (rb_set_black p (rb_set_color y c S')) ((R, RB_BLACK, p, t) # C) (Node c A y (Node h E q B))" by (simp only: rep_move)
    then have "rep (rb_set_black p (rb_set_color y c S')) ((R, c, y, A) # (R, RB_BLACK, p, t) # C) (Node h E q B)" by (simp only: rep_move)
    from rep_color [OF this, of RB_BLACK]
    have "rep (rb_set_black q (rb_set_black p (rb_set_color y c S'))) C (Node RB_BLACK t p (Node c A y (Node RB_BLACK E q B)))" by (simp only: rep_move)
    from rep_rotate_left [OF this] show "rep (rb_rotate_left p (rb_set_black q (rb_set_black p (rb_set_color y c S')))) C (Node c (Node RB_BLACK t p A) y (Node RB_BLACK E q B))" .
    show "rb_right (nodes (rb_set_black p (rb_set_color y c S')) y) = q" using rep_node [OF 1] by simp
    show "rb_color (nodes S' p) = c" using up_node [OF that] by simp
  qed
  have C: "path_ok C (if c = RB_BLACK then Suc (Suc n) else Suc n)" "c = RB_RED \<longrightarrow> C \<noteq> [] \<and> up_col C = RB_BLACK"
    "invc near" "invc far" "bh near n" "bh far n" using ok(1) by (auto split: if_splits)
  show ?thesis
  proof (cases "col far")
    case RB_RED
    then obtain E q B where far: "far = Node RB_RED E q B" by (cases far) auto
    note f = fin [OF r [unfolded far]]
    have "erase_fix_left o' p S = rb_rotate_left p (rb_set_black q (rb_set_black p (rb_set_color o' c S)))"
      using blk fo f(2,3) RB_RED by (simp add: erase_fix_left_def Let_def)
    moreover have "rb_ok (plug C (Node c (Node RB_BLACK t p near) o' (Node RB_BLACK E q B)))"
      unfolding plug_ok_iff using C ok(2,3) far by (intro exI [of _ "if c = RB_BLACK then Suc (Suc n) else Suc n"]) (cases c; auto)
    ultimately show ?thesis using f(1) far by (intro exI) auto
  next
    case RB_BLACK
    then obtain a q b where near: "near = Node RB_RED a q b" using red by (cases near) auto
    have "rep (rb_set_black q S) ((R, c, p, t) # C) (Node RB_BLACK (Node RB_BLACK a q b) o' far)"
      using rep_color [OF rn [unfolded near], of RB_BLACK] by (simp only: rep_move)
    from rep_rotate_right [OF rep_color [OF this, of RB_RED]]
    have R: "rep (rb_rotate_right o' (rb_set_red o' (rb_set_black q S))) ((L, c, p, (Node RB_BLACK a q (Node RB_RED b o' far))) # C) t"
      by (simp only: rep_move)
    note f = fin [OF R]
    have "erase_fix_left o' p S = rb_rotate_left p (rb_set_black o' (rb_set_black p (rb_set_color q c (rb_rotate_right o' (rb_set_red o' (rb_set_black q S))))))"
      using blk fo f(2,3) RB_BLACK near up_node [OF R] by (simp add: erase_fix_left_def Let_def)
    moreover have "rb_ok (plug C (Node c (Node RB_BLACK t p a) q (Node RB_BLACK b o' far)))"
      unfolding plug_ok_iff using C ok(2,3) near RB_BLACK by (intro exI [of _ "if c = RB_BLACK then Suc (Suc n) else Suc n"]) (cases c; auto)
    ultimately show ?thesis using f(1) near by (intro exI) auto
  qed
qed

lemma sibling_right:
  assumes r: "rep S ((R, c, p, s) # C) t" and ok: "path_ok ((R, c, p, s) # C) (Suc n)"
  shows "\<exists>o' S' c' C' near far. erase_sibling_right p S = (o', S') \<and> rep S' ((R, c', p, (Node RB_BLACK far o' near)) # C') t
    \<and> path_ok ((R, c', p, (Node RB_BLACK far o' near)) # C') (Suc n)
    \<and> addrs (plug ((R, c', p, (Node RB_BLACK far o' near)) # C') t) = addrs (plug ((R, c, p, s) # C) t)
    \<and> (c' = RB_RED \<or> c' = c \<and> C' = C)"
proof -
  obtain k near o' far where s: "s = (Node k far o' near)" using ok by (cases s) auto
  have oth: "rb_left (nodes S p) = o'" using up_node [OF r] s by simp
  have o: "rep S ((L, c, p, t) # C) s" using r by (simp only: rep_move)
  then have red: "rb_is_red S o' \<longleftrightarrow> k = RB_RED" using red_node s by blast
  show ?thesis
  proof (cases k)
    case RB_BLACK
    then have "erase_sibling_right p S = (o', S)" using oth red by (simp add: erase_sibling_right_def)
    then show ?thesis using r ok unfolding s RB_BLACK by blast
  next
    case RB_RED
    then have c: "c = RB_BLACK" using ok s by auto
    have "rep (rb_set_black o' S) C (Node c (Node RB_BLACK far o' near) p t)"
      using rep_color [OF o [unfolded s]] by (simp only: rep_move)
    from rep_rotate_right [OF rep_color [OF this, of RB_RED]]
    have R: "rep (rb_rotate_right p (rb_set_red p (rb_set_black o' S))) ((R, RB_RED, p, near) # (R, RB_BLACK, o', far) # C) t"
      by (simp only: rep_move)
    have sub: "invc near" "col near = RB_BLACK" "bh near (Suc n)" "invc far" "bh far (Suc n)" "path_ok C (Suc (Suc n))"
      using ok s RB_RED c by auto
    then obtain a q b where near: "near = Node RB_BLACK a q b" by (cases near) auto
    have "erase_sibling_right p S = (q, rb_rotate_right p (rb_set_red p (rb_set_black o' S)))"
      using red RB_RED oth up_node [OF R] near by (simp add: erase_sibling_right_def Let_def)
    moreover have "path_ok ((R, RB_RED, p, near) # (R, RB_BLACK, o', far) # C) (Suc n)" using sub by simp
    moreover have "addrs (plug ((R, RB_RED, p, near) # (R, RB_BLACK, o', far) # C) t) = addrs (plug ((R, c, p, s) # C) t)"
      using s by (auto intro: addrs_plug)
    ultimately show ?thesis using R unfolding near by blast
  qed
qed

lemma erase_fix_right_rep:
  assumes r: "rep S ((R, c, p, (Node RB_BLACK far o' near)) # C) t" and red: "col near = RB_RED \<or> col far = RB_RED"
    and ok: "path_ok ((R, c, p, (Node RB_BLACK far o' near)) # C) (Suc n)" "invc t" "bh t n"
  shows "\<exists>T. rep (erase_fix_right o' p S) C T \<and> addrs T = addrs (Node c (Node RB_BLACK far o' near) p t) \<and> rb_ok (plug C T)"
proof -
  have o: "rep S ((L, c, p, t) # C) (Node RB_BLACK far o' near)" using r by (simp only: rep_move)
  have rn: "rep S ((R, RB_BLACK, o', far) # (L, c, p, t) # C) near" and rf: "rep S ((L, RB_BLACK, o', near) # (L, c, p, t) # C) far"
    using o by (simp_all only: rep_move)
  have fo: "rb_left (nodes S o') = root_of far" "rb_right (nodes S o') = root_of near" using rep_node [OF o] by simp_all
  have blk: "black_or_null S (root_of far) \<longleftrightarrow> col far = RB_BLACK" using red_top [OF rf] by (auto simp: black_or_null_def)
  have fin: "rep (rb_rotate_right p (rb_set_black q (rb_set_black p (rb_set_color y c S')))) C (Node c (Node RB_BLACK B q E) y (Node RB_BLACK A p t))"
    "rb_left (nodes (rb_set_black p (rb_set_color y c S')) y) = q" "rb_color (nodes S' p) = c"
    if "rep S' ((R, c, p, (Node e (Node h B q E) y A)) # C) t" for S' e A y h E q B
  proof -
    have "rep S' ((L, c, p, t) # C) (Node e (Node h B q E) y A)" using that by (simp only: rep_move)
    from rep_color [OF this, of c] have "rep (rb_set_color y c S') C (Node c (Node c (Node h B q E) y A) p t)" by (simp only: rep_move)
    from rep_color [OF this, of RB_BLACK]
    have 1: "rep (rb_set_black p (rb_set_color y c S')) ((L, RB_BLACK, p, t) # C) (Node c (Node h B q E) y A)" by (simp only: rep_move)
    then have "rep (rb_set_black p (rb_set_color y c S')) ((L, c, y, A) # (L, RB_BLACK, p, t) # C) (Node h B q E)" by (simp only: rep_move)
    from rep_color [OF this, of RB_BLACK]
    have "rep (rb_set_black q (rb_set_black p (rb_set_color y c S'))) C (Node RB_BLACK (Node c (Node RB_BLACK B q E) y A) p t)" by (simp only: rep_move)
    from rep_rotate_right [OF this] show "rep (rb_rotate_right p (rb_set_black q (rb_set_black p (rb_set_color y c S')))) C (Node c (Node RB_BLACK B q E) y (Node RB_BLACK A p t))" .
    show "rb_left (nodes (rb_set_black p (rb_set_color y c S')) y) = q" using rep_node [OF 1] by simp
    show "rb_color (nodes S' p) = c" using up_node [OF that] by simp
  qed
  have C: "path_ok C (if c = RB_BLACK then Suc (Suc n) else Suc n)" "c = RB_RED \<longrightarrow> C \<noteq> [] \<and> up_col C = RB_BLACK"
    "invc near" "invc far" "bh near n" "bh far n" using ok(1) by (auto split: if_splits)
  show ?thesis
  proof (cases "col far")
    case RB_RED
    then obtain E q B where far: "far = Node RB_RED B q E" by (cases far) auto
    note f = fin [OF r [unfolded far]]
    have "erase_fix_right o' p S = rb_rotate_right p (rb_set_black q (rb_set_black p (rb_set_color o' c S)))"
      using blk fo f(2,3) RB_RED by (simp add: erase_fix_right_def Let_def)
    moreover have "rb_ok (plug C (Node c (Node RB_BLACK B q E) o' (Node RB_BLACK near p t)))"
      unfolding plug_ok_iff using C ok(2,3) far by (intro exI [of _ "if c = RB_BLACK then Suc (Suc n) else Suc n"]) (cases c; auto)
    ultimately show ?thesis using f(1) far by (intro exI) auto
  next
    case RB_BLACK
    then obtain b q a where near: "near = Node RB_RED b q a" using red by (cases near) auto
    have "rep (rb_set_black q S) ((L, c, p, t) # C) (Node RB_BLACK far o' (Node RB_BLACK b q a))"
      using rep_color [OF rn [unfolded near], of RB_BLACK] by (simp only: rep_move)
    from rep_rotate_left [OF rep_color [OF this, of RB_RED]]
    have R: "rep (rb_rotate_left o' (rb_set_red o' (rb_set_black q S))) ((R, c, p, (Node RB_BLACK (Node RB_RED far o' b) q a)) # C) t"
      by (simp only: rep_move)
    note f = fin [OF R]
    have "erase_fix_right o' p S = rb_rotate_right p (rb_set_black o' (rb_set_black p (rb_set_color q c (rb_rotate_left o' (rb_set_red o' (rb_set_black q S))))))"
      using blk fo f(2,3) RB_BLACK near up_node [OF R] by (simp add: erase_fix_right_def Let_def)
    moreover have "rb_ok (plug C (Node c (Node RB_BLACK far o' b) q (Node RB_BLACK a p t)))"
      unfolding plug_ok_iff using C ok(2,3) near RB_BLACK by (intro exI [of _ "if c = RB_BLACK then Suc (Suc n) else Suc n"]) (cases c; auto)
    ultimately show ?thesis using f(1) near by (intro exI) auto
  qed
qed

section \<open>The loop\<close>

definition erase_goal :: "rb_root \<Rightarrow> rbt \<Rightarrow> path \<Rightarrow> bool" where
  "erase_goal S t C \<longleftrightarrow> (\<exists>S' u. rb_erase_color (root_of t) (up_of C) S = Some S' \<and> rep S' [] u \<and> rb_ok u \<and> addrs u = addrs (plug C t))"

lemma pa_top: "pa m rt C h \<Longrightarrow> C \<noteq> [] \<Longrightarrow> rt \<in> set (path_addrs C)"
proof (induction C arbitrary: h)
  case (Cons e C)
  obtain d c a s where e: "e = (d, c, a, s)" by (cases e)
  have "pa m rt C a" using Cons.prems e by (cases d) auto
  then show ?case using Cons.IH [of a] e by (cases "C = []") auto
qed simp

lemma rep_top_path: "rep S C t \<Longrightarrow> C \<noteq> [] \<Longrightarrow> rb_top S \<noteq> root_of t"
proof -
  assume a: "rep S C t" "C \<noteq> []"
  then have "rb_top S \<in> set (path_addrs C)" using pa_top by (auto simp: rep_def)
  moreover have "rb_top S \<noteq> 0" using a pa_nz calculation by (metis rep_def)
  moreover have "set (addrs t) \<inter> set (path_addrs C) = {}" using a by (auto simp: rep_def)
  ultimately show ?thesis using top_in [of t] by (cases "t = Leaf") auto
qed

lemma loop_goes: "rep S (e # C) t \<Longrightarrow> col t = RB_BLACK \<Longrightarrow> black_or_null S (root_of t) \<and> root_of t \<noteq> rb_top S"
  using red_top [of S "e # C" t] rep_top_path [of S "e # C" t] by (auto simp: black_or_null_def)

lemma left_left: "rep S ((L, c, p, s) # C) t \<Longrightarrow> path_ok ((L, c, p, s) # C) (Suc n) \<Longrightarrow> rb_left (nodes S p) = root_of t"
  using up_node [of S L c p s C t] by simp

lemma left_right: "rep S ((R, c, p, s) # C) t \<Longrightarrow> path_ok ((R, c, p, s) # C) (Suc n) \<Longrightarrow> rb_left (nodes S p) \<noteq> root_of t"
proof -
  assume a: "rep S ((R, c, p, s) # C) t" "path_ok ((R, c, p, s) # C) (Suc n)"
  have "s \<noteq> Leaf" using a(2) by auto
  then have "root_of s \<noteq> 0" using a(1) tr_top_0 by (auto simp: rep_def)
  then have "root_of s \<noteq> root_of t" using rep_top_ne [OF a(1)] by (cases "t = Leaf") auto
  then show ?thesis using up_node [OF a(1)] by simp
qed

lemma erase_loop_left:
  assumes "black_or_null S x \<and> x \<noteq> rb_top S" and "rb_left (nodes S p) = x" and "erase_sibling_left p S = (o', S')"
  shows "erase_loop x p S = (if black_or_null S' (rb_left (nodes S' o')) \<and> black_or_null S' (rb_right (nodes S' o'))
     then erase_loop p (rb_parent (nodes (rb_set_red o' S') p)) (rb_set_red o' S')
     else Some (rb_top (erase_fix_left o' p S'), erase_fix_left o' p S'))"
  using assms by (subst erase_loop.simps) (simp add: Let_def)

lemma erase_loop_right:
  assumes "black_or_null S x \<and> x \<noteq> rb_top S" and "rb_left (nodes S p) \<noteq> x" and "erase_sibling_right p S = (o', S')"
  shows "erase_loop x p S = (if black_or_null S' (rb_left (nodes S' o')) \<and> black_or_null S' (rb_right (nodes S' o'))
     then erase_loop p (rb_parent (nodes (rb_set_red o' S') p)) (rb_set_red o' S')
     else Some (rb_top (erase_fix_right o' p S'), erase_fix_right o' p S'))"
  using assms by (subst erase_loop.simps) (simp add: Let_def)

text \<open>The loop stops at a red node, which is then made black, or at the root.\<close>

lemma erase_goal_red:
  assumes "rep S C t" and t: "t = Node RB_RED l a r" and "invc l" and "invc r" and "bh t n" and "path_ok C (Suc n)"
  shows "erase_goal S t C"
proof -
  have "erase_loop a (up_of C) S = Some (a, S)"
    using red_node [OF assms(1) [unfolded t]] rep_node [OF assms(1) [unfolded t]] by (subst erase_loop.simps) (simp add: black_or_null_def)
  then have "rb_erase_color a (up_of C) S = Some (rb_set_black a S)" using rep_node [OF assms(1) [unfolded t]] by (simp add: rb_erase_color_def)
  moreover have "rep (rb_set_black a S) [] (plug C (Node RB_BLACK l a r))" using rep_color assms(1) t rep_plug by blast
  moreover have "rb_ok (plug C (Node RB_BLACK l a r))"
    unfolding plug_ok_iff using assms t by (intro exI [of _ "Suc n"]) auto
  moreover have "addrs (plug C (Node RB_BLACK l a r)) = addrs (plug C t)" using t by (intro addrs_plug) simp
  ultimately show ?thesis unfolding erase_goal_def t root_of.simps by blast
qed

lemma erase_top:
  assumes "rep S C t" and "rb_ok (plug C t)"
  shows "\<exists>u. rep (if rb_top S \<noteq> 0 then rb_set_black (rb_top S) S else S) [] u \<and> rb_ok u \<and> addrs u = addrs (plug C t)"
proof -
  have r: "rep S [] (plug C t)" using assms(1) rep_plug by blast
  show ?thesis
  proof (cases "plug C t")
    case Leaf
    then show ?thesis using r assms(2) rep_root [OF r] by auto
  next
    case (Node c l a rr)
    then have "c = RB_BLACK" using assms(2) by (simp add: rb_ok_def)
    then show ?thesis using r assms(2) rep_color [of S "[]" c l a rr RB_BLACK] rep_root [OF r] rep_node [of S "[]" c l a rr] Node by auto
  qed
qed

lemma erase_goal_top:
  assumes "rep S [] t" and "invc t" and "bh t n"
  shows "erase_goal S t []"
proof -
  have "erase_loop (root_of t) 0 S = Some (root_of t, S)" using rep_root [OF assms(1)] by (subst erase_loop.simps) simp
  then have e: "rb_erase_color (root_of t) 0 S = Some (if root_of t \<noteq> 0 then rb_set_black (root_of t) S else S)" by (simp add: rb_erase_color_def)
  show ?thesis
  proof (cases t)
    case Leaf
    then show ?thesis using assms e by (auto simp: erase_goal_def rb_ok_def intro!: exI [of _ Leaf])
  next
    case (Node c l a r)
    have "rb_ok (Node RB_BLACK l a r)" using assms(2,3) Node by (cases c) (auto simp: rb_ok_def bh_black_iff simp del: bh.simps(3))
    then show ?thesis using e Node rep_color [of S "[]" c l a r RB_BLACK] assms(1) rep_node [of S "[]" c l a r]
      unfolding erase_goal_def by (intro exI [of _ "rb_set_black a S"] exI [of _ "Node RB_BLACK l a r"]) auto
  qed
qed


lemma erase_step_left:
  assumes r: "rep S ((L, c, p, s) # C) t" and ok: "path_ok ((L, c, p, s) # C) (Suc n)" and t: "invc t" "bh t n" "col t = RB_BLACK"
    and IH: "\<And>S u n. c = RB_BLACK \<Longrightarrow> rep S C u \<Longrightarrow> path_ok C (Suc n) \<Longrightarrow> invc u \<Longrightarrow> bh u n \<Longrightarrow> erase_goal S u C"
  shows "erase_goal S t ((L, c, p, s) # C)"
proof -
  let ?x = "root_of t"
  obtain o' S' c' C' near far where sib: "erase_sibling_left p S = (o', S')" and r': "rep S' ((L, c', p, (Node RB_BLACK near o' far)) # C') t"
    and ok': "path_ok ((L, c', p, (Node RB_BLACK near o' far)) # C') (Suc n)"
    and ad: "addrs (plug ((L, c', p, (Node RB_BLACK near o' far)) # C') t) = addrs (plug ((L, c, p, s) # C) t)"
    and c': "c' = RB_RED \<or> c' = c \<and> C' = C" using sibling_left [OF r ok] by blast
  have o: "rep S' ((R, c', p, t) # C') (Node RB_BLACK near o' far)" using r' by (simp only: rep_move)
  have rn: "rep S' ((L, RB_BLACK, o', far) # (R, c', p, t) # C') near" and rf: "rep S' ((R, RB_BLACK, o', near) # (R, c', p, t) # C') far"
    using o by (simp_all only: rep_move)
  have fo: "rb_right (nodes S' o') = root_of far" "rb_left (nodes S' o') = root_of near" using rep_node [OF o] by simp_all
  have blk: "black_or_null S' (root_of far) \<longleftrightarrow> col far = RB_BLACK" "black_or_null S' (root_of near) \<longleftrightarrow> col near = RB_BLACK"
    using red_top [OF rf] red_top [OF rn] by (auto simp: black_or_null_def)
  note eq = erase_loop_left [OF loop_goes [OF r t(3)] left_left [OF r ok] sib, unfolded fo, unfolded blk]
  have C: "path_ok C' (if c' = RB_BLACK then Suc (Suc n) else Suc n)" "c' = RB_RED \<longrightarrow> C' \<noteq> [] \<and> up_col C' = RB_BLACK"
    "invc near" "invc far" "bh near n" "bh far n" using ok' by (auto split: if_splits)
  show ?thesis
  proof (cases "col near = RB_BLACK \<and> col far = RB_BLACK")
    case True
    let ?T = "Node c' t p (Node RB_RED near o' far)"
    have R: "rep (rb_set_red o' S') C' ?T" using rep_color [OF o, of RB_RED] by (simp only: rep_move)
    have "erase_loop ?x p S = erase_loop p (up_of C') (rb_set_red o' S')"
      using eq True rep_node [OF R] by simp
    then have e: "rb_erase_color ?x p S = rb_erase_color p (up_of C') (rb_set_red o' S')" by (simp add: rb_erase_color_def)
    have "erase_goal (rb_set_red o' S') ?T C'"
    proof (cases c')
      case RB_RED
      show ?thesis unfolding RB_RED
        by (rule erase_goal_red [OF R [unfolded RB_RED] refl, where n = n]) (use C True t RB_RED in auto)
    next
      case RB_BLACK
      then show ?thesis using R C True t c' IH [of _ _ "Suc n"] by auto
    qed
    moreover have "addrs (plug C' ?T) = addrs (plug C' (Node c' t p (Node RB_BLACK near o' far)))" by (rule addrs_plug) simp
    ultimately show ?thesis using e ad by (simp add: erase_goal_def)
  next
    case False
    then have red: "col near = RB_RED \<or> col far = RB_RED" by auto
    obtain T where T: "rep (erase_fix_left o' p S') C' T" "addrs T = addrs (Node c' t p (Node RB_BLACK near o' far))" "rb_ok (plug C' T)"
      using erase_fix_left_rep [OF r' red ok' t(1,2)] by blast
    have "erase_loop ?x p S = Some (rb_top (erase_fix_left o' p S'), erase_fix_left o' p S')"
      using eq False by (auto simp: Let_def)
    then show ?thesis using erase_top [OF T(1,3)] addrs_plug [OF T(2), of C'] ad by (auto simp: erase_goal_def rb_erase_color_def)
  qed
qed

lemma erase_step_right:
  assumes r: "rep S ((R, c, p, s) # C) t" and ok: "path_ok ((R, c, p, s) # C) (Suc n)" and t: "invc t" "bh t n" "col t = RB_BLACK"
    and IH: "\<And>S u n. c = RB_BLACK \<Longrightarrow> rep S C u \<Longrightarrow> path_ok C (Suc n) \<Longrightarrow> invc u \<Longrightarrow> bh u n \<Longrightarrow> erase_goal S u C"
  shows "erase_goal S t ((R, c, p, s) # C)"
proof -
  let ?x = "root_of t"
  obtain o' S' c' C' near far where sib: "erase_sibling_right p S = (o', S')" and r': "rep S' ((R, c', p, (Node RB_BLACK far o' near)) # C') t"
    and ok': "path_ok ((R, c', p, (Node RB_BLACK far o' near)) # C') (Suc n)"
    and ad: "addrs (plug ((R, c', p, (Node RB_BLACK far o' near)) # C') t) = addrs (plug ((R, c, p, s) # C) t)"
    and c': "c' = RB_RED \<or> c' = c \<and> C' = C" using sibling_right [OF r ok] by blast
  have o: "rep S' ((L, c', p, t) # C') (Node RB_BLACK far o' near)" using r' by (simp only: rep_move)
  have rn: "rep S' ((R, RB_BLACK, o', far) # (L, c', p, t) # C') near" and rf: "rep S' ((L, RB_BLACK, o', near) # (L, c', p, t) # C') far"
    using o by (simp_all only: rep_move)
  have fo: "rb_left (nodes S' o') = root_of far" "rb_right (nodes S' o') = root_of near" using rep_node [OF o] by simp_all
  have blk: "black_or_null S' (root_of far) \<longleftrightarrow> col far = RB_BLACK" "black_or_null S' (root_of near) \<longleftrightarrow> col near = RB_BLACK"
    using red_top [OF rf] red_top [OF rn] by (auto simp: black_or_null_def)
  note eq = erase_loop_right [OF loop_goes [OF r t(3)] left_right [OF r ok] sib, unfolded fo, unfolded blk]
  have C: "path_ok C' (if c' = RB_BLACK then Suc (Suc n) else Suc n)" "c' = RB_RED \<longrightarrow> C' \<noteq> [] \<and> up_col C' = RB_BLACK"
    "invc near" "invc far" "bh near n" "bh far n" using ok' by (auto split: if_splits)
  show ?thesis
  proof (cases "col near = RB_BLACK \<and> col far = RB_BLACK")
    case True
    let ?T = "Node c' (Node RB_RED far o' near) p t"
    have R: "rep (rb_set_red o' S') C' ?T" using rep_color [OF o, of RB_RED] by (simp only: rep_move)
    have "erase_loop ?x p S = erase_loop p (up_of C') (rb_set_red o' S')"
      using eq True rep_node [OF R] by simp
    then have e: "rb_erase_color ?x p S = rb_erase_color p (up_of C') (rb_set_red o' S')" by (simp add: rb_erase_color_def)
    have "erase_goal (rb_set_red o' S') ?T C'"
    proof (cases c')
      case RB_RED
      show ?thesis unfolding RB_RED
        by (rule erase_goal_red [OF R [unfolded RB_RED] refl, where n = n]) (use C True t RB_RED in auto)
    next
      case RB_BLACK
      then show ?thesis using R C True t c' IH [of _ _ "Suc n"] by auto
    qed
    moreover have "addrs (plug C' ?T) = addrs (plug C' (Node c' (Node RB_BLACK far o' near) p t))" by (rule addrs_plug) simp
    ultimately show ?thesis using e ad by (simp add: erase_goal_def)
  next
    case False
    then have red: "col near = RB_RED \<or> col far = RB_RED" by auto
    obtain T where T: "rep (erase_fix_right o' p S') C' T" "addrs T = addrs (Node c' (Node RB_BLACK far o' near) p t)" "rb_ok (plug C' T)"
      using erase_fix_right_rep [OF r' red ok' t(1,2)] by blast
    have "erase_loop ?x p S = Some (rb_top (erase_fix_right o' p S'), erase_fix_right o' p S')"
      using eq False by (auto simp: Let_def)
    then show ?thesis using erase_top [OF T(1,3)] addrs_plug [OF T(2), of C'] ad by (auto simp: erase_goal_def rb_erase_color_def)
  qed
qed

lemma erase_color_ok:
  "rep S C t \<Longrightarrow> path_ok C (Suc n) \<Longrightarrow> invc t \<Longrightarrow> bh t n \<Longrightarrow> erase_goal S t C"
proof (induction C arbitrary: S t n)
  case Nil
  then show ?case by (intro erase_goal_top)
next
  case (Cons e C)
  obtain d c p s where e: "e = (d, c, p, s)" by (cases e)
  show ?case
  proof (cases "col t")
    case RB_RED
    then obtain l a r where "t = Node RB_RED l a r" by (cases t) auto
    then show ?thesis using erase_goal_red [OF Cons.prems(1) _ _ _ Cons.prems(4,2)] Cons.prems(3) by simp
  next
    case RB_BLACK
    show ?thesis
    proof (cases d)
      case L
      show ?thesis using erase_step_left [OF Cons.prems(1,2) [unfolded e L] Cons.prems(3,4) RB_BLACK] Cons.IH unfolding e L by blast
    next
      case R
      show ?thesis using erase_step_right [OF Cons.prems(1,2) [unfolded e R] Cons.prems(3,4) RB_BLACK] Cons.IH unfolding e R by blast
    qed
  qed
qed

end
