(* ===== verification/Rbtree_Tree.thy ===== *)
theory Rbtree_Tree
  imports Rbtree_Erase
begin

text \<open>
  \<^verbatim>\<open>rb_replace_node\<close>, \<^verbatim>\<open>rb_erase\<close> and the traversals of \<^verbatim>\<open>rbtree.c\<close>.
\<close>

section \<open>Fields after the elementary operations\<close>

named_theorems rb_fields \<open>one field of one node after an update\<close>

lemma set_parent_fields [rb_fields]:
  "rb_parent (nodes (rb_set_parent a p S) b) = (if b = a then p else rb_parent (nodes S b))"
  "rb_color (nodes (rb_set_parent a p S) b) = rb_color (nodes S b)"
  "rb_right (nodes (rb_set_parent a p S) b) = rb_right (nodes S b)"
  "rb_left (nodes (rb_set_parent a p S) b) = rb_left (nodes S b)"
  "rb_top (rb_set_parent a p S) = rb_top S"
  by (simp_all add: rb_set_parent_def)

lemma set_color_fields [rb_fields]:
  "rb_parent (nodes (rb_set_color a c S) b) = rb_parent (nodes S b)"
  "rb_color (nodes (rb_set_color a c S) b) = (if b = a then c else rb_color (nodes S b))"
  "rb_right (nodes (rb_set_color a c S) b) = rb_right (nodes S b)"
  "rb_left (nodes (rb_set_color a c S) b) = rb_left (nodes S b)"
  "rb_top (rb_set_color a c S) = rb_top S"
  by (simp_all add: rb_set_color_def)

lemma set_left_fields [rb_fields]:
  "rb_parent (nodes (set_left a p S) b) = rb_parent (nodes S b)"
  "rb_color (nodes (set_left a p S) b) = rb_color (nodes S b)"
  "rb_right (nodes (set_left a p S) b) = rb_right (nodes S b)"
  "rb_left (nodes (set_left a p S) b) = (if b = a then p else rb_left (nodes S b))"
  "rb_top (set_left a p S) = rb_top S"
  by (simp_all add: set_left_def)

lemma set_right_fields [rb_fields]:
  "rb_parent (nodes (set_right a p S) b) = rb_parent (nodes S b)"
  "rb_color (nodes (set_right a p S) b) = rb_color (nodes S b)"
  "rb_right (nodes (set_right a p S) b) = (if b = a then p else rb_right (nodes S b))"
  "rb_left (nodes (set_right a p S) b) = rb_left (nodes S b)"
  "rb_top (set_right a p S) = rb_top S"
  by (simp_all add: set_right_def)

lemma adopt_fields [rb_fields]:
  "rb_parent (nodes (adopt a p S) b) = (if b = a \<and> a \<noteq> 0 then p else rb_parent (nodes S b))"
  "rb_color (nodes (adopt a p S) b) = rb_color (nodes S b)"
  "rb_right (nodes (adopt a p S) b) = rb_right (nodes S b)"
  "rb_left (nodes (adopt a p S) b) = rb_left (nodes S b)"
  "rb_top (adopt a p S) = rb_top S"
  by (simp_all add: adopt_def rb_fields)

lemma redirect_fields [rb_fields]:
  "rb_parent (nodes (redirect p h g S) b) = rb_parent (nodes S b)"
  "rb_color (nodes (redirect p h g S) b) = rb_color (nodes S b)"
  "rb_right (nodes (redirect p h g S) b) = (if b = p \<and> p \<noteq> 0 \<and> rb_left (nodes S p) \<noteq> h then g else rb_right (nodes S b))"
  "rb_left (nodes (redirect p h g S) b) = (if b = p \<and> p \<noteq> 0 \<and> rb_left (nodes S p) = h then g else rb_left (nodes S b))"
  "rb_top (redirect p h g S) = (if p = 0 then g else rb_top S)"
  by (simp_all add: redirect_def rb_fields)

lemma node_eqI:
  "rb_parent n = rb_parent m \<Longrightarrow> rb_color n = rb_color m \<Longrightarrow> rb_right n = rb_right m \<Longrightarrow> rb_left n = rb_left m \<Longrightarrow> n = (m :: rb_node)"
  by simp

lemma rep_cong:
  assumes "rep S C t" and "\<And>a. a \<in> set (addrs t) \<union> set (path_addrs C) \<Longrightarrow> nodes S' a = nodes S a" and "rb_top S' = rb_top S"
  shows "rep S' C t"
proof -
  have "tr (nodes S') (up_of C) t \<longleftrightarrow> tr (nodes S) (up_of C) t" using assms(2) by (intro tr_cong) auto
  moreover have "pa (nodes S') (rb_top S) C (root_of t) \<longleftrightarrow> pa (nodes S) (rb_top S) C (root_of t)" using assms(2) by (intro pa_cong) auto
  ultimately show ?thesis using assms(1,3) by (simp add: rep_def)
qed

section \<open>Taking out and replacing a node\<close>

text \<open>A node with at most one subtree \<open>v\<close> is taken out.\<close>

lemma rep_splice:
  assumes r: "rep S C (Node c l x r)" and v: "l = Leaf \<and> v = r \<or> r = Leaf \<and> v = l"
  shows "rep (redirect (up_of C) x (root_of v) (adopt (root_of v) (up_of C) S)) C v"
proof -
  let ?S = "redirect (up_of C) x (root_of v) (adopt (root_of v) (up_of C) S)"
  have f: "tr (nodes S) x v" "pa (nodes S) (rb_top S) C x" "distinct (addrs v @ path_addrs C)" "x \<noteq> 0" "x \<notin> set (path_addrs C)"
    "x \<notin> set (addrs v)" using r v by (auto simp: rep_def)
  have P: "up_of C \<noteq> 0 \<longleftrightarrow> C \<noteq> []" "C \<noteq> [] \<Longrightarrow> up_of C \<in> set (path_addrs C)" using above_0 [OF f(2)] above_in by auto
  have V: "root_of v \<noteq> 0 \<longleftrightarrow> v \<noteq> Leaf" "v \<noteq> Leaf \<Longrightarrow> root_of v \<in> set (addrs v)" using tr_top_0 [OF f(1)] top_in by auto
  have n: "nodes ?S a = nodes S a" if "a \<noteq> up_of C" "a \<noteq> root_of v" for a
    using that by (intro node_eqI) (simp_all add: rb_fields)
  have "tr (nodes ?S) (up_of C) v"
  proof (rule tr_reparent [OF f(1)])
    show "nodes ?S (root_of v) = (nodes S (root_of v))\<lparr>rb_parent := up_of C\<rparr>" if "v \<noteq> Leaf"
    proof -
      have "root_of v \<noteq> up_of C" using f(3) P V that by (cases "C = []") auto
      then show ?thesis using V that by (intro node_eqI) (simp_all add: rb_fields)
    qed
  qed (use f(3) P V tr_nz [OF f(1)] in \<open>auto intro!: n\<close>)
  moreover have "pa (nodes ?S) (rb_top ?S) C (root_of v)"
  proof (rule pa_redirect [OF f(2)])
    show "nodes ?S (up_of C) = child_set x (root_of v) (nodes S (up_of C))" if "C \<noteq> []"
    proof -
      have "up_of C \<noteq> root_of v" using f(3) P V that by (cases "v = Leaf") auto
      then show ?thesis using P that by (intro node_eqI) (auto simp: rb_fields child_set_def)
    qed
  qed (use f(3-5) P V pa_nz [OF f(2)] in \<open>auto simp: rb_fields intro!: n\<close>)
  ultimately show ?thesis using f(3) by (simp add: rep_def)
qed

lemma replace_fields:
  assumes "nodes S x = \<lparr>rb_parent = p, rb_color = c, rb_right = rr, rb_left = ll\<rparr>" and "x \<notin> {p, rr, ll}"
  shows "nodes (rb_replace_node x y S) y = \<lparr>rb_parent = p, rb_color = c, rb_right = rr, rb_left = ll\<rparr>"
    and "b \<noteq> y \<Longrightarrow> nodes (rb_replace_node x y S) b = nodes (adopt rr y (adopt ll y (redirect p x y S))) b"
    and "rb_top (rb_replace_node x y S) = (if p = 0 then y else rb_top S)"
proof -
  let ?S = "adopt rr y (adopt ll y (redirect p x y S))"
  have "rb_replace_node x y S = ?S\<lparr>nodes := (nodes ?S)(y := nodes ?S x)\<rparr>"
    using assms by (auto simp: rb_replace_node_def Let_def rb_fields)
  moreover have "nodes ?S x = nodes S x" using assms by (intro node_eqI) (auto simp: rb_fields)
  ultimately show "nodes (rb_replace_node x y S) y = \<lparr>rb_parent = p, rb_color = c, rb_right = rr, rb_left = ll\<rparr>"
    "b \<noteq> y \<Longrightarrow> nodes (rb_replace_node x y S) b = nodes ?S b" "rb_top (rb_replace_node x y S) = (if p = 0 then y else rb_top S)"
    using assms(1) by (simp_all add: rb_fields)
qed

lemma rep_replace:
  assumes r: "rep S C (Node c l x r)" and y: "y \<noteq> 0" "y \<notin> set (addrs (Node c l x r)) \<union> set (path_addrs C)"
  shows "rep (rb_replace_node x y S) C (Node c l y r)"
proof -
  let ?S = "rb_replace_node x y S"
  have f: "nodes S x = \<lparr>rb_parent = up_of C, rb_color = c, rb_right = root_of r, rb_left = root_of l\<rparr>"
    "tr (nodes S) x l" "tr (nodes S) x r" "pa (nodes S) (rb_top S) C x" "x \<noteq> 0"
    and ds: "distinct (addrs l @ x # addrs r @ path_addrs C)" using r by (auto simp: rep_def)
  have P: "up_of C \<noteq> 0 \<longleftrightarrow> C \<noteq> []" "C \<noteq> [] \<Longrightarrow> up_of C \<in> set (path_addrs C)" using above_0 [OF f(4)] above_in by auto
  have V: "root_of l \<noteq> 0 \<longleftrightarrow> l \<noteq> Leaf" "l \<noteq> Leaf \<Longrightarrow> root_of l \<in> set (addrs l)"
    "root_of r \<noteq> 0 \<longleftrightarrow> r \<noteq> Leaf" "r \<noteq> Leaf \<Longrightarrow> root_of r \<in> set (addrs r)" using tr_top_0 f(2,3) top_in by auto
  have nx: "x \<notin> {up_of C, root_of r, root_of l}"
    using ds P V f(5) by (cases "C = []"; cases "l = Leaf"; cases "r = Leaf") auto
  have ne: "C \<noteq> [] \<Longrightarrow> l \<noteq> Leaf \<Longrightarrow> up_of C \<noteq> root_of l" "C \<noteq> [] \<Longrightarrow> r \<noteq> Leaf \<Longrightarrow> up_of C \<noteq> root_of r"
    "l \<noteq> Leaf \<Longrightarrow> r \<noteq> Leaf \<Longrightarrow> root_of l \<noteq> root_of r" using ds P V by auto
  note rf = replace_fields [OF f(1) nx, where y = y]
  have n: "nodes ?S a = nodes S a" if "a \<noteq> y" "a \<noteq> up_of C" "a \<noteq> root_of l" "a \<noteq> root_of r" for a
    using that by (intro node_eqI) (simp_all add: rf(2) rb_fields)
  have l: "tr (nodes ?S) y l"
  proof (rule tr_reparent [OF f(2)])
    show "nodes ?S (root_of l) = (nodes S (root_of l))\<lparr>rb_parent := y\<rparr>" if "l \<noteq> Leaf"
    proof -
      have "root_of l \<noteq> y" "root_of l \<noteq> up_of C" using that V y ne P by (cases "C = []"; auto)+
      then show ?thesis using that V by (intro node_eqI) (simp_all add: rf(2) rb_fields)
    qed
  qed (use ds P V y tr_nz [OF f(2)] in \<open>auto intro!: n\<close>)
  have rr: "tr (nodes ?S) y r"
  proof (rule tr_reparent [OF f(3)])
    show "nodes ?S (root_of r) = (nodes S (root_of r))\<lparr>rb_parent := y\<rparr>" if "r \<noteq> Leaf"
    proof -
      have "root_of r \<noteq> y" "root_of r \<noteq> up_of C" using that V y ne P by (cases "C = []"; auto)+
      then show ?thesis using that V by (intro node_eqI) (simp_all add: rf(2) rb_fields)
    qed
  qed (use ds P V y tr_nz [OF f(3)] in \<open>auto intro!: n\<close>)
  have "pa (nodes ?S) (rb_top ?S) C y"
  proof (rule pa_redirect [OF f(4)])
    show "nodes ?S (up_of C) = child_set x y (nodes S (up_of C))" if "C \<noteq> []"
    proof -
      have "up_of C \<noteq> y" "up_of C \<noteq> root_of l" "up_of C \<noteq> root_of r" using that P V y ne by (cases "l = Leaf"; cases "r = Leaf"; auto)+
      then show ?thesis using P that by (intro node_eqI) (auto simp: rf(2) rb_fields child_set_def)
    qed
  qed (use ds f(5) P V y pa_nz [OF f(4)] in \<open>auto simp: rf(3) intro!: n\<close>)
  then show ?thesis using l rr rf(1) y ds by (simp add: rep_def)
qed

section \<open>The successor\<close>

lemma plug_append: "plug (D @ C) t = plug C (plug D t)"
  by (induction D t rule: plug.induct) auto

lemma leftmost_spec:
  assumes "tr (nodes S) q r" and "r \<noteq> Leaf"
  shows "\<exists>D c y yr. leftmost (root_of r) S = Some y \<and> r = plug D (Node c Leaf y yr) \<and> (\<forall>e\<in>set D. fst e = L)"
  using assms
proof (induction r arbitrary: q)
  case (Node c l a r)
  show ?case
  proof (cases "l = Leaf")
    case True
    then have "leftmost a S = Some a" using Node.prems(1) by (subst leftmost.simps) simp
    then show ?thesis using True by (intro exI [of _ "[]"] exI [of _ c] exI [of _ a] exI [of _ r]) simp
  next
    case False
    have l: "tr (nodes S) a l" using Node.prems(1) by simp
    obtain D c' y yr where IH: "leftmost (root_of l) S = Some y" "l = plug D (Node c' Leaf y yr)" "\<forall>e\<in>set D. fst e = L"
      using Node.IH(1) [OF l False] by blast
    have "leftmost a S = leftmost (root_of l) S" using Node.prems(1) False tr_top_0 [OF l] by (subst leftmost.simps) simp
    then show ?thesis using IH by (intro exI [of _ "D @ [(L, c, a, r)]"] exI [of _ c'] exI [of _ y] exI [of _ yr]) (auto simp: plug_append)
  qed
qed simp

section \<open>Removal\<close>

text \<open>Putting the successor in the place of a node is the same as taking it out and then replacing the node.\<close>

definition splice :: "addr \<Rightarrow> addr \<Rightarrow> addr \<Rightarrow> rb_root \<Rightarrow> rb_root" where
  "splice p x child S = redirect p x child (adopt child p S)"

lemma relink_near:
  assumes x: "nodes S x = \<lparr>rb_parent = p, rb_color = c, rb_right = y, rb_left = ll\<rparr>"
    and y: "nodes S y = \<lparr>rb_parent = x, rb_color = cy, rb_right = ch, rb_left = 0\<rparr>"
    and ne: "x \<noteq> 0" "y \<noteq> 0" "ll \<noteq> 0" "x \<noteq> y" "ll \<noteq> x" "ll \<noteq> y" "ch \<noteq> x" "ch \<noteq> y" "p \<noteq> x" "p \<noteq> y" "ch \<noteq> 0 \<Longrightarrow> rb_parent (nodes S ch) = y"
      "ch \<noteq> 0 \<Longrightarrow> ch \<noteq> ll"
  shows "fst (erase_relink x y S) = y"
    and "a \<noteq> x \<Longrightarrow> nodes (snd (erase_relink x y S)) a = nodes (rb_replace_node x y (splice x y ch S)) a"
    and "rb_top (snd (erase_relink x y S)) = rb_top (rb_replace_node x y (splice x y ch S))"
proof -
  let ?T = "splice x y ch S"
  have relink: "erase_relink x y S = (y, rb_set_parent ll y (set_left y ll (rb_set_color y c (rb_set_parent y p (redirect p x y S)))))"
    using x y ne by (simp add: erase_relink_def Let_def rb_fields)
  then show "fst (erase_relink x y S) = y" by simp
  have tx: "nodes ?T x = \<lparr>rb_parent = p, rb_color = c, rb_right = ch, rb_left = ll\<rparr>"
    using x ne by (intro node_eqI) (simp_all add: splice_def rb_fields)
  have nx: "x \<notin> {p, ch, ll}" using ne by auto
  note rf = replace_fields [OF tx nx, where y = y]
  show "nodes (snd (erase_relink x y S)) a = nodes (rb_replace_node x y ?T) a" if "a \<noteq> x"
  proof (cases "a = y")
    case True
    then show ?thesis using y ne unfolding relink True rf(1) by (intro node_eqI) (simp_all add: rb_fields)
  next
    case False
    then show ?thesis using that x ne unfolding relink rf(2) [OF False] by (intro node_eqI) (auto simp: splice_def rb_fields)
  qed
  show "rb_top (snd (erase_relink x y S)) = rb_top (rb_replace_node x y ?T)"
    using ne unfolding relink rf(3) by (simp add: splice_def rb_fields)
qed

lemma relink_far:
  assumes x: "nodes S x = \<lparr>rb_parent = p, rb_color = c, rb_right = rr, rb_left = ll\<rparr>"
    and y: "nodes S y = \<lparr>rb_parent = q, rb_color = cy, rb_right = ch, rb_left = 0\<rparr>" and q: "rb_left (nodes S q) = y"
    and ne: "x \<noteq> 0" "y \<noteq> 0" "q \<noteq> 0" "ll \<noteq> 0" "rr \<noteq> 0" "x \<noteq> y" "q \<noteq> x" "q \<noteq> y" "ll \<noteq> x" "ll \<noteq> y" "rr \<noteq> x" "rr \<noteq> y" "ch \<noteq> x" "ch \<noteq> y"
      "p \<noteq> x" "p \<noteq> y" "p \<noteq> q"
  shows "fst (erase_relink x y S) = q"
    and "a \<noteq> x \<Longrightarrow> nodes (snd (erase_relink x y S)) a = nodes (rb_replace_node x y (splice q y ch S)) a"
    and "rb_top (snd (erase_relink x y S)) = rb_top (rb_replace_node x y (splice q y ch S))"
proof -
  let ?T = "splice q y ch S"
  have relink: "erase_relink x y S = (q, rb_set_parent ll y (set_left y ll (rb_set_color y c (rb_set_parent y p
      (rb_set_parent rr y (set_right y rr (set_left q ch (adopt ch q (redirect p x y S)))))))))"
    using x y ne by (simp add: erase_relink_def Let_def rb_fields)
  then show "fst (erase_relink x y S) = q" by simp
  have tx: "nodes ?T x = \<lparr>rb_parent = p, rb_color = c, rb_right = rr, rb_left = ll\<rparr>"
    using x q ne by (intro node_eqI) (simp_all add: splice_def rb_fields)
  have nx: "x \<notin> {p, rr, ll}" using ne by auto
  note rf = replace_fields [OF tx nx, where y = y]
  show "nodes (snd (erase_relink x y S)) a = nodes (rb_replace_node x y ?T) a" if "a \<noteq> x"
  proof (cases "a = y")
    case True
    then show ?thesis using y ne unfolding relink True rf(1) by (intro node_eqI) (simp_all add: rb_fields)
  next
    case False
    then show ?thesis using that x q ne unfolding relink rf(2) [OF False] by (intro node_eqI) (auto simp: splice_def rb_fields)
  qed
  show "rb_top (snd (erase_relink x y S)) = rb_top (rb_replace_node x y ?T)"
    using ne unfolding relink rf(3) by (simp add: splice_def rb_fields)
qed

lemma rep_append: "rep S (D @ C) t \<longleftrightarrow> rep S C (plug D t)"
  using rep_plug [of S "D @ C" t] rep_plug [of S C "plug D t"] by (simp add: plug_append)

lemma path_addrs_append: "path_addrs (D @ C) = path_addrs D @ path_addrs C"
  by (induction D rule: path_addrs.induct) auto

lemma plug_addrs: "\<exists>as bs. \<forall>t. addrs (plug C t) = as @ addrs t @ bs"
proof (induction C)
  case Nil
  show ?case by (intro exI [of _ "[]"]) simp
next
  case (Cons e C)
  obtain d c a s where e: "e = (d, c, a, s)" by (cases e)
  obtain as bs where IH: "\<And>t. addrs (plug C t) = as @ addrs t @ bs" using Cons.IH by blast
  show ?case
  proof (cases d)
    case L
    then show ?thesis using e IH by (intro exI [of _ as] exI [of _ "a # addrs s @ bs"]) simp
  next
    case R
    then show ?thesis using e IH by (intro exI [of _ "as @ addrs s @ [a]"] exI [of _ bs]) simp
  qed
qed

lemma set_plug: "set (addrs (plug D t)) = set (addrs t) \<union> set (path_addrs D)"
  by (induction D t rule: plug.induct) auto

lemma root_plug: "D \<noteq> [] \<Longrightarrow> root_of (plug D t) \<in> set (path_addrs D)"
proof (induction D t rule: plug.induct)
  case (2 c a sib C t)
  then show ?case by (cases "C = []") auto
next
  case (3 c a sib C t)
  then show ?case by (cases "C = []") auto
qed simp

lemma path_ok_rename: "path_ok (D @ (d, c, x, s) # C) n \<longleftrightarrow> path_ok (D @ (d, c, y, s) # C) n"
proof (induction D arbitrary: n)
  case (Cons e D)
  obtain d' c' a s' where e: "e = (d', c', a, s')" by (cases e)
  have "up_col (D @ (d, c, x, s) # C) = up_col (D @ (d, c, y, s) # C)" by (cases D rule: up_col.cases) auto
  then show ?case using Cons e by simp
qed simp

lemma relink_rep:
  assumes r: "rep S (D @ (R, c, x, l) # C) (Node cy Leaf y yr)" and "l \<noteq> Leaf" and D: "\<forall>e\<in>set D. fst e = L"
  shows "fst (erase_relink x y S) = up_of (D @ (R, c, y, l) # C) \<and> rep (snd (erase_relink x y S)) (D @ (R, c, y, l) # C) yr"
proof -
  let ?q = "up_of (D @ (R, c, x, l) # C)"
  have rx: "rep S C (Node c l x (plug D (Node cy Leaf y yr)))" using r rep_append by (simp add: rep_move)
  have x: "nodes S x = \<lparr>rb_parent = up_of C, rb_color = c, rb_right = root_of (plug D (Node cy Leaf y yr)), rb_left = root_of l\<rparr>" "x \<noteq> 0"
    and y: "nodes S y = \<lparr>rb_parent = ?q, rb_color = cy, rb_right = root_of yr, rb_left = 0\<rparr>" "y \<noteq> 0"
    using rep_node [OF rx] rep_node [OF r] by simp_all
  have t: "tr (nodes S) x l" "tr (nodes S) y yr" "pa (nodes S) (rb_top S) C x" "tr (nodes S) x (plug D (Node cy Leaf y yr))"
    using rx r by (simp_all add: rep_def)
  have ds: "distinct (y # addrs yr @ path_addrs D @ x # addrs l @ path_addrs C)" using r by (simp add: rep_def path_addrs_append)
  have p: "up_of C \<noteq> 0 \<longrightarrow> up_of C \<in> set (path_addrs C)" "root_of l \<in> set (addrs l)" "root_of l \<noteq> 0"
    "root_of yr \<noteq> 0 \<longrightarrow> root_of yr \<in> set (addrs yr)"
    using above_0 [OF t(3)] above_in top_in [OF assms(2)] tr_top_0 [OF t(1)] assms(2) tr_top_0 [OF t(2)] top_in [of yr] by auto
  let ?T = "splice ?q y (root_of yr) S" and ?E = "D @ (R, c, y, l) # C"
  have "rep ?T (D @ (R, c, x, l) # C) yr" using rep_splice [OF r] by (auto simp: splice_def)
  then have "rep ?T C (Node c l x (plug D yr))" using rep_append by (simp add: rep_move)
  from rep_replace [OF this y(2)] have "rep (rb_replace_node x y ?T) C (Node c l y (plug D yr))" using ds by (auto simp: set_plug)
  then have goal: "rep (rb_replace_node x y ?T) ?E yr" using rep_append by (simp add: rep_move)
  have rest: "fst (erase_relink x y S) = up_of ?E \<and> (\<forall>a. a \<noteq> x \<longrightarrow> nodes (snd (erase_relink x y S)) a = nodes (rb_replace_node x y ?T) a)
      \<and> rb_top (snd (erase_relink x y S)) = rb_top (rb_replace_node x y ?T)"
  proof (cases D)
    case Nil
    have "root_of yr \<noteq> 0 \<Longrightarrow> rb_parent (nodes S (root_of yr)) = y" using t(2) by (cases yr) auto
    moreover have "root_of l \<noteq> x" "root_of l \<noteq> y" "root_of yr \<noteq> x" "root_of yr \<noteq> y" "up_of C \<noteq> x" "up_of C \<noteq> y" "x \<noteq> y"
        "root_of yr \<noteq> 0 \<Longrightarrow> root_of yr \<noteq> root_of l"
      using ds p x(2) y(2) Nil by (cases "root_of yr = 0"; cases "up_of C = 0"; auto)+
    ultimately show ?thesis using relink_near [of S x "up_of C" c y "root_of l" cy "root_of yr"] x y p(3) Nil by simp
  next
    case (Cons e D')
    obtain cq q sq where e: "e = (L, cq, q, sq)" using D Cons by (cases e) auto
    have q: "rb_left (nodes S q) = y" "q \<noteq> 0" using up_node [of S L cq q sq "D' @ (R, c, x, l) # C" "Node cy Leaf y yr"] r Cons e by simp_all
    let ?rr = "root_of (plug D (Node cy Leaf y yr))"
    have rr: "?rr \<in> set (path_addrs D)" using root_plug Cons by blast
    have "?rr \<noteq> 0" using rr t(4) tr_nz set_plug by (metis UnCI)
    moreover have "root_of l \<noteq> x" "root_of l \<noteq> y" "root_of yr \<noteq> x" "root_of yr \<noteq> y" "up_of C \<noteq> x" "up_of C \<noteq> y" "x \<noteq> y"
      using ds p x(2) y(2) by (cases "root_of yr = 0"; cases "up_of C = 0"; auto)+
    moreover have "q \<noteq> x" "q \<noteq> y" "up_of C \<noteq> q" "?rr \<noteq> x" "?rr \<noteq> y"
      using ds p q(2) rr Cons e by (cases "up_of C = 0"; auto)+
    moreover have "?q = q" "up_of ?E = q" using Cons e by simp_all
    ultimately show ?thesis using relink_far [of S x "up_of C" c ?rr "root_of l" y q cy "root_of yr"] x y q p(3) by simp
  qed
  have "rep (snd (erase_relink x y S)) ?E yr"
    by (rule rep_cong [OF goal]) (use rest ds in \<open>auto simp: path_addrs_append\<close>)
  then show ?thesis using rest by blast
qed

section \<open>Removing a node\<close>

lemma erase_fixup:
  assumes "rep S C v" and "rb_ok (plug C (Node c l x r))" and "l = Leaf \<and> v = r \<or> r = Leaf \<and> v = l"
  shows "\<exists>S' u. (if c = RB_BLACK then rb_erase_color (root_of v) (up_of C) S else Some S) = Some S' \<and> rep S' [] u \<and> rb_ok u
    \<and> addrs u = addrs (plug C v)"
proof -
  obtain n where n: "path_ok C n" "invc (Node c l x r)" "bh (Node c l x r) n" "C = [] \<or> up_col C = RB_RED \<longrightarrow> c = RB_BLACK"
    using assms(2) by (auto simp: plug_ok_iff)
  show ?thesis
  proof (cases c)
    case RB_BLACK
    then obtain m where "n = Suc m" "bh v m" "invc v" using n assms(3) by (cases n) auto
    then show ?thesis using erase_color_ok [OF assms(1)] n(1) RB_BLACK by (simp add: erase_goal_def)
  next
    case RB_RED
    have "rb_ok (plug C v)" unfolding plug_ok_iff using n assms(3) RB_RED by (intro exI [of _ n]) auto
    then show ?thesis using assms(1) rep_plug [of S C v] RB_RED by (intro exI [of _ S] exI [of _ "plug C v"]) simp
  qed
qed

lemma plug_left_addrs: "\<forall>e\<in>set D. fst e = L \<Longrightarrow> \<exists>es. \<forall>t. addrs (plug D t) = addrs t @ es"
proof (induction D)
  case (Cons e D)
  then obtain c a s es where "e = (L, c, a, s)" "\<And>t. addrs (plug D t) = addrs t @ es" by (cases e) auto
  then show ?case by (intro exI [of _ "a # addrs s @ es"]) simp
qed simp

lemma rb_erase_ok:
  assumes r: "rep S C (Node c l x r)" and ok: "rb_ok (plug C (Node c l x r))"
  shows "\<exists>S' u as bs. rb_erase x S = Some S' \<and> rep S' [] u \<and> rb_ok u
    \<and> addrs (plug C (Node c l x r)) = as @ x # bs \<and> addrs u = as @ bs"
proof -
  obtain as bs where ab: "\<And>t. addrs (plug C t) = as @ addrs t @ bs" using plug_addrs by blast
  have nx: "nodes S x = \<lparr>rb_parent = up_of C, rb_color = c, rb_right = root_of r, rb_left = root_of l\<rparr>"
    using rep_node [OF r] by simp
  have t: "tr (nodes S) x l" "tr (nodes S) x r" using r by (simp_all add: rep_def)
  note z = tr_top_0 [OF t(1)] tr_top_0 [OF t(2)]
  show ?thesis
  proof (cases "l = Leaf \<or> r = Leaf")
    case True
    let ?v = "if l = Leaf then r else l"
    have v: "l = Leaf \<and> ?v = r \<or> r = Leaf \<and> ?v = l" using True by auto
    have "rb_erase x S = (if c = RB_BLACK then rb_erase_color (root_of ?v) (up_of C) (redirect (up_of C) x (root_of ?v) (adopt (root_of ?v) (up_of C) S))
        else Some (redirect (up_of C) x (root_of ?v) (adopt (root_of ?v) (up_of C) S)))"
      using True z by (auto simp: rb_erase_def nx Let_def)
    then obtain S' u where "rb_erase x S = Some S'" "rep S' [] u" "rb_ok u" "addrs u = addrs (plug C ?v)"
      using erase_fixup [OF rep_splice [OF r v] ok v] by auto
    then show ?thesis using ab v
      by (intro exI [of _ S'] exI [of _ u] exI [of _ "as @ addrs l"] exI [of _ "addrs r @ bs"]) auto
  next
    case False
    then obtain D cy y yr where lm: "leftmost (root_of r) S = Some y" and rr: "r = plug D (Node cy Leaf y yr)" and D: "\<forall>e\<in>set D. fst e = L"
      using leftmost_spec [OF t(2)] by blast
    have ry: "rep S (D @ (R, c, x, l) # C) (Node cy Leaf y yr)" using r rr rep_append by (simp add: rep_move)
    have ny: "rb_right (nodes S y) = root_of yr" "rb_color (nodes S y) = cy" using rep_node [OF ry] by simp_all
    let ?E = "D @ (R, c, y, l) # C"
    obtain S1 where S1: "erase_relink x y S = (up_of ?E, S1)" "rep S1 ?E yr"
      using relink_rep [OF ry _ D] False by (cases "erase_relink x y S") auto
    have "up_col (D @ (R, c, x, l) # C) = up_col ?E" by (cases D rule: up_col.cases) auto
    moreover have "rb_ok (plug (D @ (R, c, x, l) # C) (Node cy Leaf y yr))" using ok by (simp add: plug_append rr)
    ultimately have okE: "rb_ok (plug ?E (Node cy Leaf y yr))"
      unfolding plug_ok_iff using path_ok_rename [of D R c x l C _ y] by auto
    have e: "rb_erase x S = (if cy = RB_BLACK then rb_erase_color (root_of yr) (up_of ?E) S1 else Some S1)"
      using False z lm S1(1) ny by (simp add: rb_erase_def nx)
    obtain es where es: "\<And>t. addrs (plug D t) = addrs t @ es" using plug_left_addrs [OF D] by blast
    obtain S' u where "rb_erase x S = Some S'" "rep S' [] u" "rb_ok u" "addrs u = addrs (plug ?E yr)"
      using erase_fixup [OF S1(2) okE] e by auto
    then show ?thesis using ab rr es
      by (intro exI [of _ S'] exI [of _ u] exI [of _ "as @ addrs l"] exI [of _ "y # addrs yr @ es @ bs"]) (auto simp: plug_append)
  qed
qed

end
