(* ===== verification/Rbtree_Ops.thy ===== *)
theory Rbtree_Ops
  imports Rbtree_Tree
begin

text \<open>
  What \<^verbatim>\<open>rbtree.c\<close> promises its clients. \<open>rb_tree S xs\<close>: the store holds a red-black tree whose nodes, in order,
  are \<open>xs\<close>. Every operation is described by what it does to that list.
\<close>

section \<open>The order around a node\<close>

definition rb_tree :: "rb_root \<Rightarrow> addr list \<Rightarrow> bool" where
  "rb_tree S xs \<longleftrightarrow> (\<exists>t. rep S [] t \<and> rb_ok t \<and> addrs t = xs)"

fun before :: "path \<Rightarrow> addr list" where
  "before [] = []"
| "before ((L, c, a, s) # C) = before C"
| "before ((R, c, a, s) # C) = before C @ addrs s @ [a]"

fun after :: "path \<Rightarrow> addr list" where
  "after [] = []"
| "after ((L, c, a, s) # C) = a # addrs s @ after C"
| "after ((R, c, a, s) # C) = after C"

definition head_or_0 :: "addr list \<Rightarrow> addr" where
  "head_or_0 xs = (case xs of [] \<Rightarrow> 0 | x # _ \<Rightarrow> x)"

lemma head_or_0_simps [simp]:
  "head_or_0 [] = 0"
  "head_or_0 (x # xs) = x"
  "xs \<noteq> [] \<Longrightarrow> head_or_0 (xs @ ys) = head_or_0 xs"
  by (auto simp: head_or_0_def split: list.split)

lemma addrs_empty [simp]: "addrs t = [] \<longleftrightarrow> t = Leaf"
  by (cases t) auto

lemma plug_order: "addrs (plug C t) = before C @ addrs t @ after C"
  by (induction C t rule: plug.induct) auto

lemma focus: "x \<in> set (addrs t) \<Longrightarrow> \<exists>C c l r. t = plug C (Node c l x r)"
proof (induction t)
  case (Node c l a r)
  consider "x = a" | "x \<in> set (addrs l)" | "x \<in> set (addrs r)" using Node.prems by auto
  then show ?case
  proof cases
    case 1
    then show ?thesis by (intro exI [of _ "[]"]) auto
  next
    case 2
    then obtain C c' l' r' where "l = plug C (Node c' l' x r')" using Node.IH by blast
    then show ?thesis by (intro exI [of _ "C @ [(L, c, a, r)]"] exI) (simp add: plug_append)
  next
    case 3
    then obtain C c' l' r' where "r = plug C (Node c' l' x r')" using Node.IH by blast
    then show ?thesis by (intro exI [of _ "C @ [(R, c, a, l)]"] exI) (simp add: plug_append)
  qed
qed simp

lemma rb_tree_distinct: "rb_tree S xs \<Longrightarrow> distinct xs \<and> 0 \<notin> set xs"
  by (auto simp: rb_tree_def rep_def dest: tr_nz)

lemma rb_tree_focus:
  assumes "rb_tree S (as @ x # bs)"
  obtains C c l r where "rep S C (Node c l x r)" "rb_ok (plug C (Node c l x r))" "as = before C @ addrs l" "bs = addrs r @ after C"
proof -
  obtain t where t: "rep S [] t" "rb_ok t" "addrs t = as @ x # bs" using assms by (auto simp: rb_tree_def)
  then obtain C c l r where C: "t = plug C (Node c l x r)" using focus [of x t] by auto
  then have "as @ x # bs = (before C @ addrs l) @ x # addrs r @ after C" using t(3) by (simp add: plug_order)
  moreover have "x \<notin> set as" "x \<notin> set bs" using rb_tree_distinct [OF assms] by auto
  ultimately have "as = before C @ addrs l \<and> bs = addrs r @ after C" by (metis append_Cons_eq_iff)
  then show thesis using that t C rep_plug by blast
qed

section \<open>Traversal\<close>

lemma rightmost_spec:
  assumes "tr (nodes S) q t" and "t \<noteq> Leaf"
  shows "rightmost (root_of t) S = Some (last (addrs t))"
  using assms
proof (induction t arbitrary: q)
  case (Node c l a r)
  then show ?case using tr_top_0 [of "nodes S" a r] by (subst rightmost.simps) (auto simp: Let_def)
qed simp

lemma leftmost_hd:
  assumes "tr (nodes S) q t" and "t \<noteq> Leaf"
  shows "leftmost (root_of t) S = Some (hd (addrs t))"
  using assms
proof (induction t arbitrary: q)
  case (Node c l a r)
  then show ?case using tr_top_0 [of "nodes S" a l] by (subst leftmost.simps) (auto simp: Let_def)
qed simp

lemma climb_right_spec: "rep S C t \<Longrightarrow> t \<noteq> Leaf \<Longrightarrow> climb_right (root_of t) S = Some (head_or_0 (after C))"
proof (induction C arbitrary: t)
  case Nil
  then obtain c l a r where t: "t = Node c l a r" by (cases t) auto
  then show ?case using rep_node [of S "[]" c l a r] Nil by (subst climb_right.simps) simp
next
  case (Cons e C)
  then obtain c l a r where t: "t = Node c l a r" by (cases t) auto
  obtain d c' p s where e: "e = (d, c', p, s)" by (cases e)
  have pa: "rb_parent (nodes S a) = p" "p \<noteq> 0" using rep_node [of S "e # C" c l a r] Cons.prems t e by (auto simp: rep_def, (cases d; auto))
  show ?case
  proof (cases d)
    case L
    then have "rep S C (Node c' t p s)" using Cons.prems e by (simp add: rep_move)
    from rep_node [OF this] this have "rb_right (nodes S p) \<noteq> a" using t top_in [of s] by (cases s) (auto simp: rep_def)
    then show ?thesis using pa t e L by (subst climb_right.simps) (auto simp: Let_def)
  next
    case R
    then have r: "rep S C (Node c' s p t)" using Cons.prems e by (simp add: rep_move)
    then show ?thesis using Cons.IH [OF r] rep_node [OF r] pa t e R by (subst climb_right.simps) (auto simp: Let_def)
  qed
qed

lemma climb_left_spec: "rep S C t \<Longrightarrow> t \<noteq> Leaf \<Longrightarrow> climb_left (root_of t) S = Some (head_or_0 (rev (before C)))"
proof (induction C arbitrary: t)
  case Nil
  then obtain c l a r where t: "t = Node c l a r" by (cases t) auto
  then show ?case using rep_node [of S "[]" c l a r] Nil by (subst climb_left.simps) simp
next
  case (Cons e C)
  then obtain c l a r where t: "t = Node c l a r" by (cases t) auto
  obtain d c' p s where e: "e = (d, c', p, s)" by (cases e)
  have pa: "rb_parent (nodes S a) = p" "p \<noteq> 0" using rep_node [of S "e # C" c l a r] Cons.prems t e by (auto simp: rep_def, (cases d; auto))
  show ?case
  proof (cases d)
    case R
    then have "rep S C (Node c' s p t)" using Cons.prems e by (simp add: rep_move)
    from rep_node [OF this] this have "rb_left (nodes S p) \<noteq> a" using t top_in [of s] by (cases s) (auto simp: rep_def)
    then show ?thesis using pa t e R by (subst climb_left.simps) (auto simp: Let_def)
  next
    case L
    then have r: "rep S C (Node c' t p s)" using Cons.prems e by (simp add: rep_move)
    then show ?thesis using Cons.IH [OF r] rep_node [OF r] pa t e L by (subst climb_left.simps) (auto simp: Let_def)
  qed
qed

lemma rb_first_spec: "rb_tree S xs \<Longrightarrow> rb_first S = Some (head_or_0 xs)"
proof -
  assume "rb_tree S xs"
  then obtain t where t: "tr (nodes S) 0 t" "rb_top S = root_of t" "addrs t = xs" by (auto simp: rb_tree_def rep_def)
  then show ?thesis using leftmost_hd [OF t(1)] tr_top_0 [OF t(1)]
    by (cases "t = Leaf"; cases xs) (auto simp: rb_first_def)
qed

lemma rb_last_spec: "rb_tree S xs \<Longrightarrow> rb_last S = Some (head_or_0 (rev xs))"
proof -
  assume "rb_tree S xs"
  then obtain t where t: "tr (nodes S) 0 t" "rb_top S = root_of t" "addrs t = xs" by (auto simp: rb_tree_def rep_def)
  then show ?thesis using rightmost_spec [OF t(1)] tr_top_0 [OF t(1)]
    by (cases "t = Leaf"; cases xs rule: rev_cases) (auto simp: rb_last_def)
qed

lemma own_parent: "rep S C (Node c l x r) \<Longrightarrow> rb_parent (nodes S x) \<noteq> x"
  by (cases C rule: up_of.cases) (auto simp: rep_def)

lemma rb_next_spec: "rb_tree S (as @ x # bs) \<Longrightarrow> rb_next x S = Some (head_or_0 bs)"
proof (erule rb_tree_focus)
  fix C c l r
  assume r: "rep S C (Node c l x r)" and bs: "bs = addrs r @ after C"
  have "tr (nodes S) x r" using r by (simp add: rep_def)
  note sub = leftmost_hd [OF this] tr_top_0 [OF this]
  show ?thesis
  proof (cases "r = Leaf")
    case True
    then show ?thesis using rep_node [OF r] own_parent [OF r] climb_right_spec [OF r] bs by (simp add: rb_next_def)
  next
    case False
    then show ?thesis using rep_node [OF r] own_parent [OF r] sub bs by (cases "addrs r") (auto simp: rb_next_def)
  qed
qed

lemma rb_prev_spec: "rb_tree S (as @ x # bs) \<Longrightarrow> rb_prev x S = Some (head_or_0 (rev as))"
proof (erule rb_tree_focus)
  fix C c l r
  assume r: "rep S C (Node c l x r)" and bs: "as = before C @ addrs l"
  have "tr (nodes S) x l" using r by (simp add: rep_def)
  note sub = rightmost_spec [OF this] tr_top_0 [OF this]
  show ?thesis
  proof (cases "l = Leaf")
    case True
    then show ?thesis using rep_node [OF r] own_parent [OF r] climb_left_spec [OF r] bs by (simp add: rb_prev_def)
  next
    case False
    then show ?thesis using rep_node [OF r] own_parent [OF r] sub bs by (cases "addrs l" rule: rev_cases) (auto simp: rb_prev_def)
  qed
qed

section \<open>Updates\<close>

lemma rb_erase_spec: "rb_tree S (as @ x # bs) \<Longrightarrow> \<exists>S'. rb_erase x S = Some S' \<and> rb_tree S' (as @ bs)"
proof (erule rb_tree_focus)
  fix C c l r
  assume r: "rep S C (Node c l x r)" "rb_ok (plug C (Node c l x r))" and ab: "as = before C @ addrs l" "bs = addrs r @ after C"
  obtain S' u cs ds where S': "rb_erase x S = Some S'" "rep S' [] u" "rb_ok u" "addrs (plug C (Node c l x r)) = cs @ x # ds" "addrs u = cs @ ds"
    using rb_erase_ok [OF r] by blast
  have "x \<notin> set as" "x \<notin> set bs" using r(1) rep_plug [of S C "Node c l x r"] ab by (auto simp: rep_def plug_order)
  then have "cs = as" "ds = bs" using S'(4) ab append_Cons_eq_iff [of x as bs cs ds] by (auto simp: plug_order)
  then show ?thesis using S' by (auto simp: rb_tree_def)
qed

lemma bh_rename: "bh (Node c l x r) n \<longleftrightarrow> bh (Node c l y r) n"
  by (cases c) simp_all

lemma rb_replace_spec:
  "rb_tree S (as @ x # bs) \<Longrightarrow> y \<noteq> 0 \<Longrightarrow> y \<notin> set (as @ x # bs) \<Longrightarrow> rb_tree (rb_replace_node x y S) (as @ y # bs)"
proof (erule rb_tree_focus)
  fix C c l r
  assume y: "y \<noteq> 0" "y \<notin> set (as @ x # bs)"
    and r: "rep S C (Node c l x r)" "rb_ok (plug C (Node c l x r))" and ab: "as = before C @ addrs l" "bs = addrs r @ after C"
  have "set (addrs (plug C (Node c l x r))) = set (as @ x # bs)" using ab by (auto simp: plug_order)
  then have "y \<notin> set (addrs l)" "y \<notin> set (addrs r)" "y \<notin> set (path_addrs C)" "y \<noteq> x" using y(2) by (auto simp: set_plug)
  then have "rep (rb_replace_node x y S) C (Node c l y r)" using rep_replace [OF r(1) y(1)] by simp
  moreover have "rb_ok (plug C (Node c l y r))" using r(2) bh_rename [of c l x r _ y] by (simp add: plug_ok_iff)
  ultimately show ?thesis using rep_plug ab by (auto simp: rb_tree_def plug_order intro!: exI [of _ "plug C (Node c l y r)"])
qed

text \<open>A free place for a new node: what the descent of a client ends at.\<close>

fun free_link :: "rb_root \<Rightarrow> addr \<Rightarrow> rb_link \<Rightarrow> bool" where
  "free_link S parent Top \<longleftrightarrow> parent = 0 \<and> rb_top S = 0"
| "free_link S parent (LeftOf a) \<longleftrightarrow> parent = a \<and> rb_left (nodes S a) = 0"
| "free_link S parent (RightOf a) \<longleftrightarrow> parent = a \<and> rb_right (nodes S a) = 0"

fun place :: "rb_link \<Rightarrow> addr list \<Rightarrow> addr list \<Rightarrow> bool" where
  "place Top as bs \<longleftrightarrow> as = [] \<and> bs = []"
| "place (LeftOf a) as bs \<longleftrightarrow> bs \<noteq> [] \<and> hd bs = a"
| "place (RightOf a) as bs \<longleftrightarrow> as \<noteq> [] \<and> last as = a"

lemma free_path:
  assumes "rb_tree S (as @ bs)" and "free_link S p link" and "place link as bs"
  obtains C where "rep S C Leaf" "rb_ok (plug C Leaf)" "up_of C = p" "link_of C = link" "before C = as" "after C = bs"
proof (cases link)
  case Top
  then have "rep S [] Leaf" "rb_ok Leaf" using assms by (auto simp: rb_tree_def)
  then show thesis using that [of "[]"] assms Top by simp
next
  case (LeftOf a)
  then obtain bs' where bs: "bs = a # bs'" using assms(3) by (cases bs) auto
  then obtain C c l r where C: "rep S C (Node c l a r)" "rb_ok (plug C (Node c l a r))" "as = before C @ addrs l" "bs' = addrs r @ after C"
    using rb_tree_focus assms(1) by metis
  moreover have "l = Leaf" using rep_node [OF C(1)] assms(2) LeftOf tr_top_0 [of "nodes S" a l] C(1) by (auto simp: rep_def)
  ultimately show thesis using that [of "(L, c, a, r) # C"] LeftOf bs assms(2) by (simp add: rep_move)
next
  case (RightOf a)
  then obtain as' where as: "as = as' @ [a]" using assms(3) by (cases as rule: rev_cases) auto
  then have "rb_tree S (as' @ a # bs)" using assms(1) by simp
  then obtain C c l r where C: "rep S C (Node c l a r)" "rb_ok (plug C (Node c l a r))" "as' = before C @ addrs l" "bs = addrs r @ after C"
    using rb_tree_focus by metis
  moreover have "r = Leaf" using rep_node [OF C(1)] assms(2) RightOf tr_top_0 [of "nodes S" a r] C(1) by (auto simp: rep_def)
  ultimately show thesis using that [of "(R, c, a, l) # C"] RightOf as assms(2) by (simp add: rep_move)
qed

lemma rb_insert_spec:
  assumes "rb_tree S (as @ bs)" and "free_link S p link" and "place link as bs" and "x \<noteq> 0" and "x \<notin> set (as @ bs)"
  shows "\<exists>S'. rb_insert_color x (rb_link_node x p link S) = Some S' \<and> rb_tree S' (as @ x # bs)"
proof -
  obtain C where C: "rep S C Leaf" "rb_ok (plug C Leaf)" "up_of C = p" "link_of C = link" "before C = as" "after C = bs"
    using free_path [OF assms(1-3)] by blast
  have "set (path_addrs C) = set (as @ bs)" using set_plug [of C Leaf] C(5,6) by (simp add: plug_order)
  then show ?thesis using rb_insert_ok [OF C(1,2) assms(4)] C(3-6) assms(5) by (auto simp: rb_tree_def plug_order)
qed

section \<open>The interface\<close>

text \<open>
  What a client of the tree relies on: a sequence of nodes, places where a node can be put, removal, and a traversal. \<open>walk_from\<close> is the loop
  \<^verbatim>\<open>for (n = rb_first(root); n; n = rb_next(n))\<close>, for at most so many rounds.
\<close>

primrec walk_from :: "(addr \<Rightarrow> addr option) \<Rightarrow> nat \<Rightarrow> addr \<Rightarrow> addr list option" where
  "walk_from nxt 0 n = (if n = 0 then Some [] else None)"
| "walk_from nxt (Suc k) n = (if n = 0 then Some [] else do { m \<leftarrow> nxt n; ns \<leftarrow> walk_from nxt k m; Some (n # ns) })"

locale node_sequence =
  fixes holds :: "'s \<Rightarrow> addr list \<Rightarrow> bool"
    and at_place :: "'p \<Rightarrow> 's \<Rightarrow> addr list \<Rightarrow> addr list \<Rightarrow> bool"
    and ins :: "addr \<Rightarrow> 'p \<Rightarrow> 's \<Rightarrow> 's option"
    and del :: "addr \<Rightarrow> 's \<Rightarrow> 's option"
    and fst_node :: "'s \<Rightarrow> addr option"
    and nxt_node :: "'s \<Rightarrow> addr \<Rightarrow> addr option"
  assumes nodes_law: "holds s xs \<Longrightarrow> distinct xs \<and> 0 \<notin> set xs"
    and ins_law: "holds s (as @ bs) \<Longrightarrow> at_place p s as bs \<Longrightarrow> x \<noteq> 0 \<Longrightarrow> x \<notin> set (as @ bs) \<Longrightarrow> \<exists>s'. ins x p s = Some s' \<and> holds s' (as @ x # bs)"
    and del_law: "holds s (as @ x # bs) \<Longrightarrow> \<exists>s'. del x s = Some s' \<and> holds s' (as @ bs)"
    and fst_law: "holds s xs \<Longrightarrow> fst_node s = Some (head_or_0 xs)"
    and nxt_law: "holds s (as @ x # bs) \<Longrightarrow> nxt_node s x = Some (head_or_0 bs)"
begin

lemma ins_del:
  assumes "holds s (as @ bs)" and "at_place p s as bs" and "x \<noteq> 0" and "x \<notin> set (as @ bs)"
  shows "\<exists>s' s''. ins x p s = Some s' \<and> del x s' = Some s'' \<and> holds s'' (as @ bs)"
  using ins_law [OF assms] del_law by blast

lemma del_remove1: "holds s xs \<Longrightarrow> x \<in> set xs \<Longrightarrow> \<exists>s'. del x s = Some s' \<and> holds s' (remove1 x xs)"
proof -
  assume h: "holds s xs" "x \<in> set xs"
  then obtain as bs where xs: "xs = as @ x # bs" by (meson split_list)
  then have "x \<notin> set as" using nodes_law [OF h(1)] by auto
  then show ?thesis using del_law [of s as x bs] h(1) xs by (simp add: remove1_append)
qed

lemma walk_suffix: "holds s (as @ bs) \<Longrightarrow> walk_from (nxt_node s) (length bs) (head_or_0 bs) = Some bs"
proof (induction bs arbitrary: as)
  case (Cons b bs)
  have "b \<noteq> 0" using nodes_law [OF Cons.prems] by auto
  moreover have "nxt_node s b = Some (head_or_0 bs)" using nxt_law [OF Cons.prems] .
  moreover have "walk_from (nxt_node s) (length bs) (head_or_0 bs) = Some bs" using Cons.IH [of "as @ [b]"] Cons.prems by simp
  ultimately show ?case by simp
qed simp

lemma walk_all: "holds s xs \<Longrightarrow> do { n \<leftarrow> fst_node s; walk_from (nxt_node s) (length xs) n } = Some xs"
  using walk_suffix [of s "[]" xs] fst_law by simp

end

interpretation rbi: node_sequence rb_tree "\<lambda>(p, link) S as bs. free_link S p link \<and> place link as bs" "\<lambda>x (p, link) S. rb_insert_color x (rb_link_node x p link S)"
  rb_erase rb_first "\<lambda>S x. rb_next x S"
  by unfold_locales (use rb_tree_distinct rb_insert_spec rb_erase_spec rb_first_spec rb_next_spec in \<open>auto split: prod.splits\<close>)

section \<open>Properties\<close>

text \<open>A tree of three nodes, on which the properties are exercised.\<close>

definition three :: rb_root where
  "three = \<lparr>nodes = (\<lambda>_. \<lparr>rb_parent = 0, rb_color = RB_RED, rb_right = 0, rb_left = 0\<rparr>)
       (1 := \<lparr>rb_parent = 2, rb_color = RB_RED, rb_right = 0, rb_left = 0\<rparr>,
        2 := \<lparr>rb_parent = 0, rb_color = RB_BLACK, rb_right = 3, rb_left = 1\<rparr>,
        3 := \<lparr>rb_parent = 2, rb_color = RB_RED, rb_right = 0, rb_left = 0\<rparr>), rb_top = 2\<rparr>"

lemma three_tree: "rb_tree three [1, 2, 3]"
  unfolding rb_tree_def rb_ok_def
  by (rule exI [of _ "Node RB_BLACK (Node RB_RED Leaf 1 Leaf) 2 (Node RB_RED Leaf 3 Leaf)"])
    (auto simp: rep_def three_def intro!: exI [of _ "Suc 0"])

text \<open>
  C7: A node is erased: \<^verbatim>\<open>rb_erase\<close> of any node of a red-black tree returns (its descents and its fix-up loop end), and what it
  leaves is a red-black tree (same number of black nodes on every path, no red child of a red node, black root, parent and child
  pointers consistent) that holds the other nodes in the order they had.
\<close>

theorem rb_erase_correct:
  "rb_tree S (as @ x # bs) \<Longrightarrow> \<exists>S'. rb_erase x S = Some S' \<and> rb_tree S' (as @ bs)"
  by (rule rb_erase_spec)

theorem rb_erase_correct_witness: "\<exists>S'. rb_erase 2 three = Some S' \<and> rb_tree S' [1, 3]"
  using rb_erase_correct [of three "[1]" 2 "[3]"] three_tree by simp

text \<open>
  C8: A node is inserted: \<^verbatim>\<open>rb_link_node\<close> at a free pointer of a red-black tree followed by \<^verbatim>\<open>rb_insert_color\<close> returns, and
  leaves a red-black tree in which the new node stands next to the node it was linked under, on the side it was linked on, all other
  nodes in the order they had.
\<close>

theorem rb_insert_correct:
  assumes "rb_tree S (as @ bs)" and "free_link S p link" and "place link as bs" and "x \<noteq> 0" and "x \<notin> set (as @ bs)"
  shows "\<exists>S'. rb_insert_color x (rb_link_node x p link S) = Some S' \<and> rb_tree S' (as @ x # bs)"
  using assms by (rule rb_insert_spec)

theorem rb_insert_correct_witness:
  "\<exists>S'. rb_insert_color 7 (rb_link_node 7 3 (LeftOf 3) three) = Some S' \<and> rb_tree S' [1, 2, 7, 3]"
  using rb_insert_correct [of three "[1, 2]" "[3]" 3 "LeftOf 3" 7] three_tree by (simp add: three_def)

text \<open>
  The traversal functions follow the order: \<^verbatim>\<open>rb_first\<close> and \<^verbatim>\<open>rb_last\<close> return the ends (\<^verbatim>\<open>NULL\<close> for an empty tree), \<^verbatim>\<open>rb_next\<close> and \<^verbatim>\<open>rb_prev\<close> of
  any node its neighbours (\<^verbatim>\<open>NULL\<close> at the ends), so that the usual loop over the tree visits every node once, in order, and ends; \<^verbatim>\<open>rb_replace_node\<close> leaves the order as it is with the new node in the place of the old.
\<close>

theorem rb_traversal:
  assumes "rb_tree S (as @ x # bs)"
  shows "rb_first S = Some (head_or_0 (as @ [x])) \<and> rb_last S = Some (head_or_0 (rev (x # bs)))
    \<and> rb_next x S = Some (head_or_0 bs) \<and> rb_prev x S = Some (head_or_0 (rev as))
    \<and> do { n \<leftarrow> rb_first S; walk_from (\<lambda>x. rb_next x S) (length (as @ x # bs)) n } = Some (as @ x # bs)
    \<and> (\<forall>y. y \<noteq> 0 \<and> y \<notin> set (as @ x # bs) \<longrightarrow> rb_tree (rb_replace_node x y S) (as @ y # bs))"
  using rbi.walk_all [OF assms] assms rb_first_spec [OF assms] rb_last_spec [OF assms] rb_next_spec [OF assms] rb_prev_spec [OF assms] rb_replace_spec [OF assms]
  by (cases as; cases bs rule: rev_cases) simp_all

theorem rb_traversal_witness: "rb_next 2 three = Some 3 \<and> rb_prev 1 three = Some 0 \<and> rb_tree (rb_replace_node 2 9 three) [1, 9, 3]"
  using rb_traversal [of three "[1]" 2 "[3]"] rb_traversal [of three "[]" 1 "[2, 3]"] three_tree by simp

end
