(* ===== verification/Rbtree_Packed.thy ===== *)
theory Rbtree_Packed
  imports Libk_Rbtree "HOL-Library.Word"
begin

text \<open>
  The word \<^verbatim>\<open>rb_parent_color\<close> of \<^verbatim>\<open>src/kernel/libk/rbtree.h\<close>: the address of the parent, a multiple of 4, with the colour in bit 0.
  \<^verbatim>\<open>Libk_Rbtree\<close> keeps the two apart; here the macros work on the word, and they are shown to be the operations on the two fields.
\<close>

unbundle bit_operations_syntax

section \<open>Model\<close>

type_synonym packed = "32 word"

definition pc_parent :: "packed \<Rightarrow> 32 word" where
  "pc_parent r = r AND NOT 3"

definition pc_color :: "packed \<Rightarrow> 32 word" where
  "pc_color r = r AND 1"

definition pc_is_red :: "packed \<Rightarrow> bool" where
  "pc_is_red r \<longleftrightarrow> pc_color r = 0"

definition pc_set_red :: "packed \<Rightarrow> packed" where
  "pc_set_red r = r AND NOT 1"

definition pc_set_black :: "packed \<Rightarrow> packed" where
  "pc_set_black r = r OR 1"

definition pc_set_parent :: "packed \<Rightarrow> 32 word \<Rightarrow> packed" where
  "pc_set_parent r p = (r AND 3) OR p"

definition pc_set_color :: "packed \<Rightarrow> 32 word \<Rightarrow> packed" where
  "pc_set_color r color = (r AND NOT 1) OR color"

section \<open>The two fields\<close>

definition color_bit :: "rb_colour \<Rightarrow> 32 word" where
  "color_bit c = (case c of RB_RED \<Rightarrow> 0 | RB_BLACK \<Rightarrow> 1)"

definition aligned :: "32 word \<Rightarrow> bool" where
  "aligned p \<longleftrightarrow> p AND 3 = 0"

definition pack :: "32 word \<Rightarrow> rb_colour \<Rightarrow> packed" where
  "pack p c = p OR color_bit c"

lemma three_mask: "(3 :: 32 word) = mask 2"
  by (simp add: mask_eq_exp_minus_1)

lemma bit_3: "bit (3 :: 32 word) n \<longleftrightarrow> n < 2"
  unfolding three_mask bit_mask_iff by auto

lemma aligned_bit:
  assumes "aligned p" and "bit p n"
  shows "\<not> n < 2 \<and> n \<noteq> 0"
proof -
  have "\<not> bit (p AND 3) n" using assms(1) by (simp add: aligned_def)
  then show ?thesis using assms(2) unfolding bit_and_iff bit_3 by auto
qed

text \<open>
  C40: The packed word stands for the two fields. On a word made of an aligned parent address and a colour, the macros \<^verbatim>\<open>rb_parent\<close>,
  \<^verbatim>\<open>rb_color\<close> and \<^verbatim>\<open>rb_is_red\<close> read the two parts back, and \<^verbatim>\<open>rb_set_parent\<close>, \<^verbatim>\<open>rb_set_color\<close>, \<^verbatim>\<open>rb_set_red\<close> and \<^verbatim>\<open>rb_set_black\<close> change the one
  they name and leave the other as it is; the new word is again an aligned address and a colour.
\<close>

theorem rb_parent_color_fields:
  assumes "aligned p" and "aligned q"
  shows "pc_parent (pack p c) = p \<and> pc_color (pack p c) = color_bit c \<and> (pc_is_red (pack p c) \<longleftrightarrow> c = RB_RED)
    \<and> pc_set_parent (pack p c) q = pack q c \<and> pc_set_color (pack p c) (color_bit d) = pack p d
    \<and> pc_set_red (pack p c) = pack p RB_RED \<and> pc_set_black (pack p c) = pack p RB_BLACK"
proof -
  note defs = pc_parent_def pc_color_def pc_is_red_def pc_set_parent_def pc_set_color_def pc_set_red_def pc_set_black_def
    pack_def color_bit_def
  have "pc_parent (pack p c) = p" "pc_color (pack p c) = color_bit c" "pc_set_parent (pack p c) q = pack q c"
    "pc_set_color (pack p c) (color_bit d) = pack p d" "pc_set_red (pack p c) = pack p RB_RED" "pc_set_black (pack p c) = pack p RB_BLACK"
    using aligned_bit [OF assms(1)] aligned_bit [OF assms(2)]
    by (intro bit_word_eqI; cases c; cases d; simp only: defs rb_colour.case bit_and_iff bit_or_iff bit_not_iff bit_3 bit_1_iff bit_0_eq; auto)+
  then show ?thesis by (cases c) (simp_all add: pc_is_red_def color_bit_def)
qed

theorem rb_parent_color_fields_witness:
  "pc_parent (pack 0x1000 RB_BLACK) = 0x1000 \<and> pc_set_parent (pack 0x1000 RB_BLACK) 0x2004 = pack 0x2004 RB_BLACK"
  using rb_parent_color_fields [of "0x1000" "0x2004" RB_BLACK] by (simp add: aligned_def)

end
