(* ===== verification/Kern_Atomic.thy ===== *)
theory Kern_Atomic
  imports Kernel_Prelude
begin

text \<open>
  The atomic counters and reference counts of \<^verbatim>\<open>src/kernel/kern/atomic.c\<close>. A counter is one
  32-bit word; an operation returns the value the C function returns together with the word it
  leaves. The processor's read-modify-write instructions are single steps
  (\<^verbatim>\<open>cpu_atomic_inc\<close>, \<^verbatim>\<open>cpu_atomic_dec\<close> and \<^verbatim>\<open>cpu_atomic_add\<close> return the old value). The two
  retry loops, \<^verbatim>\<open>atomic_set\<close> and \<^verbatim>\<open>atomic_test_set\<close>, read the counter and then
  compare-and-swap it, so another processor may write in between: the loops take the list of
  the values the other processors store, one per iteration, and run out of it only when they
  have retried once more than there were interfering writes.
\<close>

section \<open>Model\<close>

type_synonym atomic_t = u32
type_synonym refcount_t = u32

definition atomic_init :: "u32 \<Rightarrow> atomic_t" where
  "atomic_init val = val"

definition atomic_add :: "atomic_t \<Rightarrow> u32 \<Rightarrow> u32 \<times> atomic_t" where
  "atomic_add p val = (p, p + val)"

definition atomic_inc :: "atomic_t \<Rightarrow> u32 \<times> atomic_t" where
  "atomic_inc p = (p, p + 1)"

definition atomic_dec :: "atomic_t \<Rightarrow> u32 \<times> atomic_t" where
  "atomic_dec p = (p, p - 1)"

definition atomic_cas :: "atomic_t \<Rightarrow> u32 \<Rightarrow> u32 \<Rightarrow> bool \<times> atomic_t" where
  "atomic_cas p old new = (if p = old then (True, new) else (False, p))"

definition atomic_get :: "atomic_t \<Rightarrow> u32" where
  "atomic_get p = p"

text \<open>
  One iteration of the loop of \<^verbatim>\<open>atomic_set\<close> reads \<open>old\<close>, lets the others store \<open>w\<close>, and
  compares. The list ends when no other processor interferes any more.
\<close>

fun atomic_set :: "u32 list \<Rightarrow> atomic_t \<Rightarrow> u32 \<Rightarrow> u32 \<times> atomic_t" where
  "atomic_set [] p val = (let old = atomic_get p in (old, snd (atomic_cas p old val)))"
| "atomic_set (w # ws) p val =
     (let old = atomic_get p; (isAtomic, p') = atomic_cas w old val
      in if isAtomic then (old, p') else atomic_set ws p' val)"

fun atomic_test_set :: "u32 list \<Rightarrow> atomic_t \<Rightarrow> u32 \<Rightarrow> bool \<times> atomic_t" where
  "atomic_test_set [] p val =
     (let old = atomic_get p
      in if old \<noteq> 0 then (False, p) else (True, snd (atomic_cas p old val)))"
| "atomic_test_set (w # ws) p val =
     (let old = atomic_get p
      in if old \<noteq> 0 then (False, p)
         else let (isAtomic, p') = atomic_cas w old val
              in if isAtomic then (True, p') else atomic_test_set ws p' val)"

definition refcount_init :: refcount_t where
  "refcount_init = 0"

definition refcount_up :: "refcount_t \<Rightarrow> u32 \<times> refcount_t" where
  "refcount_up r = (r, r + 1)"

definition refcount_down :: "refcount_t \<Rightarrow> u32 \<times> refcount_t" where
  "refcount_down r = (r, r - 1)"

definition refcount_set :: "refcount_t \<Rightarrow> u32 \<Rightarrow> u32 \<times> refcount_t" where
  "refcount_set r new_val = (r, new_val)"

definition refcount_get :: "refcount_t \<Rightarrow> u32" where
  "refcount_get r = r"

lemmas atomic_defs =
  atomic_init_def atomic_add_def atomic_inc_def atomic_dec_def atomic_cas_def atomic_get_def

lemmas refcount_defs =
  refcount_init_def refcount_up_def refcount_down_def refcount_set_def refcount_get_def

section \<open>Lemmas\<close>

lemma atomic_set_stores: "snd (atomic_set ws p val) = val"
  by (induction ws arbitrary: p) (auto simp: atomic_defs Let_def)

text \<open>
  The value \<^verbatim>\<open>atomic_set\<close> returns is the one its successful compare-and-swap replaced: the
  initial value or one stored by another processor.
\<close>

lemma atomic_set_old: "fst (atomic_set ws p val) \<in> insert p (set ws)"
proof (induction ws arbitrary: p)
  case (Cons w ws)
  then show ?case using Cons.IH [of w] by (auto simp: atomic_defs Let_def)
qed (simp add: atomic_defs)

lemma atomic_test_set_taken:
  "fst (atomic_test_set ws p val) \<Longrightarrow> snd (atomic_test_set ws p val) = val"
  by (induction ws arbitrary: p) (auto simp: atomic_defs Let_def split: if_splits)

lemma atomic_test_set_refused:
  "\<not> fst (atomic_test_set ws p val) \<Longrightarrow> snd (atomic_test_set ws p val) \<noteq> 0"
  by (induction ws arbitrary: p) (auto simp: atomic_defs Let_def split: if_splits)

lemma refcount_up_down: "snd (refcount_down (snd (refcount_up r))) = r"
  by (simp add: refcount_defs)

lemma refcount_down_last: "fst (refcount_down r) = 1 \<longleftrightarrow> snd (refcount_down r) = 0"
  by (simp add: refcount_defs)

end
