(* ===== verification/Kern_WaitQueue.thy ===== *)
theory Kern_WaitQueue
  imports Kernel_Prelude
begin

text \<open>
  The wait queues of \<^verbatim>\<open>src/kernel/kern/wait_queue.c\<close> and \<^verbatim>\<open>wait_queue.h\<close>, and the contract
  of the blocking locks that are built on them. The list of waiting threads is a HOL list
  (theory \<^verbatim>\<open>Libk_List\<close> shows that the linked lists implement it). An operation that calls
  \<^verbatim>\<open>sched_wakeup\<close> returns the threads it wakes, in the order of the calls. The back pointer
  \<^verbatim>\<open>thread->info.queue\<close> is read by the \<^verbatim>\<open>ps\<close> command only and is left out.
\<close>

section \<open>Wait queues\<close>

type_synonym tid = nat

datatype wait_order = WAIT_FIRST | WAIT_LAST | WAIT_ANY

record wait_queue_s =
  wq_name :: string
  wq_state :: int
  wq_root :: "tid list"

definition wait_queue_init :: "string \<Rightarrow> wait_queue_s" where
  "wait_queue_init nm = \<lparr>wq_name = nm, wq_state = 0, wq_root = []\<rparr>"

definition wait_queue_isEmpty :: "wait_queue_s \<Rightarrow> bool" where
  "wait_queue_isEmpty q \<longleftrightarrow> wq_root q = []"

definition wait_on :: "tid \<Rightarrow> wait_queue_s \<Rightarrow> wait_order \<Rightarrow> wait_queue_s" where
  "wait_on this q order =
     (if order = WAIT_LAST then q\<lparr>wq_root := wq_root q @ [this]\<rparr>
      else q\<lparr>wq_root := this # wq_root q\<rparr>)"

definition wakeup_one :: "wait_queue_s \<Rightarrow> wait_order \<Rightarrow> tid option \<times> wait_queue_s" where
  "wakeup_one q order =
     (if wq_root q = [] then (None, q)
      else if order = WAIT_LAST
      then (Some (last (wq_root q)), q\<lparr>wq_root := butlast (wq_root q)\<rparr>)
      else (Some (hd (wq_root q)), q\<lparr>wq_root := tl (wq_root q)\<rparr>))"

text \<open>The iterations of the \<^verbatim>\<open>list_foreach\<close> of \<^verbatim>\<open>wakeup_all\<close>, with its counter.\<close>

fun wakeup_loop :: "tid list \<Rightarrow> nat \<Rightarrow> tid list \<Rightarrow> nat \<times> tid list" where
  "wakeup_loop [] i woken = (i, woken)"
| "wakeup_loop (t # ts) i woken = wakeup_loop ts (Suc i) (woken @ [t])"

definition wakeup_all :: "wait_queue_s \<Rightarrow> nat \<times> tid list \<times> wait_queue_s" where
  "wakeup_all q = (let (i, woken) = wakeup_loop (wq_root q) 0 [] in (i, woken, q\<lparr>wq_root := []\<rparr>))"

text \<open>\<^verbatim>\<open>wait_queue_init2\<close> moves the waiting threads of another queue.\<close>

definition wait_queue_init2 :: "wait_queue_s \<Rightarrow> wait_queue_s" where
  "wait_queue_init2 another =
     (if wq_root another = [] then wait_queue_init (wq_name another)
      else \<lparr>wq_name = wq_name another, wq_state = 0, wq_root = wq_root another\<rparr>)"

lemmas wait_queue_defs =
  wait_queue_init_def wait_queue_isEmpty_def wait_on_def wakeup_one_def wakeup_all_def
  wait_queue_init2_def

lemma wakeup_loop_eq: "wakeup_loop ts i woken = (i + length ts, woken @ ts)"
  by (induction ts arbitrary: i woken) auto

lemma wakeup_all_eq [simp]:
  "wakeup_all q = (length (wq_root q), wq_root q, q\<lparr>wq_root := []\<rparr>)"
  by (simp add: wakeup_all_def wakeup_loop_eq)

lemma wait_on_last [simp]: "wq_root (wait_on t q WAIT_LAST) = wq_root q @ [t]"
  by (simp add: wait_on_def)

lemma wakeup_one_first_Nil [simp]: "wq_root q = [] \<Longrightarrow> wakeup_one q WAIT_FIRST = (None, q)"
  by (simp add: wakeup_one_def)

lemma wakeup_one_first_Cons [simp]:
  "wq_root q = t # ts \<Longrightarrow> wakeup_one q WAIT_FIRST = (Some t, q\<lparr>wq_root := ts\<rparr>)"
  by (simp add: wakeup_one_def)

section \<open>The contract of the blocking locks\<close>

text \<open>
  A page, a semaphore used as a mutex and a rwlock used by writers are locks of one shape: a
  thread that finds the lock held queues itself and sleeps, and the release hands the lock to
  the first thread of the queue without ever freeing it. \<open>acquire t s\<close> answers whether \<open>t\<close>
  has the lock now (otherwise it sleeps in the queue), \<open>release t s\<close> which thread it woke.

  The steps run an arbitrary number of threads; \<open>owners\<close> is the set of the threads that are
  inside, \<open>grants\<close> the history of the threads that obtained the lock and \<open>requests\<close> that of
  the threads that asked for it.
\<close>

record 's lock_run =
  lk :: 's
  owners :: "tid set"
  requests :: "tid list"
  grants :: "tid list"

definition run_of :: "'s \<Rightarrow> 's lock_run" where
  "run_of s = \<lparr>lk = s, owners = {}, requests = [], grants = []\<rparr>"

inductive lock_step ::
  "(tid \<Rightarrow> 's \<Rightarrow> bool \<times> 's) \<Rightarrow> (tid \<Rightarrow> 's \<Rightarrow> tid option \<times> 's) \<Rightarrow> ('s \<Rightarrow> tid list) \<Rightarrow>
   's lock_run \<Rightarrow> 's lock_run \<Rightarrow> bool"
  for acq rel waiting where
  enter: "t \<notin> owners r \<Longrightarrow> t \<notin> set (waiting (lk r)) \<Longrightarrow> acq t (lk r) = (True, s) \<Longrightarrow>
    lock_step acq rel waiting r
      \<lparr>lk = s, owners = insert t (owners r), requests = requests r @ [t], grants = grants r @ [t]\<rparr>"
| block: "t \<notin> owners r \<Longrightarrow> t \<notin> set (waiting (lk r)) \<Longrightarrow> acq t (lk r) = (False, s) \<Longrightarrow>
    lock_step acq rel waiting r (r\<lparr>lk := s, requests := requests r @ [t]\<rparr>)"
| leave: "t \<in> owners r \<Longrightarrow> rel t (lk r) = (None, s) \<Longrightarrow>
    lock_step acq rel waiting r (r\<lparr>lk := s, owners := owners r - {t}\<rparr>)"
| handoff: "t \<in> owners r \<Longrightarrow> rel t (lk r) = (Some w, s) \<Longrightarrow>
    lock_step acq rel waiting r
      (r\<lparr>lk := s, owners := insert w (owners r - {t}), grants := grants r @ [w]\<rparr>)"

text \<open>
  The laws: what the two operations do to a lock that satisfies its invariant \<open>wf\<close>, when it is
  held by the thread \<open>owner\<close> and when it is free.
\<close>

locale blocking_lock =
  fixes acq :: "tid \<Rightarrow> 's \<Rightarrow> bool \<times> 's"
    and rel :: "tid \<Rightarrow> 's \<Rightarrow> tid option \<times> 's"
    and waiting :: "'s \<Rightarrow> tid list"
    and free :: "'s \<Rightarrow> bool"
    and heldby :: "'s \<Rightarrow> tid \<Rightarrow> bool"
  assumes acq_free: "free s \<Longrightarrow> acq t s = (b, s') \<Longrightarrow> b \<and> heldby s' t \<and> waiting s' = []"
    and acq_held: "heldby s u \<Longrightarrow> t \<noteq> u \<Longrightarrow> acq t s = (b, s') \<Longrightarrow>
      \<not> b \<and> heldby s' u \<and> waiting s' = waiting s @ [t]"
    and rel_none: "heldby s t \<Longrightarrow> waiting s = [] \<Longrightarrow> rel t s = (v, s') \<Longrightarrow> v = None \<and> free s'"
    and rel_some: "heldby s t \<Longrightarrow> waiting s = w # ws \<Longrightarrow> rel t s = (v, s') \<Longrightarrow>
      v = Some w \<and> heldby s' w \<and> waiting s' = ws"
    and free_waiting: "free s \<Longrightarrow> waiting s = []"
begin

definition run_inv :: "'s lock_run \<Rightarrow> bool" where
  "run_inv r \<longleftrightarrow>
     ((owners r = {} \<and> free (lk r)) \<or> (\<exists>t. owners r = {t} \<and> heldby (lk r) t \<and> t \<notin> set (waiting (lk r))))
     \<and> distinct (waiting (lk r)) \<and> requests r = grants r @ waiting (lk r)"

lemma run_inv_init: "free s \<Longrightarrow> run_inv (run_of s)"
  by (simp add: run_inv_def run_of_def free_waiting)

lemma run_inv_step:
  assumes "lock_step acq rel waiting r r'" and "run_inv r"
  shows "run_inv r'"
  using assms(1)
proof (cases rule: lock_step.cases)
  case (enter t s)
  then show ?thesis
    using assms(2) acq_free [of "lk r" t True s]
    by (auto simp: run_inv_def free_waiting dest: acq_held)
next
  case (block t s)
  then show ?thesis
    using assms(2) by (auto simp: run_inv_def dest: acq_held acq_free)
next
  case (leave t s)
  then show ?thesis
    using assms(2) by (cases "waiting (lk r)") (auto simp: run_inv_def free_waiting dest: rel_none rel_some)
next
  case (handoff t w s)
  then show ?thesis
    using assms(2) by (cases "waiting (lk r)") (auto simp: run_inv_def dest: rel_none rel_some)
qed

lemma run_inv_reach:
  assumes "free s" and "(lock_step acq rel waiting)\<^sup>*\<^sup>* (run_of s) r"
  shows "run_inv r"
  using assms(2) by induction (auto intro: run_inv_step run_inv_init assms(1))

text \<open>At most one thread is inside.\<close>

lemma mutual_exclusion:
  assumes "free s" and "(lock_step acq rel waiting)\<^sup>*\<^sup>* (run_of s) r"
    and "t \<in> owners r" and "u \<in> owners r"
  shows "t = u"
  using run_inv_reach [OF assms(1,2)] assms(3,4) by (auto simp: run_inv_def)

text \<open>The lock is granted in the order in which it was asked for.\<close>

lemma grants_in_order:
  assumes "free s" and "(lock_step acq rel waiting)\<^sup>*\<^sup>* (run_of s) r"
  shows "requests r = grants r @ waiting (lk r)"
  using run_inv_reach [OF assms] by (simp add: run_inv_def)

text \<open>No wake-up is lost: a thread waits only while another one is inside.\<close>

lemma no_lost_wakeup:
  assumes "free s" and "(lock_step acq rel waiting)\<^sup>*\<^sup>* (run_of s) r" and "waiting (lk r) \<noteq> []"
  shows "owners r \<noteq> {}"
  using run_inv_reach [OF assms(1,2)] assms(3) free_waiting by (auto simp: run_inv_def)

end

end
