(* ===== verification/Kern_Semaphore.thy ===== *)
theory Kern_Semaphore
  imports Kern_WaitQueue
begin

text \<open>
  Counting semaphores and mutexes: \<^verbatim>\<open>src/kernel/kern/semaphore.c\<close>. A semaphore initialised with
  the value 1 is a mutex: it records its owner, refuses to be taken twice by it and to be posted
  by another thread. The spin lock of the semaphore makes each operation one step; a thread that
  sleeps stays in the wait queue until \<^verbatim>\<open>sem_post\<close> hands it its turn. The counter is an unbounded
  integer: its negative part counts waiting threads, and nothing but posts that no thread waits
  for makes it large.
\<close>

section \<open>Model\<close>

definition SEM_VALUE_MAX :: nat where [kconfig]: "SEM_VALUE_MAX = 2048"
definition SEMAPHORE_ID :: u32 where "SEMAPHORE_ID = 0xA0B1C0B3"

datatype sem_scope = SEM_SCOPE_SYS | SEM_SCOPE_USR

record semaphore_s =
  sem_signature :: u32
  sem_value :: nat
  sem_count :: int
  sem_scope :: sem_scope
  sem_owner :: "tid option"
  sem_queue :: wait_queue_s

text \<open>\<^verbatim>\<open>sem_init\<close> leaves the owner field as it finds it.\<close>

definition sem_init :: "semaphore_s \<Rightarrow> nat \<Rightarrow> sem_scope \<Rightarrow> error_t \<times> semaphore_s" where
  "sem_init sem val scope =
     (if val > SEM_VALUE_MAX then (Some EINVAL, sem)
      else (OK, sem\<lparr>sem_signature := SEMAPHORE_ID, sem_value := val, sem_count := int val,
                    sem_scope := scope, sem_queue := wait_queue_init ''Semaphore Sync''\<rparr>))"

definition sem_getvalue :: "semaphore_s \<Rightarrow> int" where
  "sem_getvalue sem = sem_count sem"

text \<open>
  What a waiting operation answers: it is refused with an error, it passes, or the thread sleeps.
\<close>

datatype wait_answer = Refused errno | Passes | Sleeps

text \<open>
  \<^verbatim>\<open>sem_wait\<close> is one step here. The source tests the owner before it takes the spin lock and writes it
  after it has released it; \<open>sem_wait_owner_late\<close> below shows that the operations of the other
  threads do not see when the owner is written.
\<close>

definition sem_wait :: "tid \<Rightarrow> semaphore_s \<Rightarrow> wait_answer \<times> semaphore_s" where
  "sem_wait this sem =
     (if sem_value sem = 1 \<and> sem_count sem \<noteq> 1 \<and> sem_owner sem = Some this
      then (Refused EDEADLK, sem)
      else
        let sem = sem\<lparr>sem_count := sem_count sem - 1\<rparr>
        in if sem_count sem \<ge> 0 then (Passes, sem\<lparr>sem_owner := Some this\<rparr>)
           else (Sleeps, sem\<lparr>sem_queue := wait_on this (sem_queue sem) WAIT_LAST\<rparr>))"

text \<open>The rest of \<^verbatim>\<open>sem_wait\<close> when the thread runs again.\<close>

definition sem_wait_resume :: "tid \<Rightarrow> semaphore_s \<Rightarrow> semaphore_s" where
  "sem_wait_resume this sem = sem\<lparr>sem_owner := Some this\<rparr>"

definition sem_post :: "tid \<Rightarrow> semaphore_s \<Rightarrow> error_t \<times> tid option \<times> semaphore_s" where
  "sem_post this sem =
     (if sem_value sem = 1
         \<and> (sem_count sem \<le> 0 \<and> sem_owner sem \<noteq> Some this \<or> sem_count sem > 0)
      then (Some EINVAL, None, sem)
      else
        let sem = sem\<lparr>sem_count := sem_count sem + 1\<rparr>;
            (thread, queue) = (if sem_count sem \<le> 0 then wakeup_one (sem_queue sem) WAIT_FIRST
                               else (None, sem_queue sem))
        in (OK, thread, sem\<lparr>sem_queue := queue, sem_owner := thread\<rparr>))"

definition sem_trywait :: "tid \<Rightarrow> semaphore_s \<Rightarrow> error_t \<times> semaphore_s" where
  "sem_trywait this sem =
     (if sem_value sem = 1 \<and> sem_count sem \<noteq> 1 \<and> sem_owner sem = Some this
      then (Some EDEADLK, sem)
      else if sem_count sem > 0
      then (OK, sem\<lparr>sem_count := sem_count sem - 1, sem_owner := Some this\<rparr>)
      else (Some EAGAIN, sem))"

definition sem_destroy :: "semaphore_s \<Rightarrow> error_t \<times> semaphore_s" where
  "sem_destroy sem =
     (if sem_count sem \<noteq> int (sem_value sem) then (Some EBUSY, sem)
      else (OK, sem\<lparr>sem_owner := None\<rparr>))"

lemmas sem_defs =
  sem_init_def sem_getvalue_def sem_wait_def sem_wait_resume_def sem_post_def sem_trywait_def
  sem_destroy_def

abbreviation sem_waiting :: "semaphore_s \<Rightarrow> tid list" where
  "sem_waiting sem \<equiv> wq_root (sem_queue sem)"

section \<open>Mutexes\<close>

definition mutex_free :: "semaphore_s \<Rightarrow> bool" where
  "mutex_free sem \<longleftrightarrow> sem_value sem = 1 \<and> sem_count sem = 1 \<and> sem_waiting sem = []"

definition mutex_heldby :: "semaphore_s \<Rightarrow> tid \<Rightarrow> bool" where
  "mutex_heldby sem t \<longleftrightarrow> sem_value sem = 1 \<and> sem_owner sem = Some t
     \<and> sem_count sem = - int (length (sem_waiting sem))"

definition mutex_acq :: "tid \<Rightarrow> semaphore_s \<Rightarrow> bool \<times> semaphore_s" where
  "mutex_acq t sem = (fst (sem_wait t sem) = Passes, snd (sem_wait t sem))"

definition mutex_rel :: "tid \<Rightarrow> semaphore_s \<Rightarrow> tid option \<times> semaphore_s" where
  "mutex_rel t sem = snd (sem_post t sem)"

interpretation mutex: blocking_lock mutex_acq mutex_rel sem_waiting mutex_free mutex_heldby
proof unfold_locales
  fix s t w s' and ws v
  assume held: "mutex_heldby s t" and ws: "sem_waiting s = w # ws" and rel: "mutex_rel t s = (v, s')"
  then show "v = Some w \<and> mutex_heldby s' w \<and> sem_waiting s' = ws"
    by (auto simp: mutex_heldby_def mutex_rel_def sem_post_def)
qed (auto simp: mutex_heldby_def mutex_free_def mutex_acq_def mutex_rel_def sem_wait_def sem_post_def
    Let_def split: if_splits)

abbreviation mutex_run :: "semaphore_s lock_run \<Rightarrow> semaphore_s lock_run \<Rightarrow> bool" where
  "mutex_run \<equiv> lock_step mutex_acq mutex_rel sem_waiting"

text \<open>
  C29: A semaphore initialised with 1 is a fair mutex. From \<^verbatim>\<open>sem_init\<close>, after any interleaving of
  \<^verbatim>\<open>sem_wait\<close> calls by threads that do not have it and \<^verbatim>\<open>sem_post\<close> calls by the thread that has it,
  at most one thread is inside, it is the recorded owner, the mutex was granted in the order of the
  requests, and threads wait only while a thread is inside.
\<close>

theorem sem_mutex_fair:
  assumes "sem_init s0 1 scope = (OK, s)" and "mutex_run\<^sup>*\<^sup>* (run_of s) r"
  shows "(\<forall>t u. t \<in> owners r \<longrightarrow> u \<in> owners r \<longrightarrow> t = u)
    \<and> (\<forall>t \<in> owners r. sem_owner (lk r) = Some t)
    \<and> requests r = grants r @ sem_waiting (lk r)
    \<and> (sem_waiting (lk r) \<noteq> [] \<longrightarrow> owners r \<noteq> {})"
proof -
  have free: "mutex_free s"
    using assms(1) by (auto simp: sem_init_def mutex_free_def wait_queue_init_def kconfig)
  have "\<forall>t \<in> owners r. sem_owner (lk r) = Some t"
    using mutex.run_inv_reach [OF free assms(2)] by (auto simp: mutex.run_inv_def mutex_heldby_def)
  then show ?thesis
    using mutex.mutual_exclusion [OF free assms(2)] mutex.grants_in_order [OF free assms(2)]
      mutex.no_lost_wakeup [OF free assms(2)] by blast
qed

definition sem_blank :: semaphore_s where
  "sem_blank = \<lparr>sem_signature = 0, sem_value = 0, sem_count = 0, sem_scope = SEM_SCOPE_USR,
     sem_owner = None, sem_queue = wait_queue_init []\<rparr>"

theorem sem_mutex_fair_witness:
  "\<exists>s r. sem_init sem_blank 1 SEM_SCOPE_USR = (OK, s) \<and> mutex_run\<^sup>*\<^sup>* (run_of s) r
     \<and> owners r = {7} \<and> sem_waiting (lk r) = [8] \<and> requests r = grants r @ [8]"
proof -
  define s where "s = snd (sem_init sem_blank 1 SEM_SCOPE_USR)"
  have init: "sem_init sem_blank 1 SEM_SCOPE_USR = (OK, s)" by (simp add: s_def sem_init_def kconfig)
  define s1 where "s1 = snd (mutex_acq 7 s)"
  define r1 where "r1 = \<lparr>lk = s1, owners = {7 :: tid}, requests = [7], grants = [7]\<rparr>"
  define s2 where "s2 = snd (mutex_acq 8 s1)"
  define r2 where "r2 = \<lparr>lk = s2, owners = {7 :: tid}, requests = [7, 8], grants = [7]\<rparr>"
  note ev = s2_def s1_def s_def sem_init_def mutex_acq_def sem_wait_def kconfig wait_queue_init_def sem_blank_def
  have "mutex_run (run_of s) r1"
    using lock_step.enter [of 7 "run_of s" sem_waiting mutex_acq s1 mutex_rel]
    by (simp add: run_of_def r1_def ev)
  then have "mutex_run\<^sup>*\<^sup>* (run_of s) r1" by (rule r_into_rtranclp)
  moreover have "mutex_run r1 r2"
    using lock_step.block [of 8 r1 sem_waiting mutex_acq s2 mutex_rel]
    by (simp add: r1_def r2_def ev)
  ultimately have run: "mutex_run\<^sup>*\<^sup>* (run_of s) r2" by (rule rtranclp.rtrancl_into_rtrancl)
  have w: "sem_waiting s2 = [8]" by (simp add: ev)
  from sem_mutex_fair [OF init run] show ?thesis
    using init run w by (intro exI [of _ s] exI [of _ r2]) (simp add: r2_def)
qed

text \<open>
  A thread \<open>t\<close> that has passed \<^verbatim>\<open>sem_wait\<close> on a mutex and has released its spin lock writes the owner
  later. Every operation another thread does in between gives the same answer and, once the owner
  is written, the same mutex as after an immediate write; so the write may be part of the step.
\<close>

lemma sem_wait_owner_late:
  assumes "sem_value sem = 1" and "sem_count sem \<le> 0" and "sem_owner sem \<noteq> Some u" and "u \<noteq> t"
  shows "sem_wait u (sem_wait_resume t sem) = map_prod id (sem_wait_resume t) (sem_wait u sem)"
    and "sem_trywait u (sem_wait_resume t sem) = map_prod id (sem_wait_resume t) (sem_trywait u sem)"
    and "sem_post u (sem_wait_resume t sem) = map_prod id (map_prod id (sem_wait_resume t)) (sem_post u sem)"
  using assms by (auto simp: sem_defs)

text \<open>The errors of the mutex operations.\<close>

lemma mutex_errors:
  assumes "mutex_heldby sem t"
  shows "sem_wait t sem = (Refused EDEADLK, sem)"
    and "sem_trywait t sem = (Some EDEADLK, sem)"
    and "u \<noteq> t \<Longrightarrow> sem_trywait u sem = (Some EAGAIN, sem)"
    and "u \<noteq> t \<Longrightarrow> sem_post u sem = (Some EINVAL, None, sem)"
    and "sem_destroy sem = (Some EBUSY, sem)"
  using assms by (auto simp: mutex_heldby_def sem_defs)

text \<open>
  Misuse of a mutex is reported and changes nothing: while a thread holds it, that thread is
  refused with \<^verbatim>\<open>EDEADLK\<close> when it asks again, another thread's \<^verbatim>\<open>sem_trywait\<close> answers \<^verbatim>\<open>EAGAIN\<close> and
  its \<^verbatim>\<open>sem_post\<close> answers \<^verbatim>\<open>EINVAL\<close>, and the mutex cannot be destroyed; posting a free mutex is refused.
\<close>

theorem sem_mutex_misuse:
  "(mutex_heldby sem t \<longrightarrow>
      sem_wait t sem = (Refused EDEADLK, sem) \<and> sem_trywait t sem = (Some EDEADLK, sem)
      \<and> (\<forall>u. u \<noteq> t \<longrightarrow> sem_trywait u sem = (Some EAGAIN, sem) \<and> sem_post u sem = (Some EINVAL, None, sem))
      \<and> sem_destroy sem = (Some EBUSY, sem))
   \<and> (mutex_free sem \<longrightarrow> (\<forall>u. sem_post u sem = (Some EINVAL, None, sem)))"
  using mutex_errors by (auto simp: mutex_free_def sem_post_def)

theorem sem_mutex_misuse_witness:
  "let sem = snd (sem_wait 7 (snd (sem_init sem_blank 1 SEM_SCOPE_USR)))
   in mutex_heldby sem 7 \<and> sem_wait 7 sem = (Refused EDEADLK, sem)
      \<and> sem_post 8 sem = (Some EINVAL, None, sem)"
proof -
  define sem where "sem = snd (sem_wait 7 (snd (sem_init sem_blank 1 SEM_SCOPE_USR)))"
  have "mutex_heldby sem 7"
    by (simp add: sem_def mutex_heldby_def sem_wait_def sem_init_def kconfig wait_queue_init_def)
  with sem_mutex_misuse [of sem 7] show ?thesis unfolding Let_def sem_def [symmetric] by simp
qed

section \<open>Counting semaphores\<close>

text \<open>
  A run of a semaphore whose value is not 1: \<open>waits\<close> counts the \<^verbatim>\<open>sem_wait\<close> calls and \<open>posts\<close> the
  \<^verbatim>\<open>sem_post\<close> calls so far, by any thread; \<open>passed\<close> counts the waits that have passed, at once or
  through a wake-up.
\<close>

record sem_run =
  sm :: semaphore_s
  waits :: nat
  posts :: nat
  passed :: nat

inductive sem_step :: "sem_run \<Rightarrow> sem_run \<Rightarrow> bool" where
  wait_pass: "sem_wait t (sm r) = (Passes, s) \<Longrightarrow>
    sem_step r (r\<lparr>sm := s, waits := Suc (waits r), passed := Suc (passed r)\<rparr>)"
| wait_sleep: "sem_wait t (sm r) = (Sleeps, s) \<Longrightarrow> sem_step r (r\<lparr>sm := s, waits := Suc (waits r)\<rparr>)"
| try_pass: "sem_trywait t (sm r) = (OK, s) \<Longrightarrow>
    sem_step r (r\<lparr>sm := s, waits := Suc (waits r), passed := Suc (passed r)\<rparr>)"
| post_free: "sem_post t (sm r) = (OK, None, s) \<Longrightarrow> sem_step r (r\<lparr>sm := s, posts := Suc (posts r)\<rparr>)"
| post_wake: "sem_post t (sm r) = (OK, Some u, s) \<Longrightarrow>
    sem_step r (r\<lparr>sm := s, posts := Suc (posts r), passed := Suc (passed r)\<rparr>)"

text \<open>The balance of a semaphore: value, counter, posts, waits, passed waits and queue length.\<close>

definition sem_balance :: "nat \<Rightarrow> int \<Rightarrow> nat \<Rightarrow> nat \<Rightarrow> nat \<Rightarrow> nat \<Rightarrow> bool" where
  "sem_balance v c p w pa l \<longleftrightarrow>
     c = int v + int p - int w \<and> l = w - (v + p) \<and> w = pa + l"

lemma sem_balance_moves:
  "sem_balance v c p w pa l \<Longrightarrow> c > 0 \<Longrightarrow> sem_balance v (c - 1) p (Suc w) (Suc pa) l"
  "sem_balance v c p w pa l \<Longrightarrow> c \<le> 0 \<Longrightarrow> sem_balance v (c - 1) p (Suc w) pa (Suc l)"
  "sem_balance v c p w pa l \<Longrightarrow> c \<ge> 0 \<or> l = 0 \<Longrightarrow> sem_balance v (c + 1) (Suc p) w pa l"
  "sem_balance v c p w pa (Suc l) \<Longrightarrow> sem_balance v (c + 1) (Suc p) w (Suc pa) l"
  unfolding sem_balance_def by linarith+

definition sem_run_inv :: "sem_run \<Rightarrow> bool" where
  "sem_run_inv r \<longleftrightarrow> sem_balance (sem_value (sm r)) (sem_count (sm r)) (posts r) (waits r) (passed r)
     (length (sem_waiting (sm r)))"

lemma sem_value_frame:
  "sem_value (snd (sem_wait t s)) = sem_value s" "sem_value (snd (sem_trywait t s)) = sem_value s"
  "sem_value (snd (snd (sem_post t s))) = sem_value s"
  by (auto simp: sem_defs Let_def split: prod.splits)

lemma sem_value_step: "sem_step r r' \<Longrightarrow> sem_value (sm r') = sem_value (sm r)"
proof (induction rule: sem_step.induct)
  case (wait_pass t r s)
  then show ?case using sem_value_frame(1) [of t "sm r"] by simp
next
  case (wait_sleep t r s)
  then show ?case using sem_value_frame(1) [of t "sm r"] by simp
next
  case (try_pass t r s)
  then show ?case using sem_value_frame(2) [of t "sm r"] by simp
next
  case (post_free t r s)
  then show ?case using sem_value_frame(3) [of t "sm r"] by simp
next
  case (post_wake t r u s)
  then show ?case using sem_value_frame(3) [of t "sm r"] by simp
qed

text \<open>What each answer says about the counter and the queue.\<close>

lemma sem_answers:
  "sem_wait t s = (Passes, s') \<Longrightarrow>
     sem_count s > 0 \<and> sem_count s' = sem_count s - 1 \<and> sem_waiting s' = sem_waiting s"
  "sem_wait t s = (Sleeps, s') \<Longrightarrow>
     sem_count s \<le> 0 \<and> sem_count s' = sem_count s - 1 \<and> sem_waiting s' = sem_waiting s @ [t]"
  "sem_trywait t s = (OK, s') \<Longrightarrow>
     sem_count s > 0 \<and> sem_count s' = sem_count s - 1 \<and> sem_waiting s' = sem_waiting s"
  "sem_post t s = (OK, Some u, s') \<Longrightarrow>
     sem_count s < 0 \<and> sem_count s' = sem_count s + 1 \<and> sem_waiting s = u # sem_waiting s'"
  "sem_post t s = (OK, None, s') \<Longrightarrow>
     (sem_count s \<ge> 0 \<or> sem_waiting s = []) \<and> sem_count s' = sem_count s + 1 \<and> sem_waiting s' = sem_waiting s"
proof -
  assume "sem_post t s = (OK, Some u, s')"
  then show "sem_count s < 0 \<and> sem_count s' = sem_count s + 1 \<and> sem_waiting s = u # sem_waiting s'"
    by (cases "sem_waiting s") (auto simp: sem_post_def Let_def split: if_splits)
next
  assume "sem_post t s = (OK, None, s')"
  then show "(sem_count s \<ge> 0 \<or> sem_waiting s = []) \<and> sem_count s' = sem_count s + 1
      \<and> sem_waiting s' = sem_waiting s"
    by (cases "sem_waiting s") (auto simp: sem_post_def Let_def split: if_splits)
qed (auto simp: sem_wait_def sem_trywait_def Let_def split: if_splits)

lemma sem_run_inv_step: "sem_step r r' \<Longrightarrow> sem_run_inv r \<Longrightarrow> sem_run_inv r'"
proof -
  assume step: "sem_step r r'" and inv: "sem_run_inv r"
  note val = sem_value_step [OF step] and bal = inv [unfolded sem_run_inv_def]
  from step show ?thesis
  proof (cases rule: sem_step.cases)
    case (wait_pass t s)
    then show ?thesis
      using val sem_answers(1) [OF wait_pass(2)] sem_balance_moves(1) [OF bal] by (simp add: sem_run_inv_def)
  next
    case (wait_sleep t s)
    then show ?thesis
      using val sem_answers(2) [OF wait_sleep(2)] sem_balance_moves(2) [OF bal] by (simp add: sem_run_inv_def)
  next
    case (try_pass t s)
    then show ?thesis
      using val sem_answers(3) [OF try_pass(2)] sem_balance_moves(1) [OF bal] by (simp add: sem_run_inv_def)
  next
    case (post_free t s)
    then show ?thesis
      using val sem_answers(5) [OF post_free(2)] sem_balance_moves(3) [OF bal] by (auto simp: sem_run_inv_def)
  next
    case (post_wake t u s)
    then show ?thesis
      using val sem_answers(4) [OF post_wake(2)] sem_balance_moves(4) bal by (simp add: sem_run_inv_def)
  qed
qed

text \<open>
  A semaphore lets through exactly as many waits as its initial value and the posts so far
  allow: after any interleaving of waits, try-waits and posts from \<^verbatim>\<open>sem_init\<close>, the number of waits
  that have passed is the smaller of the waits requested and the initial value plus the posts, and
  the others are in the queue. So no wake-up is lost and none is spurious.
\<close>

theorem sem_counts:
  assumes "sem_init s0 v scope = (OK, s)"
    and "sem_step\<^sup>*\<^sup>* \<lparr>sm = s, waits = 0, posts = 0, passed = 0\<rparr> r"
  shows "passed r = min (waits r) (v + posts r)
    \<and> length (sem_waiting (sm r)) = waits r - (v + posts r)"
proof -
  have v: "sem_value s = v" "sem_count s = int v" "sem_waiting s = []"
    using assms(1) by (auto simp: sem_init_def wait_queue_init_def split: if_splits)
  have "sem_run_inv r \<and> sem_value (sm r) = v"
    using assms(2)
  proof induction
    case (step r1 r2)
    then show ?case using sem_run_inv_step sem_value_step by auto
  qed (simp add: sem_run_inv_def sem_balance_def v)
  then have len: "length (sem_waiting (sm r)) = waits r - (v + posts r)"
    and all: "waits r = passed r + length (sem_waiting (sm r))"
    unfolding sem_run_inv_def sem_balance_def by blast+
  have "passed r = waits r - (waits r - (v + posts r))" using len all by linarith
  then have "passed r = min (waits r) (v + posts r)" by (simp add: min_def)
  with len show ?thesis by blast
qed

theorem sem_counts_witness:
  "\<exists>s r. sem_init sem_blank 2 SEM_SCOPE_USR = (OK, s)
     \<and> sem_step\<^sup>*\<^sup>* \<lparr>sm = s, waits = 0, posts = 0, passed = 0\<rparr> r \<and> waits r = 1 \<and> passed r = 1
     \<and> length (sem_waiting (sm r)) = 0"
proof -
  define s where "s = snd (sem_init sem_blank 2 SEM_SCOPE_USR)"
  have init: "sem_init sem_blank 2 SEM_SCOPE_USR = (OK, s)" by (simp add: s_def sem_init_def kconfig)
  let ?r0 = "\<lparr>sm = s, waits = 0, posts = 0, passed = 0\<rparr>"
  let ?r1 = "\<lparr>sm = snd (sem_wait 7 s), waits = 1, posts = 0, passed = 1\<rparr>"
  have "sem_wait 7 s = (Passes, snd (sem_wait 7 s))"
    by (simp add: s_def sem_init_def sem_wait_def kconfig)
  then have "sem_step ?r0 ?r1" using sem_step.wait_pass [of 7 ?r0] by simp
  then have run: "sem_step\<^sup>*\<^sup>* ?r0 ?r1" by (rule r_into_rtranclp)
  from sem_counts [OF init run] init run show ?thesis by (intro exI [of _ s] exI [of _ ?r1]) simp
qed

end
