(* ===== verification/Kern_RwLock.thy ===== *)
theory Kern_RwLock
  imports Kern_Semaphore
begin

text \<open>
  Reader-writer locks: \<^verbatim>\<open>src/kernel/kern/rwlock.c\<close>. The counter is -1 while a writer is inside,
  the number of readers otherwise; writers have priority. The MCS lock of the object makes each
  operation one step, and a thread that sleeps is left in its queue until an unlock lets it in.
  The counter is an unbounded integer: it is at most the number of threads.

  The runs keep the sets of readers and writers that are inside. The invariant relates them to
  the counter; the properties are the exclusion of writers, that no thread waits for a free lock,
  and the priority of writers.
\<close>

section \<open>Model\<close>

definition RWLOCK_ID :: u32 where "RWLOCK_ID = 0xD1A5B1EF"

record rwlock_s =
  rw_signature :: u32
  rw_count :: int
  rd_wait_queue :: wait_queue_s
  wr_wait_queue :: wait_queue_s

definition rwlock_init :: rwlock_s where
  "rwlock_init = \<lparr>rw_signature = RWLOCK_ID, rw_count = 0,
     rd_wait_queue = wait_queue_init ''RWLOCK: Rreaders'',
     wr_wait_queue = wait_queue_init ''RWLOCK: Writers''\<rparr>"

definition rwlock_wrlock :: "tid \<Rightarrow> rwlock_s \<Rightarrow> wait_answer \<times> rwlock_s" where
  "rwlock_wrlock this l =
     (if rw_count l = 0 then (Passes, l\<lparr>rw_count := rw_count l - 1\<rparr>)
      else (Sleeps, l\<lparr>wr_wait_queue := wait_on this (wr_wait_queue l) WAIT_LAST\<rparr>))"

definition rwlock_rdlock :: "tid \<Rightarrow> rwlock_s \<Rightarrow> wait_answer \<times> rwlock_s" where
  "rwlock_rdlock this l =
     (if rw_count l \<ge> 0 \<and> wait_queue_isEmpty (wr_wait_queue l)
      then (Passes, l\<lparr>rw_count := rw_count l + 1\<rparr>)
      else (Sleeps, l\<lparr>rd_wait_queue := wait_on this (rd_wait_queue l) WAIT_LAST\<rparr>))"

definition rwlock_trywrlock :: "rwlock_s \<Rightarrow> error_t \<times> rwlock_s" where
  "rwlock_trywrlock l =
     (if rw_count l \<noteq> 0 then (Some EBUSY, l) else (OK, l\<lparr>rw_count := rw_count l - 1\<rparr>))"

definition rwlock_tryrdlock :: "rwlock_s \<Rightarrow> error_t \<times> rwlock_s" where
  "rwlock_tryrdlock l =
     (if rw_count l \<ge> 0 \<and> wait_queue_isEmpty (wr_wait_queue l)
      then (OK, l\<lparr>rw_count := rw_count l + 1\<rparr>) else (Some EBUSY, l))"

text \<open>The unlock returns the writer or the readers it wakes.\<close>

datatype rw_woken = NoOne | Writer tid | Readers "tid list"

definition rwlock_unlock :: "rwlock_s \<Rightarrow> error_t \<times> rw_woken \<times> rwlock_s" where
  "rwlock_unlock l =
     (if rw_count l = 0 then (Some EPERM, NoOne, l)
      else if rw_count l > 1 then (OK, NoOne, l\<lparr>rw_count := rw_count l - 1\<rparr>)
      else
        let l = l\<lparr>rw_count := 0\<rparr>; (w, q) = wakeup_one (wr_wait_queue l) WAIT_FIRST
        in case w of
             Some t \<Rightarrow> (OK, Writer t, l\<lparr>wr_wait_queue := q, rw_count := rw_count l - 1\<rparr>)
           | None \<Rightarrow>
               let (n, ts, q') = wakeup_all (rd_wait_queue l)
               in (OK, Readers ts, l\<lparr>wr_wait_queue := q, rd_wait_queue := q', rw_count := rw_count l + int n\<rparr>))"

definition rwlock_destroy :: "rwlock_s \<Rightarrow> error_t" where
  "rwlock_destroy l = (if rw_count l \<noteq> 0 then Some EBUSY else OK)"

abbreviation rd_waiting :: "rwlock_s \<Rightarrow> tid list" where
  "rd_waiting l \<equiv> wq_root (rd_wait_queue l)"

abbreviation wr_waiting :: "rwlock_s \<Rightarrow> tid list" where
  "wr_waiting l \<equiv> wq_root (wr_wait_queue l)"

section \<open>Runs\<close>

record rw_run =
  rwl :: rwlock_s
  readers :: "tid set"
  writers :: "tid set"

definition rw_idle :: "rw_run \<Rightarrow> tid \<Rightarrow> bool" where
  "rw_idle r t \<longleftrightarrow> t \<notin> readers r \<and> t \<notin> writers r \<and> t \<notin> set (rd_waiting (rwl r))
     \<and> t \<notin> set (wr_waiting (rwl r))"

inductive rw_step :: "rw_run \<Rightarrow> rw_run \<Rightarrow> bool" where
  wr_enter: "rw_idle r t \<Longrightarrow> rwlock_wrlock t (rwl r) = (Passes, l) \<Longrightarrow>
    rw_step r (r\<lparr>rwl := l, writers := insert t (writers r)\<rparr>)"
| wr_block: "rw_idle r t \<Longrightarrow> rwlock_wrlock t (rwl r) = (Sleeps, l) \<Longrightarrow> rw_step r (r\<lparr>rwl := l\<rparr>)"
| rd_enter: "rw_idle r t \<Longrightarrow> rwlock_rdlock t (rwl r) = (Passes, l) \<Longrightarrow>
    rw_step r (r\<lparr>rwl := l, readers := insert t (readers r)\<rparr>)"
| rd_block: "rw_idle r t \<Longrightarrow> rwlock_rdlock t (rwl r) = (Sleeps, l) \<Longrightarrow> rw_step r (r\<lparr>rwl := l\<rparr>)"
| wr_try: "rw_idle r t \<Longrightarrow> rwlock_trywrlock (rwl r) = (OK, l) \<Longrightarrow>
    rw_step r (r\<lparr>rwl := l, writers := insert t (writers r)\<rparr>)"
| rd_try: "rw_idle r t \<Longrightarrow> rwlock_tryrdlock (rwl r) = (OK, l) \<Longrightarrow>
    rw_step r (r\<lparr>rwl := l, readers := insert t (readers r)\<rparr>)"
| leave: "t \<in> readers r \<union> writers r \<Longrightarrow> rwlock_unlock (rwl r) = (OK, NoOne, l) \<Longrightarrow>
    rw_step r (r\<lparr>rwl := l, readers := readers r - {t}, writers := writers r - {t}\<rparr>)"
| leave_to_writer: "t \<in> readers r \<union> writers r \<Longrightarrow> rwlock_unlock (rwl r) = (OK, Writer w, l) \<Longrightarrow>
    rw_step r (r\<lparr>rwl := l, readers := readers r - {t}, writers := insert w (writers r - {t})\<rparr>)"
| leave_to_readers: "t \<in> readers r \<union> writers r \<Longrightarrow> rwlock_unlock (rwl r) = (OK, Readers ts, l) \<Longrightarrow>
    rw_step r (r\<lparr>rwl := l, readers := readers r - {t} \<union> set ts, writers := writers r - {t}\<rparr>)"

definition rw_start :: rw_run where
  "rw_start = \<lparr>rwl = rwlock_init, readers = {}, writers = {}\<rparr>"

text \<open>
  Either a writer is inside alone, or only readers are; a free lock has nobody waiting, readers wait
  only behind a writer, and no thread is in two places.
\<close>

definition rw_inv :: "rw_run \<Rightarrow> bool" where
  "rw_inv r \<longleftrightarrow>
     ((\<exists>w. writers r = {w} \<and> readers r = {} \<and> rw_count (rwl r) = -1)
      \<or> (writers r = {} \<and> finite (readers r) \<and> rw_count (rwl r) = int (card (readers r))))
     \<and> (rw_count (rwl r) = 0 \<longrightarrow> wr_waiting (rwl r) = [] \<and> rd_waiting (rwl r) = [])
     \<and> (rd_waiting (rwl r) \<noteq> [] \<longrightarrow> rw_count (rwl r) < 0 \<or> wr_waiting (rwl r) \<noteq> [])
     \<and> distinct (rd_waiting (rwl r) @ wr_waiting (rwl r))
     \<and> (set (rd_waiting (rwl r)) \<union> set (wr_waiting (rwl r))) \<inter> (readers r \<union> writers r) = {}"

lemma rw_inv_start: "rw_inv rw_start"
  by (simp add: rw_inv_def rw_start_def rwlock_init_def wait_queue_init_def)

text \<open>What each answer says about the counter and the queues.\<close>

lemma rw_lock_answers:
  "rwlock_wrlock t l = (Passes, l') \<Longrightarrow> rw_count l = 0 \<and> l' = l\<lparr>rw_count := -1\<rparr>"
  "rwlock_wrlock t l = (Sleeps, l') \<Longrightarrow> rw_count l \<noteq> 0 \<and> rw_count l' = rw_count l
     \<and> wr_waiting l' = wr_waiting l @ [t] \<and> rd_waiting l' = rd_waiting l"
  "rwlock_rdlock t l = (Passes, l') \<Longrightarrow> rw_count l \<ge> 0 \<and> wr_waiting l = []
     \<and> l' = l\<lparr>rw_count := rw_count l + 1\<rparr>"
  "rwlock_rdlock t l = (Sleeps, l') \<Longrightarrow> (rw_count l < 0 \<or> wr_waiting l \<noteq> []) \<and> rw_count l' = rw_count l
     \<and> rd_waiting l' = rd_waiting l @ [t] \<and> wr_waiting l' = wr_waiting l"
  "rwlock_trywrlock l = (OK, l') \<Longrightarrow> rw_count l = 0 \<and> l' = l\<lparr>rw_count := -1\<rparr>"
  "rwlock_tryrdlock l = (OK, l') \<Longrightarrow> rw_count l \<ge> 0 \<and> wr_waiting l = []
     \<and> l' = l\<lparr>rw_count := rw_count l + 1\<rparr>"
  by (auto simp: rwlock_wrlock_def rwlock_rdlock_def rwlock_trywrlock_def rwlock_tryrdlock_def
      wait_queue_isEmpty_def split: if_splits)

lemma rw_unlock_answers:
  "rwlock_unlock l = (OK, NoOne, l') \<Longrightarrow> rw_count l > 1 \<and> l' = l\<lparr>rw_count := rw_count l - 1\<rparr>"
  "rwlock_unlock l = (OK, Writer w, l') \<Longrightarrow> rw_count l \<noteq> 0 \<and> rw_count l \<le> 1 \<and> rw_count l' = -1
     \<and> wr_waiting l = w # wr_waiting l' \<and> rd_waiting l' = rd_waiting l"
  "rwlock_unlock l = (OK, Readers ts, l') \<Longrightarrow> rw_count l \<noteq> 0 \<and> rw_count l \<le> 1 \<and> ts = rd_waiting l
     \<and> rw_count l' = int (length ts) \<and> wr_waiting l = [] \<and> wr_waiting l' = [] \<and> rd_waiting l' = []"
  by (cases "wr_waiting l"; auto simp: rwlock_unlock_def Let_def split: if_splits)+

lemma rw_inv_holders:
  assumes "rw_inv r" and "t \<in> readers r \<union> writers r" and "rw_count (rwl r) \<le> 1"
  shows "readers r - {t} = {}" and "writers r - {t} = {}"
proof -
  have "card (readers r) \<le> 1 \<and> finite (readers r)" using assms(1,3) by (auto simp: rw_inv_def)
  then show "readers r - {t} = {}"
    using assms(1,2) by (auto simp: rw_inv_def card_le_Suc0_iff_eq)
  show "writers r - {t} = {}" using assms(1,2) by (auto simp: rw_inv_def)
qed

lemma rw_inv_step:
  assumes "rw_step r r'" and "rw_inv r"
  shows "rw_inv r'"
  using assms(1)
proof (cases rule: rw_step.cases)
  case (wr_enter t l)
  then show ?thesis using assms(2) rw_lock_answers(1) [OF wr_enter(3)] by (auto simp: rw_inv_def rw_idle_def)
next
  case (wr_block t l)
  then show ?thesis using assms(2) rw_lock_answers(2) [OF wr_block(3)] by (auto simp: rw_inv_def rw_idle_def)
next
  case (rd_enter t l)
  then show ?thesis using assms(2) rw_lock_answers(3) [OF rd_enter(3)] by (auto simp: rw_inv_def rw_idle_def)
next
  case (rd_block t l)
  then show ?thesis using assms(2) rw_lock_answers(4) [OF rd_block(3)] by (auto simp: rw_inv_def rw_idle_def)
next
  case (wr_try t l)
  then show ?thesis using assms(2) rw_lock_answers(5) [OF wr_try(3)] by (auto simp: rw_inv_def rw_idle_def)
next
  case (rd_try t l)
  then show ?thesis using assms(2) rw_lock_answers(6) [OF rd_try(3)] by (auto simp: rw_inv_def rw_idle_def)
next
  case (leave t l)
  then show ?thesis
    using assms(2) rw_unlock_answers(1) [OF leave(3)] by (auto simp: rw_inv_def card_Diff_singleton of_nat_diff)
next
  case (leave_to_writer t w l)
  note un = rw_unlock_answers(2) [OF leave_to_writer(3)]
  with rw_inv_holders [OF assms(2) leave_to_writer(2)] leave_to_writer(1) assms(2) show ?thesis
    by (auto simp: rw_inv_def)
next
  case (leave_to_readers t ts l)
  note un = rw_unlock_answers(3) [OF leave_to_readers(3)]
  with rw_inv_holders [OF assms(2) leave_to_readers(2)] leave_to_readers(1) assms(2) show ?thesis
    by (auto simp: rw_inv_def distinct_card)
qed

lemma rw_inv_reach: "rw_step\<^sup>*\<^sup>* rw_start r \<Longrightarrow> rw_inv r"
  by (induction rule: rtranclp_induct) (auto intro: rw_inv_step rw_inv_start)

section \<open>Properties\<close>

text \<open>A run in which a writer is inside, a second writer and a reader wait.\<close>

definition rw_busy :: rw_run where
  "rw_busy = \<lparr>rwl = \<lparr>rw_signature = RWLOCK_ID, rw_count = -1,
       rd_wait_queue = \<lparr>wq_name = ''RWLOCK: Rreaders'', wq_state = 0, wq_root = [9]\<rparr>,
       wr_wait_queue = \<lparr>wq_name = ''RWLOCK: Writers'', wq_state = 0, wq_root = [8]\<rparr>\<rparr>,
     readers = {}, writers = {7}\<rparr>"

lemma rw_busy_reach: "rw_step\<^sup>*\<^sup>* rw_start rw_busy"
proof -
  note ev = rw_start_def rw_busy_def rwlock_init_def wait_queue_init_def rw_idle_def
    rwlock_wrlock_def rwlock_rdlock_def wait_on_def wait_queue_isEmpty_def
  let ?r1 = "rw_busy\<lparr>rwl := rwlock_init\<lparr>rw_count := -1\<rparr>\<rparr>"
  let ?r2 = "rw_busy\<lparr>rwl := (rwl rw_busy)\<lparr>rd_wait_queue := wait_queue_init ''RWLOCK: Rreaders''\<rparr>\<rparr>"
  have "rw_step rw_start ?r1"
    using rw_step.wr_enter [of rw_start 7 "rwlock_init\<lparr>rw_count := -1\<rparr>"] by (simp add: ev)
  moreover have "rw_step ?r1 ?r2"
    using rw_step.wr_block [of ?r1 8 "rwl ?r2"] by (simp add: ev)
  moreover have "rw_step ?r2 rw_busy"
    using rw_step.rd_block [of ?r2 9 "rwl rw_busy"] by (simp add: ev)
  ultimately show ?thesis by (meson r_into_rtranclp rtranclp_trans)
qed

text \<open>
  C27: Reader-writer exclusion. After any interleaving of lock, try-lock and unlock operations by any
  threads, at most one writer is inside, no reader is inside together with a writer, the counter is
  -1 with a writer and the number of readers otherwise, nobody waits for a lock that is free, and
  readers wait only while a writer is inside or waiting.
\<close>

theorem rwlock_exclusion:
  assumes "rw_step\<^sup>*\<^sup>* rw_start r"
  shows "(\<forall>t u. t \<in> writers r \<longrightarrow> u \<in> writers r \<longrightarrow> t = u)
    \<and> (writers r \<noteq> {} \<longrightarrow> readers r = {})
    \<and> rw_count (rwl r) = (if writers r \<noteq> {} then -1 else int (card (readers r)))
    \<and> (readers r = {} \<and> writers r = {} \<longrightarrow> wr_waiting (rwl r) = [] \<and> rd_waiting (rwl r) = [])
    \<and> (rd_waiting (rwl r) \<noteq> [] \<longrightarrow> writers r \<noteq> {} \<or> wr_waiting (rwl r) \<noteq> [])"
  using rw_inv_reach [OF assms] by (auto simp: rw_inv_def)

theorem rwlock_exclusion_witness:
  "rw_step\<^sup>*\<^sup>* rw_start rw_busy \<and> writers rw_busy = {7} \<and> readers rw_busy = {}
     \<and> rw_count (rwl rw_busy) = -1"
  using rwlock_exclusion [OF rw_busy_reach] rw_busy_reach by (simp add: rw_busy_def)

text \<open>
  Writers have priority. In every reachable state with a waiting writer, no new reader gets in
  (its request is queued, its try is refused), and the unlock that frees the lock hands it to the
  writer that has waited longest, even when readers wait too.
\<close>

theorem rwlock_writer_priority:
  assumes "rw_step\<^sup>*\<^sup>* rw_start r" and "wr_waiting (rwl r) = w # ws"
  shows "fst (rwlock_rdlock t (rwl r)) = Sleeps
    \<and> rwlock_tryrdlock (rwl r) = (Some EBUSY, rwl r)
    \<and> (\<exists>l. rwlock_unlock (rwl r) = (OK, NoOne, l) \<and> wr_waiting l = w # ws
         \<or> rwlock_unlock (rwl r) = (OK, Writer w, l) \<and> wr_waiting l = ws
            \<and> rd_waiting l = rd_waiting (rwl r) \<and> rw_count l = -1)"
proof -
  have "rw_count (rwl r) \<noteq> 0" using rw_inv_reach [OF assms(1)] assms(2) by (auto simp: rw_inv_def)
  then show ?thesis
    using assms(2) by (auto simp: rwlock_rdlock_def rwlock_tryrdlock_def rwlock_unlock_def
        wait_queue_isEmpty_def Let_def)
qed

theorem rwlock_writer_priority_witness:
  "fst (rwlock_rdlock 5 (rwl rw_busy)) = Sleeps
     \<and> (\<exists>l. rwlock_unlock (rwl rw_busy) = (OK, Writer 8, l) \<and> rd_waiting l = [9])"
  using rwlock_writer_priority [OF rw_busy_reach, of 8 "[]" 5]
  by (auto simp: rw_busy_def rwlock_unlock_def Let_def)

end
