(* ===== verification/Kern_CondVar.thy ===== *)
theory Kern_CondVar
  imports Kern_Semaphore "HOL-Library.Multiset"
begin

text \<open>
  Condition variables: \<^verbatim>\<open>src/kernel/kern/cond_var.c\<close>. \<^verbatim>\<open>cv_wait\<close> is two steps: the one that posts
  the mutex and puts the thread to sleep in the queue of the condition variable (its spin lock is
  held throughout), and the \<^verbatim>\<open>sem_wait\<close> with which the thread takes the mutex again once it has been
  woken. The lemmas show that a mutex and a condition variable make a monitor: the mutex steps of
  a run are steps of the blocking-lock contract.
\<close>

section \<open>Model\<close>

definition COND_VAR_ID :: u32 where "COND_VAR_ID = 0xB1CA0BA5"

record cv_s =
  cv_signature :: u32
  cv_queue :: wait_queue_s

definition cv_init :: cv_s where
  "cv_init = \<lparr>cv_signature = COND_VAR_ID, cv_queue = wait_queue_init ''Condition Variable Sync''\<rparr>"

text \<open>The answer, the thread woken by the post of the mutex, and the two objects.\<close>

definition cv_wait :: "tid \<Rightarrow> cv_s \<Rightarrow> semaphore_s \<Rightarrow> wait_answer \<times> tid option \<times> cv_s \<times> semaphore_s" where
  "cv_wait this cv sem =
     (let val = sem_getvalue sem
      in if sem_owner sem \<noteq> Some this \<or> val > 0 then (Refused EINVAL, None, cv, sem)
         else case sem_post this sem of
           (Some err, w, sem') \<Rightarrow> (Refused err, w, cv, sem')
         | (None, w, sem') \<Rightarrow>
             (Sleeps, w, cv\<lparr>cv_queue := wait_on this (cv_queue cv) WAIT_LAST\<rparr>, sem'))"

definition cv_wait_resume :: "tid \<Rightarrow> semaphore_s \<Rightarrow> wait_answer \<times> semaphore_s" where
  "cv_wait_resume this sem = sem_wait this sem"

definition cv_signal :: "cv_s \<Rightarrow> tid option \<times> cv_s" where
  "cv_signal cv =
     (let (thread, q) = wakeup_one (cv_queue cv) WAIT_FIRST in (thread, cv\<lparr>cv_queue := q\<rparr>))"

definition cv_broadcast :: "cv_s \<Rightarrow> tid list \<times> cv_s" where
  "cv_broadcast cv = (let (n, ts, q) = wakeup_all (cv_queue cv) in (ts, cv\<lparr>cv_queue := q\<rparr>))"

definition cv_destroy :: "cv_s \<Rightarrow> error_t" where
  "cv_destroy cv = (if \<not> wait_queue_isEmpty (cv_queue cv) then Some EBUSY else OK)"

abbreviation cv_waiting :: "cv_s \<Rightarrow> tid list" where
  "cv_waiting cv \<equiv> wq_root (cv_queue cv)"

section \<open>Monitors\<close>

text \<open>
  A run of a monitor: the mutex with its threads, the condition variable, and the history of the
  threads that slept on it, of those that were woken and of those whose \<^verbatim>\<open>cv_wait\<close> has returned. A
  call of \<^verbatim>\<open>cv_wait\<close> goes through four stages: its thread sleeps in the queue of the condition
  variable; it is woken (\<open>ready\<close>); its last line, \<^verbatim>\<open>sem_wait\<close>, takes the mutex or puts it to sleep in
  the queue of the mutex (\<open>queued\<close>); and it returns. Until then the thread does nothing else: the
  guards of \<open>mutex_op\<close> say that the mutex operations of a run are those of other threads.
\<close>

record cv_run =
  mx :: "semaphore_s lock_run"
  cvar :: cv_s
  slept :: "tid list"
  woken :: "tid list"
  ready :: "tid list"
  queued :: "tid list"
  returned :: "tid list"

inductive cv_step :: "cv_run \<Rightarrow> cv_run \<Rightarrow> bool" where
  mutex_op: "mutex_run (mx r) m \<Longrightarrow>
    (owners m \<union> set (sem_waiting (lk m))) \<inter> (set (cv_waiting (cvar r)) \<union> set (ready r)) = {} \<Longrightarrow>
    set (queued r) \<subseteq> owners m \<union> set (sem_waiting (lk m)) \<Longrightarrow> cv_step r (r\<lparr>mx := m\<rparr>)"
| wait_free: "t \<in> owners (mx r) \<Longrightarrow> t \<notin> set (queued r) \<Longrightarrow>
    cv_wait t (cvar r) (lk (mx r)) = (Sleeps, None, cv, sem) \<Longrightarrow>
    cv_step r (r\<lparr>mx := (mx r)\<lparr>lk := sem, owners := owners (mx r) - {t}\<rparr>, cvar := cv,
      slept := slept r @ [t]\<rparr>)"
| wait_handoff: "t \<in> owners (mx r) \<Longrightarrow> t \<notin> set (queued r) \<Longrightarrow>
    cv_wait t (cvar r) (lk (mx r)) = (Sleeps, Some w, cv, sem) \<Longrightarrow>
    cv_step r (r\<lparr>mx := (mx r)\<lparr>lk := sem, owners := insert w (owners (mx r) - {t}),
        grants := grants (mx r) @ [w]\<rparr>, cvar := cv, slept := slept r @ [t]\<rparr>)"
| signal: "cv_signal (cvar r) = (Some w, cv) \<Longrightarrow>
    cv_step r (r\<lparr>cvar := cv, woken := woken r @ [w], ready := ready r @ [w]\<rparr>)"
| broadcast: "cv_broadcast (cvar r) = (ws, cv) \<Longrightarrow>
    cv_step r (r\<lparr>cvar := cv, woken := woken r @ ws, ready := ready r @ ws\<rparr>)"
| resume_pass: "t \<in> set (ready r) \<Longrightarrow> cv_wait_resume t (lk (mx r)) = (Passes, sem) \<Longrightarrow>
    cv_step r (r\<lparr>mx := \<lparr>lk = sem, owners = insert t (owners (mx r)), requests = requests (mx r) @ [t],
        grants = grants (mx r) @ [t]\<rparr>, ready := remove1 t (ready r), returned := returned r @ [t]\<rparr>)"
| resume_sleep: "t \<in> set (ready r) \<Longrightarrow> cv_wait_resume t (lk (mx r)) = (Sleeps, sem) \<Longrightarrow>
    cv_step r (r\<lparr>mx := (mx r)\<lparr>lk := sem, requests := requests (mx r) @ [t]\<rparr>,
        ready := remove1 t (ready r), queued := queued r @ [t]\<rparr>)"
| resume_finish: "t \<in> set (queued r) \<Longrightarrow> t \<notin> set (sem_waiting (lk (mx r))) \<Longrightarrow>
    cv_step r (r\<lparr>mx := (mx r)\<lparr>lk := sem_wait_resume t (lk (mx r))\<rparr>,
        queued := remove1 t (queued r), returned := returned r @ [t]\<rparr>)"

definition cv_run_inv :: "cv_run \<Rightarrow> bool" where
  "cv_run_inv r \<longleftrightarrow> mutex.run_inv (mx r) \<and> distinct (cv_waiting (cvar r) @ ready r)
     \<and> (owners (mx r) \<union> set (sem_waiting (lk (mx r)))) \<inter> (set (cv_waiting (cvar r)) \<union> set (ready r)) = {}
     \<and> set (queued r) \<subseteq> owners (mx r) \<union> set (sem_waiting (lk (mx r))) \<and> distinct (queued r)
     \<and> slept r = woken r @ cv_waiting (cvar r)
     \<and> mset (woken r) = mset (ready r) + mset (queued r) + mset (returned r)"

lemma cv_wait_sleeps:
  assumes "cv_wait t cv sem = (Sleeps, w, cv', sem')"
  shows "sem_post t sem = (OK, w, sem')" and "cv_waiting cv' = cv_waiting cv @ [t]"
  using assms by (auto simp: cv_wait_def Let_def split: if_splits option.splits prod.splits)

lemma mutex_rel_post: "sem_post t sem = (OK, w, sem') \<Longrightarrow> mutex_rel t sem = (w, sem')"
  by (simp add: mutex_rel_def)

text \<open>The first step of \<^verbatim>\<open>cv_wait\<close> is a release step of the mutex.\<close>

lemma cv_wait_lock_step:
  assumes "t \<in> owners m"
  shows "cv_wait t cv (lk m) = (Sleeps, None, cv', sem) \<Longrightarrow>
      mutex_run m (m\<lparr>lk := sem, owners := owners m - {t}\<rparr>)"
    and "cv_wait t cv (lk m) = (Sleeps, Some w, cv', sem) \<Longrightarrow>
      mutex_run m (m\<lparr>lk := sem, owners := insert w (owners m - {t}), grants := grants m @ [w]\<rparr>)"
  using assms by (auto dest!: cv_wait_sleeps(1) mutex_rel_post intro: lock_step.leave lock_step.handoff)

lemma mutex_post_queue:
  "mutex_heldby sem t \<Longrightarrow> sem_post t sem = (OK, None, sem') \<Longrightarrow> sem_waiting sem' = []"
  "sem_post t sem = (OK, Some w, sem') \<Longrightarrow> sem_waiting sem = w # sem_waiting sem'"
  using sem_answers(4) [of t sem w sem'] sem_answers(5) [of t sem sem']
  by (auto simp: mutex_heldby_def)

lemma run_inv_owner: "mutex.run_inv m \<Longrightarrow> t \<in> owners m \<Longrightarrow> owners m = {t} \<and> mutex_heldby (lk m) t \<and> t \<notin> set (sem_waiting (lk m))"
  by (auto simp: mutex.run_inv_def)

text \<open>
  The last line of \<^verbatim>\<open>cv_wait\<close> is a request step of the mutex: it passes when the mutex is free and
  sleeps behind the other threads when it is held by another one; it is never refused.
\<close>

lemma cv_resume_lock_step:
  assumes "t \<notin> owners m" and "t \<notin> set (sem_waiting (lk m))"
  shows "cv_wait_resume t (lk m) = (Passes, sem) \<Longrightarrow> mutex_run m
      \<lparr>lk = sem, owners = insert t (owners m), requests = requests m @ [t], grants = grants m @ [t]\<rparr>"
    and "cv_wait_resume t (lk m) = (Sleeps, sem) \<Longrightarrow>
      mutex_run m (m\<lparr>lk := sem, requests := requests m @ [t]\<rparr>)"
  using assms by (auto simp: cv_wait_resume_def mutex_acq_def intro: lock_step.enter lock_step.block)

lemma cv_resume_answer:
  "mutex_free sem \<Longrightarrow> \<exists>sem'. cv_wait_resume t sem = (Passes, sem') \<and> mutex_heldby sem' t \<and> sem_waiting sem' = []"
  "mutex_heldby sem u \<Longrightarrow> u \<noteq> t \<Longrightarrow> \<exists>sem'. cv_wait_resume t sem = (Sleeps, sem')
     \<and> mutex_heldby sem' u \<and> sem_waiting sem' = sem_waiting sem @ [t]"
  by (auto simp: cv_wait_resume_def sem_wait_def mutex_free_def mutex_heldby_def)

lemma cv_finish_held: "mutex_heldby sem t \<Longrightarrow> sem_wait_resume t sem = sem"
  by (simp add: sem_wait_resume_def mutex_heldby_def)

lemma cv_run_inv_step:
  assumes "cv_step r r'" and "cv_run_inv r"
  shows "cv_run_inv r'"
  using assms(1)
proof (cases rule: cv_step.cases)
  case (mutex_op m)
  then show ?thesis using assms(2) mutex.run_inv_step by (auto simp: cv_run_inv_def)
next
  case (wait_free t cv sem)
  note inv = assms(2) [unfolded cv_run_inv_def]
  note o = run_inv_owner [OF conjunct1 [OF inv] wait_free(2)]
  note step = cv_wait_lock_step(1) [OF wait_free(2,4)]
  note post = cv_wait_sleeps [OF wait_free(4)]
  have "sem_waiting sem = []" "sem_waiting (lk (mx r)) = []"
    using mutex_post_queue(1) o post(1) sem_answers(5) [OF post(1)] by auto
  moreover from this have "queued r = []" using inv o wait_free(3) by (cases "queued r") auto
  ultimately show ?thesis
    using inv o mutex.run_inv_step [OF step] post(2) wait_free(1) by (auto simp: cv_run_inv_def)
next
  case (wait_handoff t w cv sem)
  note inv = assms(2) [unfolded cv_run_inv_def]
  note o = run_inv_owner [OF conjunct1 [OF inv] wait_handoff(2)]
  note step = cv_wait_lock_step(2) [OF wait_handoff(2,4)]
  have "sem_waiting (lk (mx r)) = w # sem_waiting sem"
    using mutex_post_queue(2) cv_wait_sleeps(1) [OF wait_handoff(4)] by blast
  with inv o mutex.run_inv_step [OF step] cv_wait_sleeps(2) [OF wait_handoff(4)] wait_handoff(1,3)
  show ?thesis by (auto simp: cv_run_inv_def)
next
  case (signal w cv)
  then show ?thesis
    using assms(2) by (cases "cv_waiting (cvar r)") (auto simp: cv_run_inv_def cv_signal_def)
next
  case (broadcast ws cv)
  then show ?thesis using assms(2) by (auto simp: cv_run_inv_def cv_broadcast_def)
next
  case (resume_pass t sem)
  note inv = assms(2) [unfolded cv_run_inv_def]
  have t: "t \<notin> owners (mx r)" "t \<notin> set (sem_waiting (lk (mx r)))" using inv resume_pass(2) by auto
  note step = mutex.run_inv_step [OF cv_resume_lock_step(1) [OF t resume_pass(3)] conjunct1 [OF inv]]
  have "sem_waiting sem = sem_waiting (lk (mx r))"
    using sem_answers(1) resume_pass(3) by (simp add: cv_wait_resume_def)
  with inv step resume_pass(1,2) show ?thesis by (auto simp: cv_run_inv_def)
next
  case (resume_sleep t sem)
  note inv = assms(2) [unfolded cv_run_inv_def]
  have t: "t \<notin> owners (mx r)" "t \<notin> set (sem_waiting (lk (mx r)))" using inv resume_sleep(2) by auto
  note step = mutex.run_inv_step [OF cv_resume_lock_step(2) [OF t resume_sleep(3)] conjunct1 [OF inv]]
  have "sem_waiting sem = sem_waiting (lk (mx r)) @ [t]"
    using sem_answers(2) resume_sleep(3) by (simp add: cv_wait_resume_def)
  with inv step t resume_sleep(1,2) show ?thesis by (auto simp: cv_run_inv_def)
next
  case (resume_finish t)
  note inv = assms(2) [unfolded cv_run_inv_def]
  have "t \<in> owners (mx r)" using inv resume_finish(2,3) by auto
  then have "mutex_heldby (lk (mx r)) t" using run_inv_owner inv by blast
  with inv resume_finish(1,2) show ?thesis by (auto simp: cv_run_inv_def cv_finish_held)
qed

definition cv_start :: "semaphore_s \<Rightarrow> cv_run" where
  "cv_start sem = \<lparr>mx = run_of sem, cvar = cv_init, slept = [], woken = [], ready = [], queued = [],
     returned = []\<rparr>"

lemma cv_run_inv_reach:
  assumes "mutex_free sem" and "cv_step\<^sup>*\<^sup>* (cv_start sem) r"
  shows "cv_run_inv r"
  using assms(2)
proof induction
  case base
  then show ?case
    using mutex.run_inv_init [OF assms(1)] assms(1)
    by (simp add: cv_run_inv_def cv_start_def cv_init_def wait_queue_init_def run_of_def)
qed (auto intro: cv_run_inv_step)

text \<open>What the thread inside the monitor gets from \<^verbatim>\<open>cv_wait\<close>.\<close>

lemma cv_wait_inside:
  assumes "mutex_heldby sem t"
  shows "\<exists>w cv' sem'. cv_wait t cv sem = (Sleeps, w, cv', sem') \<and> cv_waiting cv' = cv_waiting cv @ [t]
     \<and> (case sem_waiting sem of [] \<Rightarrow> w = None \<and> mutex_free sem'
        | u # us \<Rightarrow> w = Some u \<and> mutex_heldby sem' u \<and> sem_waiting sem' = us)"
proof -
  have "fst (sem_post t sem) = OK"
    using assms by (auto simp: mutex_heldby_def sem_post_def Let_def split: prod.splits)
  then obtain w sem' where post: "sem_post t sem = (OK, w, sem')" by (metis prod.collapse)
  then have rel: "mutex_rel t sem = (w, sem')" by (rule mutex_rel_post)
  have "cv_wait t cv sem = (Sleeps, w, cv\<lparr>cv_queue := wait_on t (cv_queue cv) WAIT_LAST\<rparr>, sem')"
    using assms post by (simp add: cv_wait_def sem_getvalue_def mutex_heldby_def)
  then show ?thesis
    using mutex.rel_none [OF assms _ rel] mutex.rel_some [OF assms _ rel] by (auto split: list.splits)
qed

text \<open>What a woken thread gets from the last line of \<^verbatim>\<open>cv_wait\<close>.\<close>

lemma cv_resume_inside:
  assumes "cv_run_inv r" and "t \<in> set (ready r)"
  shows "\<exists>sem'. if owners (mx r) = {} then cv_wait_resume t (lk (mx r)) = (Passes, sem') \<and> mutex_heldby sem' t
     else cv_wait_resume t (lk (mx r)) = (Sleeps, sem') \<and> sem_waiting sem' = sem_waiting (lk (mx r)) @ [t]"
proof (cases "owners (mx r) = {}")
  case True
  then have "mutex_free (lk (mx r))" using assms(1) by (auto simp: cv_run_inv_def mutex.run_inv_def)
  with True show ?thesis using cv_resume_answer(1) [of "lk (mx r)" t] by auto
next
  case False
  then obtain u where "owners (mx r) = {u}" "mutex_heldby (lk (mx r)) u"
    using assms(1) by (auto simp: cv_run_inv_def mutex.run_inv_def)
  moreover from this have "u \<noteq> t" using assms by (auto simp: cv_run_inv_def)
  ultimately show ?thesis using cv_resume_answer(2) [of "lk (mx r)" u t] by auto
qed

text \<open>A thread whose \<^verbatim>\<open>cv_wait\<close> returns owns the mutex.\<close>

lemma cv_return_owns:
  assumes inv: "cv_run_inv r" and step: "cv_step r r'" and ret: "returned r' = returned r @ [t]"
  shows "owners (mx r') = {t} \<and> mutex_heldby (lk (mx r')) t"
proof -
  have "t \<in> owners (mx r')"
    using step
  proof (cases rule: cv_step.cases)
    case (resume_finish u)
    then show ?thesis using inv ret by (auto simp: cv_run_inv_def)
  qed (use ret in auto)
  moreover have "mutex.run_inv (mx r')" using cv_run_inv_step [OF step inv] by (simp add: cv_run_inv_def)
  ultimately show ?thesis using run_inv_owner by blast
qed

text \<open>
  C32: A mutex and a condition variable make a monitor. After any interleaving of mutex operations,
  waits, signals, broadcasts and returns from waits, at most one thread is inside the monitor and no
  thread that sleeps on the condition is; the threads woken so far are exactly those that slept
  longest ago, in the order in which they went to sleep, and each of them is ready to take the
  mutex again, queues for it, or has returned, so no wait is lost. The thread inside can always
  wait: its \<^verbatim>\<open>cv_wait\<close> puts it last in the queue and releases the mutex, to the first thread that
  asked for it. A woken thread that runs is never refused: it takes the mutex at once when no thread
  is inside and queues last for it otherwise. And a thread whose \<^verbatim>\<open>cv_wait\<close> returns is, from that
  step on, the thread inside and the recorded owner of the mutex.
\<close>

theorem cv_monitor:
  assumes "mutex_free sem" and "cv_step\<^sup>*\<^sup>* (cv_start sem) r"
  shows "(\<forall>t u. t \<in> owners (mx r) \<longrightarrow> u \<in> owners (mx r) \<longrightarrow> t = u)
    \<and> owners (mx r) \<inter> set (cv_waiting (cvar r)) = {}
    \<and> slept r = woken r @ cv_waiting (cvar r)
    \<and> mset (woken r) = mset (ready r) + mset (queued r) + mset (returned r)
    \<and> (\<forall>t \<in> owners (mx r). \<exists>w cv sem'. cv_wait t (cvar r) (lk (mx r)) = (Sleeps, w, cv, sem')
         \<and> cv_waiting cv = cv_waiting (cvar r) @ [t]
         \<and> (case sem_waiting (lk (mx r)) of [] \<Rightarrow> w = None \<and> mutex_free sem'
            | u # us \<Rightarrow> w = Some u \<and> mutex_heldby sem' u \<and> sem_waiting sem' = us))
    \<and> (\<forall>t \<in> set (ready r). \<exists>sem'.
         if owners (mx r) = {} then cv_wait_resume t (lk (mx r)) = (Passes, sem') \<and> mutex_heldby sem' t
         else cv_wait_resume t (lk (mx r)) = (Sleeps, sem') \<and> sem_waiting sem' = sem_waiting (lk (mx r)) @ [t])
    \<and> (\<forall>r' t. cv_step r r' \<longrightarrow> returned r' = returned r @ [t] \<longrightarrow>
         owners (mx r') = {t} \<and> mutex_heldby (lk (mx r')) t)"
proof -
  note reach = cv_run_inv_reach [OF assms]
  note inv = reach [unfolded cv_run_inv_def]
  have "\<forall>t \<in> owners (mx r). mutex_heldby (lk (mx r)) t" using run_inv_owner inv by blast
  then show ?thesis
    using inv run_inv_owner cv_wait_inside cv_resume_inside [OF reach] cv_return_owns [OF reach]
    by (intro conjI) (blast, blast, blast, blast, blast, blast, blast)
qed

text \<open>
  The witness: thread 7 takes the mutex and waits, thread 8 takes it and signals; 7 queues for the
  mutex, 8 posts it, and the \<^verbatim>\<open>cv_wait\<close> of 7 returns.
\<close>

definition ex_mutex :: "tid option \<Rightarrow> int \<Rightarrow> tid list \<Rightarrow> semaphore_s" where
  "ex_mutex own n q = \<lparr>sem_signature = SEMAPHORE_ID, sem_value = 1, sem_count = n,
     sem_scope = SEM_SCOPE_USR, sem_owner = own,
     sem_queue = \<lparr>wq_name = ''Semaphore Sync'', wq_state = 0, wq_root = q\<rparr>\<rparr>"

definition ex_cv :: "tid list \<Rightarrow> cv_s" where
  "ex_cv q = \<lparr>cv_signature = COND_VAR_ID,
     cv_queue = \<lparr>wq_name = ''Condition Variable Sync'', wq_state = 0, wq_root = q\<rparr>\<rparr>"

lemma ex_start:
  "sem_init sem_blank 1 SEM_SCOPE_USR = (OK, ex_mutex None 1 [])" "cv_init = ex_cv []"
  by (simp_all add: ex_mutex_def ex_cv_def sem_init_def sem_blank_def kconfig wait_queue_init_def cv_init_def)

lemmas cv_eval = ex_mutex_def ex_cv_def sem_wait_def cv_wait_def cv_wait_resume_def sem_getvalue_def
  sem_post_def cv_signal_def mutex_acq_def mutex_rel_def sem_wait_resume_def wait_on_def

abbreviation ex_run where
  "ex_run own n q us rs gs c sl wk rd qd rt \<equiv>
     \<lparr>mx = \<lparr>lk = ex_mutex own n q, owners = us, requests = rs, grants = gs\<rparr>, cvar = ex_cv c,
      slept = sl, woken = wk, ready = rd, queued = qd, returned = rt\<rparr>"

lemma ex_steps:
  "cv_step (ex_run None 1 [] {} [] [] [] [] [] [] [] []) (ex_run (Some 7) 0 [] {7} [7] [7] [] [] [] [] [] [])"
  "cv_step (ex_run (Some 7) 0 [] {7} [7] [7] [] [] [] [] [] []) (ex_run None 1 [] {} [7] [7] [7] [7] [] [] [] [])"
  "cv_step (ex_run None 1 [] {} [7] [7] [7] [7] [] [] [] [])
     (ex_run (Some 8) 0 [] {8} [7, 8] [7, 8] [7] [7] [] [] [] [])"
  "cv_step (ex_run (Some 8) 0 [] {8} [7, 8] [7, 8] [7] [7] [] [] [] [])
     (ex_run (Some 8) 0 [] {8} [7, 8] [7, 8] [] [7] [7] [7] [] [])"
  "cv_step (ex_run (Some 8) 0 [] {8} [7, 8] [7, 8] [] [7] [7] [7] [] [])
     (ex_run (Some 8) (-1) [7] {8} [7, 8, 7] [7, 8] [] [7] [7] [] [7] [])"
  "cv_step (ex_run (Some 8) (-1) [7] {8} [7, 8, 7] [7, 8] [] [7] [7] [] [7] [])
     (ex_run (Some 7) 0 [] {7} [7, 8, 7] [7, 8, 7] [] [7] [7] [] [7] [])"
  "cv_step (ex_run (Some 7) 0 [] {7} [7, 8, 7] [7, 8, 7] [] [7] [7] [] [7] [])
     (ex_run (Some 7) 0 [] {7} [7, 8, 7] [7, 8, 7] [] [7] [7] [] [] [7])"
proof -
  note enter = lock_step.enter [where acq = mutex_acq and rel = mutex_rel and waiting = sem_waiting]
  note handoff = lock_step.handoff [where acq = mutex_acq and rel = mutex_rel and waiting = sem_waiting]
  show "cv_step (ex_run None 1 [] {} [] [] [] [] [] [] [] []) (ex_run (Some 7) 0 [] {7} [7] [7] [] [] [] [] [] [])"
    using cv_step.mutex_op [OF enter [of 7 _ "ex_mutex (Some 7) 0 []"],
      of "ex_run None 1 [] {} [] [] [] [] [] [] [] []"] by (simp add: cv_eval)
  show "cv_step (ex_run (Some 7) 0 [] {7} [7] [7] [] [] [] [] [] []) (ex_run None 1 [] {} [7] [7] [7] [7] [] [] [] [])"
    using cv_step.wait_free [of 7 "ex_run (Some 7) 0 [] {7} [7] [7] [] [] [] [] [] []" "ex_cv [7]"
      "ex_mutex None 1 []"] by (simp add: cv_eval)
  show "cv_step (ex_run None 1 [] {} [7] [7] [7] [7] [] [] [] [])
     (ex_run (Some 8) 0 [] {8} [7, 8] [7, 8] [7] [7] [] [] [] [])"
    using cv_step.mutex_op [OF enter [of 8 _ "ex_mutex (Some 8) 0 []"],
      of "ex_run None 1 [] {} [7] [7] [7] [7] [] [] [] []"] by (simp add: cv_eval)
  show "cv_step (ex_run (Some 8) 0 [] {8} [7, 8] [7, 8] [7] [7] [] [] [] [])
     (ex_run (Some 8) 0 [] {8} [7, 8] [7, 8] [] [7] [7] [7] [] [])"
    using cv_step.signal [of "ex_run (Some 8) 0 [] {8} [7, 8] [7, 8] [7] [7] [] [] [] []" 7 "ex_cv []"]
    by (simp add: cv_eval)
  show "cv_step (ex_run (Some 8) 0 [] {8} [7, 8] [7, 8] [] [7] [7] [7] [] [])
     (ex_run (Some 8) (-1) [7] {8} [7, 8, 7] [7, 8] [] [7] [7] [] [7] [])"
    using cv_step.resume_sleep [of 7 "ex_run (Some 8) 0 [] {8} [7, 8] [7, 8] [] [7] [7] [7] [] []"
      "ex_mutex (Some 8) (-1) [7]"] by (simp add: cv_eval)
  show "cv_step (ex_run (Some 8) (-1) [7] {8} [7, 8, 7] [7, 8] [] [7] [7] [] [7] [])
     (ex_run (Some 7) 0 [] {7} [7, 8, 7] [7, 8, 7] [] [7] [7] [] [7] [])"
    using cv_step.mutex_op [OF handoff [of 8 _ 7 "ex_mutex (Some 7) 0 []"],
      of "ex_run (Some 8) (-1) [7] {8} [7, 8, 7] [7, 8] [] [7] [7] [] [7] []"] by (simp add: cv_eval)
  show "cv_step (ex_run (Some 7) 0 [] {7} [7, 8, 7] [7, 8, 7] [] [7] [7] [] [7] [])
     (ex_run (Some 7) 0 [] {7} [7, 8, 7] [7, 8, 7] [] [7] [7] [] [] [7])"
    using cv_step.resume_finish [of 7 "ex_run (Some 7) 0 [] {7} [7, 8, 7] [7, 8, 7] [] [7] [7] [] [7] []"]
    by (simp add: cv_eval)
qed

theorem cv_monitor_witness:
  "\<exists>sem r r'. sem_init sem_blank 1 SEM_SCOPE_USR = (OK, sem) \<and> mutex_free sem
     \<and> cv_step\<^sup>*\<^sup>* (cv_start sem) r \<and> slept r = [7] \<and> woken r = [7] \<and> requests (mx r) = [7, 8, 7]
     \<and> cv_step r r' \<and> returned r' = returned r @ [7]
     \<and> owners (mx r') = {7} \<and> mutex_heldby (lk (mx r')) 7"
proof -
  let ?sem = "ex_mutex None 1 []"
  let ?r = "ex_run (Some 7) 0 [] {7} [7, 8, 7] [7, 8, 7] [] [7] [7] [] [7] []"
  let ?r' = "ex_run (Some 7) 0 [] {7} [7, 8, 7] [7, 8, 7] [] [7] [7] [] [] [7]"
  have start: "cv_start ?sem = ex_run None 1 [] {} [] [] [] [] [] [] [] []"
    by (simp add: cv_start_def run_of_def ex_start(2))
  have free: "mutex_free ?sem" by (simp add: ex_mutex_def mutex_free_def)
  note go = converse_rtranclp_into_rtranclp [where r = cv_step]
  have run: "cv_step\<^sup>*\<^sup>* (cv_start ?sem) ?r"
    unfolding start by (intro go [OF ex_steps(1)] go [OF ex_steps(2)] go [OF ex_steps(3)]
        go [OF ex_steps(4)] go [OF ex_steps(5)] go [OF ex_steps(6)] rtranclp.rtrancl_refl)
  have "returned ?r' = returned ?r @ [7]" by simp
  with cv_monitor [OF free run] ex_steps(7)
  have "owners (mx ?r') = {7} \<and> mutex_heldby (lk (mx ?r')) 7" by blast
  then show ?thesis using ex_start(1) free run ex_steps(7)
    by (intro exI [of _ ?sem] exI [of _ ?r] exI [of _ ?r'] conjI) simp_all
qed

end
