(* ===== verification/Ring_Buffer.thy ===== *)
theory Ring_Buffer
  imports Kernel_Prelude
begin

text \<open>
  Ring buffers: the elements found in a table from a read position on, wrapping at its end, and
  the contract of a bounded queue whose operations answer \<^verbatim>\<open>EAGAIN\<close> when it is full or empty.
  The queues of \<^verbatim>\<open>kern/kfifo.c\<close>, \<^verbatim>\<open>kern/remote_fifo.c\<close> and \<^verbatim>\<open>kern/mwmr.c\<close> are proved over this
  theory.
\<close>

section \<open>Slices of a ring\<close>

definition ring_slice :: "'a list \<Rightarrow> nat \<Rightarrow> nat \<Rightarrow> 'a list" where
  "ring_slice tbl rd n = map (\<lambda>i. tbl ! ((rd + i) mod length tbl)) [0..<n]"

lemma length_ring_slice [simp]: "length (ring_slice tbl rd n) = n"
  by (simp add: ring_slice_def)

lemma ring_slice_0 [simp]: "ring_slice tbl rd 0 = []"
  by (simp add: ring_slice_def)

lemma ring_slice_Suc: "ring_slice tbl rd (Suc n) = ring_slice tbl rd n @ [tbl ! ((rd + n) mod length tbl)]"
  by (simp add: ring_slice_def)

lemma ring_slice_Cons:
  "ring_slice tbl rd (Suc n) = tbl ! (rd mod length tbl) # ring_slice tbl (Suc rd) n"
  unfolding ring_slice_def by (simp add: upt_conv_Cons map_Suc_upt [symmetric] del: upt_Suc)

lemma ring_slice_mod [simp]: "ring_slice tbl (rd mod length tbl) n = ring_slice tbl rd n"
  by (simp add: ring_slice_def mod_add_left_eq)

lemma ring_slice_add: "ring_slice tbl rd (m + n) = ring_slice tbl rd m @ ring_slice tbl (rd + m) n"
  by (induction m arbitrary: rd) (simp_all add: ring_slice_Cons)

lemma ring_pos_neq:
  fixes i j n rd :: nat
  assumes "i < n" and "j < n" and "i \<noteq> j"
  shows "(rd + i) mod n \<noteq> (rd + j) mod n"
proof
  assume "(rd + i) mod n = (rd + j) mod n"
  then have "(int rd + int i) mod int n = (int rd + int j) mod int n"
    by (metis of_nat_add of_nat_mod)
  then have "int i mod int n = int j mod int n" by (metis add_diff_cancel_left' mod_diff_left_eq)
  then have "i mod n = j mod n" by (metis of_nat_eq_iff of_nat_mod)
  then show False using assms by simp
qed

lemma ring_slice_update:
  assumes "n \<le> i" and "i < length tbl"
  shows "ring_slice (tbl[(rd + i) mod length tbl := v]) rd n = ring_slice tbl rd n"
proof -
  have "(rd + i) mod length tbl \<noteq> (rd + j) mod length tbl" if "j < n" for j
    using ring_pos_neq [of i "length tbl" j rd] assms that by auto
  then show ?thesis using assms by (auto simp: ring_slice_def)
qed

lemma ring_slice_put:
  assumes "n < length tbl"
  shows "ring_slice (tbl[(rd + n) mod length tbl := v]) rd (Suc n) = ring_slice tbl rd n @ [v]"
  using assms by (simp add: ring_slice_Suc ring_slice_update [OF le_refl assms] mod_less_divisor [OF le_less_trans [OF le0 assms]])

text \<open>Writing a block element by element from a position on.\<close>

fun ring_write :: "'a list \<Rightarrow> nat \<Rightarrow> 'a list \<Rightarrow> 'a list" where
  "ring_write tbl wr [] = tbl"
| "ring_write tbl wr (v # vs) = ring_write (tbl[wr mod length tbl := v]) (Suc wr) vs"

lemma length_ring_write [simp]: "length (ring_write tbl wr vs) = length tbl"
  by (induction tbl wr vs rule: ring_write.induct) auto

lemma ring_write_append: "ring_write tbl wr (us @ vs) = ring_write (ring_write tbl wr us) (wr + length us) vs"
  by (induction tbl wr us rule: ring_write.induct) auto

lemma ring_write_mod: "ring_write tbl (wr mod length tbl) vs = ring_write tbl wr vs"
proof (induction vs arbitrary: tbl wr)
  case (Cons v vs)
  let ?t = "tbl[wr mod length tbl := v]"
  have "ring_write ?t (Suc (wr mod length tbl)) vs = ring_write ?t (Suc (wr mod length tbl) mod length ?t) vs"
    using Cons.IH by metis
  also have "\<dots> = ring_write ?t (Suc wr mod length ?t) vs" by (simp add: mod_Suc_eq)
  also have "\<dots> = ring_write ?t (Suc wr) vs" using Cons.IH by metis
  finally show ?case by simp
qed simp

lemma ring_slice_write:
  "n + length vs \<le> length tbl
    \<Longrightarrow> ring_slice (ring_write tbl (rd + n) vs) rd (n + length vs) = ring_slice tbl rd n @ vs"
proof (induction vs arbitrary: tbl n)
  case (Cons v vs)
  then show ?case
    using Cons.IH [of "Suc n" "tbl[(rd + n) mod length tbl := v]"] ring_slice_put [of n tbl rd v] by auto
qed simp

lemma ring_write_block:
  "wr + length vs \<le> length tbl \<Longrightarrow> ring_write tbl wr vs = take wr tbl @ vs @ drop (wr + length vs) tbl"
proof (induction vs arbitrary: tbl wr)
  case (Cons v vs)
  then show ?case by (simp add: take_Suc_conv_app_nth nth_list_update take_update_swap list_update_append)
qed simp

section \<open>Copying between arrays\<close>

text \<open>\<^verbatim>\<open>for(i = 0; i < n; i++) dst[doff + i] = src[soff + i];\<close> with checked accesses.\<close>

fun copy_loop :: "'a list \<Rightarrow> nat \<Rightarrow> 'a list \<Rightarrow> nat \<Rightarrow> nat \<Rightarrow> 'a list option" where
  "copy_loop src soff dst doff 0 = Some dst"
| "copy_loop src soff dst doff (Suc n) =
     (case arr_get src soff of None \<Rightarrow> None
      | Some v \<Rightarrow> (case arr_set dst doff v of None \<Rightarrow> None
          | Some dst' \<Rightarrow> copy_loop src (Suc soff) dst' (Suc doff) n))"

lemma copy_loop_write:
  "soff + n \<le> length src \<Longrightarrow> doff + n \<le> length dst
    \<Longrightarrow> copy_loop src soff dst doff n = Some (ring_write dst doff (take n (drop soff src)))"
proof (induction n arbitrary: soff dst doff)
  case (Suc n)
  then have "take (Suc n) (drop soff src) = src ! soff # take n (drop (Suc soff) src)"
    by (simp add: Cons_nth_drop_Suc [symmetric])
  then show ?case using Suc by (simp add: karray)
qed simp

text \<open>The number of elements between the two positions of a ring.\<close>

definition ring_count :: "nat \<Rightarrow> nat \<Rightarrow> nat \<Rightarrow> nat" where
  "ring_count sz rd wr = (if rd \<le> wr then wr - rd else wr + sz - rd)"

lemma ring_count_less: "rd < sz \<Longrightarrow> wr < sz \<Longrightarrow> ring_count sz rd wr < sz"
  by (auto simp: ring_count_def)

lemma ring_count_0 [simp]: "rd < sz \<Longrightarrow> wr < sz \<Longrightarrow> ring_count sz rd wr = 0 \<longleftrightarrow> rd = wr"
  by (auto simp: ring_count_def)

lemma ring_count_wr: "rd < sz \<Longrightarrow> wr < sz \<Longrightarrow> (rd + ring_count sz rd wr) mod sz = wr"
  by (auto simp: ring_count_def)

lemma ring_succ: "i < sz \<Longrightarrow> Suc i mod sz = (if Suc i = sz then 0 else Suc i)" for i sz :: nat
  by auto

lemma ring_count_full:
  "rd < sz \<Longrightarrow> wr < sz \<Longrightarrow> (wr + 1) mod sz = rd \<longleftrightarrow> ring_count sz rd wr = sz - 1"
  by (auto simp: ring_succ ring_count_def)

lemma ring_count_put:
  "rd < sz \<Longrightarrow> wr < sz \<Longrightarrow> (wr + 1) mod sz \<noteq> rd
    \<Longrightarrow> ring_count sz rd ((wr + 1) mod sz) = Suc (ring_count sz rd wr)"
  by (auto simp: ring_succ ring_count_def)

lemma ring_count_get:
  "rd < sz \<Longrightarrow> wr < sz \<Longrightarrow> rd \<noteq> wr
    \<Longrightarrow> Suc (ring_count sz ((rd + 1) mod sz) wr) = ring_count sz rd wr"
  by (auto simp: ring_succ ring_count_def)

section \<open>The contract of a bounded queue\<close>

text \<open>The abstract queue of capacity \<open>cap\<close>, and the answers of a sequence of operations.\<close>

datatype 'a fifo_op = Put 'a | Get

datatype 'a fifo_answer = PutAnswer error_t | GetAnswer error_t "'a option"

fun queue_run :: "nat \<Rightarrow> 'a fifo_op list \<Rightarrow> 'a list \<Rightarrow> 'a fifo_answer list \<times> 'a list" where
  "queue_run cap [] q = ([], q)"
| "queue_run cap (Put v # ops) q =
     (if length q < cap
      then let (as, q') = queue_run cap ops (q @ [v]) in (PutAnswer OK # as, q')
      else let (as, q') = queue_run cap ops q in (PutAnswer (Some EAGAIN) # as, q'))"
| "queue_run cap (Get # ops) q =
     (case q of
        [] \<Rightarrow> let (as, q') = queue_run cap ops [] in (GetAnswer (Some EAGAIN) None # as, q')
      | v # vs \<Rightarrow> let (as, q') = queue_run cap ops vs in (GetAnswer OK (Some v) # as, q'))"

text \<open>
  The same sequence on an implementation; \<open>None\<close> is an access outside a table. What a put is called
  with may hold more than the element it stores, such as the cluster of the caller.
\<close>

fun fifo_run :: "('b \<Rightarrow> 's \<Rightarrow> (error_t \<times> 's) option) \<Rightarrow> ('s \<Rightarrow> (error_t \<times> 'a option \<times> 's) option)
    \<Rightarrow> 'b fifo_op list \<Rightarrow> 's \<Rightarrow> ('a fifo_answer list \<times> 's) option" where
  "fifo_run put get [] s = Some ([], s)"
| "fifo_run put get (Put v # ops) s =
     (case put v s of None \<Rightarrow> None
      | Some (err, s') \<Rightarrow> map_option (\<lambda>(as, s''). (PutAnswer err # as, s'')) (fifo_run put get ops s'))"
| "fifo_run put get (Get # ops) s =
     (case get s of None \<Rightarrow> None
      | Some (err, v, s') \<Rightarrow>
          map_option (\<lambda>(as, s''). (GetAnswer err v # as, s'')) (fifo_run put get ops s'))"

locale bounded_fifo =
  fixes inv :: "'s \<Rightarrow> bool"
    and contents :: "'s \<Rightarrow> 'a list"
    and cap :: "'s \<Rightarrow> nat"
    and put :: "'b \<Rightarrow> 's \<Rightarrow> (error_t \<times> 's) option"
    and get :: "'s \<Rightarrow> (error_t \<times> 'a option \<times> 's) option"
    and fits :: "'s \<Rightarrow> 'b \<Rightarrow> bool"
    and elem :: "'b \<Rightarrow> 'a"
  assumes put_room: "inv s \<Longrightarrow> fits s v \<Longrightarrow> length (contents s) < cap s \<Longrightarrow>
      \<exists>s'. put v s = Some (OK, s') \<and> inv s' \<and> contents s' = contents s @ [elem v] \<and> cap s' = cap s \<and> fits s' = fits s"
    and put_full: "inv s \<Longrightarrow> \<not> length (contents s) < cap s \<Longrightarrow> put v s = Some (Some EAGAIN, s)"
    and get_first: "inv s \<Longrightarrow> contents s = x # xs \<Longrightarrow>
      \<exists>s'. get s = Some (OK, Some x, s') \<and> inv s' \<and> contents s' = xs \<and> cap s' = cap s \<and> fits s' = fits s"
    and get_empty: "inv s \<Longrightarrow> contents s = [] \<Longrightarrow> get s = Some (Some EAGAIN, None, s)"
begin

lemma refines_queue:
  assumes "inv s" and "\<And>v. Put v \<in> set ops \<Longrightarrow> fits s v"
  shows "\<exists>s'. fifo_run put get ops s = Some (fst (queue_run (cap s) (map (map_fifo_op elem) ops) (contents s)), s')
    \<and> inv s' \<and> contents s' = snd (queue_run (cap s) (map (map_fifo_op elem) ops) (contents s))"
  using assms
proof (induction ops arbitrary: s)
  case (Cons op ops)
  show ?case
  proof (cases op)
    case (Put v)
    show ?thesis
    proof (cases "length (contents s) < cap s")
      case True
      then obtain s' where s': "put v s = Some (OK, s')" "inv s'" "contents s' = contents s @ [elem v]"
          "cap s' = cap s" "fits s' = fits s"
        using put_room [OF Cons.prems(1) Cons.prems(2) True] Put by auto
      then show ?thesis using Cons.IH [of s'] Cons.prems(2) True Put by (auto simp: split_beta)
    next
      case False
      then show ?thesis
        using Cons.IH [of s] Cons.prems put_full [OF Cons.prems(1) False] Put by (auto simp: split_beta)
    qed
  next
    case Get
    show ?thesis
    proof (cases "contents s")
      case Nil
      then show ?thesis
        using Cons.IH [of s] Cons.prems get_empty [OF Cons.prems(1) Nil] Get by (auto simp: split_beta)
    next
      case (Cons v vs)
      then obtain s' where s': "get s = Some (OK, Some v, s')" "inv s'" "contents s' = vs"
          "cap s' = cap s" "fits s' = fits s"
        using get_first [OF Cons.prems(1) Cons] by auto
      then show ?thesis using Cons.IH [of s'] Cons.prems(2) Cons Get by (auto simp: split_beta)
    qed
  qed
qed simp

end

text \<open>
  What the abstract queue promises: the elements that were in the queue or accepted come out in
  order, and the queue never exceeds its capacity.
\<close>

fun accepted :: "'a fifo_op list \<Rightarrow> 'a fifo_answer list \<Rightarrow> 'a list" where
  "accepted (Put v # ops) (PutAnswer None # as) = v # accepted ops as"
| "accepted (op # ops) (a # as) = accepted ops as"
| "accepted _ _ = []"

fun delivered :: "'a fifo_answer list \<Rightarrow> 'a list" where
  "delivered (GetAnswer None (Some v) # as) = v # delivered as"
| "delivered (a # as) = delivered as"
| "delivered [] = []"

lemma queue_run_order:
  "q @ accepted ops (fst (queue_run cap ops q)) =
     delivered (fst (queue_run cap ops q)) @ snd (queue_run cap ops q)"
proof (induction cap ops q rule: queue_run.induct)
  case (3 cap ops q)
  then show ?case by (cases q) (auto simp: split_beta)
qed (auto simp: split_beta)

lemma queue_run_bound: "length q \<le> cap \<Longrightarrow> length (snd (queue_run cap ops q)) \<le> cap"
proof (induction cap ops q rule: queue_run.induct)
  case (3 cap ops q)
  then show ?case by (cases q) (auto simp: split_beta)
qed (auto simp: split_beta)

end
