(* ===== verification/Kern_Kfifo.thy ===== *)
theory Kern_Kfifo
  imports Ring_Buffer "HOL-Library.Monad_Syntax"
begin

text \<open>
  The kernel FIFO of \<^verbatim>\<open>src/kernel/kern/kfifo.c\<close> and \<^verbatim>\<open>kfifo.h\<close>. A table access outside the table is
  \<open>None\<close>. The indices are natural numbers: they stay below \<^verbatim>\<open>size\<close>, a 32-bit number, so adding
  one to them does not wrap, and the request of \<^verbatim>\<open>sizeof(void*) * size\<close> bytes is the product itself: the
  model is that of sizes below $2^{30}$, for which it does not wrap either. Stored pointers are 32-bit words, and \<^verbatim>\<open>kmem_alloc\<close> is the argument that
  says whether a request of that many bytes is served. Every store is followed by a write barrier, so
  stores are seen by the other processor in program order.

  The puts and gets are first whole operations, where the other processors only interfere with the
  compare-and-swap loops; then they are split at their accesses to shared memory, and a step
  relation interleaves a writer with a reader.
\<close>

section \<open>Model\<close>

datatype put_op = SinglePut | MultiPut
datatype get_op = SingleGet | MultiGet

record kfifo_s =
  wridx :: nat
  rdidx :: nat
  ops_put :: put_op
  ops_get :: get_op
  ksize :: nat
  tbl :: "u32 list"

definition KFIFO_NA :: u32 where "KFIFO_NA = 0x0"
definition KFIFO_MW :: u32 where "KFIFO_MW = 0x1"
definition KFIFO_MR :: u32 where "KFIFO_MR = 0x2"
definition KFIFO_MWMR :: u32 where "KFIFO_MWMR = 0x3"
definition KFIFO_MASK :: u32 where "KFIFO_MASK = 0x3"

definition kfifo_init :: "(nat \<Rightarrow> bool) \<Rightarrow> kfifo_s \<Rightarrow> nat \<Rightarrow> u32 \<Rightarrow> error_t \<times> kfifo_s" where
  "kfifo_init kmem_alloc k sz mode =
     (if \<not> kmem_alloc (4 * sz) then (Some ENOMEM, k)
      else let mode = mode AND KFIFO_MASK
           in (OK, \<lparr>wridx = 0, rdidx = 0,
                 ops_put = (if mode AND KFIFO_MW \<noteq> 0 then MultiPut else SinglePut),
                 ops_get = (if mode AND KFIFO_MR \<noteq> 0 then MultiGet else SingleGet),
                 ksize = sz, tbl = replicate sz 0\<rparr>))"

text \<open>The accesses of the single writer to the shared words: test, store, publish.\<close>

definition put_full :: "kfifo_s \<Rightarrow> bool" where
  "put_full k \<longleftrightarrow> (wridx k + 1) mod ksize k = rdidx k"

definition put_store :: "nat \<Rightarrow> u32 \<Rightarrow> kfifo_s \<Rightarrow> kfifo_s option" where
  "put_store w val k = do { t \<leftarrow> arr_set (tbl k) w val; Some (k\<lparr>tbl := t\<rparr>) }"

definition put_publish :: "nat \<Rightarrow> kfifo_s \<Rightarrow> kfifo_s" where
  "put_publish w k = k\<lparr>wridx := (w + 1) mod ksize k\<rparr>"

definition single_event_put :: "u32 \<Rightarrow> kfifo_s \<Rightarrow> (error_t \<times> kfifo_s) option" where
  "single_event_put val k =
     (if put_full k then Some (Some EAGAIN, k)
      else do { let w = wridx k; k \<leftarrow> put_store w val k; Some (OK, put_publish w k) })"

definition get_empty :: "kfifo_s \<Rightarrow> bool" where
  "get_empty k \<longleftrightarrow> rdidx k = wridx k"

definition get_advance :: "nat \<Rightarrow> kfifo_s \<Rightarrow> kfifo_s" where
  "get_advance r k = k\<lparr>rdidx := (r + 1) mod ksize k\<rparr>"

definition single_event_get :: "kfifo_s \<Rightarrow> (error_t \<times> u32 option \<times> kfifo_s) option" where
  "single_event_get k =
     (if get_empty k then Some (Some EAGAIN, None, k)
      else do { let r = rdidx k; v \<leftarrow> arr_get (tbl k) r; Some (OK, Some v, get_advance r k) })"

text \<open>
  The loops of the multiple-access operations. The argument \<open>env\<close> lists what the other
  processors do between the reads of an iteration and its compare-and-swap; when it is used up
  nobody interferes, and the compare-and-swap succeeds. The contention counter is tested after the
  compare-and-swap, as in the source.
\<close>

abbreviation (input) threshold :: nat where "threshold \<equiv> 10000"

definition cas_wridx :: "nat \<Rightarrow> nat \<Rightarrow> kfifo_s \<Rightarrow> bool \<times> kfifo_s" where
  "cas_wridx old new k = (if wridx k = old then (True, k\<lparr>wridx := new\<rparr>) else (False, k))"

definition cas_rdidx :: "nat \<Rightarrow> nat \<Rightarrow> kfifo_s \<Rightarrow> bool \<times> kfifo_s" where
  "cas_rdidx old new k = (if rdidx k = old then (True, k\<lparr>rdidx := new\<rparr>) else (False, k))"

fun multi_put_loop :: "nat \<Rightarrow> (kfifo_s \<Rightarrow> kfifo_s) list \<Rightarrow> u32 \<Rightarrow> kfifo_s \<Rightarrow> (error_t \<times> kfifo_s) option" where
  "multi_put_loop cntr [] val k =
     (if put_full k then Some (Some EAGAIN, k)
      else do { let w = wridx k;
                let (isAtomic, k) = cas_wridx w ((w + 1) mod ksize k) k;
                if cntr = threshold then Some (Some EBUSY, k)
                else do { k \<leftarrow> put_store w val k; Some (OK, k) } })"
| "multi_put_loop cntr (f # env) val k =
     (if put_full k then Some (Some EAGAIN, k)
      else do { let w = wridx k;
                let (isAtomic, k) = cas_wridx w ((w + 1) mod ksize k) (f k);
                if cntr = threshold then Some (Some EBUSY, k)
                else if isAtomic then do { k \<leftarrow> put_store w val k; Some (OK, k) }
                else multi_put_loop (cntr + 1) env val k })"

definition multi_event_put :: "(kfifo_s \<Rightarrow> kfifo_s) list \<Rightarrow> u32 \<Rightarrow> kfifo_s \<Rightarrow> (error_t \<times> kfifo_s) option" where
  "multi_event_put env val k = multi_put_loop 0 env val k"

fun multi_get_loop :: "nat \<Rightarrow> (kfifo_s \<Rightarrow> kfifo_s) list \<Rightarrow> kfifo_s \<Rightarrow> (error_t \<times> u32 option \<times> kfifo_s) option" where
  "multi_get_loop cntr [] k =
     (if get_empty k then Some (Some EAGAIN, None, k)
      else do { let r = rdidx k;
                v \<leftarrow> arr_get (tbl k) r;
                let (isAtomic, k) = cas_rdidx r ((r + 1) mod ksize k) k;
                if cntr = threshold then Some (Some EBUSY, Some v, k)
                else Some (OK, Some v, k) })"
| "multi_get_loop cntr (f # env) k =
     (if get_empty k then Some (Some EAGAIN, None, k)
      else do { let r = rdidx k;
                v \<leftarrow> arr_get (tbl k) r;
                let (isAtomic, k) = cas_rdidx r ((r + 1) mod ksize k) (f k);
                if cntr = threshold then Some (Some EBUSY, Some v, k)
                else if isAtomic then Some (OK, Some v, k)
                else multi_get_loop (cntr + 1) env k })"

definition multi_event_get :: "(kfifo_s \<Rightarrow> kfifo_s) list \<Rightarrow> kfifo_s \<Rightarrow> (error_t \<times> u32 option \<times> kfifo_s) option" where
  "multi_event_get env k = multi_get_loop 0 env k"

definition kfifo_put :: "(kfifo_s \<Rightarrow> kfifo_s) list \<Rightarrow> u32 \<Rightarrow> kfifo_s \<Rightarrow> (error_t \<times> kfifo_s) option" where
  "kfifo_put env val k =
     (case ops_put k of SinglePut \<Rightarrow> single_event_put val k | MultiPut \<Rightarrow> multi_event_put env val k)"

definition kfifo_get :: "(kfifo_s \<Rightarrow> kfifo_s) list \<Rightarrow> kfifo_s \<Rightarrow> (error_t \<times> u32 option \<times> kfifo_s) option" where
  "kfifo_get env k =
     (case ops_get k of SingleGet \<Rightarrow> single_event_get k | MultiGet \<Rightarrow> multi_event_get env k)"

definition kfifo_isEmpty :: "kfifo_s \<Rightarrow> bool" where
  "kfifo_isEmpty k \<longleftrightarrow> rdidx k = wridx k"

definition kfifo_isFull :: "kfifo_s \<Rightarrow> bool" where
  "kfifo_isFull k \<longleftrightarrow> wridx k = (rdidx k + 1) mod ksize k"

lemmas kfifo_defs = put_full_def put_store_def put_publish_def get_empty_def get_advance_def
  single_event_put_def single_event_get_def multi_event_put_def multi_event_get_def
  kfifo_put_def kfifo_get_def cas_wridx_def cas_rdidx_def

section \<open>Well-formedness and contents\<close>

definition kfifo_wf :: "kfifo_s \<Rightarrow> bool" where
  "kfifo_wf k \<longleftrightarrow> length (tbl k) = ksize k \<and> wridx k < ksize k \<and> rdidx k < ksize k"

abbreviation kfifo_count :: "kfifo_s \<Rightarrow> nat" where
  "kfifo_count k \<equiv> ring_count (ksize k) (rdidx k) (wridx k)"

definition kfifo_contents :: "kfifo_s \<Rightarrow> u32 list" where
  "kfifo_contents k = ring_slice (tbl k) (rdidx k) (kfifo_count k)"

lemma length_kfifo_contents [simp]: "length (kfifo_contents k) = kfifo_count k"
  by (simp add: kfifo_contents_def)

lemma kfifo_init_wf:
  "kmem_alloc (4 * sz) \<Longrightarrow> 0 < sz \<Longrightarrow> kfifo_wf (snd (kfifo_init kmem_alloc k sz mode))
    \<and> kfifo_contents (snd (kfifo_init kmem_alloc k sz mode)) = []"
  by (simp add: kfifo_init_def kfifo_wf_def kfifo_contents_def ring_count_def Let_def)

lemma put_full_iff: "kfifo_wf k \<Longrightarrow> put_full k \<longleftrightarrow> kfifo_count k = ksize k - 1"
  using ring_count_full [of "rdidx k" "ksize k" "wridx k"] by (simp add: kfifo_wf_def put_full_def)

lemma get_empty_iff: "kfifo_wf k \<Longrightarrow> get_empty k \<longleftrightarrow> kfifo_contents k = []"
  by (auto simp: kfifo_wf_def get_empty_def kfifo_contents_def ring_count_def ring_slice_def)

text \<open>A store at the write index and the move of the index append the value.\<close>

lemma kfifo_append:
  fixes v :: u32
  assumes "kfifo_wf k" and "\<not> put_full k"
  defines "k' \<equiv> k\<lparr>wridx := (wridx k + 1) mod ksize k, tbl := (tbl k)[wridx k := v]\<rparr>"
  shows "kfifo_wf k' \<and> kfifo_contents k' = kfifo_contents k @ [v]"
proof -
  have b: "rdidx k < ksize k" "wridx k < ksize k" "length (tbl k) = ksize k"
    using assms(1) by (auto simp: kfifo_wf_def)
  have "(rdidx k + kfifo_count k) mod ksize k = wridx k" using b by (simp add: ring_count_wr)
  moreover have "kfifo_count k' = Suc (kfifo_count k)"
    using b assms(2) ring_count_put by (simp add: k'_def put_full_def)
  moreover have "kfifo_count k < length (tbl k)" using b by (simp add: ring_count_less)
  ultimately have "kfifo_contents k' = kfifo_contents k @ [v]"
    using ring_slice_put [of "kfifo_count k" "tbl k" "rdidx k" v] b
    unfolding kfifo_contents_def by (simp add: k'_def)
  then show ?thesis using b by (simp add: k'_def kfifo_wf_def)
qed

lemma kfifo_remove:
  assumes "kfifo_wf k" and "\<not> get_empty k"
  defines "k' \<equiv> k\<lparr>rdidx := (rdidx k + 1) mod ksize k\<rparr>"
  shows "kfifo_wf k' \<and> kfifo_contents k = tbl k ! rdidx k # kfifo_contents k'"
proof -
  have b: "rdidx k < ksize k" "wridx k < ksize k" "length (tbl k) = ksize k"
    using assms(1) by (auto simp: kfifo_wf_def)
  have "kfifo_count k = Suc (kfifo_count k')"
    using b assms(2) ring_count_get by (simp add: k'_def get_empty_def)
  then have "kfifo_contents k = tbl k ! rdidx k # ring_slice (tbl k) (Suc (rdidx k)) (kfifo_count k')"
    using b by (simp add: kfifo_contents_def ring_slice_Cons)
  moreover have "kfifo_contents k' = ring_slice (tbl k) (Suc (rdidx k)) (kfifo_count k')"
    using b ring_slice_mod [of "tbl k" "Suc (rdidx k)"] by (simp add: kfifo_contents_def k'_def)
  ultimately show ?thesis using b by (simp add: k'_def kfifo_wf_def)
qed

section \<open>Whole operations\<close>

lemma kfifo_put_uncontended:
  "kfifo_wf k \<Longrightarrow> kfifo_put [] v k =
     (if put_full k then Some (Some EAGAIN, k)
      else Some (OK, k\<lparr>wridx := (wridx k + 1) mod ksize k, tbl := (tbl k)[wridx k := v]\<rparr>))"
  by (cases "ops_put k") (auto simp: kfifo_defs kfifo_wf_def karray Let_def)

lemma kfifo_get_uncontended:
  "kfifo_wf k \<Longrightarrow> kfifo_get [] k =
     (if get_empty k then Some (Some EAGAIN, None, k)
      else Some (OK, Some (tbl k ! rdidx k), k\<lparr>rdidx := (rdidx k + 1) mod ksize k\<rparr>))"
  by (cases "ops_get k") (auto simp: kfifo_defs kfifo_wf_def karray Let_def)

interpretation kf: bounded_fifo kfifo_wf kfifo_contents "\<lambda>k. ksize k - 1" "kfifo_put []" "kfifo_get []" "\<lambda>_ _. True" id
proof
  fix k and v :: u32
  assume k: "kfifo_wf k" and "length (kfifo_contents k) < ksize k - 1"
  then have "\<not> put_full k" using put_full_iff by simp
  then show "\<exists>k'. kfifo_put [] v k = Some (OK, k') \<and> kfifo_wf k' \<and> kfifo_contents k' = kfifo_contents k @ [id v]
      \<and> ksize k' - 1 = ksize k - 1 \<and> (\<lambda>_ :: u32. True) = (\<lambda>_. True)"
    using kfifo_append [OF k] k by (simp add: kfifo_put_uncontended)
next
  fix k and v :: u32
  assume k: "kfifo_wf k" and "\<not> length (kfifo_contents k) < ksize k - 1"
  moreover have "kfifo_count k < ksize k" using k by (simp add: kfifo_wf_def ring_count_less)
  ultimately have "put_full k" using put_full_iff by simp
  then show "kfifo_put [] v k = Some (Some EAGAIN, k)" using k by (simp add: kfifo_put_uncontended)
next
  fix k and v :: u32 and vs
  assume k: "kfifo_wf k" and c: "kfifo_contents k = v # vs"
  then have "\<not> get_empty k" using get_empty_iff by simp
  then show "\<exists>k'. kfifo_get [] k = Some (OK, Some v, k') \<and> kfifo_wf k' \<and> kfifo_contents k' = vs
      \<and> ksize k' - 1 = ksize k - 1 \<and> (\<lambda>_ :: u32. True) = (\<lambda>_. True)"
    using kfifo_remove [OF k] c k by (simp add: kfifo_get_uncontended)
next
  fix k :: kfifo_s
  assume "kfifo_wf k" and "kfifo_contents k = []"
  then show "kfifo_get [] k = Some (Some EAGAIN, None, k)"
    using get_empty_iff by (simp add: kfifo_get_uncontended)
qed

text \<open>
  Without contention a FIFO created by \<^verbatim>\<open>kfifo_init\<close>, in every access mode, is a queue of capacity
  \<^verbatim>\<open>size - 1\<close>: every sequence of puts and gets stays inside the table and gives the answers of the
  abstract queue, \<^verbatim>\<open>EAGAIN\<close> exactly when it is full or empty; so the values come out in the order in
  which they were accepted, and no accepted value is lost.
\<close>

theorem kfifo_refines_queue:
  fixes ops :: "u32 fifo_op list"
  assumes "kmem_alloc (4 * sz)" and "0 < sz"
  defines "spec \<equiv> queue_run (sz - 1) ops []"
  shows "\<exists>k'. fifo_run (kfifo_put []) (kfifo_get []) ops (snd (kfifo_init kmem_alloc k sz mode)) = Some (fst spec, k')
    \<and> kfifo_wf k' \<and> kfifo_contents k' = snd spec
    \<and> accepted ops (fst spec) = delivered (fst spec) @ kfifo_contents k'"
proof -
  define k0 where "k0 = snd (kfifo_init kmem_alloc k sz mode)"
  have k0: "kfifo_wf k0" "kfifo_contents k0 = []" "ksize k0 = sz"
    using kfifo_init_wf [of kmem_alloc sz k mode] assms(1,2) by (simp_all add: k0_def kfifo_init_def Let_def)
  show ?thesis
    using kf.refines_queue [OF k0(1), of ops, unfolded fifo_op.map_id0 list.map_id] queue_run_order [of "[]" ops "sz - 1"] k0
    by (auto simp: spec_def k0_def)
qed

theorem kfifo_refines_queue_witness:
  "\<exists>k'. fifo_run (kfifo_put []) (kfifo_get []) [Put 5, Put 6, Put 7, Get, Put 8, Get, Get, Get]
      (snd (kfifo_init (\<lambda>_. True) \<lparr>wridx = 9, rdidx = 9, ops_put = SinglePut, ops_get = SingleGet, ksize = 0, tbl = []\<rparr> 3 KFIFO_MW))
    = Some ([PutAnswer OK, PutAnswer OK, PutAnswer (Some EAGAIN), GetAnswer OK (Some 5), PutAnswer OK,
             GetAnswer OK (Some 6), GetAnswer OK (Some 8), GetAnswer (Some EAGAIN) None], k')"
  using kfifo_refines_queue [of "\<lambda>_. True" 3 "[Put 5, Put 6, Put 7, Get, Put 8, Get, Get, Get]"
      "\<lparr>wridx = 9, rdidx = 9, ops_put = SinglePut, ops_get = SingleGet, ksize = 0, tbl = []\<rparr>" KFIFO_MW]
  by auto

section \<open>One writer and one reader, interleaved\<close>

text \<open>
  A writer executes \<^verbatim>\<open>single_event_put\<close> and a reader \<^verbatim>\<open>single_event_get\<close> at the same time. Their program
  counters stand before the next access to shared memory; the lists record the values whose
  index was published and those whose index was passed.
\<close>

datatype put_pc = PutIdle | PutStore nat u32 | PutPublish nat u32
datatype get_pc = GetIdle | GetLoad nat | GetAdvance nat u32

record spsc =
  ff :: kfifo_s
  ppc :: put_pc
  gpc :: get_pc
  sent :: "u32 list"
  received :: "u32 list"

inductive spsc_step :: "spsc \<Rightarrow> spsc \<Rightarrow> bool" where
  put_begin: "ppc s = PutIdle \<Longrightarrow> \<not> put_full (ff s)
    \<Longrightarrow> spsc_step s (s\<lparr>ppc := PutStore (wridx (ff s)) v\<rparr>)"
| put_store: "ppc s = PutStore w v \<Longrightarrow> put_store w v (ff s) = Some k
    \<Longrightarrow> spsc_step s (s\<lparr>ff := k, ppc := PutPublish w v\<rparr>)"
| put_publish: "ppc s = PutPublish w v
    \<Longrightarrow> spsc_step s (s\<lparr>ff := put_publish w (ff s), ppc := PutIdle, sent := sent s @ [v]\<rparr>)"
| get_begin: "gpc s = GetIdle \<Longrightarrow> \<not> get_empty (ff s)
    \<Longrightarrow> spsc_step s (s\<lparr>gpc := GetLoad (rdidx (ff s))\<rparr>)"
| get_load: "gpc s = GetLoad r \<Longrightarrow> arr_get (tbl (ff s)) r = Some v
    \<Longrightarrow> spsc_step s (s\<lparr>gpc := GetAdvance r v\<rparr>)"
| get_advance: "gpc s = GetAdvance r v
    \<Longrightarrow> spsc_step s (s\<lparr>ff := get_advance r (ff s), gpc := GetIdle, received := received s @ [v]\<rparr>)"

definition spsc_inv :: "spsc \<Rightarrow> bool" where
  "spsc_inv s \<longleftrightarrow> kfifo_wf (ff s) \<and> sent s = received s @ kfifo_contents (ff s)
     \<and> (case ppc s of PutIdle \<Rightarrow> True
        | PutStore w v \<Rightarrow> w = wridx (ff s) \<and> \<not> put_full (ff s)
        | PutPublish w v \<Rightarrow> w = wridx (ff s) \<and> \<not> put_full (ff s) \<and> tbl (ff s) ! w = v)
     \<and> (case gpc s of GetIdle \<Rightarrow> True
        | GetLoad r \<Rightarrow> r = rdidx (ff s) \<and> \<not> get_empty (ff s)
        | GetAdvance r v \<Rightarrow> r = rdidx (ff s) \<and> \<not> get_empty (ff s) \<and> v = tbl (ff s) ! r)"

text \<open>Storing into the free slot at the write index changes neither the contents nor the read slot.\<close>

lemma kfifo_store_free:
  assumes "kfifo_wf k"
  shows "kfifo_wf (k\<lparr>tbl := (tbl k)[wridx k := v]\<rparr>)
    \<and> kfifo_contents (k\<lparr>tbl := (tbl k)[wridx k := v]\<rparr>) = kfifo_contents k"
proof -
  have b: "rdidx k < ksize k" "wridx k < ksize k" "length (tbl k) = ksize k"
    using assms by (auto simp: kfifo_wf_def)
  then have "(rdidx k + kfifo_count k) mod ksize k = wridx k" "kfifo_count k < length (tbl k)"
    by (simp_all add: ring_count_wr ring_count_less)
  then have "ring_slice ((tbl k)[wridx k := v]) (rdidx k) (kfifo_count k) = kfifo_contents k"
    using ring_slice_update [of "kfifo_count k" "kfifo_count k" "tbl k" "rdidx k" v] b
    by (simp add: kfifo_contents_def)
  then show ?thesis using b by (simp add: kfifo_wf_def kfifo_contents_def)
qed

lemma get_advance_not_full:
  assumes "kfifo_wf k" and "\<not> get_empty k" and "\<not> put_full k"
  shows "\<not> put_full (get_advance (rdidx k) k)"
proof
  assume full: "put_full (get_advance (rdidx k) k)"
  have "kfifo_wf (get_advance (rdidx k) k)" "kfifo_contents k = tbl k ! rdidx k # kfifo_contents (get_advance (rdidx k) k)"
    using kfifo_remove [OF assms(1,2)] by (simp_all add: get_advance_def)
  then have "kfifo_count (get_advance (rdidx k) k) = ksize k - 1"
    "kfifo_count k = Suc (kfifo_count (get_advance (rdidx k) k))"
    using full put_full_iff [of "get_advance (rdidx k) k"] length_kfifo_contents [of k]
    by (simp_all add: get_advance_def)
  moreover have "kfifo_count k < ksize k" using assms(1) by (simp add: kfifo_wf_def ring_count_less)
  ultimately show False by simp
qed

lemma put_publish_not_empty:
  "kfifo_wf k \<Longrightarrow> \<not> put_full k \<Longrightarrow> \<not> get_empty (put_publish (wridx k) k)"
  by (auto simp: put_full_def get_empty_def put_publish_def)

lemma kfifo_publish:
  "kfifo_wf k \<Longrightarrow> \<not> put_full k \<Longrightarrow> kfifo_wf (put_publish (wridx k) k)
    \<and> kfifo_contents (put_publish (wridx k) k) = kfifo_contents k @ [tbl k ! wridx k]"
  using kfifo_append [of k "tbl k ! wridx k"] by (simp add: put_publish_def)

lemma spsc_inv_step: "spsc_step s s' \<Longrightarrow> spsc_inv s \<Longrightarrow> spsc_inv s'"
proof (induction rule: spsc_step.induct)
  case (put_store s w v k)
  then have k: "kfifo_wf (ff s)" "w = wridx (ff s)" "k = (ff s)\<lparr>tbl := (tbl (ff s))[w := v]\<rparr>" "w < length (tbl (ff s))"
    by (auto simp: spsc_inv_def put_store_def arr_set_Some_iff split: bind_splits)
  moreover have "rdidx (ff s) \<noteq> w" if "\<not> get_empty (ff s)"
    using that k(2) by (auto simp: get_empty_def)
  ultimately show ?case
    using put_store kfifo_store_free [OF k(1), of v]
    by (auto simp: spsc_inv_def put_full_def get_empty_def split: get_pc.splits)
next
  case (put_publish s w v)
  then show ?case
    using kfifo_publish [of "ff s"] put_publish_not_empty [of "ff s"]
    by (auto simp: spsc_inv_def split: get_pc.splits) (auto simp: put_publish_def)
next
  case (get_advance s r v)
  then show ?case
    using kfifo_remove [of "ff s"] get_advance_not_full [of "ff s"]
    by (auto simp: spsc_inv_def split: put_pc.splits) (auto simp: get_advance_def)
qed (auto simp: spsc_inv_def arr_get_Some_iff split: put_pc.splits get_pc.splits)

definition spsc_start :: "kfifo_s \<Rightarrow> spsc" where
  "spsc_start k = \<lparr>ff = k, ppc = PutIdle, gpc = GetIdle, sent = [], received = []\<rparr>"

lemma spsc_inv_reach:
  assumes "spsc_step\<^sup>*\<^sup>* (spsc_start k) s" and "kfifo_wf k" and "kfifo_contents k = []"
  shows "spsc_inv s"
  using assms(1)
proof (induction rule: rtranclp_induct)
  case base
  then show ?case using assms by (simp add: spsc_inv_def spsc_start_def)
next
  case (step s s')
  then show ?case using spsc_inv_step by blast
qed

text \<open>
  C24: With one writer and one reader the lock-free FIFO is correct under every interleaving of their
  memory accesses. The values published are those received followed by the contents, in order and
  at most \<^verbatim>\<open>size - 1\<close> of them; the writer is refused exactly when \<^verbatim>\<open>size - 1\<close> values are published and
  not received, and the reader exactly when all have been received; and no access of an operation
  in progress leaves the table.
\<close>

theorem kfifo_spsc:
  assumes "spsc_step\<^sup>*\<^sup>* (spsc_start (snd (kfifo_init kmem_alloc k sz mode))) s"
    and "kmem_alloc (4 * sz)" and "0 < sz"
  shows "sent s = received s @ kfifo_contents (ff s)
    \<and> (put_full (ff s) \<longleftrightarrow> length (kfifo_contents (ff s)) = ksize (ff s) - 1)
    \<and> length (kfifo_contents (ff s)) \<le> ksize (ff s) - 1
    \<and> (get_empty (ff s) \<longleftrightarrow> received s = sent s)
    \<and> (\<forall>w v. ppc s = PutStore w v \<longrightarrow> put_store w v (ff s) \<noteq> None)
    \<and> (\<forall>r. gpc s = GetLoad r \<longrightarrow> arr_get (tbl (ff s)) r \<noteq> None)"
proof -
  have inv: "spsc_inv s"
    using spsc_inv_reach [OF assms(1)] kfifo_init_wf [of kmem_alloc sz k mode] assms(2,3) by blast
  then have wf: "kfifo_wf (ff s)" by (simp add: spsc_inv_def)
  then have "kfifo_count (ff s) < ksize (ff s)" by (simp add: kfifo_wf_def ring_count_less)
  then show ?thesis
    using inv put_full_iff [OF wf] get_empty_iff [OF wf] wf
    by (auto simp: spsc_inv_def kfifo_wf_def put_store_def karray)
qed

definition spsc_example :: spsc where
  "spsc_example = \<lparr>ff = \<lparr>wridx = 1, rdidx = 0, ops_put = SinglePut, ops_get = SingleGet, ksize = 2, tbl = [7, 0]\<rparr>,
     ppc = PutIdle, gpc = GetIdle, sent = [7], received = []\<rparr>"

theorem kfifo_spsc_witness:
  "let k = snd (kfifo_init (\<lambda>_. True) (ff spsc_example) 2 KFIFO_NA) in
   spsc_step\<^sup>*\<^sup>* (spsc_start k) spsc_example
   \<and> sent spsc_example = received spsc_example @ kfifo_contents (ff spsc_example) \<and> put_full (ff spsc_example)"
proof -
  define k where "k = snd (kfifo_init (\<lambda>_. True) (ff spsc_example) 2 KFIFO_NA)"
  have k: "k = \<lparr>wridx = 0, rdidx = 0, ops_put = SinglePut, ops_get = SingleGet, ksize = 2, tbl = [0, 0]\<rparr>"
    by (simp add: k_def kfifo_init_def KFIFO_NA_def eval_nat_numeral)
  define s1 where "s1 = (spsc_start k)\<lparr>ppc := PutStore 0 7\<rparr>"
  define s2 where "s2 = s1\<lparr>ff := k\<lparr>tbl := [7, 0]\<rparr>, ppc := PutPublish 0 7\<rparr>"
  have "spsc_step (spsc_start k) s1"
    using spsc_step.put_begin [of "spsc_start k" 7] by (simp add: s1_def k spsc_start_def put_full_def)
  moreover have "spsc_step s1 s2"
    using spsc_step.put_store [of s1 0 7] by (simp add: s1_def s2_def k spsc_start_def put_store_def arr_set_def)
  moreover have "spsc_step s2 spsc_example"
    using spsc_step.put_publish [of s2 0 7]
    by (simp add: s1_def s2_def k spsc_start_def put_publish_def spsc_example_def)
  ultimately have "spsc_step\<^sup>*\<^sup>* (spsc_start k) spsc_example" by (meson rtranclp.rtrancl_refl rtranclp.rtrancl_into_rtrancl)
  then show ?thesis
    using kfifo_spsc [of "\<lambda>_. True" "ff spsc_example" 2 KFIFO_NA spsc_example]
    by (simp add: k_def Let_def spsc_example_def put_full_def)
qed

section \<open>Several writers\<close>

lemma queue_run_gets:
  "queue_run cap (replicate (length q) Get) q = (map (\<lambda>v. GetAnswer OK (Some v)) q, [])"
  by (induction q) auto

text \<open>
  The FIFO is not safe for a reader when its writers use \<^verbatim>\<open>multi_event_put\<close>. The operation moves the
  write index by its compare-and-swap first and stores the value afterwards; in between, the
  reader finds the FIFO one longer and is handed the old word of the slot: whatever value is being
  put, the reads deliver the contents followed by the word that was already in the table.
\<close>

theorem kfifo_multi_put_race:
  assumes "kfifo_wf k" and "\<not> put_full k"
  defines "claimed \<equiv> snd (cas_wridx (wridx k) ((wridx k + 1) mod ksize k) k)"
  shows "(\<forall>val. multi_event_put [] val k = map_option (\<lambda>k'. (OK, k')) (put_store (wridx k) val claimed))
    \<and> (\<exists>k'. fifo_run (kfifo_put []) (kfifo_get []) (replicate (Suc (length (kfifo_contents k))) Get) claimed =
         Some (map (\<lambda>v. GetAnswer OK (Some v)) (kfifo_contents k @ [tbl k ! wridx k]), k'))"
proof -
  have "multi_event_put [] val k = map_option (\<lambda>k'. (OK, k')) (put_store (wridx k) val claimed)" for val
    using assms(2) by (cases "put_store (wridx k) val claimed")
      (auto simp: multi_event_put_def claimed_def cas_wridx_def Let_def)
  moreover have "kfifo_wf claimed \<and> kfifo_contents claimed = kfifo_contents k @ [tbl k ! wridx k]"
    using kfifo_publish [OF assms(1,2)] by (simp add: claimed_def cas_wridx_def put_publish_def)
  then have "\<exists>k'. fifo_run (kfifo_put []) (kfifo_get []) (replicate (Suc (length (kfifo_contents k))) Get) claimed =
         Some (map (\<lambda>v. GetAnswer OK (Some v)) (kfifo_contents k @ [tbl k ! wridx k]), k')"
    using kf.refines_queue [of claimed "replicate (Suc (length (kfifo_contents k))) Get",
        unfolded fifo_op.map_id0 list.map_id]
      queue_run_gets [of "ksize claimed - 1" "kfifo_contents k @ [tbl k ! wridx k]"] by auto
  ultimately show ?thesis by blast
qed

theorem kfifo_multi_put_race_witness:
  "let k = snd (kfifo_init (\<lambda>_. True) (ff spsc_example) 4 KFIFO_MW);
       claimed = snd (cas_wridx 0 1 k)
   in kfifo_wf k \<and> \<not> put_full k
      \<and> (\<exists>k'. fifo_run (kfifo_put []) (kfifo_get []) [Get] claimed = Some ([GetAnswer OK (Some 0)], k'))"
proof -
  define k where "k = snd (kfifo_init (\<lambda>_. True) (ff spsc_example) 4 KFIFO_MW)"
  have wf: "kfifo_wf k" "\<not> put_full k" "kfifo_contents k = []"
    using kfifo_init_wf [of "\<lambda>_. True" 4 "ff spsc_example" KFIFO_MW]
    by (simp_all add: k_def) (simp add: kfifo_init_def Let_def put_full_def)
  have vals: "wridx k = 0" "ksize k = 4" "tbl k ! 0 = 0"
    by (simp_all add: k_def kfifo_init_def Let_def)
  show ?thesis
    using kfifo_multi_put_race [OF wf(1,2)] wf vals by (simp add: Let_def flip: k_def) 
qed

text \<open>
  \<^verbatim>\<open>kfifo_isFull\<close> compares the write index with the successor of the read index instead of the
  reverse: it holds when the FIFO has exactly one element.
\<close>

lemma kfifo_isFull_holds_at_one:
  assumes "kfifo_wf k" and "1 < ksize k"
  shows "kfifo_isFull k \<longleftrightarrow> length (kfifo_contents k) = 1"
  using assms by (auto simp: kfifo_isFull_def kfifo_wf_def ring_succ ring_count_def)

lemma kfifo_isEmpty_correct: "kfifo_wf k \<Longrightarrow> kfifo_isEmpty k \<longleftrightarrow> kfifo_contents k = []"
  using get_empty_iff by (simp add: kfifo_isEmpty_def get_empty_def)

end
