(* ===== verification/Kern_RemoteFifo.thy ===== *)
theory Kern_RemoteFifo
  imports Ring_Buffer "HOL-Library.Monad_Syntax"
begin

text \<open>
  The inter-cluster FIFO of \<^verbatim>\<open>src/kernel/kern/remote_fifo.c\<close> and \<^verbatim>\<open>remote_fifo.h\<close>: any cluster puts
  items under the lock of the FIFO, one thread of its own cluster gets them. A pointer to a FIFO is an
  address that every cluster has: \<open>m cid\<close> is the FIFO that cluster \<open>cid\<close> holds there. \<^verbatim>\<open>remote_lw\<close> and
  \<^verbatim>\<open>remote_sw\<close> with the argument \<open>cid\<close> reach \<open>m cid\<close>; a plain access by a processor of cluster \<open>here\<close> reaches
  \<open>m here\<close>. The slots are bytes of one table; an access outside it is \<open>None\<close>. A put is one step because
  it holds the lock. As in \<^verbatim>\<open>Kern_Kfifo\<close> the indices stay below the number of slots and do not wrap.
\<close>

section \<open>Model\<close>

type_synonym cid = nat

record remote_fifo_s =
  rf_wridx :: nat
  rf_rdidx :: nat
  rf_tbl :: "u8 list"
  slot_nbr :: nat
  slot_size :: nat
  item_size :: nat

type_synonym fifo_mem = "cid \<Rightarrow> remote_fifo_s"

text \<open>The size of the request is a 32-bit product.\<close>

definition remote_fifo_init :: "(nat \<Rightarrow> bool) \<Rightarrow> cid \<Rightarrow> fifo_mem \<Rightarrow> nat \<Rightarrow> nat \<Rightarrow> error_t \<times> fifo_mem" where
  "remote_fifo_init kmem_alloc here m nbr sz =
     (let req_size = (sz * nbr) mod 2 ^ 32
      in if \<not> kmem_alloc req_size then (Some ENOMEM, m(here := (m here)\<lparr>rf_tbl := []\<rparr>))
         else (OK, m(here := \<lparr>rf_wridx = 0, rf_rdidx = 0, rf_tbl = replicate req_size 0, slot_nbr = nbr,
                              slot_size = sz, item_size = sz\<rparr>)))"

text \<open>
  The place of a slot: a cluster, and an offset in the table that its FIFO has. The address of the
  table is read in cluster \<open>cid\<close>, but \<^verbatim>\<open>remote_fifo->slot_size\<close> is a plain access: the slot size is that of
  the FIFO of the calling cluster.
\<close>

definition item_get_base :: "fifo_mem \<Rightarrow> cid \<Rightarrow> cid \<Rightarrow> nat \<Rightarrow> cid \<times> nat" where
  "item_get_base m here cid pos = (cid, slot_size (m here) * pos)"

definition item_set :: "fifo_mem \<Rightarrow> cid \<Rightarrow> cid \<Rightarrow> u8 list \<Rightarrow> nat \<Rightarrow> fifo_mem option" where
  "item_set m here cid item pos = do {
     let sz = item_size (m cid);
     let (c, base) = item_get_base m here cid pos;
     t \<leftarrow> copy_loop item 0 (rf_tbl (m c)) base sz;
     Some (m(c := (m c)\<lparr>rf_tbl := t\<rparr>)) }"

definition rf_available_empty_items :: "nat \<Rightarrow> nat \<Rightarrow> nat \<Rightarrow> nat" where
  "rf_available_empty_items total_nr wr rd =
     (if wr = rd then total_nr else if wr > rd then rd + (total_nr - wr) else rd - wr)"

definition remote_fifo_put :: "cid \<Rightarrow> cid \<Rightarrow> u8 list \<Rightarrow> fifo_mem \<Rightarrow> (error_t \<times> fifo_mem) option" where
  "remote_fifo_put here cid item m =
     (let total_slot_nbr = slot_nbr (m cid); wridx = rf_wridx (m cid); rdidx = rf_rdidx (m cid)
      in if (wridx + 1) mod total_slot_nbr = rdidx then Some (Some EAGAIN, m)
         else do { m \<leftarrow> item_set m here cid item wridx;
                   Some (OK, m(cid := (m cid)\<lparr>rf_wridx := (wridx + 1) mod total_slot_nbr\<rparr>)) })"

text \<open>\<^verbatim>\<open>remote_fifo_get\<close> hands out the place of the oldest item; the caller releases it later.\<close>

definition remote_fifo_get :: "cid \<Rightarrow> fifo_mem \<Rightarrow> error_t \<times> (cid \<times> nat) option" where
  "remote_fifo_get here m =
     (let rdidx = rf_rdidx (m here); wridx = rf_wridx (m here)
      in if rdidx = wridx then (Some EAGAIN, None) else (OK, Some (item_get_base m here here rdidx)))"

definition remote_fifo_release :: "cid \<Rightarrow> fifo_mem \<Rightarrow> fifo_mem" where
  "remote_fifo_release here m =
     m(here := (m here)\<lparr>rf_rdidx := (rf_rdidx (m here) + 1) mod slot_nbr (m here)\<rparr>)"

definition remote_fifo_isEmpty :: "cid \<Rightarrow> fifo_mem \<Rightarrow> bool" where
  "remote_fifo_isEmpty cid m \<longleftrightarrow> rf_rdidx (m cid) = rf_wridx (m cid)"

definition remote_fifo_isFull :: "cid \<Rightarrow> fifo_mem \<Rightarrow> bool" where
  "remote_fifo_isFull cid m \<longleftrightarrow> rf_wridx (m cid) = (rf_rdidx (m cid) + 1) mod slot_nbr (m cid)"

text \<open>
  The reader of the FIFO (the handler thread of \<^verbatim>\<open>kern/rpc.c\<close>, in the cluster of the FIFO): get, copy the
  item out of its slot, release.
\<close>

definition item_take :: "cid \<Rightarrow> fifo_mem \<Rightarrow> (error_t \<times> u8 list option \<times> fifo_mem) option" where
  "item_take here m =
     (case remote_fifo_get here m of
        (err, None) \<Rightarrow> Some (err, None, m)
      | (err, Some (c, base)) \<Rightarrow> do {
          item \<leftarrow> copy_loop (rf_tbl (m c)) base (replicate (item_size (m here)) 0) 0 (item_size (m here));
          Some (err, Some item, remote_fifo_release here m) })"

section \<open>Slots\<close>

definition slot :: "nat \<Rightarrow> u8 list \<Rightarrow> nat \<Rightarrow> u8 list" where
  "slot sz t i = take sz (drop (sz * i) t)"

abbreviation rf_slots :: "remote_fifo_s \<Rightarrow> u8 list list" where
  "rf_slots rf \<equiv> map (slot (slot_size rf) (rf_tbl rf)) [0..<slot_nbr rf]"

definition rf_wf :: "remote_fifo_s \<Rightarrow> bool" where
  "rf_wf rf \<longleftrightarrow> length (rf_tbl rf) = slot_size rf * slot_nbr rf \<and> item_size rf = slot_size rf
     \<and> rf_wridx rf < slot_nbr rf \<and> rf_rdidx rf < slot_nbr rf"

definition rf_contents :: "remote_fifo_s \<Rightarrow> u8 list list" where
  "rf_contents rf = ring_slice (rf_slots rf) (rf_rdidx rf) (ring_count (slot_nbr rf) (rf_rdidx rf) (rf_wridx rf))"

lemma slot_bound: "i < nbr \<Longrightarrow> sz * i + sz \<le> sz * nbr" for i nbr sz :: nat
  by (metis Suc_leI mult_Suc_right mult_le_mono2 add.commute)

lemma slot_write:
  assumes "length t = sz * nbr" and "i < nbr" and "j < nbr" and "length item = sz"
  shows "slot sz (ring_write t (sz * i) item) j = (if j = i then item else slot sz t j)"
proof -
  have block: "ring_write t (sz * i) item = take (sz * i) t @ item @ drop (sz * i + sz) t"
    using assms slot_bound [OF assms(2), of sz] by (simp add: ring_write_block)
  have len: "length (take (sz * i) t) = sz * i" using assms slot_bound [OF assms(2), of sz] by simp
  consider (eq) "j = i" | (less) "j < i" | (more) "i < j" by linarith
  then show ?thesis
  proof cases
    case eq
    then show ?thesis using block len assms by (simp add: slot_def)
  next
    case less
    then have "sz * j + sz \<le> sz * i" using slot_bound by blast
    then show ?thesis using less block len by (simp add: slot_def drop_take)
  next
    case more
    then have "sz * i + sz \<le> sz * j" using slot_bound by blast
    then show ?thesis using more block len assms(4) by (simp add: slot_def)
  qed
qed

lemma slots_write:
  assumes "length t = sz * nbr" and "i < nbr" and "length item = sz"
  shows "map (slot sz (ring_write t (sz * i) item)) [0..<nbr] = (map (slot sz t) [0..<nbr])[i := item]"
proof (rule nth_equalityI)
  fix j
  assume "j < length (map (slot sz (ring_write t (sz * i) item)) [0..<nbr])"
  then have "j < nbr" by simp
  then show "map (slot sz (ring_write t (sz * i) item)) [0..<nbr] ! j = (map (slot sz t) [0..<nbr])[i := item] ! j"
    using slot_write [OF assms(1,2) _ assms(3)] by (simp add: nth_list_update)
qed simp

text \<open>Puts from a cluster whose FIFO at this address has slots of the same size.\<close>

lemma item_set_slot:
  assumes "rf_wf (m cid)" and "slot_size (m here) = slot_size (m cid)" and "pos < slot_nbr (m cid)"
    and "length item = item_size (m cid)"
  shows "\<exists>t. item_set m here cid item pos = Some (m(cid := (m cid)\<lparr>rf_tbl := t\<rparr>)) \<and> length t = length (rf_tbl (m cid))
    \<and> map (slot (slot_size (m cid)) t) [0..<slot_nbr (m cid)] = (rf_slots (m cid))[pos := item]"
proof -
  let ?rf = "m cid"
  have "slot_size ?rf * pos + slot_size ?rf \<le> length (rf_tbl ?rf)"
    using slot_bound [OF assms(3)] assms(1) by (simp add: rf_wf_def)
  then have "item_set m here cid item pos = Some (m(cid := ?rf\<lparr>rf_tbl := ring_write (rf_tbl ?rf) (slot_size ?rf * pos) item\<rparr>))"
    using assms by (simp add: item_set_def item_get_base_def copy_loop_write rf_wf_def)
  then show ?thesis using slots_write [OF _ assms(3)] assms(1,4) by (auto simp: rf_wf_def)
qed

lemma rf_put_room:
  assumes "rf_wf (m cid)" and "slot_size (m here) = slot_size (m cid)" and "length item = item_size (m cid)"
    and "(rf_wridx (m cid) + 1) mod slot_nbr (m cid) \<noteq> rf_rdidx (m cid)"
  shows "\<exists>rf'. remote_fifo_put here cid item m = Some (OK, m(cid := rf')) \<and> rf_wf rf'
    \<and> rf_contents rf' = rf_contents (m cid) @ [item] \<and> slot_nbr rf' = slot_nbr (m cid)
    \<and> item_size rf' = item_size (m cid) \<and> slot_size rf' = slot_size (m cid)"
proof -
  let ?r = "m cid"
  have b: "rf_rdidx ?r < slot_nbr ?r" "rf_wridx ?r < slot_nbr ?r" using assms(1) by (auto simp: rf_wf_def)
  obtain t where t: "item_set m here cid item (rf_wridx ?r) = Some (m(cid := ?r\<lparr>rf_tbl := t\<rparr>))"
      "length t = length (rf_tbl ?r)"
      "map (slot (slot_size ?r) t) [0..<slot_nbr ?r] = (rf_slots ?r)[rf_wridx ?r := item]"
    using item_set_slot [OF assms(1,2) b(2) assms(3)] by blast
  let ?rf = "?r\<lparr>rf_tbl := t, rf_wridx := (rf_wridx ?r + 1) mod slot_nbr ?r\<rparr>"
  let ?n = "ring_count (slot_nbr ?r) (rf_rdidx ?r) (rf_wridx ?r)"
  have "(rf_rdidx ?r + ?n) mod length (rf_slots ?r) = rf_wridx ?r" "?n < length (rf_slots ?r)"
    using b by (simp_all add: ring_count_wr ring_count_less)
  then have "ring_slice ((rf_slots ?r)[rf_wridx ?r := item]) (rf_rdidx ?r) (Suc ?n) = rf_contents ?r @ [item]"
    using ring_slice_put [of ?n "rf_slots ?r" "rf_rdidx ?r" item] by (simp add: rf_contents_def)
  moreover have "ring_count (slot_nbr ?r) (rf_rdidx ?r) ((rf_wridx ?r + 1) mod slot_nbr ?r) = Suc ?n"
    using ring_count_put [OF b assms(4)] .
  ultimately have "rf_contents ?rf = rf_contents ?r @ [item]" using t(3) by (simp add: rf_contents_def)
  then show ?thesis using t(1,2) assms b
    by (intro exI [of _ ?rf]) (simp add: remote_fifo_put_def rf_wf_def Let_def)
qed

lemma rf_take_first:
  assumes "rf_wf (m here)" and "rf_rdidx (m here) \<noteq> rf_wridx (m here)"
  shows "\<exists>item rf'. item_take here m = Some (OK, Some item, m(here := rf')) \<and> rf_wf rf'
    \<and> rf_contents (m here) = item # rf_contents rf' \<and> slot_nbr rf' = slot_nbr (m here)
    \<and> item_size rf' = item_size (m here) \<and> slot_size rf' = slot_size (m here)"
proof -
  let ?r = "m here"
  have b: "rf_rdidx ?r < slot_nbr ?r" "rf_wridx ?r < slot_nbr ?r" using assms(1) by (auto simp: rf_wf_def)
  let ?item = "slot (slot_size ?r) (rf_tbl ?r) (rf_rdidx ?r)"
  let ?rf = "?r\<lparr>rf_rdidx := (rf_rdidx ?r + 1) mod slot_nbr ?r\<rparr>"
  let ?n = "ring_count (slot_nbr ?r) ((rf_rdidx ?r + 1) mod slot_nbr ?r) (rf_wridx ?r)"
  have "slot_size ?r * rf_rdidx ?r + slot_size ?r \<le> length (rf_tbl ?r)"
    using slot_bound [OF b(1)] assms(1) by (simp add: rf_wf_def)
  then have "item_take here m = Some (OK, Some ?item, m(here := ?rf))"
    using assms by (simp add: item_take_def remote_fifo_get_def item_get_base_def copy_loop_write rf_wf_def
        ring_write_block slot_def remote_fifo_release_def)
  moreover have "rf_contents ?r = ?item # rf_contents ?rf"
    using ring_count_get [OF b assms(2)] b ring_slice_mod [of "rf_slots ?r" "Suc (rf_rdidx ?r)" ?n]
    by (simp add: rf_contents_def ring_slice_Cons flip: ring_count_get [OF b assms(2)])
  ultimately show ?thesis using assms(1) b
    by (intro exI [of _ ?item] exI [of _ ?rf]) (simp add: rf_wf_def)
qed

lemma rf_count_less: "rf_wf rf \<Longrightarrow> length (rf_contents rf) < slot_nbr rf"
  by (simp add: rf_contents_def rf_wf_def ring_count_less)

lemma rf_full_iff:
  "rf_wf rf \<Longrightarrow> (rf_wridx rf + 1) mod slot_nbr rf = rf_rdidx rf \<longleftrightarrow> length (rf_contents rf) = slot_nbr rf - 1"
  unfolding rf_contents_def rf_wf_def using ring_count_full by simp

lemma rf_empty_iff: "rf_wf rf \<Longrightarrow> rf_rdidx rf = rf_wridx rf \<longleftrightarrow> rf_contents rf = []"
  by (auto simp: rf_wf_def rf_contents_def ring_count_def ring_slice_def)

text \<open>A put is called with the cluster of the caller and an item.\<close>

definition rf_send :: "cid \<Rightarrow> cid \<times> u8 list \<Rightarrow> fifo_mem \<Rightarrow> (error_t \<times> fifo_mem) option" where
  "rf_send home = (\<lambda>(here, item). remote_fifo_put here home item)"

definition rf_fits :: "cid \<Rightarrow> fifo_mem \<Rightarrow> cid \<times> u8 list \<Rightarrow> bool" where
  "rf_fits home m = (\<lambda>(here, item). length item = item_size (m home) \<and> slot_size (m here) = slot_size (m home))"

lemma rf_fits_upd:
  "item_size rf = item_size (m home) \<Longrightarrow> slot_size rf = slot_size (m home) \<Longrightarrow> rf_fits home (m(home := rf)) = rf_fits home m"
  by (rule ext) (auto simp: rf_fits_def split: if_splits)

interpretation rf: bounded_fifo "\<lambda>m. rf_wf (m home)" "\<lambda>m. rf_contents (m home)" "\<lambda>m. slot_nbr (m home) - 1"
  "rf_send home" "item_take home" "rf_fits home" snd for home
proof
  fix m :: fifo_mem and v :: "cid \<times> u8 list"
  assume m: "rf_wf (m home)" "rf_fits home m v" and "length (rf_contents (m home)) < slot_nbr (m home) - 1"
  then have room: "(rf_wridx (m home) + 1) mod slot_nbr (m home) \<noteq> rf_rdidx (m home)" using rf_full_iff by simp
  obtain here item where v: "v = (here, item)" by fastforce
  then have fit: "slot_size (m here) = slot_size (m home)" "length item = item_size (m home)"
    using m(2) by (simp_all add: rf_fits_def)
  obtain rf where "remote_fifo_put here home item m = Some (OK, m(home := rf))" "rf_wf rf"
      "rf_contents rf = rf_contents (m home) @ [item]" "slot_nbr rf = slot_nbr (m home)"
      "item_size rf = item_size (m home)" "slot_size rf = slot_size (m home)"
    using rf_put_room [where cid = home and m = m, OF m(1) fit room] by blast
  then show "\<exists>m'. rf_send home v m = Some (OK, m') \<and> rf_wf (m' home) \<and> rf_contents (m' home) = rf_contents (m home) @ [snd v]
      \<and> slot_nbr (m' home) - 1 = slot_nbr (m home) - 1 \<and> rf_fits home m' = rf_fits home m"
    using v by (intro exI [of _ "m(home := rf)"]) (simp add: rf_send_def rf_fits_upd)
next
  fix m :: fifo_mem and v :: "cid \<times> u8 list"
  assume m: "rf_wf (m home)" and "\<not> length (rf_contents (m home)) < slot_nbr (m home) - 1"
  then have "(rf_wridx (m home) + 1) mod slot_nbr (m home) = rf_rdidx (m home)"
    using rf_full_iff [OF m] rf_count_less [OF m] by simp
  then show "rf_send home v m = Some (Some EAGAIN, m)" by (simp add: rf_send_def remote_fifo_put_def split: prod.splits)
next
  fix m :: fifo_mem and item items
  assume m: "rf_wf (m home)" and c: "rf_contents (m home) = item # items"
  then have "rf_rdidx (m home) \<noteq> rf_wridx (m home)" using rf_empty_iff [OF m] by simp
  then obtain rf where "item_take home m = Some (OK, Some item, m(home := rf))" "rf_wf rf" "rf_contents rf = items"
      "slot_nbr rf = slot_nbr (m home)" "item_size rf = item_size (m home)" "slot_size rf = slot_size (m home)"
    using rf_take_first [where here = home and m = m, OF m] c by auto
  then show "\<exists>m'. item_take home m = Some (OK, Some item, m') \<and> rf_wf (m' home) \<and> rf_contents (m' home) = items
      \<and> slot_nbr (m' home) - 1 = slot_nbr (m home) - 1 \<and> rf_fits home m' = rf_fits home m"
    by (intro exI [of _ "m(home := rf)"]) (simp add: rf_fits_upd)
next
  fix m :: fifo_mem
  assume "rf_wf (m home)" "rf_contents (m home) = []"
  then show "item_take home m = Some (Some EAGAIN, None, m)"
    using rf_empty_iff by (simp add: item_take_def remote_fifo_get_def)
qed

text \<open>
  C34: A remote FIFO created by \<^verbatim>\<open>remote_fifo_init\<close> in cluster \<open>home\<close> delivers every item whole and in
  order. For every sequence of puts of items of the declared size, each by a processor of some
  cluster, and of get-and-release pairs in cluster \<open>home\<close>, the accesses stay inside the table and the
  answers are those of a queue of \<^verbatim>\<open>slot_nbr - 1\<close> items: no slot overwrites its neighbour and no
  accepted item is lost. The table must be smaller than \<open>2 ^ 32\<close> bytes, and the FIFO that each calling
  cluster has at the same address must have slots of the same size, as after the \<^verbatim>\<open>rpc_listner_init\<close>
  of every cluster, because \<^verbatim>\<open>item_get_base\<close> reads the slot size there.
\<close>

theorem remote_fifo_refines_queue:
  fixes ops :: "(cid \<times> u8 list) fifo_op list"
  assumes "kmem_alloc (sz * nbr)" and "sz * nbr < 2 ^ 32" and "0 < nbr"
    and "remote_fifo_init kmem_alloc home m nbr sz = (err, m0)"
    and "\<forall>here item. Put (here, item) \<in> set ops \<longrightarrow> length item = sz \<and> slot_size (m0 here) = sz"
  defines "items \<equiv> map (map_fifo_op snd) ops"
  defines "spec \<equiv> queue_run (nbr - 1) items []"
  shows "err = OK \<and> (\<exists>m'. fifo_run (\<lambda>(here, item). remote_fifo_put here home item) (item_take home) ops m0 = Some (fst spec, m')
    \<and> rf_contents (m' home) = snd spec \<and> accepted items (fst spec) = delivered (fst spec) @ rf_contents (m' home))"
proof -
  have m0: "rf_wf (m0 home)" "rf_contents (m0 home) = []" "slot_nbr (m0 home) = nbr" "item_size (m0 home) = sz"
      "slot_size (m0 home) = sz" "err = OK"
    using assms(1-4) by (auto simp: remote_fifo_init_def rf_wf_def rf_contents_def ring_count_def)
  have fits: "rf_fits home m0 v" if "Put v \<in> set ops" for v
    using assms(5) that m0(4,5) by (cases v) (simp add: rf_fits_def)
  show ?thesis
    using rf.refines_queue [where home = home and s = m0 and ops = ops, OF m0(1) fits] queue_run_order [of "[]" items "nbr - 1"] m0(2,3,6)
    by (auto simp: spec_def items_def rf_send_def)
qed

text \<open>Cluster 5 has a FIFO with slots of the same size and puts twice; cluster 0 puts into its own.\<close>

definition demo_mem :: fifo_mem where
  "demo_mem = (\<lambda>_. \<lparr>rf_wridx = 9, rf_rdidx = 9, rf_tbl = [], slot_nbr = 0, slot_size = 2, item_size = 2\<rparr>)"

lemma demo_mem_init:
  "snd (remote_fifo_init (\<lambda>_. True) 0 demo_mem 3 2) =
     demo_mem(0 := \<lparr>rf_wridx = 0, rf_rdidx = 0, rf_tbl = [0, 0, 0, 0, 0, 0], slot_nbr = 3, slot_size = 2, item_size = 2\<rparr>)"
proof -
  have "replicate 6 0 = [0, 0, 0, 0, 0, 0 :: u8]" by (simp add: numeral_eq_Suc)
  then show ?thesis by (simp add: remote_fifo_init_def)
qed

theorem remote_fifo_refines_queue_witness:
  "\<exists>m'. fifo_run (\<lambda>(here, item). remote_fifo_put here 0 item) (item_take 0)
      [Put (5, [1, 2]), Put (0, [3, 4]), Put (5, [5, 6]), Get, Put (5, [7, 8]), Get, Get, Get]
      (snd (remote_fifo_init (\<lambda>_. True) 0 demo_mem 3 2))
    = Some ([PutAnswer OK, PutAnswer OK, PutAnswer (Some EAGAIN), GetAnswer OK (Some [1, 2]), PutAnswer OK,
             GetAnswer OK (Some [3, 4]), GetAnswer OK (Some [7, 8]), GetAnswer (Some EAGAIN) None], m')"
proof -
  let ?ops = "[Put (5, [1, 2]), Put (0, [3, 4]), Put (5, [5, 6]), Get, Put (5, [7, 8]), Get, Get, Get]"
  let ?i = "remote_fifo_init (\<lambda>_. True) 0 demo_mem 3 2"
  have "\<forall>here item. Put (here, item) \<in> set ?ops \<longrightarrow> length item = 2 \<and> slot_size (snd ?i here) = 2"
    by (auto simp: remote_fifo_init_def demo_mem_def)
  from remote_fifo_refines_queue [of "\<lambda>_. True" 2 3 0 demo_mem "fst ?i" "snd ?i" ?ops, OF _ _ _ _ this]
  show ?thesis by auto
qed

text \<open>
  Without the condition on the slot sizes the put of another cluster goes to the wrong place: when
  the caller's FIFO has slots of one byte, the second item overwrites part of the first one.
\<close>

lemma remote_put_misplaced:
  "(let m = (snd (remote_fifo_init (\<lambda>_. True) 0 demo_mem 3 2))(5 := (demo_mem 5)\<lparr>slot_size := 1\<rparr>)
    in case fifo_run (\<lambda>(here, item). remote_fifo_put here 0 item) (item_take 0)
         [Put (5, [1, 2]), Put (5, [3, 4]), Get, Get] m of
       None \<Rightarrow> False
     | Some (answers, m') \<Rightarrow> answers =
         [PutAnswer OK, PutAnswer OK, GetAnswer OK (Some [1, 3]), GetAnswer OK (Some [4, 0])])"
  unfolding demo_mem_init by code_simp

lemma rf_available_empty_items_eq:
  "rd < total_nr \<Longrightarrow> wr < total_nr \<Longrightarrow> rf_available_empty_items total_nr wr rd = total_nr - ring_count total_nr rd wr"
  by (auto simp: rf_available_empty_items_def ring_count_def)

lemma remote_fifo_isFull_holds_at_one:
  "rf_wf (m cid) \<Longrightarrow> 1 < slot_nbr (m cid) \<Longrightarrow> remote_fifo_isFull cid m \<longleftrightarrow> length (rf_contents (m cid)) = 1"
  by (auto simp: remote_fifo_isFull_def rf_wf_def rf_contents_def ring_succ ring_count_def)

end
