(* ===== verification/Kern_Mwmr.thy ===== *)
theory Kern_Mwmr
  imports Ring_Buffer "HOL-Library.Monad_Syntax"
begin

text \<open>
  The byte channels of \<^verbatim>\<open>src/kernel/kern/mwmr.c\<close>. Each operation runs under the lock of the channel
  (when it was created atomic) and is one step. The sizes are natural numbers: they stand for
  transfers below $2^{31}$ bytes, for which the \<^verbatim>\<open>int\<close> variables of the source are exact, and for
  channels whose storage is below $2^{32}$ bytes, for which the product in \<^verbatim>\<open>mwmr_init\<close> does not wrap.
\<close>

section \<open>Model\<close>

record fifomwmr_s =
  isAtomic :: bool
  status :: nat
  read_ptr :: nat
  write_ptr :: nat
  mdata :: "u8 list"
  mitem :: nat
  mlength :: nat

text \<open>
  \<open>kmem_alloc\<close> says which of the requests, in bytes, are served; the descriptor takes
  \<open>32\<close> bytes and both objects are zeroed.
\<close>

definition mwmr_init :: "(nat \<Rightarrow> bool) \<Rightarrow> nat \<Rightarrow> nat \<Rightarrow> bool \<Rightarrow> fifomwmr_s option" where
  "mwmr_init kmem_alloc item len atom =
     (if \<not> kmem_alloc 32 then None
      else if \<not> kmem_alloc (4 * item * len) then None
      else Some \<lparr>isAtomic = atom, status = 0, read_ptr = 0, write_ptr = 0,
             mdata = replicate (4 * item * len) 0, mitem = item, mlength = len * item\<rparr>)"

definition mwmr_read :: "fifomwmr_s \<Rightarrow> u8 list \<Rightarrow> nat \<Rightarrow> (nat \<times> u8 list \<times> fifomwmr_s) option" where
  "mwmr_read fifo buffer sz =
     (if sz = 0 then Some (0, buffer, fifo)
      else let rnum = (if sz > status fifo then status fifo else sz)
      in if rnum = 0 then Some (rnum, buffer, fifo)
      else do {
        buffer \<leftarrow>
          (if read_ptr fifo + rnum \<le> mlength fifo
           then copy_loop (mdata fifo) (read_ptr fifo) buffer 0 rnum
           else do {
             let size1 = mlength fifo - read_ptr fifo;
             let size2 = rnum - size1;
             buffer \<leftarrow> copy_loop (mdata fifo) (read_ptr fifo) buffer 0 size1;
             copy_loop (mdata fifo) 0 buffer size1 size2 });
        Some (rnum, buffer, fifo\<lparr>status := status fifo - rnum,
                                 read_ptr := (read_ptr fifo + rnum) mod mlength fifo\<rparr>) })"

definition mwmr_write :: "fifomwmr_s \<Rightarrow> u8 list \<Rightarrow> nat \<Rightarrow> (nat \<times> fifomwmr_s) option" where
  "mwmr_write fifo buffer sz =
     (if sz = 0 then Some (0, fifo)
      else let free_space = mlength fifo - status fifo;
               wnum = (if sz > free_space then free_space else sz)
      in if wnum = 0 then Some (wnum, fifo)
      else do {
        dat \<leftarrow>
          (if write_ptr fifo + wnum \<le> mlength fifo
           then copy_loop buffer 0 (mdata fifo) (write_ptr fifo) wnum
           else do {
             let size1 = mlength fifo - write_ptr fifo;
             let size2 = wnum - size1;
             dat \<leftarrow> copy_loop buffer 0 (mdata fifo) (write_ptr fifo) size1;
             copy_loop buffer size1 dat 0 size2 });
        Some (wnum, fifo\<lparr>mdata := dat, status := status fifo + wnum,
                         write_ptr := (write_ptr fifo + wnum) mod mlength fifo\<rparr>) })"

section \<open>Contents\<close>

text \<open>Only the first \<^verbatim>\<open>length\<close> bytes of the storage are used.\<close>

abbreviation mring :: "fifomwmr_s \<Rightarrow> u8 list" where
  "mring f \<equiv> take (mlength f) (mdata f)"

definition mwmr_wf :: "fifomwmr_s \<Rightarrow> bool" where
  "mwmr_wf f \<longleftrightarrow> mlength f \<le> length (mdata f) \<and> status f \<le> mlength f \<and> read_ptr f < mlength f
     \<and> write_ptr f = (read_ptr f + status f) mod mlength f"

definition mwmr_contents :: "fifomwmr_s \<Rightarrow> u8 list" where
  "mwmr_contents f = ring_slice (mring f) (read_ptr f) (status f)"

lemma length_mwmr_contents [simp]: "length (mwmr_contents f) = status f"
  by (simp add: mwmr_contents_def)

lemma mwmr_init_wf:
  assumes "mwmr_init kmem_alloc item len atom = Some f" and "0 < len" and "0 < item"
  shows "mwmr_wf f \<and> mwmr_contents f = []"
  using assms by (auto simp: mwmr_init_def mwmr_wf_def mwmr_contents_def split: if_splits)

text \<open>The two copies of a wrapping transfer are one transfer around the ring.\<close>

lemma ring_slice_block:
  assumes "rd + n \<le> length t"
  shows "ring_slice t rd n = take n (drop rd t)"
  using assms by (intro nth_equalityI) (auto simp: ring_slice_def)

lemma ring_slice_wrap:
  assumes "rd \<le> length t" and "length t < rd + n" and "n \<le> length t"
  shows "ring_slice t rd n = drop rd t @ take (n - (length t - rd)) t"
proof -
  let ?m = "length t - rd"
  have "ring_slice t rd n = ring_slice t rd ?m @ ring_slice t (length t) (n - ?m)"
    using assms ring_slice_add [of t rd ?m "n - ?m"] by simp
  also have "ring_slice t (length t) (n - ?m) = ring_slice t 0 (n - ?m)"
    using ring_slice_mod [of t "length t"] by simp
  finally show ?thesis using assms by (simp add: ring_slice_block)
qed

lemma ring_write_take:
  assumes "wr + length vs \<le> l" and "l \<le> length t"
  shows "take l (ring_write t wr vs) = ring_write (take l t) wr vs"
  using assms by (cases "vs = []") (auto simp: ring_write_block min_def drop_take neq_Nil_conv)

lemma write_wraps:
  assumes "l \<le> length dat" and "wp < l" and "l < wp + w" and "w \<le> l" and "w \<le> length buf"
  defines "size1 \<equiv> l - wp"
  shows "\<exists>dat1 dat2. copy_loop buf 0 dat wp size1 = Some dat1 \<and> copy_loop buf size1 dat1 0 (w - size1) = Some dat2
    \<and> length dat2 = length dat \<and> take l dat2 = ring_write (take l dat) wp (take w buf)"
proof -
  let ?xs = "take size1 buf" and ?ys = "take (w - size1) (drop size1 buf)"
  have lens: "length ?xs = size1" "length ?ys = w - size1" "wp + size1 = l" "w - size1 \<le> l" using assms by auto
  have "copy_loop buf 0 dat wp size1 = Some (ring_write dat wp ?xs)"
    using assms by (subst copy_loop_write) auto
  moreover have "copy_loop buf size1 (ring_write dat wp ?xs) 0 (w - size1) = Some (ring_write (ring_write dat wp ?xs) 0 ?ys)"
    using assms by (subst copy_loop_write) auto
  moreover have "take l (ring_write (ring_write dat wp ?xs) 0 ?ys) = ring_write (take l dat) wp (take w buf)"
  proof -
    have "take l (ring_write (ring_write dat wp ?xs) 0 ?ys) = ring_write (ring_write (take l dat) wp ?xs) 0 ?ys"
      using assms lens ring_write_take [of 0 ?ys l "ring_write dat wp ?xs"] ring_write_take [of wp ?xs l dat] by simp
    also have "\<dots> = ring_write (ring_write (take l dat) wp ?xs) (wp + length ?xs) ?ys"
      using ring_write_mod [of "ring_write (take l dat) wp ?xs" "wp + length ?xs" ?ys] lens assms(1) by simp
    also have "\<dots> = ring_write (take l dat) wp (?xs @ ?ys)" by (simp add: ring_write_append)
    also have "?xs @ ?ys = take w buf" using assms by (simp add: take_add [symmetric])
    finally show ?thesis .
  qed
  ultimately show ?thesis by simp
qed

lemma mwmr_write_ring:
  assumes "mwmr_wf f" and "sz \<le> length buf"
  defines "w \<equiv> min sz (mlength f - status f)"
  shows "\<exists>dat. mwmr_write f buf sz = Some (w, f\<lparr>mdata := dat, status := status f + w,
        write_ptr := (write_ptr f + w) mod mlength f\<rparr>)
    \<and> length dat = length (mdata f) \<and> take (mlength f) dat = ring_write (mring f) (write_ptr f) (take w buf)"
proof (cases "w = 0")
  case True
  have "write_ptr f mod mlength f = write_ptr f" using assms(1) by (simp add: mwmr_wf_def)
  then show ?thesis using True by (auto simp: mwmr_write_def w_def Let_def intro!: exI [of _ "mdata f"])
next
  case False
  let ?l = "mlength f" and ?wp = "write_ptr f"
  have wf: "?l \<le> length (mdata f)" "?wp < ?l" "w \<le> ?l" "w \<le> length buf" using assms by (auto simp: mwmr_wf_def)
  have start: "mwmr_write f buf sz = do {
      dat \<leftarrow> (if ?wp + w \<le> ?l then copy_loop buf 0 (mdata f) ?wp w
           else do { let size1 = ?l - ?wp; let size2 = w - size1;
             dat \<leftarrow> copy_loop buf 0 (mdata f) ?wp size1; copy_loop buf size1 dat 0 size2 });
      Some (w, f\<lparr>mdata := dat, status := status f + w, write_ptr := (?wp + w) mod ?l\<rparr>) }"
    using False by (auto simp: mwmr_write_def w_def Let_def min_def)
  show ?thesis
  proof (cases "?wp + w \<le> ?l")
    case True
    then have "copy_loop buf 0 (mdata f) ?wp w = Some (ring_write (mdata f) ?wp (take w buf))"
      using wf by (subst copy_loop_write) auto
    moreover have "take ?l (ring_write (mdata f) ?wp (take w buf)) = ring_write (mring f) ?wp (take w buf)"
      using wf True by (intro ring_write_take) auto
    ultimately show ?thesis using True start by (intro exI [of _ "ring_write (mdata f) ?wp (take w buf)"]) simp
  next
    case False
    then show ?thesis using write_wraps [of ?l "mdata f" ?wp w buf] wf start by (auto simp: Let_def)
  qed
qed

lemma mwmr_write_appends:
  assumes "mwmr_wf f" and "sz \<le> length buf"
  shows "\<exists>f'. mwmr_write f buf sz = Some (min sz (mlength f - status f), f') \<and> mwmr_wf f'
    \<and> mlength f' = mlength f \<and> mwmr_contents f' = mwmr_contents f @ take (min sz (mlength f - status f)) buf"
proof -
  define w where "w = min sz (mlength f - status f)"
  obtain dat where d: "mwmr_write f buf sz = Some (w, f\<lparr>mdata := dat, status := status f + w,
        write_ptr := (write_ptr f + w) mod mlength f\<rparr>)" "length dat = length (mdata f)"
      "take (mlength f) dat = ring_write (mring f) (write_ptr f) (take w buf)"
    using mwmr_write_ring [OF assms] unfolding w_def by blast
  have wf: "mlength f \<le> length (mdata f)" "status f \<le> mlength f" "read_ptr f < mlength f"
      "write_ptr f = (read_ptr f + status f) mod mlength f" using assms(1) by (auto simp: mwmr_wf_def)
  have w: "status f + w \<le> mlength f" "length (take w buf) = w" using wf assms(2) by (auto simp: w_def)
  have "ring_write (mring f) (write_ptr f) (take w buf) = ring_write (mring f) (read_ptr f + status f) (take w buf)"
    using ring_write_mod [of "mring f" "read_ptr f + status f" "take w buf"] wf by (simp add: min_absorb2)
  then have "ring_slice (take (mlength f) dat) (read_ptr f) (status f + w) = mwmr_contents f @ take w buf"
    using ring_slice_write [of "status f" "take w buf" "mring f" "read_ptr f"] w wf d(3)
    by (simp add: mwmr_contents_def min_def)
  moreover have "(write_ptr f + w) mod mlength f = (read_ptr f + (status f + w)) mod mlength f"
    using wf(4) by (simp add: mod_add_left_eq add.assoc)
  ultimately show ?thesis
    using d wf w unfolding w_def [symmetric] by (simp add: mwmr_wf_def mwmr_contents_def)
qed

lemma copy_loop_prefix:
  assumes "soff + n \<le> length src" and "n \<le> length buf"
  shows "copy_loop src soff buf 0 n = Some (take n (drop soff src) @ drop n buf)"
  using assms by (simp add: copy_loop_write ring_write_block min_absorb2)

lemma copy_loop_second:
  assumes "n \<le> length src" and "length xs + n \<le> length buf"
  shows "copy_loop src 0 (xs @ drop (length xs) buf) (length xs) n
    = Some (xs @ take n src @ drop (length xs + n) buf)"
  using assms by (simp add: copy_loop_write ring_write_block min_absorb2 add.commute)

lemma mwmr_read_takes:
  assumes "mwmr_wf f" and "sz \<le> length buf"
  shows "\<exists>f'. mwmr_read f buf sz = Some (min sz (status f),
        take (min sz (status f)) (mwmr_contents f) @ drop (min sz (status f)) buf, f')
    \<and> mwmr_wf f' \<and> mlength f' = mlength f \<and> mwmr_contents f' = drop (min sz (status f)) (mwmr_contents f)"
proof -
  define r where "r = min sz (status f)"
  let ?l = "mlength f" and ?rp = "read_ptr f"
  let ?f' = "f\<lparr>status := status f - r, read_ptr := (?rp + r) mod ?l\<rparr>"
  have wf: "?l \<le> length (mdata f)" "status f \<le> ?l" "?rp < ?l" "r \<le> status f" "r \<le> length buf"
      "write_ptr f = (?rp + status f) mod ?l" using assms by (auto simp: mwmr_wf_def r_def)
  have split: "mwmr_contents f = ring_slice (mring f) ?rp r @ ring_slice (mring f) (?rp + r) (status f - r)"
    using ring_slice_add [of "mring f" ?rp r "status f - r"] wf by (simp add: mwmr_contents_def)
  have "ring_slice (mring f) ((?rp + r) mod ?l) (status f - r) = ring_slice (mring f) (?rp + r) (status f - r)"
    using ring_slice_mod [of "mring f" "?rp + r" "status f - r"] wf by (simp add: min_absorb2)
  then have rest: "mwmr_contents ?f' = drop r (mwmr_contents f)" unfolding split by (simp add: mwmr_contents_def)
  have "((?rp + r) mod ?l + (status f - r)) mod ?l = (?rp + status f) mod ?l"
    using mod_add_left_eq [of "?rp + r" ?l "status f - r"] wf(4) by simp
  then have wf': "mwmr_wf ?f'" using wf by (simp add: mwmr_wf_def)
  have "mwmr_read f buf sz = Some (r, take r (mwmr_contents f) @ drop r buf, ?f')"
  proof (cases "r = 0")
    case True
    have "?rp mod ?l = ?rp" using wf by simp
    then show ?thesis using True by (auto simp: mwmr_read_def r_def Let_def)
  next
    case False
    then have start: "mwmr_read f buf sz = do {
        buffer \<leftarrow> (if ?rp + r \<le> ?l then copy_loop (mdata f) ?rp buf 0 r
           else do { let size1 = ?l - ?rp; let size2 = r - size1;
             buffer \<leftarrow> copy_loop (mdata f) ?rp buf 0 size1; copy_loop (mdata f) 0 buffer size1 size2 });
        Some (r, buffer, ?f') }"
      by (auto simp: mwmr_read_def r_def Let_def min_def)
    have first: "take r (mwmr_contents f) = ring_slice (mring f) ?rp r" unfolding split by simp
    show ?thesis
    proof (cases "?rp + r \<le> ?l")
      case True
      then have "take r (mwmr_contents f) = take r (drop ?rp (mdata f))"
        using wf first by (simp add: ring_slice_block drop_take min_absorb1)
      then show ?thesis using True start wf by (simp add: copy_loop_prefix)
    next
      case False
      let ?s1 = "?l - ?rp"
      let ?xs = "take ?s1 (drop ?rp (mdata f))"
      have "take r (mwmr_contents f) = ?xs @ take (r - ?s1) (mdata f)"
        using wf False first by (simp add: ring_slice_wrap drop_take min_absorb1)
      then show ?thesis
        using False start wf copy_loop_second [of "r - ?s1" "mdata f" ?xs buf]
        by (simp add: copy_loop_prefix Let_def)
    qed
  qed
  then show ?thesis using wf' rest unfolding r_def [symmetric] by auto
qed

section \<open>Byte streams\<close>

text \<open>
  A sequence of transfers on a channel: the bytes accepted by the writes and those returned by the
  reads.
\<close>

datatype mwmr_op = Write "u8 list" | Read nat

fun mwmr_run :: "mwmr_op list \<Rightarrow> fifomwmr_s \<Rightarrow> (u8 list \<times> u8 list \<times> fifomwmr_s) option" where
  "mwmr_run [] f = Some ([], [], f)"
| "mwmr_run (Write buf # ops) f = do {
     (w, f) \<leftarrow> mwmr_write f buf (length buf);
     (ins, outs, f) \<leftarrow> mwmr_run ops f;
     Some (take w buf @ ins, outs, f) }"
| "mwmr_run (Read n # ops) f = do {
     (r, buf, f) \<leftarrow> mwmr_read f (replicate n 0) n;
     (ins, outs, f) \<leftarrow> mwmr_run ops f;
     Some (ins, take r buf @ outs, f) }"

lemma mwmr_run_stream:
  "mwmr_wf f \<Longrightarrow> \<exists>ins outs f'. mwmr_run ops f = Some (ins, outs, f') \<and> mwmr_wf f' \<and> mlength f' = mlength f
    \<and> mwmr_contents f @ ins = outs @ mwmr_contents f'"
proof (induction ops arbitrary: f)
  case (Cons op ops)
  show ?case
  proof (cases op)
    case (Write buf)
    obtain f1 where f1: "mwmr_write f buf (length buf) = Some (min (length buf) (mlength f - status f), f1)"
        "mwmr_wf f1" "mlength f1 = mlength f"
        "mwmr_contents f1 = mwmr_contents f @ take (min (length buf) (mlength f - status f)) buf"
      using mwmr_write_appends [OF Cons.prems le_refl, of buf] by auto
    then show ?thesis using Cons.IH [OF f1(2)] Write by auto
  next
    case (Read n)
    obtain f1 where f1: "mwmr_read f (replicate n 0) n = Some (min n (status f),
          take (min n (status f)) (mwmr_contents f) @ drop (min n (status f)) (replicate n 0), f1)"
        "mwmr_wf f1" "mlength f1 = mlength f" "mwmr_contents f1 = drop (min n (status f)) (mwmr_contents f)"
      using mwmr_read_takes [OF Cons.prems, of n "replicate n 0"] by auto
    obtain ins outs f' where run: "mwmr_run ops f1 = Some (ins, outs, f')" "mwmr_wf f'" "mlength f' = mlength f1"
        "mwmr_contents f1 @ ins = outs @ mwmr_contents f'"
      using Cons.IH [OF f1(2)] by blast
    have "mwmr_contents f @ ins = take (min n (status f)) (mwmr_contents f) @ mwmr_contents f1 @ ins"
      unfolding f1(4) by (simp flip: append_assoc)
    then have "mwmr_contents f @ ins = take (min n (status f)) (mwmr_contents f) @ outs @ mwmr_contents f'"
      unfolding run(4) .
    then show ?thesis using f1(1,3) run(1-3) Read by simp
  qed
qed simp

text \<open>
  C35: A channel created by \<^verbatim>\<open>mwmr_init\<close> carries a byte stream. A write takes as many bytes as fit, a
  read returns as many as there are, wrapping at the end of the storage and never leaving it or
  the caller's buffer; and after any sequence of transfers the bytes accepted are the bytes
  returned followed by the contents, at most \<^verbatim>\<open>length * item\<close> of them.
\<close>

theorem mwmr_byte_stream:
  assumes "mwmr_init kmem_alloc item len atom = Some f" and "0 < len" and "0 < item"
  shows "\<exists>ins outs f'. mwmr_run ops f = Some (ins, outs, f') \<and> ins = outs @ mwmr_contents f'
    \<and> length (mwmr_contents f') \<le> len * item
    \<and> (\<forall>buf sz. sz \<le> length buf \<longrightarrow>
         (\<exists>f''. mwmr_write f' buf sz = Some (min sz (len * item - length (mwmr_contents f')), f''))
         \<and> (\<exists>buf' f''. mwmr_read f' buf sz = Some (min sz (length (mwmr_contents f')), buf', f'')
              \<and> length buf' = length buf))"
proof -
  have f: "mwmr_wf f" "mwmr_contents f = []" using mwmr_init_wf [OF assms] by auto
  obtain ins outs f' where run: "mwmr_run ops f = Some (ins, outs, f')" "mwmr_wf f'" "mlength f' = mlength f"
      "ins = outs @ mwmr_contents f'"
    using mwmr_run_stream [OF f(1), of ops] f(2) by auto
  moreover have "mlength f' = len * item" using run(3) assms(1) by (auto simp: mwmr_init_def split: if_splits)
  moreover have "status f' \<le> mlength f'" using run(2) by (simp add: mwmr_wf_def)
  ultimately have len: "mlength f' = len * item" "length (mwmr_contents f') \<le> len * item" by simp_all
  have "(\<exists>f''. mwmr_write f' buf sz = Some (min sz (len * item - length (mwmr_contents f')), f''))
      \<and> (\<exists>buf' f''. mwmr_read f' buf sz = Some (min sz (length (mwmr_contents f')), buf', f'') \<and> length buf' = length buf)"
    if sz: "sz \<le> length buf" for buf sz
  proof -
    obtain f'' where "mwmr_write f' buf sz = Some (min sz (len * item - status f'), f'')"
      using mwmr_write_appends [OF run(2) sz] len(1) by auto
    moreover obtain f3 where "mwmr_read f' buf sz = Some (min sz (status f'),
        take (min sz (status f')) (mwmr_contents f') @ drop (min sz (status f')) buf, f3)"
      using mwmr_read_takes [OF run(2) sz] by auto
    ultimately show ?thesis using sz by simp
  qed
  then show ?thesis using run(1,4) len(2) by blast
qed

definition mwmr_example :: "fifomwmr_s \<times> fifomwmr_s" where
  "mwmr_example =
     (\<lparr>isAtomic = True, status = 0, read_ptr = 0, write_ptr = 0, mdata = replicate 12 0, mitem = 1, mlength = 3\<rparr>,
      \<lparr>isAtomic = True, status = 0, read_ptr = 1, write_ptr = 1, mdata = [4, 2, 3] @ replicate 9 0, mitem = 1, mlength = 3\<rparr>)"

theorem mwmr_byte_stream_witness:
  "mwmr_init (\<lambda>_. True) 1 3 True = Some (fst mwmr_example)
    \<and> mwmr_run [Write [1, 2], Read 1, Write [3, 4, 5], Read 5] (fst mwmr_example)
        = Some ([1, 2, 3, 4], [1, 2, 3, 4], snd mwmr_example)
    \<and> (\<exists>ins outs f'. mwmr_run [Write [1, 2], Read 1, Write [3, 4, 5], Read 5] (fst mwmr_example) = Some (ins, outs, f')
         \<and> ins = outs @ mwmr_contents f')"
proof -
  have f: "mwmr_init (\<lambda>_. True) 1 3 True = Some (fst mwmr_example)"
    by (simp add: mwmr_init_def mwmr_example_def)
  have "mwmr_run [Write [1, 2], Read 1, Write [3, 4, 5], Read 5] (fst mwmr_example)
        = Some ([1, 2, 3, 4], [1, 2, 3, 4], snd mwmr_example)"
    by code_simp
  moreover note mwmr_byte_stream [OF f, of "[Write [1, 2], Read 1, Write [3, 4, 5], Read 5]"]
  ultimately show ?thesis using f by auto
qed

end
