(* ===== verification/Kern_Sched.thy ===== *)
theory Kern_Sched
  imports Kern_WaitQueue "HOL-Library.Monad_Syntax"
begin

text \<open>
  The scheduler of one processor: \<^verbatim>\<open>src/kernel/kern/scheduler.c\<close> and the round-robin policy
  \<^verbatim>\<open>kern/rr-sched_locked.c\<close>, as they are configured (\<^verbatim>\<open>CONFIG_USE_SCHED_LOCKS\<close>), with the load-balancing
  variants of the policy. Each policy operation holds the lock of the run queues and is one step.
  The state of a processor joins \<^verbatim>\<open>struct scheduler_s\<close>, its policy (\<^verbatim>\<open>struct sched_s\<close> and \<^verbatim>\<open>rQueues_t\<close>) and the
  descriptors of the threads; \<open>destroy_events\<close> lists the threads whose destruction event was sent.
  The queues are HOL lists (theory \<^verbatim>\<open>Libk_List\<close>). \<open>None\<close> is a kernel
  panic or the first element of an empty queue. The context switch makes the elected thread the
  current one. Time statistics, traces, the floating point owner and the migration of a thread
  that was elected for it are left out.
\<close>

section \<open>Threads\<close>

datatype thread_attr = PTHREAD | KTHREAD | TH_IDLE | TH_BOOT

datatype thread_state = S_CREATE | S_USR | S_KERNEL | S_READY | S_WAIT | S_DEAD

definition THREAD_ID :: u32 where "THREAD_ID = 0xDEEFBAAD"
definition TH_NEED_TO_SCHED :: u32 where "TH_NEED_TO_SCHED = 0x001"
definition TH_CAN_WAKEUP :: u32 where "TH_CAN_WAKEUP = 0x008"
definition TH_CAP_WAKEUP :: u32 where "TH_CAP_WAKEUP = 0x010"
definition TH_NEED_TO_MIGRATE :: u32 where "TH_NEED_TO_MIGRATE = 0x020"
definition TH_CAN_MIGRATE :: u32 where "TH_CAN_MIGRATE = 0x040"
definition TH_EXPORTED :: u32 where "TH_EXPORTED = 0x100"
definition TH_IMPORTED :: u32 where "TH_IMPORTED = 0x200"
definition TH_FORCED_YIELD :: u32 where "TH_FORCED_YIELD = 0x400"

record thread_s =
  th_state :: thread_state
  th_flags :: u32
  quantum :: int
  ticks_nr :: u32
  boosted_prio :: int
  th_type :: thread_attr
  sched_nr :: u32
  signature :: u32

definition set_flag :: "u32 \<Rightarrow> thread_s \<Rightarrow> thread_s" where
  "set_flag f th = th\<lparr>th_flags := th_flags th OR f\<rparr>"

definition clear_flag :: "u32 \<Rightarrow> thread_s \<Rightarrow> thread_s" where
  "clear_flag f th = th\<lparr>th_flags := th_flags th AND NOT f\<rparr>"

definition has_flag :: "u32 \<Rightarrow> thread_s \<Rightarrow> bool" where
  "has_flag f th \<longleftrightarrow> th_flags th AND f \<noteq> 0"

definition thread_sched_activate :: "thread_s \<Rightarrow> thread_s" where
  "thread_sched_activate = set_flag TH_NEED_TO_SCHED"

definition thread_sched_deactivate :: "thread_s \<Rightarrow> thread_s" where
  "thread_sched_deactivate = clear_flag TH_NEED_TO_SCHED"

definition thread_sched_isActivated :: "thread_s \<Rightarrow> bool" where
  "thread_sched_isActivated = has_flag TH_NEED_TO_SCHED"

definition thread_set_wakeable :: "thread_s \<Rightarrow> thread_s" where
  "thread_set_wakeable th = clear_flag TH_CAP_WAKEUP (set_flag TH_CAN_WAKEUP th)"

definition thread_isStack_overflow :: "thread_s \<Rightarrow> bool" where
  "thread_isStack_overflow th \<longleftrightarrow> signature th \<noteq> THREAD_ID"

section \<open>State of a processor\<close>

datatype cpu_state = CPU_ACTIVE | CPU_IDLE

type_synonym u16 = "16 word"

record scheduler_s =
  threads :: "tid \<Rightarrow> thread_s"
  current :: tid
  idle :: tid
  cpu_st :: cpu_state
  total_nr :: u16
  user_nr :: u16
  u_runnable :: u16
  k_runnable :: u16
  sched_count :: u32
  rq_u_runnable :: u32
  rq_m_runnable :: u32
  rq_clock_cntr :: u32
  rq_period :: u32
  kthreads :: "tid list"
  runnable :: "tid list"
  migrate :: "tid list"
  sleep_check :: "tid list"
  destroy_events :: "tid list"

definition upd :: "tid \<Rightarrow> (thread_s \<Rightarrow> thread_s) \<Rightarrow> scheduler_s \<Rightarrow> scheduler_s" where
  "upd t f S = S\<lparr>threads := (threads S)(t := f (threads S t))\<rparr>"

abbreviation thr :: "scheduler_s \<Rightarrow> tid \<Rightarrow> thread_s" where
  "thr S t \<equiv> threads S t"

abbreviation (input) RR_QUANTUM :: int where "RR_QUANTUM \<equiv> 4"

definition set_state :: "thread_state \<Rightarrow> tid \<Rightarrow> scheduler_s \<Rightarrow> scheduler_s" where
  "set_state st t = upd t (\<lambda>th. th\<lparr>th_state := st\<rparr>)"

section \<open>Round-robin policy\<close>

text \<open>\<open>CONFIG_CPU_BALANCING_PERIOD\<close> is a parameter of the configuration.\<close>

definition rr_sched_init :: "u32 \<Rightarrow> scheduler_s \<Rightarrow> scheduler_s" where
  "rr_sched_init balancing_period S = S\<lparr>sched_count := 0, rq_u_runnable := 0, rq_m_runnable := 0,
     rq_clock_cntr := 0, rq_period := balancing_period * 4, kthreads := [], runnable := [], migrate := []\<rparr>"

definition rr_clock :: "tid \<Rightarrow> scheduler_s \<Rightarrow> scheduler_s" where
  "rr_clock this S =
     (let S = (if quantum (thr S this) > 0 then upd this (\<lambda>th. th\<lparr>quantum := quantum th - 1\<rparr>) S else S)
      in if quantum (thr S this) = 0 \<and> th_type (thr S this) \<noteq> TH_IDLE
         then upd this thread_sched_activate S else S)"

definition rr_remove :: "tid \<Rightarrow> scheduler_s \<Rightarrow> scheduler_s" where
  "rr_remove this S = S\<lparr>total_nr := total_nr S - 1, user_nr := user_nr S - 1\<rparr>"

definition rr_exit :: "tid \<Rightarrow> scheduler_s \<Rightarrow> scheduler_s" where
  "rr_exit this S =
     (let S = S\<lparr>total_nr := total_nr S - 1\<rparr>;
          S = (if th_type (thr S this) = PTHREAD then S\<lparr>user_nr := user_nr S - 1\<rparr> else S)
      in set_state S_DEAD this S)"

definition rr_sleep :: "tid \<Rightarrow> scheduler_s \<Rightarrow> scheduler_s" where
  "rr_sleep this S = (if th_state (thr S this) \<noteq> S_READY then set_state S_WAIT this S else S)"

text \<open>\<open>this\<close> is the thread that executes the wake-up, possibly on another processor.\<close>

definition rr_wakeup :: "tid \<Rightarrow> tid \<Rightarrow> scheduler_s \<Rightarrow> scheduler_s" where
  "rr_wakeup this thread S =
     (let type = th_type (thr S thread);
          S = set_state S_READY thread S;
          S = S\<lparr>sched_count := sched_count S + 1\<rparr>
      in if type = KTHREAD
         then upd this (\<lambda>th. set_flag TH_FORCED_YIELD (thread_sched_activate th))
                (S\<lparr>k_runnable := k_runnable S + 1, kthreads := thread # kthreads S\<rparr>)
         else S\<lparr>rq_u_runnable := rq_u_runnable S + 1, u_runnable := u_runnable S + 1,
                runnable := thread # runnable S\<rparr>)"

definition rr_add_created :: "tid \<Rightarrow> scheduler_s \<Rightarrow> scheduler_s" where
  "rr_add_created thread S =
     (let type = th_type (thr S thread);
          S = S\<lparr>sched_count := sched_count S + 1, total_nr := total_nr S + 1\<rparr>
      in if type = KTHREAD
         then S\<lparr>k_runnable := k_runnable S + 1, kthreads := thread # kthreads S\<rparr>
         else let S = S\<lparr>user_nr := user_nr S + 1, u_runnable := u_runnable S + 1,
                        rq_u_runnable := rq_u_runnable S + 1, runnable := thread # runnable S\<rparr>
              in if has_flag TH_IMPORTED (thr S thread)
                 then upd thread (\<lambda>th. clear_flag TH_IMPORTED (th\<lparr>boosted_prio := 3 * RR_QUANTUM\<rparr>)) S
                 else upd thread (\<lambda>th. th\<lparr>boosted_prio := RR_QUANTUM\<rparr>) S)"

text \<open>\<^verbatim>\<open>rr_elect\<close>: the current thread goes to the end of its queue, then the first thread is taken.\<close>

definition rr_requeue :: "tid \<Rightarrow> scheduler_s \<Rightarrow> scheduler_s" where
  "rr_requeue this S =
     (if th_state (thr S this) = S_KERNEL \<and> th_type (thr S this) \<noteq> TH_IDLE
      then let S = set_state S_READY this S;
               S = (if th_type (thr S this) = PTHREAD
                    then S\<lparr>runnable := runnable S @ [this], u_runnable := u_runnable S + 1\<rparr>
                    else S\<lparr>kthreads := kthreads S @ [this], k_runnable := k_runnable S + 1\<rparr>)
           in S\<lparr>sched_count := sched_count S + 1\<rparr>
      else S)"

definition rr_first :: "scheduler_s \<Rightarrow> (tid option \<times> scheduler_s) option" where
  "rr_first S =
     (if sched_count S > 0
      then do {
        (elected, S) \<leftarrow>
          (case kthreads S of
             t # ts \<Rightarrow> Some (t, S\<lparr>k_runnable := k_runnable S - 1, kthreads := ts\<rparr>)
           | [] \<Rightarrow> (case runnable S of
               t # ts \<Rightarrow> Some (t, S\<lparr>u_runnable := u_runnable S - 1, rq_u_runnable := rq_u_runnable S - 1, runnable := ts\<rparr>)
             | [] \<Rightarrow> None));
        Some (Some elected, upd elected (\<lambda>th. thread_sched_deactivate (th\<lparr>quantum := RR_QUANTUM\<rparr>))
                              (S\<lparr>sched_count := sched_count S - 1\<rparr>)) }
      else Some (None, S))"

definition rr_elect :: "scheduler_s \<Rightarrow> (tid option \<times> scheduler_s) option" where
  "rr_elect S =
     (let this = current S; S = upd this thread_sched_deactivate S in rr_first (rr_requeue this S))"

subsection \<open>Load balancing\<close>

text \<open>
  The loop that looks for the thread to migrate; \<^verbatim>\<open>>>= 1\<close> on the signed priority is a division
  by two rounding down.
\<close>

definition lb_candidate :: "thread_s \<Rightarrow> bool" where
  "lb_candidate th \<longleftrightarrow> \<not> has_flag TH_EXPORTED th \<and> has_flag TH_CAN_MIGRATE th"

definition lb_age :: "thread_s \<Rightarrow> thread_s" where
  "lb_age th = clear_flag TH_NEED_TO_MIGRATE (th\<lparr>boosted_prio := boosted_prio th div 2\<rparr>)"

fun lb_scan :: "tid list \<Rightarrow> tid \<Rightarrow> int \<Rightarrow> scheduler_s \<Rightarrow> tid \<times> int \<times> scheduler_s" where
  "lb_scan [] victim mx S = (victim, mx, S)"
| "lb_scan (t # ts) victim mx S =
     (if \<not> lb_candidate (thr S t) then lb_scan ts victim mx S
      else if boosted_prio (thr S t) > mx then lb_scan ts t (boosted_prio (thr S t)) (upd t lb_age S)
      else lb_scan ts victim mx (upd t lb_age S))"

definition rr_sched_load_balance :: "tid \<Rightarrow> scheduler_s \<Rightarrow> scheduler_s" where
  "rr_sched_load_balance this S =
     (let mx = (if lb_candidate (thr S this) then boosted_prio (thr S this) else -1);
          S = upd this lb_age S;
          (victim, mx, S) = lb_scan (runnable S) this mx S
      in if mx \<ge> 0 \<and> (th_type (thr S this) = PTHREAD \<or> rq_u_runnable S > 0)
         then let S = upd victim (set_flag TH_NEED_TO_MIGRATE) S
              in if victim \<noteq> this
                 then S\<lparr>runnable := remove1 victim (runnable S), migrate := migrate S @ [victim],
                        rq_m_runnable := rq_m_runnable S + 1, rq_u_runnable := rq_u_runnable S - 1\<rparr>
                 else S
         else S)"

text \<open>
  The loads read by \<^verbatim>\<open>rr_clock_balancing\<close>: of the processor, of the two upper levels of the load
  tree and of its root.
\<close>

record load_s =
  cpu_usage :: nat
  level1_U :: nat
  level2_U :: nat
  root_U :: nat

definition rr_clock_balancing :: "load_s \<Rightarrow> tid \<Rightarrow> scheduler_s \<Rightarrow> scheduler_s" where
  "rr_clock_balancing ld this S =
     (let S = rr_clock this S;
          cond1 = (cpu_usage ld \<ge> 150 \<and> rq_u_runnable S > 0 \<and> user_nr S > 1);
          cond2 = (level1_U ld \<le> 90 \<or> level2_U ld \<le> 95);
          cond3 = (cond1 \<and> cond2);
          S = S\<lparr>rq_clock_cntr := rq_clock_cntr S + (if cond3 then drop_bit 1 (rq_period S) else 1)\<rparr>;
          S = (if rq_clock_cntr S \<ge> rq_period S
               then let S = S\<lparr>rq_clock_cntr := 0\<rparr>
                    in if cond1 \<and> root_U ld < 100 then rr_sched_load_balance this S else S
               else S)
      in if rq_m_runnable S > 0 \<and> \<not> has_flag TH_EXPORTED (thr S this)
         then upd this (\<lambda>th. (thread_sched_activate th)\<lparr>quantum := 0\<rparr>) S else S)"

definition rrb_requeue :: "tid \<Rightarrow> scheduler_s \<Rightarrow> scheduler_s" where
  "rrb_requeue this S =
     (if th_type (thr S this) \<noteq> TH_IDLE \<and> th_state (thr S this) = S_KERNEL
      then let S = set_state S_READY this S;
               S = upd this (\<lambda>th. th\<lparr>boosted_prio := boosted_prio th + quantum th\<rparr>) S;
               S = S\<lparr>sched_count := sched_count S + 1\<rparr>
           in if th_type (thr S this) = PTHREAD
              then let S = (if has_flag TH_FORCED_YIELD (thr S this)
                            then upd this (\<lambda>th. th\<lparr>boosted_prio := boosted_prio th - quantum th\<rparr>)
                                   (S\<lparr>runnable := this # runnable S\<rparr>)
                            else upd this (\<lambda>th. (clear_flag TH_NEED_TO_MIGRATE th)\<lparr>quantum := RR_QUANTUM\<rparr>)
                                   (S\<lparr>runnable := runnable S @ [this]\<rparr>))
                   in S\<lparr>u_runnable := u_runnable S + 1, rq_u_runnable := rq_u_runnable S + 1\<rparr>
              else upd this (\<lambda>th. th\<lparr>quantum := RR_QUANTUM\<rparr>)
                     (S\<lparr>kthreads := kthreads S @ [this], k_runnable := k_runnable S + 1\<rparr>)
      else S)"

definition rrb_first :: "scheduler_s \<Rightarrow> (tid option \<times> scheduler_s) option" where
  "rrb_first S =
     (if sched_count S > 0
      then do {
        (elected, S) \<leftarrow>
          (case kthreads S of
             t # ts \<Rightarrow> Some (t, S\<lparr>k_runnable := k_runnable S - 1, kthreads := ts\<rparr>)
           | [] \<Rightarrow> (case migrate S of
               t # ts \<Rightarrow> Some (t, S\<lparr>u_runnable := u_runnable S - 1, rq_m_runnable := rq_m_runnable S - 1, migrate := ts\<rparr>)
             | [] \<Rightarrow> (case runnable S of
                 t # ts \<Rightarrow> Some (t, S\<lparr>u_runnable := u_runnable S - 1, rq_u_runnable := rq_u_runnable S - 1, runnable := ts\<rparr>)
               | [] \<Rightarrow> None)));
        Some (Some elected, upd elected (\<lambda>th. clear_flag TH_FORCED_YIELD (thread_sched_deactivate th))
                              (S\<lparr>sched_count := sched_count S - 1\<rparr>)) }
      else Some (None, S))"

definition rr_elect_balancing :: "scheduler_s \<Rightarrow> (tid option \<times> scheduler_s) option" where
  "rr_elect_balancing S =
     (let this = current S; S = upd this thread_sched_deactivate S in rrb_first (rrb_requeue this S))"

section \<open>Scheduler\<close>

definition sched_wakeup :: "tid \<Rightarrow> tid \<Rightarrow> scheduler_s \<Rightarrow> scheduler_s" where
  "sched_wakeup this thread S = rr_wakeup this thread S"

definition check_sleeping :: "scheduler_s \<Rightarrow> scheduler_s" where
  "check_sleeping S =
     (case find (\<lambda>t. th_state (thr S t) = S_READY) (sleep_check S) of
        None \<Rightarrow> S
      | Some thread \<Rightarrow>
          sched_wakeup (current S) thread
            (set_state S_WAIT thread (S\<lparr>sleep_check := remove1 thread (sleep_check S)\<rparr>)))"

text \<open>The thread that is switched to; when it is not the current one the context changes.\<close>

definition sched_resume :: "tid \<Rightarrow> scheduler_s \<Rightarrow> scheduler_s" where
  "sched_resume elected S =
     (if elected \<noteq> current S
      then let S = (if th_state (thr S elected) = S_CREATE
                    then set_state (if th_type (thr S elected) = PTHREAD then S_USR else S_KERNEL) elected S
                    else set_state S_KERNEL elected (upd elected (\<lambda>th. th\<lparr>sched_nr := sched_nr th + 1\<rparr>) S))
           in S\<lparr>current := elected\<rparr>
      else set_state S_KERNEL elected S)"

definition schedule :: "scheduler_s \<Rightarrow> scheduler_s option" where
  "schedule S = do {
     (elected, S) \<leftarrow> rr_elect (check_sleeping S);
     let (elected, S) = (case elected of
          None \<Rightarrow> (idle S, S\<lparr>cpu_st := CPU_IDLE\<rparr>)
        | Some t \<Rightarrow> (t, S\<lparr>cpu_st := CPU_ACTIVE\<rparr>));
     if thread_isStack_overflow (thr S elected) then None
     else let S = (if th_state (thr S (current S)) = S_DEAD
                   then S\<lparr>destroy_events := destroy_events S @ [current S]\<rparr> else S)
          in Some (sched_resume elected S) }"

definition sched_yield :: "scheduler_s \<Rightarrow> scheduler_s option" where
  "sched_yield S = schedule S"

definition sched_exit :: "scheduler_s \<Rightarrow> scheduler_s option" where
  "sched_exit S = schedule (set_state S_DEAD (current S) (rr_exit (current S) S))"

definition sched_add_created :: "tid \<Rightarrow> scheduler_s \<Rightarrow> scheduler_s" where
  "sched_add_created thread S = rr_add_created thread (set_state S_CREATE thread S)"

definition sched_add :: "tid \<Rightarrow> scheduler_s \<Rightarrow> scheduler_s" where
  "sched_add thread S = rr_add_created thread (set_state S_READY thread S)"

definition sched_remove :: "scheduler_s \<Rightarrow> scheduler_s option" where
  "sched_remove S =
     (let this = current S;
          S = upd this (\<lambda>th. th\<lparr>th_type := KTHREAD\<rparr>) (rr_remove this S)
      in schedule (set_state S_DEAD this S))"

text \<open>\<^verbatim>\<open>__sched_sleep\<close> up to the switch; the flag is cleared when the thread runs again.\<close>

definition sched_sleep_gen :: "bool \<Rightarrow> scheduler_s \<Rightarrow> scheduler_s option" where
  "sched_sleep_gen add_to_sleep_check S =
     (let this = current S;
          S = (if has_flag TH_CAP_WAKEUP (thr S this) then upd this thread_set_wakeable S else S);
          S = rr_sleep this S;
          S = (if add_to_sleep_check then S\<lparr>sleep_check := sleep_check S @ [this]\<rparr> else S)
      in schedule S)"

definition sched_sleep_resume :: "scheduler_s \<Rightarrow> scheduler_s" where
  "sched_sleep_resume S = upd (current S) (clear_flag TH_CAN_WAKEUP) S"

definition sched_sleep :: "scheduler_s \<Rightarrow> scheduler_s option" where
  "sched_sleep S = sched_sleep_gen False S"

definition sched_sleep_check :: "scheduler_s \<Rightarrow> scheduler_s option" where
  "sched_sleep_check S = sched_sleep_gen True S"

definition sched_clock :: "scheduler_s \<Rightarrow> scheduler_s" where
  "sched_clock S =
     (let this = current S;
          S = upd this (\<lambda>th. th\<lparr>ticks_nr := ticks_nr th + 1\<rparr>) S;
          S = (if th_type (thr S this) = KTHREAD then upd (idle S) (\<lambda>th. th\<lparr>ticks_nr := ticks_nr th + 1\<rparr>) S else S)
      in rr_clock this S)"

definition sched_runnable_count :: "scheduler_s \<Rightarrow> u32 \<times> scheduler_s" where
  "sched_runnable_count S =
     (let S = check_sleeping S in (ucast (u_runnable S) + ucast (k_runnable S), S))"

definition sched_alive_count :: "scheduler_s \<Rightarrow> u32" where
  "sched_alive_count S = ucast (total_nr S)"

section \<open>Basic facts\<close>

lemma flag_simps [simp]:
  "th_state (set_flag f th) = th_state th" "th_type (set_flag f th) = th_type th"
  "signature (set_flag f th) = signature th" "quantum (set_flag f th) = quantum th"
  "th_state (clear_flag f th) = th_state th" "th_type (clear_flag f th) = th_type th"
  "signature (clear_flag f th) = signature th" "quantum (clear_flag f th) = quantum th"
  by (simp_all add: set_flag_def clear_flag_def)

lemma activate_simps [simp]:
  "th_state (thread_sched_activate th) = th_state th" "th_type (thread_sched_activate th) = th_type th"
  "signature (thread_sched_activate th) = signature th" "quantum (thread_sched_activate th) = quantum th"
  "th_state (thread_sched_deactivate th) = th_state th" "th_type (thread_sched_deactivate th) = th_type th"
  "signature (thread_sched_deactivate th) = signature th" "quantum (thread_sched_deactivate th) = quantum th"
  "th_state (thread_set_wakeable th) = th_state th" "th_type (thread_set_wakeable th) = th_type th"
  "signature (thread_set_wakeable th) = signature th"
  by (simp_all add: thread_sched_activate_def thread_sched_deactivate_def thread_set_wakeable_def)

lemma threads_upd [simp]: "threads (upd t f S) = (threads S)(t := f (threads S t))"
  by (simp add: upd_def)

lemma upd_fields [simp]:
  "current (upd t f S) = current S" "idle (upd t f S) = idle S" "cpu_st (upd t f S) = cpu_st S"
  "total_nr (upd t f S) = total_nr S" "user_nr (upd t f S) = user_nr S"
  "u_runnable (upd t f S) = u_runnable S" "k_runnable (upd t f S) = k_runnable S"
  "sched_count (upd t f S) = sched_count S" "rq_u_runnable (upd t f S) = rq_u_runnable S"
  "rq_m_runnable (upd t f S) = rq_m_runnable S" "kthreads (upd t f S) = kthreads S"
  "runnable (upd t f S) = runnable S" "migrate (upd t f S) = migrate S"
  "sleep_check (upd t f S) = sleep_check S" "destroy_events (upd t f S) = destroy_events S"
  by (simp_all add: upd_def)

lemma set_state_thread [simp]:
  "th_state (threads (set_state st t S) u) = (if u = t then st else th_state (threads S u))"
  "th_type (threads (set_state st t S) u) = th_type (threads S u)"
  "signature (threads (set_state st t S) u) = signature (threads S u)"
  "quantum (threads (set_state st t S) u) = quantum (threads S u)"
  "th_flags (threads (set_state st t S) u) = th_flags (threads S u)"
  by (simp_all add: set_state_def upd_def)

lemma set_state_simps [simp]:
  "current (set_state st t S) = current S" "idle (set_state st t S) = idle S"
  "total_nr (set_state st t S) = total_nr S" "user_nr (set_state st t S) = user_nr S"
  "u_runnable (set_state st t S) = u_runnable S" "k_runnable (set_state st t S) = k_runnable S"
  "sched_count (set_state st t S) = sched_count S" "rq_u_runnable (set_state st t S) = rq_u_runnable S"
  "rq_m_runnable (set_state st t S) = rq_m_runnable S" "kthreads (set_state st t S) = kthreads S"
  "runnable (set_state st t S) = runnable S" "migrate (set_state st t S) = migrate S"
  "sleep_check (set_state st t S) = sleep_check S" "destroy_events (set_state st t S) = destroy_events S"
  by (simp_all add: set_state_def)

section \<open>The invariant of the run queues\<close>

abbreviation SCHED_THREADS_NR :: nat where "SCHED_THREADS_NR \<equiv> 32"

abbreviation run_queue :: "scheduler_s \<Rightarrow> tid list" where
  "run_queue S \<equiv> kthreads S @ runnable S"

abbreviation st :: "scheduler_s \<Rightarrow> tid \<Rightarrow> thread_state" where
  "st S t \<equiv> th_state (thr S t)"

abbreviation ty :: "scheduler_s \<Rightarrow> tid \<Rightarrow> thread_attr" where
  "ty S t \<equiv> th_type (thr S t)"

definition q_shape :: "tid list \<Rightarrow> scheduler_s \<Rightarrow> bool" where
  "q_shape alive S \<longleftrightarrow> distinct alive \<and> length alive \<le> SCHED_THREADS_NR \<and> distinct (run_queue S @ sleep_check S)
     \<and> set (run_queue S @ sleep_check S) \<subseteq> set alive \<and> idle S \<notin> set alive"

definition q_types :: "tid list \<Rightarrow> scheduler_s \<Rightarrow> bool" where
  "q_types alive S \<longleftrightarrow> ty S (idle S) = TH_IDLE \<and> (\<forall>t\<in>set alive. ty S t = PTHREAD \<or> ty S t = KTHREAD)
     \<and> (\<forall>t\<in>set (kthreads S). ty S t = KTHREAD) \<and> (\<forall>t\<in>set (runnable S). ty S t = PTHREAD)
     \<and> (\<forall>t\<in>insert (idle S) (set alive). signature (thr S t) = THREAD_ID)"

text \<open>The threads of \<open>ex\<close> are in the middle of an operation.\<close>

definition q_states :: "tid list \<Rightarrow> tid set \<Rightarrow> scheduler_s \<Rightarrow> bool" where
  "q_states alive ex S \<longleftrightarrow>
     (\<forall>t\<in>set alive. t \<notin> ex \<longrightarrow> t \<notin> set (sleep_check S) \<longrightarrow>
        (t \<in> set (run_queue S) \<longleftrightarrow> st S t = S_CREATE \<or> st S t = S_READY))
     \<and> (\<forall>t\<in>set (sleep_check S). st S t = S_WAIT \<or> st S t = S_READY)"

definition q_counts :: "tid list \<Rightarrow> scheduler_s \<Rightarrow> bool" where
  "q_counts alive S \<longleftrightarrow> sched_count S = of_nat (length (run_queue S))
     \<and> u_runnable S = of_nat (length (runnable S)) \<and> k_runnable S = of_nat (length (kthreads S))
     \<and> total_nr S = of_nat (length alive)
     \<and> user_nr S = of_nat (length (filter (\<lambda>t. ty S t = PTHREAD) alive))"

definition queues_ok :: "tid list \<Rightarrow> tid set \<Rightarrow> scheduler_s \<Rightarrow> bool" where
  "queues_ok alive ex S \<longleftrightarrow> q_shape alive S \<and> q_types alive S \<and> q_states alive ex S \<and> q_counts alive S"

lemmas queues_ok_defs = queues_ok_def q_shape_def q_types_def q_states_def q_counts_def

text \<open>Nothing but the state, type and signature of the threads matters.\<close>

lemma queues_ok_upd:
  assumes "\<And>th. th_state (f th) = th_state th" and "\<And>th. th_type (f th) = th_type th"
    and "\<And>th. signature (f th) = signature th"
  shows "queues_ok alive ex (upd t f S) = queues_ok alive ex S"
proof -
  have "st (upd t f S) u = st S u" "ty (upd t f S) u = ty S u"
    "signature (thr (upd t f S) u) = signature (thr S u)" for u
    using assms by simp_all
  then show ?thesis by (simp add: queues_ok_defs del: threads_upd)
qed

lemma q_length: "queues_ok alive ex S \<Longrightarrow> length (run_queue S) \<le> SCHED_THREADS_NR"
proof -
  assume ok: "queues_ok alive ex S"
  then have "distinct (run_queue S)" "set (run_queue S) \<subseteq> set alive" "length alive \<le> SCHED_THREADS_NR"
    by (auto simp: queues_ok_def q_shape_def)
  then show ?thesis by (metis card_length card_mono distinct_card finite_set order.trans)
qed

lemma of_nat_pos_u32: "n \<le> SCHED_THREADS_NR \<Longrightarrow> 0 < (of_nat n :: u32) \<longleftrightarrow> 0 < n"
  by (simp add: word_less_nat_alt unat_of_nat)

lemma q_count_pos: "queues_ok alive ex S \<Longrightarrow> 0 < sched_count S \<longleftrightarrow> run_queue S \<noteq> []"
  using q_length [of alive ex S] of_nat_pos_u32 [of "length (run_queue S)"]
  by (auto simp: queues_ok_def q_counts_def)

lemma filter_upd_type: "(\<And>u. ty S u = ty S' u) \<Longrightarrow> filter (\<lambda>t. ty S t = a) xs = filter (\<lambda>t. ty S' t = a) xs"
  by simp

subsection \<open>Operations on the queues\<close>

lemma rr_wakeup_ok:
  assumes "queues_ok alive ex S" and "t \<in> set alive" and "t \<notin> set (run_queue S @ sleep_check S)"
  shows "queues_ok alive (ex - {t}) (rr_wakeup this t S)"
proof -
  let ?S = "set_state S_READY t S"
  let ?S' = "if ty S t = KTHREAD
    then ?S\<lparr>sched_count := sched_count S + 1, k_runnable := k_runnable S + 1, kthreads := t # kthreads S\<rparr>
    else ?S\<lparr>sched_count := sched_count S + 1, rq_u_runnable := rq_u_runnable S + 1, u_runnable := u_runnable S + 1, runnable := t # runnable S\<rparr>"
  have "queues_ok alive (ex - {t}) ?S'"
    using assms by (cases "ty S t = KTHREAD") (auto simp: queues_ok_defs)
  then show ?thesis
    by (cases "ty S t = KTHREAD") (simp_all add: rr_wakeup_def Let_def queues_ok_upd)
qed

lemma rr_wakeup_simps [simp]:
  "current (rr_wakeup this t S) = current S" "idle (rr_wakeup this t S) = idle S"
  "sleep_check (rr_wakeup this t S) = sleep_check S"
  "st (rr_wakeup this t S) u = (if u = t then S_READY else st S u)"
  "ty (rr_wakeup this t S) u = ty S u"
  by (simp_all add: rr_wakeup_def Let_def)

lemma rr_add_created_ok:
  assumes "queues_ok alive ex S" and "t \<notin> set alive" and "t \<noteq> idle S" and "length alive < SCHED_THREADS_NR"
    and "ty S t = PTHREAD \<or> ty S t = KTHREAD" and "signature (thr S t) = THREAD_ID"
    and "st S t = S_CREATE \<or> st S t = S_READY"
  shows "queues_ok (t # alive) ex (rr_add_created t S)"
proof -
  let ?S' = "if ty S t = KTHREAD
    then S\<lparr>sched_count := sched_count S + 1, total_nr := total_nr S + 1, k_runnable := k_runnable S + 1, kthreads := t # kthreads S\<rparr>
    else S\<lparr>sched_count := sched_count S + 1, total_nr := total_nr S + 1, user_nr := user_nr S + 1,
           u_runnable := u_runnable S + 1, rq_u_runnable := rq_u_runnable S + 1, runnable := t # runnable S\<rparr>"
  have "queues_ok (t # alive) ex ?S'"
    using assms by (cases "ty S t = KTHREAD") (auto simp: queues_ok_defs)
  then show ?thesis
    by (cases "ty S t = KTHREAD") (simp_all add: rr_add_created_def Let_def queues_ok_upd)
qed

lemma rr_add_created_simps [simp]:
  "current (rr_add_created t S) = current S" "idle (rr_add_created t S) = idle S"
  "sleep_check (rr_add_created t S) = sleep_check S"
  "st (rr_add_created t S) u = st S u" "ty (rr_add_created t S) u = ty S u"
  by (simp_all add: rr_add_created_def Let_def)

lemma check_sleeping_ok: "queues_ok alive ex S \<Longrightarrow> queues_ok alive ex (check_sleeping S)"
proof (cases "find (\<lambda>t. st S t = S_READY) (sleep_check S)")
  case None
  then show "queues_ok alive ex S \<Longrightarrow> queues_ok alive ex (check_sleeping S)" by (simp add: check_sleeping_def)
next
  case (Some t)
  assume ok: "queues_ok alive ex S"
  have t: "t \<in> set (sleep_check S)" "st S t = S_READY" using Some by (auto simp: find_Some_iff)
  let ?S = "set_state S_WAIT t (S\<lparr>sleep_check := remove1 t (sleep_check S)\<rparr>)"
  have "distinct (sleep_check S)" using ok by (simp add: queues_ok_defs)
  then have "queues_ok alive (insert t ex) ?S" "t \<in> set alive" "t \<notin> set (run_queue ?S @ sleep_check ?S)"
    using ok t by (auto simp: queues_ok_defs distinct_remove1)
  then have "queues_ok alive (insert t ex - {t}) (rr_wakeup (current S) t ?S)" by (rule rr_wakeup_ok)
  moreover have "queues_ok alive ex S' \<longleftrightarrow> queues_ok alive (insert t ex - {t}) S'"
    if "st S' t = S_READY \<and> t \<in> set (run_queue S')" for S'
    using that by (auto simp: queues_ok_defs)
  moreover have "t \<in> set (run_queue (rr_wakeup (current S) t ?S))"
    by (simp add: rr_wakeup_def Let_def)
  ultimately show "queues_ok alive ex (check_sleeping S)"
    using Some by (simp add: check_sleeping_def sched_wakeup_def)
qed

lemma check_sleeping_simps [simp]:
  "current (check_sleeping S) = current S" "idle (check_sleeping S) = idle S"
  "st (check_sleeping S) u = st S u" "ty (check_sleeping S) u = ty S u"
  by (auto simp: check_sleeping_def sched_wakeup_def find_Some_iff split: option.splits)

lemma check_sleeping_none: "sleep_check S = [] \<Longrightarrow> check_sleeping S = S"
  by (simp add: check_sleeping_def)

subsection \<open>Election\<close>

lemma rr_requeue_ok:
  assumes "queues_ok alive {} S" and "this \<in> set alive \<or> this = idle S \<or> st S this = S_DEAD"
    and "\<And>t. t \<in> set alive \<Longrightarrow> t \<noteq> this \<Longrightarrow> st S t = S_CREATE \<or> st S t = S_READY \<or> st S t = S_WAIT"
    and "this \<in> set alive \<Longrightarrow> st S this = S_KERNEL \<or> st S this = S_READY \<or> st S this = S_WAIT"
  shows "queues_ok alive {} (rr_requeue this S)
    \<and> (\<forall>t\<in>set alive. st (rr_requeue this S) t = S_CREATE \<or> st (rr_requeue this S) t = S_READY \<or> st (rr_requeue this S) t = S_WAIT)"
proof (cases "st S this = S_KERNEL \<and> ty S this \<noteq> TH_IDLE")
  case True
  then have alive: "this \<in> set alive" using assms(1,2) by (auto simp: queues_ok_def q_types_def)
  have states: "q_states alive {} S" using assms(1) by (simp add: queues_ok_def)
  then have "this \<notin> set (sleep_check S)" using True by (auto simp: q_states_def)
  moreover from this have "this \<notin> set (run_queue S)"
    using bspec [OF conjunct1 [OF states [unfolded q_states_def]] alive] True by simp
  ultimately have fresh: "this \<notin> set (run_queue S @ sleep_check S)" by simp
  let ?S = "set_state S_READY this S"
  let ?S' = "if ty S this = PTHREAD
    then ?S\<lparr>runnable := runnable S @ [this], u_runnable := u_runnable S + 1, sched_count := sched_count S + 1\<rparr>
    else ?S\<lparr>kthreads := kthreads S @ [this], k_runnable := k_runnable S + 1, sched_count := sched_count S + 1\<rparr>"
  have "queues_ok alive {} ?S'"
    using assms(1) alive fresh by (cases "ty S this = PTHREAD") (auto simp: queues_ok_defs)
  moreover have "rr_requeue this S = ?S'" using True by (simp add: rr_requeue_def Let_def)
  ultimately show ?thesis using assms(3) by auto
next
  case False
  then have "rr_requeue this S = S" by (auto simp: rr_requeue_def)
  moreover have "st S this \<noteq> S_KERNEL" if "this \<in> set alive"
    using False that assms(1) by (auto simp: queues_ok_def q_types_def)
  then have "st S t = S_CREATE \<or> st S t = S_READY \<or> st S t = S_WAIT" if "t \<in> set alive" for t
    using assms(3) [OF that] assms(4) that by (cases "t = this") auto
  ultimately show ?thesis using assms(1) by simp
qed

lemma rr_requeue_simps [simp]:
  "current (rr_requeue this S) = current S" "idle (rr_requeue this S) = idle S"
  "sleep_check (rr_requeue this S) = sleep_check S" "ty (rr_requeue this S) u = ty S u"
  by (simp_all add: rr_requeue_def Let_def)

lemma rr_first_empty: "queues_ok alive ex S \<Longrightarrow> run_queue S = [] \<Longrightarrow> rr_first S = Some (None, S)"
  using q_count_pos [of alive ex S] by (simp add: rr_first_def)

text \<open>The thread taken from the run queue, and the state left.\<close>

definition rr_taken :: "tid \<Rightarrow> scheduler_s \<Rightarrow> scheduler_s" where
  "rr_taken e S = upd e (\<lambda>th. thread_sched_deactivate (th\<lparr>quantum := RR_QUANTUM\<rparr>))
     (if kthreads S \<noteq> []
      then S\<lparr>k_runnable := k_runnable S - 1, kthreads := tl (kthreads S), sched_count := sched_count S - 1\<rparr>
      else S\<lparr>u_runnable := u_runnable S - 1, rq_u_runnable := rq_u_runnable S - 1, runnable := tl (runnable S),
             sched_count := sched_count S - 1\<rparr>)"

lemma rr_first_taken:
  "queues_ok alive ex S \<Longrightarrow> run_queue S = e # q \<Longrightarrow> rr_first S = Some (Some e, rr_taken e S)"
  using q_count_pos [of alive ex S]
  by (auto simp: rr_first_def rr_taken_def Cons_eq_append_conv append_eq_Cons_conv split: list.splits)

lemma rr_taken_ok:
  assumes "queues_ok alive {} S" and "run_queue S = e # q"
  shows "queues_ok alive {e} (rr_taken e S)" "run_queue (rr_taken e S) = q"
    "e \<in> set alive" "e \<notin> set q" "e \<notin> set (sleep_check S)"
proof -
  let ?S' = "if kthreads S \<noteq> []
      then S\<lparr>k_runnable := k_runnable S - 1, kthreads := tl (kthreads S), sched_count := sched_count S - 1\<rparr>
      else S\<lparr>u_runnable := u_runnable S - 1, rq_u_runnable := rq_u_runnable S - 1, runnable := tl (runnable S),
             sched_count := sched_count S - 1\<rparr>"
  have "queues_ok alive {e} ?S'"
    using assms by (cases "kthreads S") (auto simp: queues_ok_defs)
  then show "queues_ok alive {e} (rr_taken e S)" by (simp add: rr_taken_def queues_ok_upd)
  show "run_queue (rr_taken e S) = q" using assms(2) by (cases "kthreads S") (auto simp: rr_taken_def)
  have "e \<in> set (run_queue S)" using assms(2) by simp
  then show "e \<in> set alive" using assms(1) unfolding queues_ok_def q_shape_def by auto
  have "distinct (run_queue S @ sleep_check S)" using assms(1) unfolding queues_ok_def q_shape_def by blast
  then show "e \<notin> set q" "e \<notin> set (sleep_check S)" unfolding assms(2) by auto
qed

lemma rr_taken_simps [simp]:
  "current (rr_taken e S) = current S" "idle (rr_taken e S) = idle S" "sleep_check (rr_taken e S) = sleep_check S"
  "st (rr_taken e S) u = st S u" "ty (rr_taken e S) u = ty S u"
  by (simp_all add: rr_taken_def)

text \<open>The current thread may be chosen again; the chosen thread runs and all others wait or are queued.\<close>

definition runs_only :: "tid list \<Rightarrow> scheduler_s \<Rightarrow> bool" where
  "runs_only alive S \<longleftrightarrow> (current S = idle S \<or> current S \<in> set alive)
     \<and> (st S (current S) = S_USR \<or> st S (current S) = S_KERNEL) \<and> (current S = idle S \<longrightarrow> st S (current S) = S_KERNEL)
     \<and> (\<forall>t\<in>set alive. t \<noteq> current S \<longrightarrow> st S t = S_CREATE \<or> st S t = S_READY \<or> st S t = S_WAIT)"

lemma sched_resume_ok:
  assumes "queues_ok alive {e} S" and "e \<in> set alive \<or> e = idle S" and "e \<notin> set (run_queue S)" and "e \<notin> set (sleep_check S)"
    and "\<And>t. t \<in> set alive \<Longrightarrow> st S t = S_CREATE \<or> st S t = S_READY \<or> st S t = S_WAIT"
  shows "queues_ok alive {} (sched_resume e S)" "current (sched_resume e S) = e"
    "runs_only alive (sched_resume e S)" "run_queue (sched_resume e S) = run_queue S"
proof -
  let ?S1 = "if e \<noteq> current S \<and> st S e \<noteq> S_CREATE then upd e (\<lambda>th. th\<lparr>sched_nr := sched_nr th + 1\<rparr>) S else S"
  let ?x = "if e \<noteq> current S \<and> st S e = S_CREATE \<and> ty S e = PTHREAD then S_USR else S_KERNEL"
  have S1: "queues_ok alive {e} ?S1" using assms(1) by (simp add: queues_ok_upd)
  have eq: "sched_resume e S = (set_state ?x e ?S1)\<lparr>current := e\<rparr>"
    by (auto simp: sched_resume_def Let_def set_state_def upd_def)
  have x: "?x = S_USR \<or> ?x = S_KERNEL" by simp
  have same: "run_queue ?S1 = run_queue S" "sleep_check ?S1 = sleep_check S" "idle ?S1 = idle S" by simp_all
  show "queues_ok alive {} (sched_resume e S)"
    using S1 assms(3,4) x unfolding eq queues_ok_defs same by (auto simp del: append_assoc split: if_splits)
  show "current (sched_resume e S) = e" "run_queue (sched_resume e S) = run_queue S" by (simp_all add: eq)
  have "ty S (idle S) = TH_IDLE" using assms(1) by (simp add: queues_ok_defs)
  then show "runs_only alive (sched_resume e S)"
    unfolding runs_only_def eq using assms(2,5) by auto
qed

lemma queues_ok_mono: "queues_ok alive ex S \<Longrightarrow> ex \<subseteq> ex' \<Longrightarrow> queues_ok alive ex' S"
  by (auto simp: queues_ok_def q_states_def)

lemma queues_ok_fields [simp]:
  "queues_ok alive ex (S\<lparr>cpu_st := x\<rparr>) = queues_ok alive ex S"
  "queues_ok alive ex (S\<lparr>destroy_events := ds\<rparr>) = queues_ok alive ex S"
  "queues_ok alive ex (S\<lparr>current := t\<rparr>) = queues_ok alive ex S"
  by (simp_all add: queues_ok_defs)

text \<open>The state from which the election takes the first thread.\<close>

definition requeued :: "scheduler_s \<Rightarrow> scheduler_s" where
  "requeued S = rr_requeue (current S) (upd (current S) thread_sched_deactivate (check_sleeping S))"

definition schedulable :: "tid list \<Rightarrow> scheduler_s \<Rightarrow> bool" where
  "schedulable alive S \<longleftrightarrow> queues_ok alive {} S
     \<and> (current S \<in> set alive \<or> current S = idle S \<or> st S (current S) = S_DEAD)
     \<and> (current S \<in> set alive \<longrightarrow> st S (current S) = S_KERNEL \<or> st S (current S) = S_READY \<or> st S (current S) = S_WAIT)
     \<and> (\<forall>t\<in>set alive. t \<noteq> current S \<longrightarrow> st S t = S_CREATE \<or> st S t = S_READY \<or> st S t = S_WAIT)"

lemma requeued_ok:
  assumes "schedulable alive S"
  shows "queues_ok alive {} (requeued S)" "idle (requeued S) = idle S" "current (requeued S) = current S"
    "\<And>t. t \<in> set alive \<Longrightarrow> st (requeued S) t = S_CREATE \<or> st (requeued S) t = S_READY \<or> st (requeued S) t = S_WAIT"
proof -
  let ?S = "upd (current S) thread_sched_deactivate (check_sleeping S)"
  have st: "st ?S t = st S t" for t by simp
  have "queues_ok alive {} ?S"
    using check_sleeping_ok assms by (simp add: queues_ok_upd schedulable_def)
  then have "queues_ok alive {} (rr_requeue (current S) ?S)
    \<and> (\<forall>t\<in>set alive. st (rr_requeue (current S) ?S) t = S_CREATE \<or> st (rr_requeue (current S) ?S) t = S_READY
        \<or> st (rr_requeue (current S) ?S) t = S_WAIT)"
    by (rule rr_requeue_ok) (use assms st in \<open>auto simp: schedulable_def\<close>)
  then show "queues_ok alive {} (requeued S)"
    "\<And>t. t \<in> set alive \<Longrightarrow> st (requeued S) t = S_CREATE \<or> st (requeued S) t = S_READY \<or> st (requeued S) t = S_WAIT"
    by (auto simp: requeued_def)
  show "idle (requeued S) = idle S" "current (requeued S) = current S" by (simp_all add: requeued_def)
qed

lemma schedule_taken:
  "rr_elect (check_sleeping S) = Some (Some e, S1) \<Longrightarrow> \<not> thread_isStack_overflow (thr S1 e)
    \<Longrightarrow> \<exists>ds. schedule S = Some (sched_resume e (S1\<lparr>cpu_st := CPU_ACTIVE, destroy_events := ds\<rparr>))"
  by (cases "st S1 (current S1) = S_DEAD") (auto simp: schedule_def Let_def intro: exI [of _ "destroy_events S1"])

lemma schedule_none:
  "rr_elect (check_sleeping S) = Some (None, S1) \<Longrightarrow> \<not> thread_isStack_overflow (thr S1 (idle S1))
    \<Longrightarrow> \<exists>ds. schedule S = Some (sched_resume (idle S1) (S1\<lparr>cpu_st := CPU_IDLE, destroy_events := ds\<rparr>))"
  by (cases "st S1 (current S1) = S_DEAD") (auto simp: schedule_def Let_def intro: exI [of _ "destroy_events S1"])

lemma schedule_ok:
  assumes "schedulable alive S"
  shows "\<exists>S'. schedule S = Some S' \<and> queues_ok alive {} S' \<and> runs_only alive S' \<and> idle S' = idle S
    \<and> current S' = (case run_queue (requeued S) of [] \<Rightarrow> idle S | e # _ \<Rightarrow> e)
    \<and> run_queue S' = tl (run_queue (requeued S))"
proof -
  let ?Q = "requeued S"
  note Q = requeued_ok [OF assms]
  have sig: "\<And>t. t \<in> insert (idle S) (set alive) \<Longrightarrow> \<not> thread_isStack_overflow (thr ?Q t)" and idle: "idle S \<notin> set alive"
    using Q(1,2) by (auto simp: queues_ok_def q_types_def q_shape_def thread_isStack_overflow_def)
  have elect: "rr_elect (check_sleeping S) = rr_first ?Q" by (simp add: rr_elect_def requeued_def Let_def)
  show ?thesis
  proof (cases "run_queue ?Q")
    case Nil
    then have "rr_elect (check_sleeping S) = Some (None, ?Q)" using elect rr_first_empty [OF Q(1)] by simp
    then obtain ds where S': "schedule S = Some (sched_resume (idle S) (?Q\<lparr>cpu_st := CPU_IDLE, destroy_events := ds\<rparr>))"
      using schedule_none [of S ?Q] sig Q(2) by auto
    let ?S1 = "?Q\<lparr>cpu_st := CPU_IDLE, destroy_events := ds\<rparr>"
    have S1: "queues_ok alive {idle S} ?S1" using queues_ok_mono [OF Q(1)] by simp
    have out: "idle S \<notin> set (run_queue ?S1)" "idle S \<notin> set (sleep_check ?S1)"
      using Q(1) idle by (auto simp: queues_ok_def q_shape_def)
    have "idle S \<in> set alive \<or> idle S = idle ?S1" using Q(2) by simp
    note ok = sched_resume_ok [OF S1 this out]
    have "idle (sched_resume (idle S) ?S1) = idle S" using Q(2) by (simp add: sched_resume_def Let_def)
    then show ?thesis using S' ok Q(4) Nil by simp
  next
    case (Cons e q)
    then have "rr_elect (check_sleeping S) = Some (Some e, rr_taken e ?Q)" using elect rr_first_taken [OF Q(1)] by simp
    note taken = rr_taken_ok [OF Q(1) Cons]
    have "thread_isStack_overflow (thr (rr_taken e ?Q) e) = thread_isStack_overflow (thr ?Q e)"
      by (simp add: rr_taken_def thread_isStack_overflow_def)
    then obtain ds where S': "schedule S = Some (sched_resume e ((rr_taken e ?Q)\<lparr>cpu_st := CPU_ACTIVE, destroy_events := ds\<rparr>))"
      using schedule_taken [OF \<open>rr_elect (check_sleeping S) = Some (Some e, rr_taken e ?Q)\<close>] sig taken(3) by auto
    let ?S1 = "(rr_taken e ?Q)\<lparr>cpu_st := CPU_ACTIVE, destroy_events := ds\<rparr>"
    have S1: "queues_ok alive {e} ?S1" using taken(1) by simp
    have "run_queue ?S1 = q" "sleep_check ?S1 = sleep_check ?Q" using taken(2) by simp_all
    then have out: "e \<notin> set (run_queue ?S1)" "e \<notin> set (sleep_check ?S1)" using taken(4,5) by simp_all
    note ok = sched_resume_ok [OF S1 disjI1 [OF taken(3)] out]
    have "idle (sched_resume e ?S1) = idle S" using Q(2) by (simp add: sched_resume_def Let_def)
    then show ?thesis using S' ok Q(4) Cons taken(2) by simp
  qed
qed

section \<open>Runs of a processor\<close>

text \<open>
  A run interleaves what the current thread does with the wake-ups, creations and replies coming from
  anywhere. A thread that is going to sleep has already put itself on a wait queue (\<open>ToSleep\<close>) or sent
  a request whose reply makes it ready (\<open>ToCheck\<close>), and may be woken before it sleeps. \<open>live\<close> lists the
  threads registered with the processor; \<^verbatim>\<open>sched_register\<close> grants at most 32 numbers.
\<close>

datatype going = Running | ToSleep | ToCheck

record sched_run =
  sc :: scheduler_s
  live :: "tid list"
  going :: going

abbreviation cur :: "sched_run \<Rightarrow> tid" where "cur r \<equiv> current (sc r)"

inductive sched_step :: "sched_run \<Rightarrow> sched_run \<Rightarrow> bool" where
  enter: "going r = Running \<Longrightarrow> sched_step r (r\<lparr>sc := set_state S_KERNEL (cur r) (sc r)\<rparr>)"
| leave: "going r = Running \<Longrightarrow> cur r \<noteq> idle (sc r) \<Longrightarrow> sched_step r (r\<lparr>sc := set_state S_USR (cur r) (sc r)\<rparr>)"
| clock: "sched_step r (r\<lparr>sc := sched_clock (sc r)\<rparr>)"
| yield: "going r = Running \<Longrightarrow> st (sc r) (cur r) = S_KERNEL \<Longrightarrow> sched_yield (sc r) = Some S
    \<Longrightarrow> sched_step r (r\<lparr>sc := S\<rparr>)"
| intend: "going r = Running \<Longrightarrow> st (sc r) (cur r) = S_KERNEL \<Longrightarrow> cur r \<noteq> idle (sc r) \<Longrightarrow> sched_step r (r\<lparr>going := g\<rparr>)"
| wake: "t \<in> set (live r) \<Longrightarrow> t \<notin> set (sleep_check (sc r))
    \<Longrightarrow> st (sc r) t = S_WAIT \<or> t = cur r \<and> going r = ToSleep \<and> st (sc r) t = S_KERNEL
    \<Longrightarrow> sched_step r (r\<lparr>sc := sched_wakeup this t (sc r)\<rparr>)"
| reply: "t \<in> set (sleep_check (sc r)) \<and> st (sc r) t = S_WAIT \<or> t = cur r \<and> going r = ToCheck
    \<Longrightarrow> sched_step r (r\<lparr>sc := set_state S_READY t (sc r)\<rparr>)"
| sleep: "going r = ToSleep \<Longrightarrow> sched_sleep (sc r) = Some S \<Longrightarrow> sched_step r (r\<lparr>sc := S, going := Running\<rparr>)"
| sleep_check: "going r = ToCheck \<Longrightarrow> sched_sleep_check (sc r) = Some S \<Longrightarrow> sched_step r (r\<lparr>sc := S, going := Running\<rparr>)"
| resume: "sched_step r (r\<lparr>sc := sched_sleep_resume (sc r)\<rparr>)"
| create: "t \<notin> set (live r) \<Longrightarrow> t \<noteq> idle (sc r) \<Longrightarrow> length (live r) < SCHED_THREADS_NR
    \<Longrightarrow> ty (sc r) t = PTHREAD \<or> ty (sc r) t = KTHREAD \<Longrightarrow> signature (thr (sc r) t) = THREAD_ID
    \<Longrightarrow> sched_step r (r\<lparr>sc := sched_add_created t (sc r), live := t # live r\<rparr>)"
| arrive: "t \<notin> set (live r) \<Longrightarrow> t \<noteq> idle (sc r) \<Longrightarrow> length (live r) < SCHED_THREADS_NR
    \<Longrightarrow> ty (sc r) t = PTHREAD \<or> ty (sc r) t = KTHREAD \<Longrightarrow> signature (thr (sc r) t) = THREAD_ID
    \<Longrightarrow> sched_step r (r\<lparr>sc := sched_add t (sc r), live := t # live r\<rparr>)"
| exit: "going r = Running \<Longrightarrow> st (sc r) (cur r) = S_KERNEL \<Longrightarrow> cur r \<noteq> idle (sc r)
    \<Longrightarrow> sched_exit (sc r) = Some S \<Longrightarrow> sched_step r (r\<lparr>sc := S, live := remove1 (cur r) (live r)\<rparr>)"
| depart: "going r = Running \<Longrightarrow> st (sc r) (cur r) = S_KERNEL \<Longrightarrow> ty (sc r) (cur r) = PTHREAD
    \<Longrightarrow> sched_remove (sc r) = Some S \<Longrightarrow> sched_step r (r\<lparr>sc := S, live := remove1 (cur r) (live r)\<rparr>)"

definition sched_inv :: "sched_run \<Rightarrow> bool" where
  "sched_inv r \<longleftrightarrow> queues_ok (live r) (if going r = ToCheck then {cur r} else {}) (sc r)
     \<and> (cur r = idle (sc r) \<or> cur r \<in> set (live r))
     \<and> (cur r = idle (sc r) \<longrightarrow> st (sc r) (cur r) = S_KERNEL \<and> going r = Running)
     \<and> (\<forall>t\<in>set (live r). t \<noteq> cur r \<longrightarrow> st (sc r) t = S_CREATE \<or> st (sc r) t = S_READY \<or> st (sc r) t = S_WAIT)
     \<and> (case going r of
          Running \<Rightarrow> st (sc r) (cur r) = S_USR \<or> st (sc r) (cur r) = S_KERNEL
        | ToSleep \<Rightarrow> (st (sc r) (cur r) = S_KERNEL \<or> st (sc r) (cur r) = S_READY) \<and> cur r \<notin> set (sleep_check (sc r))
        | ToCheck \<Rightarrow> (st (sc r) (cur r) = S_KERNEL \<or> st (sc r) (cur r) = S_READY)
            \<and> cur r \<notin> set (run_queue (sc r)) \<and> cur r \<notin> set (sleep_check (sc r)))"

lemma set_state_ok:
  assumes "queues_ok alive ex S" and "t \<notin> set (sleep_check S)" and "x = S_CREATE \<or> x = S_READY \<longleftrightarrow> t \<in> set (run_queue S)"
  shows "queues_ok alive (ex - {t}) (set_state x t S)"
  using assms by (auto simp: queues_ok_defs)

lemma set_state_ex_ok:
  assumes "queues_ok alive {t} S" and "t \<notin> set (sleep_check S)"
  shows "queues_ok alive {t} (set_state x t S)"
  using assms by (auto simp: queues_ok_defs)

lemma set_state_check_ok:
  assumes "queues_ok alive ex S" and "t \<in> set (sleep_check S)" and "x = S_WAIT \<or> x = S_READY"
  shows "queues_ok alive ex (set_state x t S)"
  using assms by (auto simp: queues_ok_defs)

lemma running_queued:
  assumes "queues_ok alive {} S" and "t \<in> set alive" and "st S t = S_USR \<or> st S t = S_KERNEL"
  shows "t \<notin> set (run_queue S)" "t \<notin> set (sleep_check S)"
proof -
  have states: "q_states alive {} S" using assms(1) by (simp add: queues_ok_def)
  show sc: "t \<notin> set (sleep_check S)"
    using states assms(3) by (auto simp: q_states_def)
  show "t \<notin> set (run_queue S)"
    using bspec [OF conjunct1 [OF states [unfolded q_states_def]] assms(2)] sc assms(3) by auto
qed

text \<open>Changing threads that are not alive keeps the invariant of the queues.\<close>

lemma q_transfer:
  assumes fields: "kthreads S' = kthreads S" "runnable S' = runnable S" "sleep_check S' = sleep_check S" "idle S' = idle S"
    and same: "\<And>t. t \<in> insert (idle S) (set alive) \<Longrightarrow> st S' t = st S t \<and> ty S' t = ty S t \<and> signature (thr S' t) = signature (thr S t)"
    and shape: "q_shape alive S"
  shows "q_shape alive S'" and "q_types alive S \<Longrightarrow> q_types alive S'" and "q_states alive ex S \<Longrightarrow> q_states alive ex S'"
proof -
  show "q_shape alive S'" using shape unfolding q_shape_def fields .
  have sub: "set (kthreads S) \<subseteq> set alive" "set (runnable S) \<subseteq> set alive" "set (sleep_check S) \<subseteq> set alive"
    using shape unfolding q_shape_def by simp_all
  show "q_types alive S'" if "q_types alive S"
    using that same sub unfolding q_types_def fields by (simp add: subset_iff)
  show "q_states alive ex S'" if "q_states alive ex S"
    using that same sub unfolding q_states_def fields by (simp add: subset_iff)
qed

lemma queues_ok_removed:
  assumes "queues_ok alive {} S" and "c \<in> set alive" and "c \<notin> set (run_queue S)" and "c \<notin> set (sleep_check S)"
  shows "queues_ok (remove1 c alive) {} (set_state S_DEAD c (rr_exit c S))"
    and "ty S c = PTHREAD \<Longrightarrow>
      queues_ok (remove1 c alive) {} (set_state S_DEAD c (upd c (\<lambda>th. th\<lparr>th_type := KTHREAD\<rparr>) (rr_remove c S)))"
proof -
  have len: "length alive = Suc (length (remove1 c alive))"
    using length_pos_if_in_set [OF assms(2)] assms(2) by (simp add: length_remove1)
  have filt: "length (filter P alive) = (if P c then 1 else 0) + length (filter P (remove1 c alive))" for P
    using assms(2) length_pos_if_in_set [of c "filter P alive"] by (auto simp: filter_remove1 length_remove1)
  have d: "distinct alive" using assms(1) by (simp add: queues_ok_defs)
  let ?A = "remove1 c alive"
  have mem: "set ?A = set alive - {c}" using d by simp
  have shape: "q_shape ?A S" using assms len by (auto simp: queues_ok_def q_shape_def)
  have types: "q_types ?A S" and states: "q_states ?A {} S"
    using assms by (auto simp: queues_ok_def q_types_def q_states_def mem)
  have other: "filter (\<lambda>t. (if t = c then a else ty S t) = PTHREAD) ?A = filter (\<lambda>t. ty S t = PTHREAD) ?A" for a
    using mem by (intro filter_cong) auto
  have counts: "sched_count S = of_nat (length (run_queue S))" "u_runnable S = of_nat (length (runnable S))"
      "k_runnable S = of_nat (length (kthreads S))" "total_nr S = of_nat (length ?A) + 1"
      "user_nr S = (if ty S c = PTHREAD then 1 else 0) + of_nat (length (filter (\<lambda>t. ty S t = PTHREAD) ?A))"
    using assms(1) unfolding queues_ok_def q_counts_def len filt [of "\<lambda>t. ty S t = PTHREAD"] by simp_all
  show "queues_ok ?A {} (set_state S_DEAD c (rr_exit c S))"
  proof -
    let ?S = "set_state S_DEAD c (rr_exit c S)"
    have fields: "run_queue ?S = run_queue S" "kthreads ?S = kthreads S" "runnable ?S = runnable S"
        "sleep_check ?S = sleep_check S" "idle ?S = idle S" "\<And>t. t \<noteq> c \<Longrightarrow> st ?S t = st S t"
        "\<And>t. ty ?S t = ty S t" "\<And>t. signature (thr ?S t) = signature (thr S t)"
      by (simp_all add: rr_exit_def Let_def)
    have "c \<noteq> idle S" using assms(1,2) by (auto simp: queues_ok_def q_shape_def)
    then have same: "st ?S t = st S t \<and> ty ?S t = ty S t \<and> signature (thr ?S t) = signature (thr S t)"
      if "t \<in> insert (idle S) (set ?A)" for t
      using that fields(6-8) [of t] unfolding mem by auto
    note q_transfer [OF fields(2-5) same shape]
    then have "q_shape ?A ?S" "q_types ?A ?S" "q_states ?A {} ?S" using types states by blast+
    moreover have "q_counts ?A ?S"
      using counts unfolding q_counts_def fields by (simp add: rr_exit_def Let_def)
    ultimately show ?thesis by (simp add: queues_ok_def)
  qed
  show "queues_ok ?A {} (set_state S_DEAD c (upd c (\<lambda>th. th\<lparr>th_type := KTHREAD\<rparr>) (rr_remove c S)))" if "ty S c = PTHREAD"
  proof -
    let ?S = "set_state S_DEAD c (upd c (\<lambda>th. th\<lparr>th_type := KTHREAD\<rparr>) (rr_remove c S))"
    have fields: "run_queue ?S = run_queue S" "kthreads ?S = kthreads S" "runnable ?S = runnable S"
        "sleep_check ?S = sleep_check S" "idle ?S = idle S" "\<And>t. t \<noteq> c \<Longrightarrow> st ?S t = st S t"
        "\<And>t. ty ?S t = (if t = c then KTHREAD else ty S t)" "\<And>t. signature (thr ?S t) = signature (thr S t)"
      by (simp_all add: rr_remove_def)
    have "c \<noteq> idle S" using assms(1,2) by (auto simp: queues_ok_def q_shape_def)
    then have same: "st ?S t = st S t \<and> ty ?S t = ty S t \<and> signature (thr ?S t) = signature (thr S t)"
      if "t \<in> insert (idle S) (set ?A)" for t
      using that fields(6-8) [of t] unfolding mem by auto
    note q_transfer [OF fields(2-5) same shape]
    then have "q_shape ?A ?S" "q_types ?A ?S" "q_states ?A {} ?S" using types states by blast+
    moreover have "q_counts ?A ?S"
      using counts that other [of KTHREAD] unfolding q_counts_def fields by (simp add: rr_remove_def)
    ultimately show ?thesis by (simp add: queues_ok_def)
  qed
qed

lemma sched_inv_after:
  "queues_ok (live r) {} (sc r) \<Longrightarrow> runs_only (live r) (sc r) \<Longrightarrow> going r = Running \<Longrightarrow> sched_inv r"
  by (auto simp: sched_inv_def runs_only_def)

lemma sched_inv_current:
  assumes "sched_inv r" and "going r = Running" and "cur r \<noteq> idle (sc r)"
  shows "cur r \<in> set (live r)" "cur r \<notin> set (run_queue (sc r))" "cur r \<notin> set (sleep_check (sc r))"
proof -
  show live: "cur r \<in> set (live r)" using assms by (auto simp: sched_inv_def)
  have "queues_ok (live r) {} (sc r)" "st (sc r) (cur r) = S_USR \<or> st (sc r) (cur r) = S_KERNEL"
    using assms by (auto simp: sched_inv_def)
  then show "cur r \<notin> set (run_queue (sc r))" "cur r \<notin> set (sleep_check (sc r))" using running_queued live by blast+
qed

lemma sched_inv_schedulable:
  "sched_inv r \<Longrightarrow> going r = Running \<Longrightarrow> st (sc r) (cur r) = S_KERNEL \<Longrightarrow> schedulable (live r) (sc r)"
  by (auto simp: sched_inv_def schedulable_def)

lemma sleep_schedulable:
  assumes "sched_inv r" and "going r = ToSleep"
  shows "schedulable (live r) (rr_sleep (cur r) (sc r))"
proof -
  have ok: "queues_ok (live r) {} (sc r)" and c: "cur r \<in> set (live r)"
    "st (sc r) (cur r) = S_KERNEL \<or> st (sc r) (cur r) = S_READY" "cur r \<notin> set (sleep_check (sc r))"
    and others: "\<And>t. t \<in> set (live r) \<Longrightarrow> t \<noteq> cur r \<Longrightarrow> st (sc r) t = S_CREATE \<or> st (sc r) t = S_READY \<or> st (sc r) t = S_WAIT"
    using assms by (auto simp: sched_inv_def)
  have "queues_ok (live r) {} (rr_sleep (cur r) (sc r))"
  proof (cases "st (sc r) (cur r) = S_KERNEL")
    case True
    then have "cur r \<notin> set (run_queue (sc r))" using running_queued [OF ok c(1)] by simp
    then show ?thesis using True set_state_ok [OF ok c(3), of S_WAIT] by (simp add: rr_sleep_def)
  next
    case False
    then show ?thesis using ok c(2) by (simp add: rr_sleep_def)
  qed
  then show ?thesis using c others by (auto simp: schedulable_def rr_sleep_def)
qed

lemma sleep_check_schedulable:
  assumes "sched_inv r" and "going r = ToCheck"
  defines "S \<equiv> (rr_sleep (cur r) (sc r))\<lparr>sleep_check := sleep_check (rr_sleep (cur r) (sc r)) @ [cur r]\<rparr>"
  shows "schedulable (live r) S"
proof -
  have ok: "queues_ok (live r) {cur r} (sc r)" and c: "cur r \<in> set (live r)"
    "st (sc r) (cur r) = S_KERNEL \<or> st (sc r) (cur r) = S_READY" "cur r \<notin> set (sleep_check (sc r))" "cur r \<notin> set (run_queue (sc r))"
    and others: "\<And>t. t \<in> set (live r) \<Longrightarrow> t \<noteq> cur r \<Longrightarrow> st (sc r) t = S_CREATE \<or> st (sc r) t = S_READY \<or> st (sc r) t = S_WAIT"
    using assms by (auto simp: sched_inv_def)
  have state: "st S t = (if t = cur r then if st (sc r) (cur r) = S_KERNEL then S_WAIT else S_READY else st (sc r) t)" for t
    using c(2) by (auto simp: S_def rr_sleep_def)
  have type: "ty S t = ty (sc r) t" "signature (thr S t) = signature (thr (sc r) t)" for t
    by (simp_all add: S_def rr_sleep_def)
  have fields: "kthreads S = kthreads (sc r)" "runnable S = runnable (sc r)" "sleep_check S = sleep_check (sc r) @ [cur r]"
    "idle S = idle (sc r)" "current S = cur r" "sched_count S = sched_count (sc r)" "u_runnable S = u_runnable (sc r)"
    "k_runnable S = k_runnable (sc r)" "total_nr S = total_nr (sc r)" "user_nr S = user_nr (sc r)"
    by (simp_all add: S_def rr_sleep_def)
  have "q_shape (live r) S" using ok c unfolding queues_ok_def q_shape_def fields by auto
  moreover have "q_types (live r) S" using ok unfolding queues_ok_def q_types_def fields type by blast
  moreover have "q_states (live r) {} S" using ok unfolding queues_ok_def q_states_def fields state by auto
  moreover have "q_counts (live r) S" using ok unfolding queues_ok_def q_counts_def fields type by blast
  ultimately show ?thesis using c others by (auto simp: schedulable_def queues_ok_def fields state)
qed

lemma queues_ok_wakeable [simp]:
  "queues_ok alive ex (if b then upd t thread_set_wakeable S else S) = queues_ok alive ex S"
  by (simp add: queues_ok_upd)

lemma field_order:
  "th\<lparr>th_flags := a, th_state := b\<rparr> = th\<lparr>th_state := b, th_flags := a\<rparr>"
  "S\<lparr>threads := f, sleep_check := q\<rparr> = S\<lparr>sleep_check := q, threads := f\<rparr>"
  by simp_all

lemma rr_sleep_wakeable:
  "rr_sleep t (if b then upd t thread_set_wakeable S else S) = (if b then upd t thread_set_wakeable (rr_sleep t S) else rr_sleep t S)"
  by (simp add: rr_sleep_def set_state_def upd_def thread_set_wakeable_def set_flag_def clear_flag_def field_order)

lemma schedulable_upd:
  assumes "\<And>th. th_state (f th) = th_state th" and "\<And>th. th_type (f th) = th_type th" and "\<And>th. signature (f th) = signature th"
  shows "schedulable alive (upd t f S) = schedulable alive S"
proof -
  have "st (upd t f S) u = st S u" for u using assms by simp
  then show ?thesis using assms by (simp add: schedulable_def queues_ok_upd del: threads_upd)
qed

lemma sched_sleep_gen_schedule:
  "\<exists>S'. sched_sleep_gen b S = schedule S' \<and> (\<forall>alive. schedulable alive S' \<longleftrightarrow> schedulable alive
     (if b then (rr_sleep (current S) S)\<lparr>sleep_check := sleep_check (rr_sleep (current S) S) @ [current S]\<rparr> else rr_sleep (current S) S))"
proof -
  let ?c = "current S" and ?w = "has_flag TH_CAP_WAKEUP (thr S (current S))"
  let ?base = "if b then (rr_sleep ?c S)\<lparr>sleep_check := sleep_check (rr_sleep ?c S) @ [?c]\<rparr> else rr_sleep ?c S"
  have "sched_sleep_gen b S = schedule (if ?w then upd ?c thread_set_wakeable ?base else ?base)"
    unfolding sched_sleep_gen_def Let_def rr_sleep_wakeable by (simp add: upd_def field_order)
  moreover have "schedulable alive (if ?w then upd ?c thread_set_wakeable ?base else ?base) = schedulable alive ?base" for alive
    by (simp only: schedulable_upd activate_simps if_split) simp
  ultimately show ?thesis by blast
qed

text \<open>Every way of giving up the processor succeeds and keeps the invariant.\<close>

lemma yield_ok:
  assumes "sched_inv r" and "going r = Running" and "st (sc r) (cur r) = S_KERNEL"
  shows "\<exists>S. sched_yield (sc r) = Some S \<and> sched_inv (r\<lparr>sc := S\<rparr>)"
  using schedule_ok [OF sched_inv_schedulable [OF assms]] assms(2)
  by (auto simp: sched_yield_def intro!: sched_inv_after)

lemma sleep_ok:
  assumes "sched_inv r" and "going r = ToSleep"
  shows "\<exists>S. sched_sleep (sc r) = Some S \<and> sched_inv (r\<lparr>sc := S, going := Running\<rparr>)"
proof -
  obtain S' where S': "sched_sleep_gen False (sc r) = schedule S'" "schedulable (live r) S'"
    using sched_sleep_gen_schedule [of False "sc r"] sleep_schedulable [OF assms] by auto
  then show ?thesis using schedule_ok [OF S'(2)] by (auto simp: sched_sleep_def intro!: sched_inv_after)
qed

lemma sleep_check_ok:
  assumes "sched_inv r" and "going r = ToCheck"
  shows "\<exists>S. sched_sleep_check (sc r) = Some S \<and> sched_inv (r\<lparr>sc := S, going := Running\<rparr>)"
proof -
  obtain S' where S': "sched_sleep_gen True (sc r) = schedule S'" "schedulable (live r) S'"
    using sched_sleep_gen_schedule [of True "sc r"] sleep_check_schedulable [OF assms] by auto
  then show ?thesis using schedule_ok [OF S'(2)] by (auto simp: sched_sleep_check_def intro!: sched_inv_after)
qed

lemma leaving_ok:
  assumes "sched_inv r" and "going r = Running" and "cur r \<noteq> idle (sc r)"
    and "queues_ok (remove1 (cur r) (live r)) {} S" and "current S = cur r" and "idle S = idle (sc r)"
    and "\<And>t. st S t = (if t = cur r then S_DEAD else st (sc r) t)"
  shows "\<exists>S'. schedule S = Some S' \<and> sched_inv (r\<lparr>sc := S', live := remove1 (cur r) (live r)\<rparr>)"
proof -
  have d: "distinct (live r)" using assms(1) by (simp add: sched_inv_def queues_ok_def q_shape_def)
  have "\<forall>t\<in>set (live r). t \<noteq> cur r \<longrightarrow> st (sc r) t = S_CREATE \<or> st (sc r) t = S_READY \<or> st (sc r) t = S_WAIT"
    using assms(1) by (simp add: sched_inv_def)
  then have "schedulable (remove1 (cur r) (live r)) S" using assms(4-7) d by (simp add: schedulable_def)
  then show ?thesis using schedule_ok assms(2) by (fastforce intro!: sched_inv_after)
qed

lemma exit_ok:
  assumes "sched_inv r" and "going r = Running" and "cur r \<noteq> idle (sc r)"
  shows "\<exists>S. sched_exit (sc r) = Some S \<and> sched_inv (r\<lparr>sc := S, live := remove1 (cur r) (live r)\<rparr>)"
proof -
  have ok: "queues_ok (live r) {} (sc r)" using assms by (simp add: sched_inv_def)
  show ?thesis
    unfolding sched_exit_def
    by (rule leaving_ok [OF assms queues_ok_removed(1) [OF ok sched_inv_current [OF assms]]])
      (simp_all add: rr_exit_def Let_def)
qed

lemma depart_ok:
  assumes "sched_inv r" and "going r = Running" and "cur r \<noteq> idle (sc r)" and "ty (sc r) (cur r) = PTHREAD"
  shows "\<exists>S. sched_remove (sc r) = Some S \<and> sched_inv (r\<lparr>sc := S, live := remove1 (cur r) (live r)\<rparr>)"
proof -
  have ok: "queues_ok (live r) {} (sc r)" using assms by (simp add: sched_inv_def)
  show ?thesis
    unfolding sched_remove_def Let_def
    by (rule leaving_ok [OF assms(1-3) queues_ok_removed(2) [OF ok sched_inv_current [OF assms(1-3)] assms(4)]])
      (simp_all add: rr_remove_def)
qed

lemma sched_inv_upd:
  assumes "\<And>th. th_state (f th) = th_state th" and "\<And>th. th_type (f th) = th_type th" and "\<And>th. signature (f th) = signature th"
  shows "sched_inv (r\<lparr>sc := upd t f (sc r)\<rparr>) = sched_inv r"
proof -
  have "st (upd t f (sc r)) u = st (sc r) u" for u using assms by simp
  then show ?thesis
    using assms by (cases "going r") (simp_all add: sched_inv_def queues_ok_upd del: threads_upd)
qed

lemma sched_inv_clock: "sched_inv r \<Longrightarrow> sched_inv (r\<lparr>sc := sched_clock (sc r)\<rparr>)"
proof -
  assume inv: "sched_inv r"
  have keep: "sched_inv (r\<lparr>sc := S\<rparr>) \<Longrightarrow> sched_inv (r\<lparr>sc := upd t f S\<rparr>)"
    if "\<And>th. th_state (f th) = th_state th" "\<And>th. th_type (f th) = th_type th" "\<And>th. signature (f th) = signature th" for t f S
    using sched_inv_upd [OF that, where r = "r\<lparr>sc := S\<rparr>" and t = t] by simp
  have "sched_inv (r\<lparr>sc := rr_clock t S\<rparr>)" if "sched_inv (r\<lparr>sc := S\<rparr>)" for t S
    using that by (simp add: rr_clock_def Let_def keep)
  moreover have "sched_inv (r\<lparr>sc := sc r\<rparr>)" using inv by simp
  ultimately show ?thesis by (simp add: sched_clock_def Let_def keep)
qed

lemma create_ok:
  assumes "sched_inv r" and "t \<notin> set (live r)" and "t \<noteq> idle (sc r)" and "length (live r) < SCHED_THREADS_NR"
    and "ty (sc r) t = PTHREAD \<or> ty (sc r) t = KTHREAD" and "signature (thr (sc r) t) = THREAD_ID"
    and "x = S_CREATE \<or> x = S_READY"
  shows "sched_inv (r\<lparr>sc := rr_add_created t (set_state x t (sc r)), live := t # live r\<rparr>)"
proof -
  let ?ex = "if going r = ToCheck then {cur r} else {}" and ?S = "set_state x t (sc r)"
  have ok: "queues_ok (live r) ?ex (sc r)" and c: "cur r = idle (sc r) \<or> cur r \<in> set (live r)"
    using assms(1) by (auto simp: sched_inv_def)
  then have t: "t \<noteq> cur r" "t \<notin> set (sleep_check (sc r))" "t \<notin> set (run_queue (sc r))"
    using assms(2,3) by (auto simp: queues_ok_def q_shape_def)
  have q: "q_shape (live r) (sc r)" "q_types (live r) (sc r)" "q_states (live r) ?ex (sc r)"
    using ok by (simp_all add: queues_ok_def)
  have same: "st ?S u = st (sc r) u \<and> ty ?S u = ty (sc r) u \<and> signature (thr ?S u) = signature (thr (sc r) u)"
    if "u \<in> insert (idle (sc r)) (set (live r))" for u
    using that assms(2,3) by auto
  have fields: "kthreads ?S = kthreads (sc r)" "runnable ?S = runnable (sc r)"
    "sleep_check ?S = sleep_check (sc r)" "idle ?S = idle (sc r)" by simp_all
  note tr = q_transfer [OF fields same q(1)]
  have "q_shape (live r) ?S" "q_types (live r) ?S" "q_states (live r) ?ex ?S"
    using tr q(2,3) by blast+
  moreover have "q_counts (live r) ?S" using ok by (simp add: queues_ok_def q_counts_def)
  ultimately have "queues_ok (live r) ?ex ?S" by (simp add: queues_ok_def)
  then have "queues_ok (t # live r) ?ex (rr_add_created t ?S)"
    using assms by (intro rr_add_created_ok) auto
  moreover have "set (run_queue (rr_add_created t ?S)) = insert t (set (run_queue (sc r)))"
    by (auto simp: rr_add_created_def Let_def)
  ultimately show ?thesis
    using assms(1) t assms(7) by (cases "going r") (auto simp: sched_inv_def)
qed

lemma wake_ok:
  assumes "sched_inv r" and "t \<in> set (live r)" and "t \<notin> set (sleep_check (sc r))"
    and "st (sc r) t = S_WAIT \<or> t = cur r \<and> going r = ToSleep \<and> st (sc r) t = S_KERNEL"
  shows "sched_inv (r\<lparr>sc := sched_wakeup this t (sc r)\<rparr>)"
proof -
  let ?ex = "if going r = ToCheck then {cur r} else {}"
  have ok: "queues_ok (live r) ?ex (sc r)" using assms(1) by (simp add: sched_inv_def)
  have ex: "t \<notin> ?ex" using assms(1,4) by (auto simp: sched_inv_def)
  have "t \<notin> set (run_queue (sc r))"
    using bspec [OF conjunct1 [OF conjunct1 [OF conjunct2 [OF conjunct2 [OF ok [unfolded queues_ok_def q_states_def]]]]] assms(2)]
      assms(3,4) ex by auto
  then have "queues_ok (live r) ?ex (rr_wakeup this t (sc r))"
    using rr_wakeup_ok [OF ok assms(2), of this] assms(3) ex by auto
  moreover have "set (run_queue (rr_wakeup this t (sc r))) = insert t (set (run_queue (sc r)))"
    by (auto simp: rr_wakeup_def Let_def)
  moreover have "t \<noteq> cur r \<or> going r = ToSleep"
    using assms(1,4) by (cases "going r") (auto simp: sched_inv_def)
  moreover have "t \<noteq> idle (sc r)" using ok assms(2) by (auto simp: queues_ok_def q_shape_def)
  ultimately show ?thesis
    using assms(1,3) by (cases "going r") (auto simp: sched_inv_def sched_wakeup_def)
qed

lemma reply_ok:
  assumes "sched_inv r" and "t \<in> set (sleep_check (sc r)) \<and> st (sc r) t = S_WAIT \<or> t = cur r \<and> going r = ToCheck"
  shows "sched_inv (r\<lparr>sc := set_state S_READY t (sc r)\<rparr>)"
  using assms(2)
proof
  assume t: "t \<in> set (sleep_check (sc r)) \<and> st (sc r) t = S_WAIT"
  have ok: "queues_ok (live r) (if going r = ToCheck then {cur r} else {}) (sc r)" using assms(1) by (simp add: sched_inv_def)
  have "t \<noteq> cur r" using assms(1) t by (cases "going r") (auto simp: sched_inv_def)
  then show ?thesis
    using assms(1) set_state_check_ok [OF ok, of t S_READY] t by (cases "going r") (auto simp: sched_inv_def)
next
  assume t: "t = cur r \<and> going r = ToCheck"
  then have "queues_ok (live r) {t} (sc r)" "t \<notin> set (sleep_check (sc r))" using assms(1) by (auto simp: sched_inv_def)
  then have "queues_ok (live r) {t} (set_state S_READY t (sc r))" by (rule set_state_ex_ok)
  then show ?thesis using assms(1) t by (auto simp: sched_inv_def)
qed

lemma mode_ok:
  assumes "sched_inv r" and "going r = Running" and "x = S_KERNEL \<or> x = S_USR \<and> cur r \<noteq> idle (sc r)"
  shows "sched_inv (r\<lparr>sc := set_state x (cur r) (sc r)\<rparr>)"
proof -
  have ok: "queues_ok (live r) {} (sc r)" using assms by (simp add: sched_inv_def)
  have "cur r \<notin> set (run_queue (sc r))" "cur r \<notin> set (sleep_check (sc r))"
    using sched_inv_current [OF assms(1,2)] ok by (cases "cur r = idle (sc r)"; auto simp: queues_ok_def q_shape_def)+
  then have "queues_ok (live r) {} (set_state x (cur r) (sc r))"
    using set_state_ok [OF ok, of "cur r" x] assms(3) by auto
  then show ?thesis using assms by (auto simp: sched_inv_def)
qed

lemma sched_inv_step: "sched_step r r' \<Longrightarrow> sched_inv r \<Longrightarrow> sched_inv r'"
proof (induction rule: sched_step.induct)
  case (enter r)
  then show ?case by (simp add: mode_ok)
next
  case (leave r)
  then show ?case by (simp add: mode_ok)
next
  case (clock r)
  then show ?case by (rule sched_inv_clock)
next
  case (yield r S)
  then show ?case using yield_ok by fastforce
next
  case (intend r g)
  then show ?case
    using sched_inv_current [OF intend.prems intend.hyps(1,3)] queues_ok_mono [of "live r" "{}" "sc r"]
    by (cases g) (auto simp: sched_inv_def)
next
  case (wake t r this)
  then show ?case by (simp add: wake_ok)
next
  case (reply t r)
  then show ?case by (simp add: reply_ok)
next
  case (sleep r S)
  then show ?case using sleep_ok by fastforce
next
  case (sleep_check r S)
  then show ?case using sleep_check_ok by fastforce
next
  case (resume r)
  then show ?case by (simp add: sched_sleep_resume_def sched_inv_upd)
next
  case (create t r)
  then show ?case by (simp add: create_ok sched_add_created_def)
next
  case (arrive t r)
  then show ?case by (simp add: create_ok sched_add_def)
next
  case (exit r S)
  then show ?case using exit_ok by fastforce
next
  case (depart r S)
  have "ty (sc r) (idle (sc r)) = TH_IDLE" using depart.prems by (simp add: sched_inv_def queues_ok_def q_types_def)
  then have "cur r \<noteq> idle (sc r)" using depart.hyps(3) by auto
  then show ?case using depart depart_ok by fastforce
qed

text \<open>A processor that starts: only its idle thread runs and no other thread exists.\<close>

definition sched_start :: "(tid \<Rightarrow> thread_s) \<Rightarrow> tid \<Rightarrow> u32 \<Rightarrow> sched_run" where
  "sched_start ths i period =
     \<lparr>sc = rr_sched_init period \<lparr>threads = ths, current = i, idle = i, cpu_st = CPU_IDLE, total_nr = 0, user_nr = 0,
        u_runnable = 0, k_runnable = 0, sched_count = 0, rq_u_runnable = 0, rq_m_runnable = 0, rq_clock_cntr = 0,
        rq_period = 0, kthreads = [], runnable = [], migrate = [], sleep_check = [], destroy_events = []\<rparr>,
      live = [], going = Running\<rparr>"

definition idle_thread :: "thread_s \<Rightarrow> bool" where
  "idle_thread th \<longleftrightarrow> th_type th = TH_IDLE \<and> th_state th = S_KERNEL \<and> signature th = THREAD_ID"

lemma sched_inv_reach:
  assumes "sched_step\<^sup>*\<^sup>* (sched_start ths i period) r" and "idle_thread (ths i)"
  shows "sched_inv r"
  using assms(1)
proof (induction rule: rtranclp_induct)
  case base
  then show ?case
    using assms(2) by (auto simp: sched_inv_def sched_start_def rr_sched_init_def idle_thread_def queues_ok_defs)
next
  case (step r r')
  then show ?case using sched_inv_step by blast
qed

section \<open>Properties\<close>

lemma counts_exact:
  assumes "queues_ok alive ex S"
  shows "unat (sched_count S) = length (run_queue S)" "unat (u_runnable S) = length (runnable S)"
    "unat (k_runnable S) = length (kthreads S)" "unat (total_nr S) = length alive"
proof -
  have small: "length (run_queue S) \<le> SCHED_THREADS_NR" "length alive \<le> SCHED_THREADS_NR"
    using q_length [OF assms] assms by (auto simp: queues_ok_def q_shape_def)
  have c: "sched_count S = of_nat (length (run_queue S))" "u_runnable S = of_nat (length (runnable S))"
      "k_runnable S = of_nat (length (kthreads S))" "total_nr S = of_nat (length alive)"
    using assms unfolding queues_ok_def q_counts_def by blast+
  have fit: "unat (of_nat n :: u32) = n" "unat (of_nat n :: u16) = n" if "n \<le> SCHED_THREADS_NR" for n
    using that by (simp_all add: unat_of_nat)
  show "unat (sched_count S) = length (run_queue S)" "unat (u_runnable S) = length (runnable S)"
    "unat (k_runnable S) = length (kthreads S)" "unat (total_nr S) = length alive"
    unfolding c using small by (intro fit; simp)+
qed

text \<open>
  C17: The scheduler of a processor keeps its books under every interleaving of yields, sleeps, wake-ups,
  clock ticks, creations, exits and migrations. Besides the current thread nobody runs; the run queues
  hold, once each, exactly the threads that are ready or new (apart from those whose reply is still
  to be checked); the counters are the lengths of the queues; and whatever the current thread does to
  give up the processor finds a thread to run: no panic, no election from an empty queue.
\<close>

theorem sched_exact:
  assumes "sched_step\<^sup>*\<^sup>* (sched_start ths i period) r" and "idle_thread (ths i)"
  defines "S \<equiv> sc r"
  shows "distinct (run_queue S @ sleep_check S)
    \<and> (\<forall>t\<in>set (live r). t \<noteq> current S \<longrightarrow> st S t \<noteq> S_USR \<and> st S t \<noteq> S_KERNEL
        \<and> (t \<notin> set (sleep_check S) \<longrightarrow> (t \<in> set (run_queue S) \<longleftrightarrow> st S t = S_CREATE \<or> st S t = S_READY)))
    \<and> unat (sched_count S) = length (run_queue S) \<and> unat (u_runnable S) = length (runnable S)
    \<and> unat (k_runnable S) = length (kthreads S) \<and> unat (total_nr S) = length (live r)
    \<and> (going r = Running \<longrightarrow> st S (current S) = S_KERNEL \<longrightarrow> sched_yield S \<noteq> None
        \<and> (current S \<noteq> idle S \<longrightarrow> sched_exit S \<noteq> None))
    \<and> (going r = ToSleep \<longrightarrow> sched_sleep S \<noteq> None) \<and> (going r = ToCheck \<longrightarrow> sched_sleep_check S \<noteq> None)"
proof -
  have inv: "sched_inv r" by (rule sched_inv_reach [OF assms(1,2)])
  then have ok: "queues_ok (live r) (if going r = ToCheck then {current S} else {}) S"
    unfolding S_def sched_inv_def by blast
  have "\<forall>t\<in>set (live r). t \<noteq> current S \<longrightarrow> st S t = S_CREATE \<or> st S t = S_READY \<or> st S t = S_WAIT"
    using inv by (simp add: sched_inv_def S_def)
  then have others: "\<forall>t\<in>set (live r). t \<noteq> current S \<longrightarrow> st S t \<noteq> S_USR \<and> st S t \<noteq> S_KERNEL
      \<and> (t \<notin> set (sleep_check S) \<longrightarrow> (t \<in> set (run_queue S) \<longleftrightarrow> st S t = S_CREATE \<or> st S t = S_READY))"
    using ok unfolding queues_ok_def q_states_def by auto
  have "distinct (run_queue S @ sleep_check S)" using ok by (simp add: queues_ok_def q_shape_def)
  moreover have "going r = Running \<longrightarrow> st S (current S) = S_KERNEL \<longrightarrow> sched_yield S \<noteq> None
        \<and> (current S \<noteq> idle S \<longrightarrow> sched_exit S \<noteq> None)"
    using yield_ok [OF inv] exit_ok [OF inv] by (auto simp: S_def)
  moreover have "going r = ToSleep \<longrightarrow> sched_sleep S \<noteq> None" "going r = ToCheck \<longrightarrow> sched_sleep_check S \<noteq> None"
    using sleep_ok [OF inv] sleep_check_ok [OF inv] by (auto simp: S_def)
  ultimately show ?thesis using others counts_exact [OF ok] by blast
qed

text \<open>A small run used by the examples: two user threads are created and the idle thread yields.\<close>

definition ex_threads :: "tid \<Rightarrow> thread_s" where
  "ex_threads t = \<lparr>th_state = S_KERNEL, th_flags = 0, quantum = 0, ticks_nr = 0, boosted_prio = 0,
     th_type = (if t = 0 then TH_IDLE else PTHREAD), sched_nr = 0, signature = THREAD_ID\<rparr>"

definition ex_start :: sched_run where "ex_start = sched_start ex_threads 0 5"

definition ex_created :: sched_run where
  "ex_created = ex_start\<lparr>sc := sched_add_created 2 (sched_add_created 1 (sc ex_start)), live := [2, 1]\<rparr>"

definition ex_yielded :: sched_run where
  "ex_yielded = ex_created\<lparr>sc := the (sched_yield (sc ex_created))\<rparr>"

lemma ex_idle: "idle_thread (ex_threads 0)"
  by (simp add: idle_thread_def ex_threads_def)

lemma ex_created_reach: "sched_step\<^sup>*\<^sup>* ex_start ex_created"
proof -
  let ?m = "ex_start\<lparr>sc := sched_add_created 1 (sc ex_start), live := [1]\<rparr>"
  have "sched_step ex_start ?m"
    using sched_step.create [of 1 ex_start] by (simp add: ex_start_def sched_start_def rr_sched_init_def ex_threads_def)
  moreover have "sched_step ?m ex_created"
    using sched_step.create [of 2 ?m]
    by (simp add: ex_start_def ex_created_def sched_start_def rr_sched_init_def ex_threads_def sched_add_created_def
        rr_add_created_def Let_def set_state_def upd_def has_flag_def clear_flag_def)
  ultimately show ?thesis by (meson converse_rtranclp_into_rtranclp r_into_rtranclp)
qed

lemma ex_yielded_facts:
  "current (sc ex_yielded) = 2 \<and> runnable (sc ex_yielded) = [1] \<and> kthreads (sc ex_yielded) = []
    \<and> sleep_check (sc ex_yielded) = [] \<and> going ex_yielded = Running \<and> live ex_yielded = [2, 1]
    \<and> ty (sc ex_yielded) 2 = PTHREAD \<and> st (sc ex_yielded) 2 = S_USR
    \<and> current (sc ex_created) = 0 \<and> idle (sc ex_created) = 0 \<and> idle (sc ex_yielded) = 0 \<and> going ex_created = Running
    \<and> st (sc ex_created) 0 = S_KERNEL \<and> run_queue (sc ex_created) = [2, 1]"
  by code_simp

lemma ex_yielded_reach: "sched_step\<^sup>*\<^sup>* ex_start ex_yielded"
proof -
  have inv: "sched_inv ex_created"
    using sched_inv_reach ex_created_reach ex_idle unfolding ex_start_def by blast
  obtain S where S: "sched_yield (sc ex_created) = Some S" using yield_ok [OF inv] ex_yielded_facts by auto
  then have "sched_step ex_created ex_yielded"
    using sched_step.yield [of ex_created S] ex_yielded_facts by (simp add: ex_yielded_def)
  then show ?thesis using ex_created_reach by (rule rtranclp.rtrancl_into_rtrancl [rotated])
qed

theorem sched_exact_witness:
  "sched_step\<^sup>*\<^sup>* (sched_start ex_threads 0 5) ex_yielded \<and> idle_thread (ex_threads 0)
    \<and> current (sc ex_yielded) = 2 \<and> unat (u_runnable (sc ex_yielded)) = 1"
proof -
  have reach: "sched_step\<^sup>*\<^sup>* (sched_start ex_threads 0 5) ex_yielded" using ex_yielded_reach by (simp add: ex_start_def)
  show ?thesis using sched_exact [OF reach ex_idle] reach ex_idle ex_yielded_facts by simp
qed
end
