(* ===== verification/Kern_SchedOrder.thy ===== *)
theory Kern_SchedOrder
  imports Kern_Sched
begin

text \<open>
  What the scheduler of \<^verbatim>\<open>Kern_Sched\<close> promises to the threads: wake-ups are not lost, the order in which
  threads are elected, the rotation of the user threads, the length of a turn, and the counters of
  the load-balancing variant of the policy.
\<close>

section \<open>Wake-ups\<close>

text \<open>The effect of giving up the processor when some thread is queued.\<close>

lemma schedule_result:
  assumes "schedulable alive S" and "run_queue (requeued S) = e # q"
  shows "\<exists>ds. schedule S = Some (sched_resume e ((rr_taken e (requeued S))\<lparr>cpu_st := CPU_ACTIVE, destroy_events := ds\<rparr>))"
proof -
  note Q = requeued_ok [OF assms(1)]
  have "rr_elect (check_sleeping S) = rr_first (requeued S)" by (simp add: rr_elect_def requeued_def Let_def)
  then have el: "rr_elect (check_sleeping S) = Some (Some e, rr_taken e (requeued S))"
    using rr_first_taken [OF Q(1) assms(2)] by simp
  have "signature (thr (requeued S) e) = THREAD_ID"
    using Q(1) rr_taken_ok(3) [OF Q(1) assms(2)] by (simp add: queues_ok_def q_types_def)
  then have "\<not> thread_isStack_overflow (thr (rr_taken e (requeued S)) e)"
    by (simp add: rr_taken_def thread_isStack_overflow_def)
  then show ?thesis using schedule_taken [OF el] by auto
qed

lemma queued_stays:
  assumes "schedulable alive S" and "t \<in> set (run_queue S)"
  shows "\<exists>S'. schedule S = Some S' \<and> (current S' = t \<or> t \<in> set (run_queue S'))"
proof -
  have "set (run_queue S) \<subseteq> set (run_queue (requeued S))"
    by (auto simp: requeued_def rr_requeue_def check_sleeping_def sched_wakeup_def rr_wakeup_def Let_def split: option.splits)
  then obtain e q where "run_queue (requeued S) = e # q" "t \<in> set (e # q)"
    using assms(2) by (metis list.set_cases subsetD)
  then show ?thesis using schedule_ok [OF assms(1)] by auto
qed

text \<open>
  C18: No wake-up is lost. In every reachable state, waking a thread that sleeps, or that is still on its
  way to sleep after it joined a wait queue, puts it on a run queue of its processor; and when the
  thread that was woken early then goes to sleep, it stays queued or runs at once.
\<close>

theorem sched_no_lost_wakeup:
  fixes waker :: tid
  assumes "sched_step\<^sup>*\<^sup>* (sched_start ths i period) r" and "idle_thread (ths i)"
    and "t \<in> set (live r)" and "t \<notin> set (sleep_check (sc r))"
    and "st (sc r) t = S_WAIT \<or> t = cur r \<and> going r = ToSleep \<and> st (sc r) t = S_KERNEL"
  defines "S \<equiv> sched_wakeup waker t (sc r)"
  shows "t \<in> set (run_queue S) \<and> st S t = S_READY
    \<and> (t = cur r \<longrightarrow> (\<exists>S'. sched_sleep S = Some S' \<and> (current S' = t \<or> t \<in> set (run_queue S'))))"
proof -
  have inv: "sched_inv r" by (rule sched_inv_reach [OF assms(1,2)])
  then have inv': "sched_inv (r\<lparr>sc := S\<rparr>)" unfolding S_def using assms(3-5) by (rule wake_ok)
  have queued: "t \<in> set (run_queue S)" "st S t = S_READY" by (simp_all add: S_def sched_wakeup_def rr_wakeup_def Let_def)
  have "\<exists>S'. sched_sleep S = Some S' \<and> (current S' = t \<or> t \<in> set (run_queue S'))" if "t = cur r"
  proof -
    have c: "current S = t" using that by (simp add: S_def sched_wakeup_def)
    have "going r = ToSleep" using that assms(5) inv by (cases "going r") (auto simp: sched_inv_def)
    then have ok: "schedulable (live r) (rr_sleep t S)" using sleep_schedulable [OF inv'] c by simp
    have same: "rr_sleep t S = S" using queued(2) by (simp add: rr_sleep_def)
    define S2 where "S2 = (if has_flag TH_CAP_WAKEUP (thr S t) then upd t thread_set_wakeable S else S)"
    have "rr_sleep t S2 = S2" using queued(2) by (simp add: S2_def rr_sleep_def)
    then have "sched_sleep S = schedule S2" by (simp add: sched_sleep_def sched_sleep_gen_def Let_def c S2_def)
    moreover have "schedulable (live r) S2" "run_queue S2 = run_queue S"
      using ok same by (simp_all add: S2_def schedulable_upd)
    ultimately show ?thesis using queued_stays queued(1) by metis
  qed
  then show ?thesis using queued by blast
qed

theorem sched_no_lost_wakeup_witness:
  "\<exists>r t. sched_step\<^sup>*\<^sup>* (sched_start ex_threads 0 5) r \<and> t = cur r \<and> t \<noteq> idle (sc r) \<and> going r = ToSleep
     \<and> (\<exists>S'. sched_sleep (sched_wakeup 0 t (sc r)) = Some S' \<and> (current S' = t \<or> t \<in> set (run_queue S')))"
proof -
  define r1 where "r1 = ex_yielded\<lparr>sc := set_state S_KERNEL 2 (sc ex_yielded)\<rparr>"
  define r2 where "r2 = r1\<lparr>going := ToSleep\<rparr>"
  note facts = ex_yielded_facts
  have "sched_step ex_yielded r1" using sched_step.enter [of ex_yielded] facts by (simp add: r1_def)
  moreover have "sched_step r1 r2"
    using sched_step.intend [of r1 ToSleep] facts by (simp add: r1_def r2_def)
  ultimately have reach: "sched_step\<^sup>*\<^sup>* (sched_start ex_threads 0 5) r2"
    using ex_yielded_reach unfolding ex_start_def by (meson rtranclp.rtrancl_into_rtrancl)
  have "cur r2 = 2" "idle (sc r2) = 0" "going r2 = ToSleep" "2 \<in> set (live r2)" "2 \<notin> set (sleep_check (sc r2))" "st (sc r2) 2 = S_KERNEL"
    using facts by (simp_all add: r1_def r2_def)
  then show ?thesis using sched_no_lost_wakeup [OF reach ex_idle, of 2 0] reach by force
qed

section \<open>Order of election\<close>

text \<open>
  When the current thread yields and no reply is awaited, the next thread is the first one of the
  kernel threads, then of the user threads, with the yielding thread behind the threads of its own
  kind: kernel threads always come first, threads of a kind take turns, and the idle thread runs only
  when nothing else can.
\<close>

theorem sched_yield_order:
  assumes "sched_step\<^sup>*\<^sup>* (sched_start ths i period) r" and "idle_thread (ths i)"
    and "going r = Running" and "st (sc r) (cur r) = S_KERNEL" and "sleep_check (sc r) = []"
  defines "order \<equiv> kthreads (sc r) @ (if ty (sc r) (cur r) = KTHREAD then [cur r] else [])
    @ runnable (sc r) @ (if ty (sc r) (cur r) = PTHREAD then [cur r] else [])"
  shows "\<exists>S'. sched_yield (sc r) = Some S' \<and> current S' = (case order of [] \<Rightarrow> idle (sc r) | t # _ \<Rightarrow> t)
    \<and> run_queue S' = tl order"
proof -
  have inv: "sched_inv r" by (rule sched_inv_reach [OF assms(1,2)])
  have types: "q_types (live r) (sc r)" using inv by (auto simp: sched_inv_def queues_ok_def)
  have "cur r = idle (sc r) \<or> cur r \<in> set (live r)" using inv by (simp add: sched_inv_def)
  then have "ty (sc r) (cur r) = TH_IDLE \<or> ty (sc r) (cur r) = PTHREAD \<or> ty (sc r) (cur r) = KTHREAD"
    using types unfolding q_types_def by metis
  then have "run_queue (requeued (sc r)) = order"
    using assms(4,5) by (auto simp: requeued_def check_sleeping_none rr_requeue_def Let_def order_def)
  then show ?thesis
    using schedule_ok [OF sched_inv_schedulable [OF inv assms(3,4)]] by (auto simp: sched_yield_def)
qed

theorem sched_yield_order_witness:
  "sched_step\<^sup>*\<^sup>* (sched_start ex_threads 0 5) ex_created \<and> run_queue (sc ex_created) = [2, 1]
    \<and> (\<exists>S'. sched_yield (sc ex_created) = Some S' \<and> current S' = 2 \<and> run_queue S' = [1])"
proof -
  have reach: "sched_step\<^sup>*\<^sup>* (sched_start ex_threads 0 5) ex_created" using ex_created_reach by (simp add: ex_start_def)
  have "kthreads (sc ex_created) = []" "runnable (sc ex_created) = [2, 1]" "ty (sc ex_created) 0 = TH_IDLE"
      "sleep_check (sc ex_created) = []"
    by code_simp+
  then show ?thesis using sched_yield_order [OF reach ex_idle] reach ex_yielded_facts by simp
qed

section \<open>Round robin\<close>

text \<open>One turn of the current thread: it runs, enters the kernel and yields.\<close>

definition sched_turn :: "scheduler_s \<Rightarrow> scheduler_s option" where
  "sched_turn S = sched_yield (set_state S_KERNEL (current S) S)"

fun sched_turns :: "nat \<Rightarrow> scheduler_s \<Rightarrow> scheduler_s option" where
  "sched_turns 0 S = Some S"
| "sched_turns (Suc n) S = do { S' \<leftarrow> sched_turn S; sched_turns n S' }"

text \<open>User threads only: the run queue followed by the current thread.\<close>

definition user_phase :: "sched_run \<Rightarrow> bool" where
  "user_phase r \<longleftrightarrow> sched_inv r \<and> going r = Running \<and> cur r \<noteq> idle (sc r) \<and> ty (sc r) (cur r) = PTHREAD
     \<and> kthreads (sc r) = [] \<and> sleep_check (sc r) = []"

abbreviation ring :: "scheduler_s \<Rightarrow> tid list" where
  "ring S \<equiv> runnable S @ [current S]"

lemma turn_rotates:
  assumes "user_phase r"
  shows "\<exists>S'. sched_turn (sc r) = Some S' \<and> user_phase (r\<lparr>sc := S'\<rparr>) \<and> ring S' = rotate1 (ring (sc r))"
proof -
  let ?r = "r\<lparr>sc := set_state S_KERNEL (cur r) (sc r)\<rparr>"
  have inv: "sched_inv ?r" using assms mode_ok [of r S_KERNEL] by (simp add: user_phase_def)
  have run: "going ?r = Running" "st (sc ?r) (cur ?r) = S_KERNEL" "ty (sc ?r) (cur ?r) = PTHREAD"
      "kthreads (sc ?r) = []" "sleep_check (sc ?r) = []" "cur ?r = cur r" "runnable (sc ?r) = runnable (sc r)"
    using assms by (simp_all add: user_phase_def)
  have ok: "schedulable (live r) (sc ?r)" using sched_inv_schedulable [OF inv run(1,2)] by simp
  obtain e q where eq: "ring (sc r) = e # q" by (metis append_is_Nil_conv list.exhaust not_Cons_self2)
  let ?Q = "requeued (sc ?r)"
  have Q: "runnable ?Q = e # q" "kthreads ?Q = []" "sleep_check ?Q = []"
    using run eq by (simp_all add: requeued_def check_sleeping_none rr_requeue_def Let_def)
  obtain S' where S': "sched_turn (sc r) = Some S'" "sched_inv (?r\<lparr>sc := S'\<rparr>)"
    using yield_ok [OF inv run(1,2)] run(6) by (auto simp: sched_turn_def)
  have "run_queue ?Q = e # q" using Q by simp
  from schedule_result [OF ok this] obtain ds where
    res: "S' = sched_resume e ((rr_taken e ?Q)\<lparr>cpu_st := CPU_ACTIVE, destroy_events := ds\<rparr>)"
    using S'(1) run(6) by (auto simp: sched_turn_def sched_yield_def)
  have new: "current S' = e" "runnable S' = q" "kthreads S' = []" "sleep_check S' = []" "idle S' = idle (sc r)"
    using Q unfolding res by (simp_all add: sched_resume_def Let_def rr_taken_def requeued_def)
  have Qok: "queues_ok (live r) {} ?Q" using requeued_ok(1) [OF ok] .
  have "e \<in> set (live r)" "ty ?Q e = PTHREAD" "idle (sc r) \<notin> set (live r)"
    using Qok Q(1) by (auto simp: queues_ok_def q_shape_def q_types_def requeued_def)
  moreover have "ty S' e = ty ?Q e" unfolding res by (simp add: sched_resume_def Let_def)
  ultimately have "user_phase (r\<lparr>sc := S'\<rparr>)"
    using S'(2) new run(1) by (auto simp: user_phase_def)
  then show ?thesis using S'(1) new eq by simp
qed

lemma turns_rotate:
  "user_phase r \<Longrightarrow> \<exists>S'. sched_turns n (sc r) = Some S' \<and> ring S' = rotate n (ring (sc r))"
proof (induction n arbitrary: r)
  case (Suc n)
  obtain S' where S': "sched_turn (sc r) = Some S'" "user_phase (r\<lparr>sc := S'\<rparr>)" "ring S' = rotate1 (ring (sc r))"
    using turn_rotates [OF Suc.prems] by blast
  obtain S'' where "sched_turns n S' = Some S''" "ring S'' = rotate n (ring S')" using Suc.IH [OF S'(2)] by auto
  then show ?case using S' by (auto simp: rotate1_rotate_swap)
qed simp

lemma last_rotate:
  assumes "i < length xs"
  shows "last (rotate (Suc i) xs) = xs ! i"
proof -
  have "rotate (Suc i) xs ! (length xs - 1) = xs ! ((Suc i + (length xs - 1)) mod length xs)"
    using assms by (intro nth_rotate) auto
  moreover have "Suc i + (length xs - 1) = i + length xs" using assms by simp
  then have "(Suc i + (length xs - 1)) mod length xs = i" using assms by (metis mod_add_self2 mod_less)
  moreover have "last (rotate (Suc i) xs) = rotate (Suc i) xs ! (length xs - 1)"
    using assms by (subst last_conv_nth) auto
  ultimately show ?thesis by metis
qed

text \<open>
  C19: User threads are scheduled round robin. While only user threads are runnable, each turn of the
  current thread rotates the ring made of the run queue and the current thread by one place; so the
  thread in place \<open>k\<close> runs after exactly \<open>k + 1\<close> turns, and as many turns as there are threads give every
  thread its turn and bring the ring back to where it was.
\<close>

theorem sched_round_robin:
  assumes "sched_step\<^sup>*\<^sup>* (sched_start ths i period) r" and "idle_thread (ths i)" and "going r = Running"
    and "cur r \<noteq> idle (sc r)" and "ty (sc r) (cur r) = PTHREAD" and "kthreads (sc r) = []" and "sleep_check (sc r) = []"
  shows "(\<forall>n. \<exists>S'. sched_turns n (sc r) = Some S' \<and> ring S' = rotate n (ring (sc r)))
    \<and> (\<forall>k<length (ring (sc r)). \<exists>S'. sched_turns (Suc k) (sc r) = Some S' \<and> current S' = ring (sc r) ! k)
    \<and> (\<exists>S'. sched_turns (length (ring (sc r))) (sc r) = Some S' \<and> ring S' = ring (sc r))"
proof -
  have phase: "user_phase r" using sched_inv_reach [OF assms(1,2)] assms(3-7) by (simp add: user_phase_def)
  have rot: "\<exists>S'. sched_turns n (sc r) = Some S' \<and> ring S' = rotate n (ring (sc r))" for n
    by (rule turns_rotate [OF phase])
  have "\<exists>S'. sched_turns (Suc k) (sc r) = Some S' \<and> current S' = ring (sc r) ! k" if k: "k < length (ring (sc r))" for k
  proof -
    obtain S' where S': "sched_turns (Suc k) (sc r) = Some S'" "ring S' = rotate (Suc k) (ring (sc r))" using rot by blast
    have "current S' = last (ring S')" by simp
    also have "\<dots> = ring (sc r) ! k" unfolding S'(2) by (rule last_rotate [OF k])
    finally show ?thesis using S'(1) by blast
  qed
  moreover have "\<exists>S'. sched_turns (length (ring (sc r))) (sc r) = Some S' \<and> ring S' = ring (sc r)"
    using rot [of "length (ring (sc r))"] unfolding rotate_id [OF mod_self] .
  ultimately show ?thesis using rot by blast
qed

theorem sched_round_robin_witness:
  "ring (sc ex_yielded) = [1, 2] \<and> (\<exists>S'. sched_turns 1 (sc ex_yielded) = Some S' \<and> current S' = 1)
    \<and> (\<exists>S'. sched_turns 2 (sc ex_yielded) = Some S' \<and> current S' = 2)"
proof -
  note f = ex_yielded_facts
  have reach: "sched_step\<^sup>*\<^sup>* (sched_start ex_threads 0 5) ex_yielded" using ex_yielded_reach by (simp add: ex_start_def)
  have rr: "\<forall>k<length (ring (sc ex_yielded)). \<exists>S'. sched_turns (Suc k) (sc ex_yielded) = Some S' \<and> current S' = ring (sc ex_yielded) ! k"
    using sched_round_robin [OF reach ex_idle] f by simp
  have ring: "ring (sc ex_yielded) = [1, 2]" using f by simp
  show ?thesis using spec [OF rr, of 0] spec [OF rr, of 1] unfolding ring by (simp add: numeral_2_eq_2)
qed

section \<open>Length of a turn\<close>

lemma flag_set [simp]: "thread_sched_isActivated (thread_sched_activate th)"
proof -
  have "TH_NEED_TO_SCHED \<noteq> 0" by (simp add: TH_NEED_TO_SCHED_def)
  then show ?thesis
    by (simp add: thread_sched_isActivated_def thread_sched_activate_def has_flag_def set_flag_def or.commute)
qed

lemma flag_cleared [simp]: "\<not> thread_sched_isActivated (thread_sched_deactivate th)"
  by (simp add: thread_sched_isActivated_def thread_sched_deactivate_def has_flag_def clear_flag_def and.assoc)

lemma activated_cong: "th_flags th = th_flags th' \<Longrightarrow> thread_sched_isActivated th = thread_sched_isActivated th'"
  by (simp add: thread_sched_isActivated_def has_flag_def)

lemma sched_clock_simps:
  assumes "ty S (current S) \<noteq> TH_IDLE" and "idle S \<noteq> current S"
  shows "current (sched_clock S) = current S" "idle (sched_clock S) = idle S"
    "ty (sched_clock S) (current S) = ty S (current S)"
    "quantum (thr (sched_clock S) (current S)) = (if quantum (thr S (current S)) > 0 then quantum (thr S (current S)) - 1 else quantum (thr S (current S)))"
    "thread_sched_isActivated (thr (sched_clock S) (current S)) \<longleftrightarrow>
       thread_sched_isActivated (thr S (current S)) \<or> quantum (thr S (current S)) = 0 \<or> quantum (thr S (current S)) = 1"
  using assms by (auto simp: sched_clock_def rr_clock_def Let_def intro: activated_cong elim: activated_cong [THEN iffD1, rotated])

lemma clocks:
  assumes "ty S (current S) \<noteq> TH_IDLE" and "idle S \<noteq> current S" and "quantum (thr S (current S)) = int q" and "0 < q"
    and "\<not> thread_sched_isActivated (thr S (current S))"
  shows "thread_sched_isActivated (thr ((sched_clock ^^ n) S) (current S)) \<longleftrightarrow> q \<le> n"
proof -
  have "current ((sched_clock ^^ n) S) = current S \<and> idle ((sched_clock ^^ n) S) = idle S
    \<and> ty ((sched_clock ^^ n) S) (current S) = ty S (current S)
    \<and> quantum (thr ((sched_clock ^^ n) S) (current S)) = int (q - n)
    \<and> (thread_sched_isActivated (thr ((sched_clock ^^ n) S) (current S)) \<longleftrightarrow> q \<le> n)"
  proof (induction n)
    case (Suc n)
    let ?S = "(sched_clock ^^ n) S"
    note clk = sched_clock_simps [of ?S]
    show ?case using clk Suc assms(1,2) by auto
  qed (use assms in auto)
  then show ?thesis by blast
qed

text \<open>
  C25: A turn lasts four clock ticks. The thread that is elected after a yield runs undisturbed for
  \<^verbatim>\<open>RR_QUANTUM\<close> ticks of the clock: its request to be rescheduled, clear when it starts, is raised by the
  fourth tick and not earlier, unless a kernel thread is woken in between.
\<close>

theorem sched_quantum:
  assumes "sched_step\<^sup>*\<^sup>* (sched_start ths i period) r" and "idle_thread (ths i)" and "going r = Running"
    and "st (sc r) (cur r) = S_KERNEL" and "sched_yield (sc r) = Some S'" and "current S' \<noteq> idle S'"
  shows "thread_sched_isActivated (thr ((sched_clock ^^ n) S') (current S')) \<longleftrightarrow> 4 \<le> n"
proof -
  have inv: "sched_inv r" by (rule sched_inv_reach [OF assms(1,2)])
  have ok: "schedulable (live r) (sc r)" by (rule sched_inv_schedulable [OF inv assms(3,4)])
  have sched: "schedule (sc r) = Some S'" using assms(5) by (simp add: sched_yield_def)
  have "run_queue (requeued (sc r)) \<noteq> []" using schedule_ok [OF ok] sched assms(6) by auto
  then obtain e q where Q: "run_queue (requeued (sc r)) = e # q" by (cases "run_queue (requeued (sc r))") auto
  let ?S1 = "rr_taken e (requeued (sc r))"
  obtain ds where res: "S' = sched_resume e (?S1\<lparr>cpu_st := CPU_ACTIVE, destroy_events := ds\<rparr>)"
    using schedule_result [OF ok Q] sched by auto
  have e: "current S' = e" "quantum (thr S' e) = quantum (thr ?S1 e)" "th_flags (thr S' e) = th_flags (thr ?S1 e)" "ty S' e = ty (requeued (sc r)) e"
    unfolding res by (auto simp: sched_resume_def Let_def)
  have "quantum (thr ?S1 e) = 4" "\<not> thread_sched_isActivated (thr ?S1 e)" by (simp_all add: rr_taken_def)
  then have start: "quantum (thr S' e) = int 4" "\<not> thread_sched_isActivated (thr S' e)"
    using e(2) activated_cong [OF e(3)] by simp_all
  have "queues_ok (live r) {} (requeued (sc r))" by (rule requeued_ok(1) [OF ok])
  then have "ty (requeued (sc r)) e \<noteq> TH_IDLE"
    using rr_taken_ok(3) [OF requeued_ok(1) [OF ok] Q] by (auto simp: queues_ok_def q_types_def)
  then show ?thesis using clocks [of S' 4 n] start e assms(6) by simp
qed

theorem sched_quantum_witness:
  "\<exists>S'. sched_yield (sc ex_created) = Some S' \<and> current S' = 2
     \<and> \<not> thread_sched_isActivated (thr ((sched_clock ^^ 3) S') 2) \<and> thread_sched_isActivated (thr ((sched_clock ^^ 4) S') 2)"
proof -
  have reach: "sched_step\<^sup>*\<^sup>* (sched_start ex_threads 0 5) ex_created" using ex_created_reach by (simp add: ex_start_def)
  have inv: "sched_inv ex_created" using sched_inv_reach [OF reach ex_idle] .
  note f = ex_yielded_facts
  obtain S' where S': "sched_yield (sc ex_created) = Some S'" using yield_ok [OF inv] f by auto
  then have c: "current S' = 2" "idle S' = 0" using f by (simp_all add: ex_yielded_def)
  show ?thesis
    using sched_quantum [OF reach ex_idle _ _ S', of 3] sched_quantum [OF reach ex_idle _ _ S', of 4] f S' c by simp
qed

section \<open>The policy with load balancing\<close>

text \<open>All counters of the run queues are the lengths of the queues.\<close>

definition balanced :: "scheduler_s \<Rightarrow> bool" where
  "balanced S \<longleftrightarrow> rq_u_runnable S = of_nat (length (runnable S)) \<and> rq_m_runnable S = of_nat (length (migrate S))
     \<and> u_runnable S = of_nat (length (runnable S) + length (migrate S)) \<and> k_runnable S = of_nat (length (kthreads S))
     \<and> sched_count S = of_nat (length (kthreads S) + length (migrate S) + length (runnable S))"

lemma balanced_upd [simp]: "balanced (upd t f S) = balanced S"
  by (simp add: balanced_def)

lemma balanced_set_state [simp]: "balanced (set_state x t S) = balanced S"
  by (simp add: set_state_def)

lemma lb_scan_queues:
  "lb_scan ts v m S = (v', m', S') \<Longrightarrow> runnable S' = runnable S \<and> migrate S' = migrate S \<and> kthreads S' = kthreads S
     \<and> balanced S' = balanced S \<and> v' \<in> insert v (set ts)"
  by (induction ts v m S rule: lb_scan.induct) (auto split: if_splits)

lemma load_balance_balanced:
  assumes "balanced S"
  shows "balanced (rr_sched_load_balance this S)"
proof -
  let ?m = "if lb_candidate (thr S this) then boosted_prio (thr S this) else -1"
  obtain v m S1 where scan: "lb_scan (runnable S) this ?m (upd this lb_age S) = (v, m, S1)" by (metis prod_cases3)
  have q: "runnable S1 = runnable S" "migrate S1 = migrate S" "balanced S1" "v \<in> insert this (set (runnable S))"
    using lb_scan_queues [OF scan] assms by simp_all
  have "balanced (S1\<lparr>runnable := remove1 v (runnable S1), migrate := migrate S1 @ [v], rq_m_runnable := rq_m_runnable S1 + 1,
      rq_u_runnable := rq_u_runnable S1 - 1\<rparr>)" if v: "v \<noteq> this"
  proof -
    have "v \<in> set (runnable S1)" using q v by simp
    then have "length (runnable S1) = Suc (length (remove1 v (runnable S1)))"
      using length_pos_if_in_set [of v "runnable S1"] by (simp add: length_remove1)
    then show ?thesis using q(3) by (simp add: balanced_def)
  qed
  moreover have "(upd v f S1)\<lparr>runnable := a, migrate := b, rq_m_runnable := c, rq_u_runnable := d\<rparr>
      = upd v f (S1\<lparr>runnable := a, migrate := b, rq_m_runnable := c, rq_u_runnable := d\<rparr>)" for f a b c d
    by (simp add: upd_def)
  ultimately show ?thesis
    using scan q(3) by (auto simp: rr_sched_load_balance_def Let_def)
qed

lemma rrb_requeue_balanced: "balanced S \<Longrightarrow> balanced (rrb_requeue this S)"
  by (auto simp: rrb_requeue_def Let_def balanced_def)

lemma rrb_first_balanced:
  assumes "balanced S" and "rrb_first S = Some (e, S')"
  shows "balanced S'"
  using assms by (auto simp: rrb_first_def balanced_def split: list.splits if_splits)

lemma rrb_first_total:
  assumes "balanced S" and "length (kthreads S) + length (migrate S) + length (runnable S) < 2 ^ 32"
  shows "rrb_first S \<noteq> None"
proof -
  let ?n = "length (kthreads S) + length (migrate S) + length (runnable S)"
  have "unat (of_nat n :: u32) = n" if "n < 2 ^ 32" for n using that by (simp add: unat_of_nat)
  then have "unat (sched_count S) = ?n" using assms unfolding balanced_def by metis
  then have "0 < sched_count S \<longleftrightarrow> 0 < ?n" by (simp add: word_less_nat_alt)
  then show ?thesis by (auto simp: rrb_first_def split: list.splits)
qed

text \<open>
  The load-balancing variant of the policy counts correctly. Waking or adding a thread, moving one to
  the migration queue, ticking the clock and electing keep every counter equal to the length of its
  queue, and an election never fails on an empty queue.
\<close>

theorem balancing_counts_exact:
  assumes "balanced S" and "length (kthreads S) + length (migrate S) + length (runnable S) < 2 ^ 32 - 1"
  shows "balanced (rr_wakeup this t S) \<and> balanced (rr_add_created t S) \<and> balanced (rr_clock_balancing ld this S)
    \<and> (\<exists>e S'. rr_elect_balancing S = Some (e, S') \<and> balanced S')"
proof -
  have clk: "balanced (rr_clock t S)" for t using assms(1) by (simp add: rr_clock_def Let_def)
  have "balanced (S'\<lparr>rq_clock_cntr := c\<rparr>) = balanced S'" for S' c by (simp add: balanced_def)
  then have "balanced (rr_clock_balancing ld this S)"
    using clk by (auto simp: rr_clock_balancing_def Let_def intro!: load_balance_balanced)
  moreover have "balanced (rr_wakeup this t S)" "balanced (rr_add_created t S)"
    using assms(1) by (auto simp: rr_wakeup_def rr_add_created_def Let_def balanced_def)
  moreover have "\<exists>e S'. rr_elect_balancing S = Some (e, S') \<and> balanced S'"
  proof -
    let ?Q = "rrb_requeue (current S) (upd (current S) thread_sched_deactivate S)"
    have Q: "balanced ?Q" using assms(1) by (simp add: rrb_requeue_balanced)
    have "length (kthreads ?Q) + length (migrate ?Q) + length (runnable ?Q)
        \<le> Suc (length (kthreads S) + length (migrate S) + length (runnable S))"
      by (auto simp: rrb_requeue_def Let_def)
    then have "length (kthreads ?Q) + length (migrate ?Q) + length (runnable ?Q) < 2 ^ 32" using assms(2) by linarith
    then obtain e S' where "rrb_first ?Q = Some (e, S')" using rrb_first_total [OF Q] by auto
    then show ?thesis using rrb_first_balanced [OF Q] by (auto simp: rr_elect_balancing_def Let_def)
  qed
  ultimately show ?thesis by blast
qed

theorem balancing_counts_exact_witness:
  "balanced (sc ex_start) \<and> (\<exists>e S'. rr_elect_balancing (sc ex_start) = Some (e, S') \<and> balanced S')"
proof -
  have "balanced (sc ex_start)" "kthreads (sc ex_start) = []" "migrate (sc ex_start) = []" "runnable (sc ex_start) = []"
    by (simp_all add: balanced_def ex_start_def sched_start_def rr_sched_init_def)
  then show ?thesis using balancing_counts_exact [of "sc ex_start"] by simp
qed

text \<open>
  The plain election requeues a user thread without counting it in the run queues but counts it out
  when it is elected: after one yield of a lone user thread the counter has wrapped.
\<close>

lemma rr_elect_loses_count:
  assumes "st S (current S) = S_KERNEL" and "ty S (current S) = PTHREAD" and "kthreads S = []" and "runnable S = []"
    and "sched_count S = 0" and "rq_u_runnable S = 0"
  shows "\<exists>S'. rr_elect S = Some (Some (current S), S') \<and> runnable S' = [] \<and> rq_u_runnable S' = - 1"
  using assms by (simp add: rr_elect_def rr_requeue_def rr_first_def Let_def)

end
