(* ===== verification/Kern_SchedDb.thy ===== *)
theory Kern_SchedDb
  imports Libk_Bits "HOL-Library.Monad_Syntax"
begin

text \<open>
  The table of local thread numbers of a processor (\<^verbatim>\<open>struct sched_db_s\<close> of \<^verbatim>\<open>kern/scheduler.c\<close>):
  \<^verbatim>\<open>sched_init\<close>, \<^verbatim>\<open>sched_register\<close> and \<^verbatim>\<open>sched_unregister\<close>, each one step under the lock of the table. The
  bitmap is the one of \<^verbatim>\<open>Libk_Bits\<close>: a set bit is a free number. \<open>None\<close> is an access outside it.
\<close>

section \<open>Model\<close>

abbreviation (input) DB_THREADS_NR :: nat where "DB_THREADS_NR \<equiv> 32"

record sched_db_s =
  db_bitmap :: bitmap
  db_next :: nat
  db_tbl :: "(u32 \<times> u32) list"

text \<open>The memory is zeroed; \<^verbatim>\<open>sizeof(db->bitmap)\<close> is 4 bytes.\<close>

definition sched_db_init :: "sched_db_s option" where
  "sched_db_init = do {
     bm \<leftarrow> bitmap_set_range [0] 0 DB_THREADS_NR;
     Some \<lparr>db_bitmap = bm, db_next = 0, db_tbl = replicate DB_THREADS_NR (0, 0)\<rparr> }"

definition sched_register :: "sched_db_s \<Rightarrow> (error_t \<times> nat option \<times> sched_db_s) option" where
  "sched_register db = do {
     let db = (if db_next db \<ge> DB_THREADS_NR then db\<lparr>db_next := 0\<rparr> else db);
     index \<leftarrow> bitmap_ffs2 (db_bitmap db) (db_next db) 4;
     if index \<noteq> -1
     then do {
       bm \<leftarrow> bitmap_clear (db_bitmap db) (nat index);
       Some (OK, Some (nat index), db\<lparr>db_bitmap := bm, db_next := nat index + 1\<rparr>) }
     else Some (Some ERANGE, None, db) }"

definition sched_unregister :: "nat \<Rightarrow> sched_db_s \<Rightarrow> sched_db_s option" where
  "sched_unregister ltid db = do {
     tbl \<leftarrow> arr_set (db_tbl db) ltid (0, 0);
     bm \<leftarrow> bitmap_set (db_bitmap db) ltid;
     let db = db\<lparr>db_tbl := tbl, db_bitmap := bm\<rparr>;
     Some (if ltid < db_next db then db\<lparr>db_next := ltid\<rparr> else db) }"

section \<open>The numbers in use\<close>

definition db_used :: "sched_db_s \<Rightarrow> nat set" where
  "db_used db = {k. k < DB_THREADS_NR \<and> \<not> bmbit (db_bitmap db) k}"

text \<open>The search starts at \<^verbatim>\<open>next\<close>; every smaller number is in use.\<close>

definition db_ok :: "sched_db_s \<Rightarrow> bool" where
  "db_ok db \<longleftrightarrow> length (db_bitmap db) = 1 \<and> length (db_tbl db) = DB_THREADS_NR \<and> db_next db \<le> DB_THREADS_NR
     \<and> (\<forall>k<db_next db. \<not> bmbit (db_bitmap db) k)"

lemma db_init_ok: "\<exists>db. sched_db_init = Some db \<and> db_ok db \<and> db_used db = {}"
  using bitmap_set_range_bits [of 0 32 "[0]"] by (auto simp: sched_db_init_def db_ok_def db_used_def)

lemma sched_register_ok:
  assumes "db_ok db"
  shows "(\<exists>k db'. sched_register db = Some (OK, Some k, db') \<and> k < DB_THREADS_NR \<and> k \<notin> db_used db
        \<and> (\<forall>j<k. j \<in> db_used db) \<and> db_used db' = insert k (db_used db) \<and> db_ok db')
    \<or> ((\<exists>db'. sched_register db = Some (Some ERANGE, None, db') \<and> db_used db' = db_used db \<and> db_ok db')
        \<and> db_used db = {..<DB_THREADS_NR})"
proof -
  define d where "d = (if db_next db \<ge> DB_THREADS_NR then db\<lparr>db_next := 0\<rparr> else db)"
  have d: "length (db_bitmap d) = 1" "db_bitmap d = db_bitmap db" "db_next d < 32" "length (db_tbl d) = DB_THREADS_NR"
      "\<forall>k<db_next d. \<not> bmbit (db_bitmap d) k"
    using assms by (auto simp: d_def db_ok_def)
  obtain r where r: "bitmap_ffs2 (db_bitmap d) (db_next d) 4 = Some r" "first_hit (bmbit (db_bitmap d)) (db_next d) 32 r"
    using bitmap_ffs2_hit [of "db_bitmap d" 4 "db_next d"] d by auto
  show ?thesis
  proof (cases "r = -1")
    case True
    then have "\<not> bmbit (db_bitmap d) k" if "k < 32" for k
      using r(2) d(5) that unfolding first_hit_def by (meson not_le)
    then have "db_used db = {..<DB_THREADS_NR}" "db_used d = db_used db" "db_ok d"
      using d by (auto simp: db_used_def db_ok_def)
    moreover have "sched_register db = Some (Some ERANGE, None, d)"
      using r(1) True by (simp add: sched_register_def Let_def flip: d_def)
    ultimately show ?thesis by blast
  next
    case False
    then have k: "nat r < 32" "bmbit (db_bitmap d) (nat r)" "\<And>j. j < nat r \<Longrightarrow> \<not> bmbit (db_bitmap d) j"
      using r(2) d(5) unfolding first_hit_def by (auto, meson not_le)
    obtain bm where bm: "bitmap_clear (db_bitmap d) (nat r) = Some bm" using bitmap_clear_in k(1) d(1) by simp
    have bits: "length bm = 1" "\<And>l. l < 32 \<Longrightarrow> bmbit bm l \<longleftrightarrow> l \<noteq> nat r \<and> bmbit (db_bitmap d) l"
      using bitmap_clear_bits [OF bm] d(1) by auto
    let ?db = "d\<lparr>db_bitmap := bm, db_next := nat r + 1\<rparr>"
    have "db_used ?db = insert (nat r) (db_used db)" using bits(2) k(1) d(2) by (auto simp: db_used_def)
    moreover have "db_ok ?db" using bits k d by (auto simp: db_ok_def less_Suc_eq)
    moreover have "nat r \<notin> db_used db" "\<forall>j<nat r. j \<in> db_used db" using k d(2) by (auto simp: db_used_def)
    moreover have "sched_register db = Some (OK, Some (nat r), ?db)"
      using r(1) False bm by (simp add: sched_register_def Let_def flip: d_def)
    ultimately show ?thesis using k(1) by blast
  qed
qed

lemma sched_unregister_ok:
  assumes "db_ok db" and "ltid < DB_THREADS_NR"
  shows "\<exists>db'. sched_unregister ltid db = Some db' \<and> db_used db' = db_used db - {ltid} \<and> db_ok db'"
proof -
  obtain bm where bm: "bitmap_set (db_bitmap db) ltid = Some bm" using bitmap_set_in assms by (simp add: db_ok_def)
  have bits: "length bm = 1" "\<And>l. l < 32 \<Longrightarrow> bmbit bm l \<longleftrightarrow> l = ltid \<or> bmbit (db_bitmap db) l"
    using bitmap_set_bits [OF bm] assms(1) by (auto simp: db_ok_def)
  let ?d = "db\<lparr>db_tbl := (db_tbl db)[ltid := (0, 0)], db_bitmap := bm\<rparr>"
  let ?d' = "if ltid < db_next db then ?d\<lparr>db_next := ltid\<rparr> else ?d"
  have "sched_unregister ltid db = Some ?d'"
    using assms bm by (simp add: sched_unregister_def db_ok_def karray Let_def)
  moreover have "db_used ?d' = db_used db - {ltid}" using bits(2) by (auto simp: db_used_def)
  moreover have "db_ok ?d'" using assms bits by (auto simp: db_ok_def)
  ultimately show ?thesis by blast
qed

section \<open>Runs\<close>

datatype db_op = Register | Unregister nat

fun db_run :: "db_op list \<Rightarrow> sched_db_s \<Rightarrow> sched_db_s option" where
  "db_run [] db = Some db"
| "db_run (Register # ops) db = do { (_, _, db) \<leftarrow> sched_register db; db_run ops db }"
| "db_run (Unregister k # ops) db = do { db \<leftarrow> sched_unregister k db; db_run ops db }"

lemma db_run_ok:
  "db_ok db \<Longrightarrow> (\<forall>k. Unregister k \<in> set ops \<longrightarrow> k < DB_THREADS_NR) \<Longrightarrow> \<exists>db'. db_run ops db = Some db' \<and> db_ok db'"
proof (induction ops arbitrary: db)
  case (Cons op ops)
  show ?case
  proof (cases op)
    case Register
    then show ?thesis using sched_register_ok [OF Cons.prems(1)] Cons.IH Cons.prems(2) by auto
  next
    case (Unregister k)
    then show ?thesis using sched_unregister_ok [OF Cons.prems(1), of k] Cons.IH Cons.prems(2) by auto
  qed
qed simp

text \<open>
  Thread numbers are handed out exactly. After any sequence of registrations and releases,
  \<^verbatim>\<open>sched_register\<close> grants the smallest number that is not in use, although it searches only from where
  it stopped the last time, and answers \<^verbatim>\<open>ERANGE\<close> only when all 32 are in use; releasing a number makes
  it available again.
\<close>

theorem sched_register_smallest:
  assumes "\<forall>k. Unregister k \<in> set ops \<longrightarrow> k < DB_THREADS_NR"
  shows "\<exists>db0 db. sched_db_init = Some db0 \<and> db_used db0 = {} \<and> db_run ops db0 = Some db
    \<and> (db_used db \<noteq> {..<DB_THREADS_NR} \<longrightarrow> (\<exists>k db'. sched_register db = Some (OK, Some k, db')
          \<and> k < DB_THREADS_NR \<and> k \<notin> db_used db \<and> (\<forall>j<k. j \<in> db_used db) \<and> db_used db' = insert k (db_used db)))
    \<and> (db_used db = {..<DB_THREADS_NR} \<longrightarrow> (\<exists>db'. sched_register db = Some (Some ERANGE, None, db') \<and> db_used db' = db_used db))
    \<and> (\<forall>k<DB_THREADS_NR. \<exists>db'. sched_unregister k db = Some db' \<and> db_used db' = db_used db - {k})"
proof -
  obtain db0 where db0: "sched_db_init = Some db0" "db_ok db0" "db_used db0 = {}" using db_init_ok by blast
  obtain db where db: "db_run ops db0 = Some db" "db_ok db" using db_run_ok [OF db0(2) assms] by blast
  note reg = sched_register_ok [OF db(2)]
  have "\<exists>k db'. sched_register db = Some (OK, Some k, db') \<and> k < DB_THREADS_NR \<and> k \<notin> db_used db
      \<and> (\<forall>j<k. j \<in> db_used db) \<and> db_used db' = insert k (db_used db)" if "db_used db \<noteq> {..<DB_THREADS_NR}"
    using reg that by blast
  moreover have "\<exists>db'. sched_register db = Some (Some ERANGE, None, db') \<and> db_used db' = db_used db"
    if "db_used db = {..<DB_THREADS_NR}"
    using reg that by auto
  moreover have "\<exists>db'. sched_unregister k db = Some db' \<and> db_used db' = db_used db - {k}" if "k < DB_THREADS_NR" for k
    using sched_unregister_ok [OF db(2) that] by blast
  ultimately show ?thesis using db0 db(1) by blast
qed

theorem sched_register_smallest_witness:
  "\<exists>db0 db. sched_db_init = Some db0 \<and> db_run [Register, Register, Unregister 0] db0 = Some db
    \<and> (\<exists>db'. sched_unregister 1 db = Some db' \<and> db_used db' = db_used db - {1})"
  using sched_register_smallest [of "[Register, Register, Unregister 0]"] by auto

end
