(* ===== verification/Kern_Spinlock.thy ===== *)
theory Kern_Spinlock
  imports Kern_Atomic Kern_WaitQueue "HOL-Library.Monad_Syntax"
begin

text \<open>
  The spinlocks of \<^verbatim>\<open>src/kernel/kern/spinlock.c\<close>. The lock word is a signed 32-bit number: 0 when the lock
  is free, -1 when a writer holds it, and the number of readers otherwise; a writer that finds readers
  sets the sign bit. The loops are split at their accesses to the lock word, a read followed by a
  compare-and-swap, and runs interleave the accesses of any number of threads. What a thread does
  while it spins (it may yield) and its count of held locks do not touch the lock word.
\<close>

section \<open>Model\<close>

definition SL_WRITER :: u32 where "SL_WRITER = 0x80000000"

definition spinlock_init :: u32 where "spinlock_init = 0"

text \<open>
  One iteration of the loop of \<^verbatim>\<open>__full_spinlock_lock\<close>: \<open>val\<close> was read, \<open>lock\<close> is the word at the time of the
  compare-and-swap.
\<close>

definition spinlock_lock :: "u32 \<Rightarrow> u32 \<Rightarrow> bool \<times> u32" where
  "spinlock_lock val lock =
     (if sint val > 0 then (False, snd (atomic_cas lock val (val OR SL_WRITER)))
      else if val \<noteq> 0 then (False, lock)
      else atomic_cas lock 0 (- 1))"

definition spinlock_rdlock :: "u32 \<Rightarrow> u32 \<Rightarrow> bool \<times> u32" where
  "spinlock_rdlock val lock = (if sint val < 0 then (False, lock) else atomic_cas lock val (val + 1))"

definition spinlock_trylock :: "u32 \<Rightarrow> u32 \<Rightarrow> bool \<times> u32" where
  "spinlock_trylock val lock = (if val = 0 then atomic_cas lock 0 (- 1) else (False, lock))"

definition spinlock_tryrdlock :: "u32 \<Rightarrow> u32 \<Rightarrow> bool \<times> u32" where
  "spinlock_tryrdlock val lock = (if sint val \<ge> 0 then atomic_cas lock val (val + 1) else (False, lock))"

text \<open>\<^verbatim>\<open>__full_spinlock_unlock\<close>: the sign that was read decides between a store and an atomic add.\<close>

definition spinlock_unlock :: "u32 \<Rightarrow> u32 \<Rightarrow> u32" where
  "spinlock_unlock val lock = (if sint val < 0 then 0 else snd (atomic_add lock (- 1)))"

lemmas spin_defs = spinlock_lock_def spinlock_rdlock_def spinlock_trylock_def spinlock_tryrdlock_def
  spinlock_unlock_def atomic_cas_def atomic_add_def

section \<open>Runs\<close>

text \<open>Where a thread stands: outside, after the read of an operation, or holding the lock.\<close>

datatype spin_pc = Out | LockRead u32 | TryRead u32 | RdRead u32 | TryRdRead u32
  | Writing | Reading | UnlockRead u32

datatype spin_act = Lock | TryLock | RdLock | TryRdLock | Unlock | Continue

record spin_run =
  word :: u32
  pc :: "tid \<Rightarrow> spin_pc"

definition enter_if :: "tid \<Rightarrow> spin_pc \<Rightarrow> bool \<times> u32 \<Rightarrow> spin_run \<Rightarrow> spin_run" where
  "enter_if t inside res s = s\<lparr>word := snd res, pc := (pc s)(t := (if fst res then inside else Out))\<rparr>"

text \<open>An action that does not apply where the thread stands leaves the state alone.\<close>

fun spin_step :: "tid \<Rightarrow> spin_act \<Rightarrow> spin_run \<Rightarrow> spin_run" where
  "spin_step t Lock s = (if pc s t = Out then s\<lparr>pc := (pc s)(t := LockRead (word s))\<rparr> else s)"
| "spin_step t TryLock s = (if pc s t = Out then s\<lparr>pc := (pc s)(t := TryRead (word s))\<rparr> else s)"
| "spin_step t RdLock s = (if pc s t = Out then s\<lparr>pc := (pc s)(t := RdRead (word s))\<rparr> else s)"
| "spin_step t TryRdLock s = (if pc s t = Out then s\<lparr>pc := (pc s)(t := TryRdRead (word s))\<rparr> else s)"
| "spin_step t Unlock s =
     (if pc s t = Writing \<or> pc s t = Reading then s\<lparr>pc := (pc s)(t := UnlockRead (word s))\<rparr> else s)"
| "spin_step t Continue s =
     (case pc s t of
        LockRead v \<Rightarrow> enter_if t Writing (spinlock_lock v (word s)) s
      | TryRead v \<Rightarrow> enter_if t Writing (spinlock_trylock v (word s)) s
      | RdRead v \<Rightarrow> enter_if t Reading (spinlock_rdlock v (word s)) s
      | TryRdRead v \<Rightarrow> enter_if t Reading (spinlock_tryrdlock v (word s)) s
      | UnlockRead v \<Rightarrow> s\<lparr>word := spinlock_unlock v (word s), pc := (pc s)(t := Out)\<rparr>
      | _ \<Rightarrow> s)"

definition spin_start :: spin_run where
  "spin_start = \<lparr>word = spinlock_init, pc = (\<lambda>_. Out)\<rparr>"

definition spin_exec :: "(tid \<times> spin_act) list \<Rightarrow> spin_run" where
  "spin_exec acts = fold (\<lambda>(t, a). spin_step t a) acts spin_start"

section \<open>Exclusive use\<close>

definition holds :: "spin_run \<Rightarrow> tid \<Rightarrow> bool" where
  "holds s t \<longleftrightarrow> (case pc s t of Writing \<Rightarrow> True | UnlockRead v \<Rightarrow> True | _ \<Rightarrow> False)"

text \<open>Without readers the word is 0 or -1, and -1 exactly while one thread holds the lock.\<close>

definition excl_inv :: "spin_run \<Rightarrow> bool" where
  "excl_inv s \<longleftrightarrow> (word s = 0 \<and> (\<forall>t. \<not> holds s t) \<or> word s = - 1 \<and> (\<exists>t. holds s t \<and> (\<forall>u. holds s u \<longrightarrow> u = t)))
     \<and> (\<forall>t. case pc s t of LockRead v \<Rightarrow> v = 0 \<or> v = - 1 | RdRead v \<Rightarrow> False | TryRdRead v \<Rightarrow> False
          | Reading \<Rightarrow> False | UnlockRead v \<Rightarrow> v = - 1 | _ \<Rightarrow> True)"

lemma excl_word: "excl_inv s \<Longrightarrow> word s = 0 \<or> word s = - 1"
  by (auto simp: excl_inv_def)

lemma excl_read:
  assumes "excl_inv s" and "pc s t = Out" and "q = LockRead (word s) \<or> q = TryRead (word s)"
  shows "excl_inv (s\<lparr>pc := (pc s)(t := q)\<rparr>)"
proof -
  let ?s = "s\<lparr>pc := (pc s)(t := q)\<rparr>"
  have "holds ?s u = holds s u" for u using assms(2,3) by (auto simp: holds_def)
  then show ?thesis using assms(1,3) excl_word [OF assms(1)] by (auto simp: excl_inv_def)
qed

lemma excl_enter:
  assumes "excl_inv s" and "pc s t = LockRead v \<or> pc s t = TryRead v"
    and "res = (if v = 0 \<and> word s = 0 then (True, - 1) else (False, word s))"
  shows "excl_inv (enter_if t Writing res s)"
proof (cases "v = 0 \<and> word s = 0")
  case True
  then have free: "\<And>u. \<not> holds s u" using assms(1) by (auto simp: excl_inv_def)
  let ?s = "enter_if t Writing res s"
  have h: "holds ?s u \<longleftrightarrow> u = t" for u using True assms(3) free by (auto simp: enter_if_def holds_def)
  show ?thesis using True assms(1,3) h by (auto simp: excl_inv_def enter_if_def)
next
  case False
  let ?s = "enter_if t Writing res s"
  have "holds ?s u = holds s u" for u using False assms(2,3) by (auto simp: enter_if_def holds_def)
  then show ?thesis using False assms(1,3) by (auto simp: excl_inv_def enter_if_def)
qed

lemma excl_pc:
  assumes "excl_inv s"
  shows "pc s t = LockRead v \<Longrightarrow> v = 0 \<or> v = - 1" "pc s t = UnlockRead v \<Longrightarrow> v = - 1"
    "pc s t \<noteq> RdRead v" "pc s t \<noteq> TryRdRead v" "pc s t \<noteq> Reading"
proof -
  have "case pc s t of LockRead v \<Rightarrow> v = 0 \<or> v = - 1 | RdRead v \<Rightarrow> False | TryRdRead v \<Rightarrow> False
          | Reading \<Rightarrow> False | UnlockRead v \<Rightarrow> v = - 1 | _ \<Rightarrow> True"
    using assms unfolding excl_inv_def by blast
  then show "pc s t = LockRead v \<Longrightarrow> v = 0 \<or> v = - 1" "pc s t = UnlockRead v \<Longrightarrow> v = - 1"
    "pc s t \<noteq> RdRead v" "pc s t \<noteq> TryRdRead v" "pc s t \<noteq> Reading"
    by auto
qed

lemma excl_holder:
  assumes "excl_inv s" and "holds s t"
  shows "word s = - 1" "\<And>u. holds s u \<Longrightarrow> u = t"
  using assms unfolding excl_inv_def by auto

lemma excl_release:
  assumes "excl_inv s" and "holds s t"
  shows "excl_inv (s\<lparr>word := 0, pc := (pc s)(t := Out)\<rparr>)"
proof -
  let ?s = "s\<lparr>word := 0, pc := (pc s)(t := Out)\<rparr>"
  have "\<not> holds ?s u" for u using excl_holder(2) [OF assms] by (auto simp: holds_def)
  then show ?thesis using assms(1) by (auto simp: excl_inv_def)
qed

lemma excl_unlock_read:
  assumes "excl_inv s" and "pc s t = Writing"
  shows "excl_inv (s\<lparr>pc := (pc s)(t := UnlockRead (word s))\<rparr>)"
proof -
  let ?s = "s\<lparr>pc := (pc s)(t := UnlockRead (word s))\<rparr>"
  have t: "holds s t" using assms(2) by (simp add: holds_def)
  then have w: "word s = - 1" by (rule excl_holder [OF assms(1)])
  have "holds ?s u = holds s u" for u using assms(2) by (auto simp: holds_def)
  then show ?thesis using assms(1) w by (auto simp: excl_inv_def)
qed

lemma excl_step:
  assumes "excl_inv s" and "a \<noteq> RdLock" and "a \<noteq> TryRdLock"
  shows "excl_inv (spin_step t a s)"
proof (cases a)
  case Continue
  note here = excl_pc [OF assms(1), of t]
  show ?thesis
  proof (cases "pc s t")
    case (LockRead v)
    then have "spinlock_lock v (word s) = (if v = 0 \<and> word s = 0 then (True, - 1) else (False, word s))"
      using here(1) by (auto simp: spin_defs)
    then show ?thesis using excl_enter [OF assms(1)] LockRead Continue by simp
  next
    case (TryRead v)
    have "spinlock_trylock v (word s) = (if v = 0 \<and> word s = 0 then (True, - 1) else (False, word s))"
      by (auto simp: spin_defs)
    then show ?thesis using excl_enter [OF assms(1)] TryRead Continue by simp
  next
    case (UnlockRead v)
    then have "spinlock_unlock v (word s) = 0" using here(2) by (simp add: spin_defs)
    then show ?thesis using excl_release [OF assms(1), of t] UnlockRead Continue by (simp add: holds_def)
  qed (use assms(1) here Continue in auto)
next
  case Unlock
  then show ?thesis using assms(1) excl_pc(5) [OF assms(1), of t] excl_unlock_read by auto
qed (use assms excl_read in auto)

lemma excl_exec:
  assumes "\<forall>(t, a) \<in> set acts. a \<noteq> RdLock \<and> a \<noteq> TryRdLock"
  shows "excl_inv (spin_exec acts)"
proof -
  have "excl_inv s \<Longrightarrow> excl_inv (fold (\<lambda>(t, a). spin_step t a) acts s)" for s
    using assms
  proof (induction acts arbitrary: s)
    case (Cons x acts)
    then show ?case using excl_step by (auto split: prod.splits)
  qed simp
  moreover have "excl_inv spin_start" by (simp add: excl_inv_def spin_start_def spinlock_init_def holds_def)
  ultimately show ?thesis by (simp add: spin_exec_def)
qed

text \<open>
  C20: Used without readers a spinlock is a mutual exclusion lock. After every interleaving of the memory
  accesses of any number of threads that lock, try to lock and unlock, at most one of them holds the
  lock, the lock word is 0 exactly when nobody does, and then a thread that reads the word and
  swaps it before anybody else gets the lock.
\<close>

theorem spinlock_exclusion:
  assumes "\<forall>(t, a) \<in> set acts. a \<noteq> RdLock \<and> a \<noteq> TryRdLock"
  defines "s \<equiv> spin_exec acts"
  shows "(\<forall>t u. holds s t \<longrightarrow> holds s u \<longrightarrow> t = u) \<and> (word s = 0 \<longleftrightarrow> (\<forall>t. \<not> holds s t))
    \<and> (\<forall>t. (\<forall>u. \<not> holds s u) \<longrightarrow> pc s t = Out \<longrightarrow> pc (spin_step t Continue (spin_step t Lock s)) t = Writing
        \<and> pc (spin_step t Continue (spin_step t TryLock s)) t = Writing)"
proof -
  have inv: "excl_inv s" unfolding s_def by (rule excl_exec [OF assms(1)])
  have "(1 :: u32) \<noteq> 0" by simp
  then have zero: "word s = 0 \<longleftrightarrow> (\<forall>t. \<not> holds s t)" using inv by (auto simp: excl_inv_def)
  moreover have "\<forall>t u. holds s t \<longrightarrow> holds s u \<longrightarrow> t = u" using excl_holder(2) [OF inv] by blast
  moreover have "pc (spin_step t Continue (spin_step t Lock s)) t = Writing
      \<and> pc (spin_step t Continue (spin_step t TryLock s)) t = Writing" if "\<forall>u. \<not> holds s u" "pc s t = Out" for t
    using that zero by (simp add: enter_if_def spin_defs)
  ultimately show ?thesis by blast
qed

theorem spinlock_exclusion_witness:
  "let s = spin_exec [(1, Lock), (2, Lock), (2, Continue), (1, Continue), (1, Lock), (1, Continue)] in
   pc s 2 = Writing \<and> pc s 1 = Out \<and> (\<forall>t u. holds s t \<longrightarrow> holds s u \<longrightarrow> t = u)"
proof -
  define acts :: "(tid \<times> spin_act) list" where
    "acts = [(1, Lock), (2, Lock), (2, Continue), (1, Continue), (1, Lock), (1, Continue)]"
  have "pc (spin_exec acts) 2 = Writing \<and> pc (spin_exec acts) 1 = Out" unfolding acts_def by code_simp
  then show ?thesis using spinlock_exclusion [of acts] by (simp add: acts_def Let_def)
qed

section \<open>Readers and a writer\<close>

text \<open>
  With readers the lock is broken by a waiting writer. Two readers hold the lock and a writer marks
  the word with the sign bit; the first reader to unlock finds the word negative and clears it
  altogether, so the writer enters while the second reader still reads; and when that reader unlocks
  it frees the lock the writer holds, and a second writer enters.
\<close>

theorem spinlock_readers_lost:
  "let readers = [(1, RdLock), (1, Continue), (2, RdLock), (2, Continue)];
       s1 = spin_exec (readers @ [(3, Lock), (3, Continue), (1, Unlock), (1, Continue), (3, Lock), (3, Continue)]);
       s2 = spin_exec (readers @ [(3, Lock), (3, Continue), (1, Unlock), (1, Continue), (3, Lock), (3, Continue),
              (2, Unlock), (2, Continue), (4, Lock), (4, Continue)])
   in pc s1 3 = Writing \<and> pc s1 2 = Reading \<and> pc s2 3 = Writing \<and> pc s2 4 = Writing"
  by code_simp

end
