(* ===== verification/Kern_Barrier.thy ===== *)
theory Kern_Barrier
  imports Kern_Spinlock
begin

text \<open>
  The software barriers of \<^verbatim>\<open>src/kernel/kern/barrier.c\<close> (\<^verbatim>\<open>ARCH_HAS_BARRIERS\<close> is off, scheduler locks are
  on). The four pages of wait records are one list of 2048 listeners: record \<open>j\<close> is
  \<^verbatim>\<open>wqdb_tbl[j / wqdbsz]->tbl[j % wqdbsz]\<close>; an access outside them is \<open>None\<close>. The counter \<^verbatim>\<open>waiting\<close> of a private
  barrier and the lock of a shared one are the two members of a union, so both are the one
  word \<open>b_word\<close>. Time stamps are left out, and so are the pages' addresses.
\<close>

section \<open>Model\<close>

definition BARRIER_ID :: u32 where "BARRIER_ID = 0xCFA5B1A3"

abbreviation (input) WQDB_SLOTS :: nat where "WQDB_SLOTS \<equiv> 2048"
abbreviation (input) wqdbsz :: nat where "wqdbsz \<equiv> 512"

datatype barrier_operation = BARRIER_INIT_PRIVATE | BARRIER_WAIT | BARRIER_DESTROY | BARRIER_INIT_SHARED

record barrier_s =
  b_word :: u32
  b_signature :: u32
  b_owner :: "nat option"
  b_count :: u32
  b_index :: u32
  listners :: "tid option list"
  b_pages :: nat

text \<open>\<open>task\<close> is the current task and \<open>limit\<close> its \<^verbatim>\<open>threads_limit\<close>; \<open>kmem_alloc i\<close> tells whether page \<open>i\<close> is granted.\<close>

fun alloc_pages :: "(nat \<Rightarrow> bool) \<Rightarrow> nat \<Rightarrow> nat \<Rightarrow> nat" where
  "alloc_pages kmem_alloc i 0 = i"
| "alloc_pages kmem_alloc i (Suc n) = (if kmem_alloc i then alloc_pages kmem_alloc (Suc i) n else i)"

definition barrier_init :: "(nat \<Rightarrow> bool) \<Rightarrow> nat \<Rightarrow> nat \<Rightarrow> barrier_s \<Rightarrow> u32 \<Rightarrow> barrier_operation \<Rightarrow> error_t \<times> barrier_s" where
  "barrier_init kmem_alloc task limit b count scope =
     (if count = 0 then (Some EINVAL, b)
      else if limit > WQDB_SLOTS then (Some ENOMEM, b)
      else if unat count > WQDB_SLOTS then (Some ENOMEM, b)
      else
        let b = b\<lparr>b_owner := (if scope = BARRIER_INIT_PRIVATE then Some task else None)\<rparr>;
            b = (if b_owner b \<noteq> None then b\<lparr>b_word := atomic_init count\<rparr>
                 else b\<lparr>b_word := spinlock_init, b_index := 0\<rparr>);
            pages = alloc_pages kmem_alloc 0 4
        in if pages < 4 then (Some ENOMEM, b)
           else (OK, b\<lparr>listners := replicate WQDB_SLOTS None, b_pages := pages, b_count := count,
                        b_signature := BARRIER_ID\<rparr>))"

text \<open>
  \<^verbatim>\<open>barrier_do_broadcast\<close>: one record, and the loop over the records. The two nested loops visit the
  records in the order of \<open>j\<close>.
\<close>

definition broadcast_slot :: "nat \<Rightarrow> barrier_s \<Rightarrow> (tid option \<times> barrier_s) option" where
  "broadcast_slot j b = do {
     listner \<leftarrow> arr_get (listners b) j;
     case listner of
       None \<Rightarrow> Some (None, b)
     | Some t \<Rightarrow> do { l \<leftarrow> arr_set (listners b) j None; Some (Some t, b\<lparr>listners := l\<rparr>) } }"

function broadcast_loop :: "nat \<Rightarrow> u32 \<Rightarrow> u32 \<Rightarrow> barrier_s \<Rightarrow> (tid list \<times> barrier_s) option" where
  "broadcast_loop j ticket count b =
     (if j < WQDB_SLOTS \<and> ticket < count
      then do {
        (woken, b) \<leftarrow> broadcast_slot j b;
        case woken of
          None \<Rightarrow> broadcast_loop (Suc j) ticket count b
        | Some t \<Rightarrow> do { (ts, b) \<leftarrow> broadcast_loop (Suc j) (ticket + 1) count b; Some (t # ts, b) } }
      else Some ([], b))"
  by pat_completeness auto
termination by (relation "measure (\<lambda>(j, _). WQDB_SLOTS - j)") auto

declare broadcast_loop.simps [simp del]

definition barrier_do_broadcast :: "barrier_s \<Rightarrow> (tid list \<times> barrier_s) option" where
  "barrier_do_broadcast b = broadcast_loop 0 0 (b_count b - 1) b"

text \<open>
  \<^verbatim>\<open>barrier_wait\<close> of thread \<open>this\<close> of \<open>task\<close>, whose \<^verbatim>\<open>info.order\<close> is \<open>order\<close>: up to the broadcast or the
  sleep. A shared barrier is locked all the way.
\<close>

datatype barrier_answer = Invalid | Sleeper | Last

definition barrier_arrive :: "tid \<Rightarrow> nat \<Rightarrow> nat \<Rightarrow> barrier_s \<Rightarrow> (barrier_answer \<times> barrier_s) option" where
  "barrier_arrive this task order b =
     (let isShared = (b_owner b = None)
      in if b_signature b \<noteq> BARRIER_ID \<or> \<not> isShared \<and> b_owner b \<noteq> Some task then Some (Invalid, b)
      else do {
        let (index, ticket, b) =
          (if isShared
           then (unat (b_index b), b_count b - b_index b, b\<lparr>b_word := - 1, b_index := b_index b + 1\<rparr>)
           else (order, 0, b));
        l \<leftarrow> arr_set (listners b) index (Some this);
        let b = b\<lparr>listners := l\<rparr>;
        let (ticket, b) =
          (if isShared then (ticket, b)
           else let (old, w) = atomic_add (b_word b) (- 1) in (old, b\<lparr>b_word := w\<rparr>));
        if ticket = 1
        then do {
          l \<leftarrow> arr_set (listners b) index None;
          let b = b\<lparr>listners := l\<rparr>;
          Some (Last, if isShared then b\<lparr>b_index := 0, b_word := spinlock_unlock (b_word b) (b_word b)\<rparr>
                      else b\<lparr>b_word := atomic_init (b_count b)\<rparr>) }
        else Some (Sleeper, b\<lparr>b_word := spinlock_unlock (b_word b) (b_word b)\<rparr>) })"

text \<open>The whole call: what it answers, or \<open>None\<close> when the thread sleeps, and the threads it wakes.\<close>

datatype wait_result = EInval | Sleeping | Serial "tid list"

definition barrier_wait :: "tid \<Rightarrow> nat \<Rightarrow> nat \<Rightarrow> barrier_s \<Rightarrow> (wait_result \<times> barrier_s) option" where
  "barrier_wait this task order b = do {
     (answer, b) \<leftarrow> barrier_arrive this task order b;
     case answer of
       Invalid \<Rightarrow> Some (EInval, b)
     | Sleeper \<Rightarrow> Some (Sleeping, b)
     | Last \<Rightarrow> do { (ts, b) \<leftarrow> barrier_do_broadcast b; Some (Serial ts, b) } }"

definition barrier_destroy :: "nat \<Rightarrow> barrier_s \<Rightarrow> error_t \<times> barrier_s" where
  "barrier_destroy task b =
     (if b_signature b \<noteq> BARRIER_ID then (Some EINVAL, b)
      else if b_owner b \<noteq> None \<and> b_owner b \<noteq> Some task then (Some EINVAL, b)
      else
        let cntr = (if b_owner b = None then b_index b else atomic_get (b_word b))
        in if cntr \<noteq> 0 then (Some EBUSY, b)
           else (OK, b\<lparr>b_signature := 0, b_pages := 0\<rparr>))"

section \<open>Shared barriers under concurrent use\<close>

text \<open>
  \<open>parts\<close> are the threads that use the barrier. The last thread to arrive releases the lock before it
  broadcasts, so a thread that was woken may arrive again while the broadcast goes on: \<open>bc\<close> holds
  the next record, the ticket and the thread of a broadcast in progress. The ghosts count
  how often each thread arrived and how often it went through.
\<close>

record bar_run =
  bar :: barrier_s
  bc :: "(nat \<times> u32 \<times> tid) option"
  arrived :: "tid \<Rightarrow> nat"
  passed :: "tid \<Rightarrow> nat"

definition bump :: "tid \<Rightarrow> (tid \<Rightarrow> nat) \<Rightarrow> (tid \<Rightarrow> nat)" where
  "bump t f = f(t := Suc (f t))"

inductive bar_step :: "tid set \<Rightarrow> bar_run \<Rightarrow> bar_run \<Rightarrow> bool" for parts :: "tid set" where
  sleeper: "t \<in> parts \<Longrightarrow> arrived r t = passed r t \<Longrightarrow> barrier_arrive t task order (bar r) = Some (Sleeper, b)
    \<Longrightarrow> bar_step parts r (r\<lparr>bar := b, arrived := bump t (arrived r)\<rparr>)"
| last: "t \<in> parts \<Longrightarrow> arrived r t = passed r t \<Longrightarrow> barrier_arrive t task order (bar r) = Some (Last, b)
    \<Longrightarrow> bar_step parts r (r\<lparr>bar := b, arrived := bump t (arrived r), bc := Some (0, 0, t)\<rparr>)"
| skip: "bc r = Some (j, k, l) \<Longrightarrow> j < WQDB_SLOTS \<Longrightarrow> k < b_count (bar r) - 1 \<Longrightarrow> broadcast_slot j (bar r) = Some (None, b)
    \<Longrightarrow> bar_step parts r (r\<lparr>bar := b, bc := Some (Suc j, k, l)\<rparr>)"
| wake: "bc r = Some (j, k, l) \<Longrightarrow> j < WQDB_SLOTS \<Longrightarrow> k < b_count (bar r) - 1 \<Longrightarrow> broadcast_slot j (bar r) = Some (Some u, b)
    \<Longrightarrow> bar_step parts r (r\<lparr>bar := b, bc := Some (Suc j, k + 1, l), passed := bump u (passed r)\<rparr>)"
| finish: "bc r = Some (j, k, l) \<Longrightarrow> \<not> (j < WQDB_SLOTS \<and> k < b_count (bar r) - 1)
    \<Longrightarrow> bar_step parts r (r\<lparr>bc := None, passed := bump l (passed r)\<rparr>)"

definition shared_ok :: "nat \<Rightarrow> barrier_s \<Rightarrow> bool" where
  "shared_ok n b \<longleftrightarrow> b_owner b = None \<and> b_signature b = BARRIER_ID \<and> length (listners b) = WQDB_SLOTS
     \<and> b_count b = of_nat n \<and> b_word b = 0 \<and> 0 < n \<and> n \<le> WQDB_SLOTS"

text \<open>Waiting: \<open>ins\<close> are the threads that arrived in round \<open>R\<close>, in order.\<close>

definition waiting_phase :: "tid set \<Rightarrow> nat \<Rightarrow> bar_run \<Rightarrow> tid list \<Rightarrow> bool" where
  "waiting_phase parts R r ins \<longleftrightarrow> bc r = None \<and> distinct ins \<and> set ins \<subseteq> parts \<and> length ins < card parts
     \<and> b_index (bar r) = of_nat (length ins)
     \<and> (\<forall>m<WQDB_SLOTS. listners (bar r) ! m = (if m < length ins then Some (ins ! m) else None))
     \<and> (\<forall>t\<in>parts. passed r t = R \<and> arrived r t = (if t \<in> set ins then Suc R else R))"

text \<open>
  Broadcasting: \<open>old\<close> are the sleepers of the round in the order of their records, the first \<open>k\<close> already
  woken, \<open>l\<close> is the last thread, and \<open>new\<close> are those that arrived for the next round meanwhile.
\<close>

definition broadcast_phase :: "tid set \<Rightarrow> nat \<Rightarrow> bar_run \<Rightarrow> tid list \<Rightarrow> tid list \<Rightarrow> nat \<Rightarrow> tid \<Rightarrow> bool" where
  "broadcast_phase parts R r old new k l \<longleftrightarrow> bc r = Some (k, of_nat k, l) \<and> distinct (l # old) \<and> set (l # old) = parts
     \<and> k \<le> length old \<and> distinct new \<and> set new \<subseteq> set (take k old)
     \<and> b_index (bar r) = of_nat (length new)
     \<and> (\<forall>m<WQDB_SLOTS. listners (bar r) ! m =
          (if m < length new then Some (new ! m) else if k \<le> m \<and> m < length old then Some (old ! m) else None))
     \<and> (\<forall>t\<in>parts. passed r t = (if t \<in> set (take k old) then Suc R else R)
          \<and> arrived r t = (if t \<in> set new then Suc (Suc R) else Suc R))"

definition bar_inv :: "tid set \<Rightarrow> bar_run \<Rightarrow> bool" where
  "bar_inv parts r \<longleftrightarrow> finite parts \<and> shared_ok (card parts) (bar r)
     \<and> (\<exists>R. (\<exists>ins. waiting_phase parts R r ins) \<or> (\<exists>old new k l. broadcast_phase parts R r old new k l))"

lemma small_word [simp]: "n \<le> WQDB_SLOTS \<Longrightarrow> unat (of_nat n :: u32) = n"
  by (simp add: unat_of_nat)

lemma small_eq: "m \<le> WQDB_SLOTS \<Longrightarrow> n \<le> WQDB_SLOTS \<Longrightarrow> (of_nat m :: u32) = of_nat n \<longleftrightarrow> m = n"
  by (metis small_word)

lemma small_less: "m \<le> WQDB_SLOTS \<Longrightarrow> n \<le> WQDB_SLOTS \<Longrightarrow> (of_nat m :: u32) < of_nat n \<longleftrightarrow> m < n"
  by (simp add: word_less_nat_alt)

text \<open>An arrival at a shared barrier, by the number of threads that arrived before.\<close>

lemma shared_arrive:
  assumes "shared_ok n b" and "b_index b = of_nat i" and "i < n"
  shows "\<exists>b'. barrier_arrive t task order b = Some (if Suc i = n then Last else Sleeper, b') \<and> shared_ok n b'
    \<and> listners b' = (listners b)[i := (if Suc i = n then None else Some t)]
    \<and> b_index b' = (if Suc i = n then 0 else of_nat (Suc i))"
proof -
  have ok: "b_owner b = None" "b_signature b = BARRIER_ID" "length (listners b) = WQDB_SLOTS" "b_count b = of_nat n"
      "b_word b = 0" "n \<le> WQDB_SLOTS"
    using assms(1) by (auto simp: shared_ok_def)
  have idx: "unat (b_index b) = i" using assms ok(6) by simp
  have "b_count b - b_index b = of_nat (n - i)" using assms(2,3) ok(4) by (simp add: of_nat_diff)
  then have "b_count b - b_index b = 1 \<longleftrightarrow> n - i = 1" using small_eq [of "n - i" 1] ok(6) by simp
  then have tick: "b_count b - b_index b = 1 \<longleftrightarrow> Suc i = n" using assms(3) by auto
  have unl: "spinlock_unlock (- 1) (- 1) = 0" by (simp add: spinlock_unlock_def)
  have bnd: "i < length (listners b)" using assms(3) ok(3,6) by simp
  show ?thesis
    using ok idx tick assms unl bnd
    by (simp add: barrier_arrive_def Let_def karray shared_ok_def ok del: length_0_conv)
qed

lemma broadcast_slot_at:
  assumes "length (listners b) = WQDB_SLOTS" and "j < WQDB_SLOTS"
  shows "broadcast_slot j b = Some (listners b ! j, b\<lparr>listners := (listners b)[j := None]\<rparr>)"
proof (cases "listners b ! j")
  case None
  then have "(listners b)[j := None] = listners b" by (metis list_update_id)
  then show ?thesis using None assms by (simp add: broadcast_slot_def karray)
next
  case (Some t)
  then show ?thesis using assms by (simp add: broadcast_slot_def karray)
qed

lemma bar_inv_waiting:
  "finite parts \<Longrightarrow> shared_ok (card parts) (bar r) \<Longrightarrow> waiting_phase parts R r ins \<Longrightarrow> bar_inv parts r"
  unfolding bar_inv_def by blast

lemma bar_inv_broadcast:
  "finite parts \<Longrightarrow> shared_ok (card parts) (bar r) \<Longrightarrow> broadcast_phase parts R r old new k l \<Longrightarrow> bar_inv parts r"
  unfolding bar_inv_def by blast

lemma waiting_arrive:
  assumes "finite parts" and "shared_ok (card parts) (bar r)" and w: "waiting_phase parts R r ins"
    and "t \<in> parts" and "arrived r t = passed r t" and "barrier_arrive t task order (bar r) = Some (answer, b)"
  shows "bar_inv parts (if answer = Last then r\<lparr>bar := b, arrived := bump t (arrived r), bc := Some (0, 0, t)\<rparr>
    else r\<lparr>bar := b, arrived := bump t (arrived r)\<rparr>)"
proof -
  let ?i = "length ins"
  have i: "?i < card parts" "b_index (bar r) = of_nat ?i" "distinct ins" "set ins \<subseteq> parts" "bc r = None"
    and slots: "\<And>m. m < WQDB_SLOTS \<Longrightarrow> listners (bar r) ! m = (if m < ?i then Some (ins ! m) else None)"
    and cnt: "\<And>u. u \<in> parts \<Longrightarrow> passed r u = R \<and> arrived r u = (if u \<in> set ins then Suc R else R)"
    using w by (auto simp: waiting_phase_def)
  have new: "t \<notin> set ins" using cnt [OF assms(4)] assms(5) by auto
  have len: "length (listners (bar r)) = WQDB_SLOTS" "card parts \<le> WQDB_SLOTS"
    using assms(2) by (auto simp: shared_ok_def)
  obtain b' where b': "barrier_arrive t task order (bar r) = Some (if Suc ?i = card parts then Last else Sleeper, b')"
      "shared_ok (card parts) b'" "listners b' = (listners (bar r))[?i := (if Suc ?i = card parts then None else Some t)]"
      "b_index b' = (if Suc ?i = card parts then 0 else of_nat (Suc ?i))"
    using shared_arrive [OF assms(2) i(2,1)] by blast
  then have [simp]: "b = b'" and ans: "answer = (if Suc ?i = card parts then Last else Sleeper)" using assms(6) by auto
  show ?thesis
  proof (cases "Suc ?i = card parts")
    case True
    let ?r = "r\<lparr>bar := b', arrived := bump t (arrived r), bc := Some (0, 0, t)\<rparr>"
    have "card (set (t # ins)) = card parts" using True new i(3) by (simp add: distinct_card)
    then have "set (t # ins) = parts" using assms(1,4) i(4) by (intro card_subset_eq) auto
    then have "broadcast_phase parts R ?r ins [] 0 t"
      using True new i b' slots len cnt by (auto simp: broadcast_phase_def bump_def nth_list_update)
    from bar_inv_broadcast [OF assms(1) _ this] show ?thesis using True ans b'(2) by simp
  next
    case False
    let ?r = "r\<lparr>bar := b', arrived := bump t (arrived r)\<rparr>"
    have "waiting_phase parts R ?r (ins @ [t])"
      using False new i b' slots len cnt assms(4)
      by (auto simp: waiting_phase_def bump_def nth_list_update nth_append)
    from bar_inv_waiting [OF assms(1) _ this] show ?thesis using False ans b'(2) by simp
  qed
qed

lemma broadcast_arrive:
  assumes "finite parts" and "shared_ok (card parts) (bar r)" and w: "broadcast_phase parts R r old new k l"
    and "t \<in> parts" and "arrived r t = passed r t" and "barrier_arrive t task order (bar r) = Some (answer, b)"
  shows "answer = Sleeper \<and> bar_inv parts (r\<lparr>bar := b, arrived := bump t (arrived r)\<rparr>)"
proof -
  let ?i = "length new"
  have B: "bc r = Some (k, of_nat k, l)" "distinct (l # old)" "set (l # old) = parts" "k \<le> length old" "distinct new"
      "set new \<subseteq> set (take k old)" "b_index (bar r) = of_nat ?i"
    and slots: "\<And>m. m < WQDB_SLOTS \<Longrightarrow> listners (bar r) ! m =
          (if m < ?i then Some (new ! m) else if k \<le> m \<and> m < length old then Some (old ! m) else None)"
    and cnt: "\<And>u. u \<in> parts \<Longrightarrow> passed r u = (if u \<in> set (take k old) then Suc R else R)
          \<and> arrived r u = (if u \<in> set new then Suc (Suc R) else Suc R)"
    using w by (auto simp: broadcast_phase_def)
  have t: "t \<in> set (take k old)" "t \<notin> set new" using cnt [OF assms(4)] assms(5) B(6) by (auto split: if_splits)
  have "card (set (t # new)) \<le> card (set (take k old))" using t B(6) by (intro card_mono) auto
  moreover have "card (set (take k old)) = k" using B(2,4) by (simp add: distinct_card)
  moreover have "card (set (t # new)) = Suc ?i" using t(2) B(5) by (simp add: distinct_card)
  ultimately have ik: "Suc ?i \<le> k" by linarith
  have card: "card parts = Suc (length old)" using B(2,3) distinct_card by fastforce
  have len: "length (listners (bar r)) = WQDB_SLOTS" "card parts \<le> WQDB_SLOTS"
    using assms(2) by (auto simp: shared_ok_def)
  have lt: "?i < card parts" "Suc ?i \<noteq> card parts" using ik B(4) card by auto
  obtain b' where b': "barrier_arrive t task order (bar r) = Some (Sleeper, b')"
      "shared_ok (card parts) b'" "listners b' = (listners (bar r))[?i := Some t]" "b_index b' = of_nat (Suc ?i)"
    using shared_arrive [OF assms(2) B(7) lt(1), of t task order] lt(2) by auto
  then have [simp]: "b = b'" and ans: "answer = Sleeper" using assms(6) by auto
  let ?r = "r\<lparr>bar := b', arrived := bump t (arrived r)\<rparr>"
  have "broadcast_phase parts R ?r old (new @ [t]) k l"
    using B t ik b' slots len cnt lt card
    by (auto simp: broadcast_phase_def bump_def nth_list_update nth_append)
  from bar_inv_broadcast [OF assms(1) _ this] show ?thesis using ans b'(2) by simp
qed

lemma broadcast_wake:
  assumes "finite parts" and "shared_ok (card parts) (bar r)" and w: "broadcast_phase parts R r old new k l"
    and "k < length old"
  shows "broadcast_slot k (bar r) = Some (Some (old ! k), (bar r)\<lparr>listners := (listners (bar r))[k := None]\<rparr>)"
    and "bar_inv parts (r\<lparr>bar := (bar r)\<lparr>listners := (listners (bar r))[k := None]\<rparr>,
      bc := Some (Suc k, of_nat k + 1, l), passed := bump (old ! k) (passed r)\<rparr>)"
proof -
  have B: "bc r = Some (k, of_nat k, l)" "distinct (l # old)" "set (l # old) = parts" "distinct new"
      "set new \<subseteq> set (take k old)" "b_index (bar r) = of_nat (length new)"
    and slots: "\<And>m. m < WQDB_SLOTS \<Longrightarrow> listners (bar r) ! m =
          (if m < length new then Some (new ! m) else if k \<le> m \<and> m < length old then Some (old ! m) else None)"
    and cnt: "\<And>u. u \<in> parts \<Longrightarrow> passed r u = (if u \<in> set (take k old) then Suc R else R)
          \<and> arrived r u = (if u \<in> set new then Suc (Suc R) else Suc R)"
    using w by (auto simp: broadcast_phase_def)
  have "card (set new) \<le> card (set (take k old))" using B(5) by (intro card_mono) auto
  then have nk: "length new \<le> k" using B(2,4) assms(4) by (simp add: distinct_card)
  have "card parts = Suc (length old)" using B(2,3) distinct_card by fastforce
  then have bnd: "k < WQDB_SLOTS" "length (listners (bar r)) = WQDB_SLOTS" using assms(2,4) by (auto simp: shared_ok_def)
  show "broadcast_slot k (bar r) = Some (Some (old ! k), (bar r)\<lparr>listners := (listners (bar r))[k := None]\<rparr>)"
    using broadcast_slot_at [OF bnd(2,1)] slots [OF bnd(1)] nk assms(4) by simp
  have fresh: "old ! k \<notin> set (take k old)" "old ! k \<noteq> l"
    using B(2) assms(4) by (auto simp: in_set_conv_nth nth_eq_iff_index_eq)
  have take: "set (take (Suc k) old) = insert (old ! k) (set (take k old))"
    using assms(4) by (simp add: take_Suc_conv_app_nth)
  let ?r = "r\<lparr>bar := (bar r)\<lparr>listners := (listners (bar r))[k := None]\<rparr>,
      bc := Some (Suc k, of_nat k + 1, l), passed := bump (old ! k) (passed r)\<rparr>"
  have "broadcast_phase parts R ?r old new (Suc k) l"
    unfolding broadcast_phase_def
  proof (intro conjI)
    show "\<forall>m<WQDB_SLOTS. listners (bar ?r) ! m =
       (if m < length new then Some (new ! m) else if Suc k \<le> m \<and> m < length old then Some (old ! m) else None)"
      using slots nk bnd by (auto simp: nth_list_update)
    show "\<forall>t\<in>parts. passed ?r t = (if t \<in> set (take (Suc k) old) then Suc R else R)
          \<and> arrived ?r t = (if t \<in> set new then Suc (Suc R) else Suc R)"
      using cnt fresh(1) unfolding take by (auto simp: bump_def)
    show "set new \<subseteq> set (take (Suc k) old)" using B(5) unfolding take by auto
  qed (use B assms(4) in auto)
  moreover have "shared_ok (card parts) (bar ?r)" using assms(2) by (simp add: shared_ok_def)
  ultimately show "bar_inv parts ?r" using bar_inv_broadcast assms(1) by blast
qed

lemma broadcast_finish:
  assumes "finite parts" and "shared_ok (card parts) (bar r)" and w: "broadcast_phase parts R r old new k l"
    and "\<not> k < length old"
  shows "bar_inv parts (r\<lparr>bc := None, passed := bump l (passed r)\<rparr>)"
proof -
  have k: "k = length old" "take k old = old" using w assms(4) by (auto simp: broadcast_phase_def)
  have old: "distinct (l # old)" "set (l # old) = parts" "distinct new" "set new \<subseteq> set old"
    using w k by (auto simp: broadcast_phase_def)
  have "card (set new) \<le> card (set old)" using old(4) by (intro card_mono) auto
  moreover have "card parts = Suc (length old)" using old(1,2) distinct_card by fastforce
  ultimately have new: "length new < card parts" "length new \<le> length old" using old by (simp_all add: distinct_card)
  let ?r = "r\<lparr>bc := None, passed := bump l (passed r)\<rparr>"
  have "waiting_phase parts (Suc R) ?r new"
    using w k old new unfolding waiting_phase_def broadcast_phase_def by (auto simp: bump_def)
  then show ?thesis using bar_inv_waiting [OF assms(1)] assms(2) by simp
qed

lemma broadcast_more:
  assumes "shared_ok (card parts) (bar r)" and "broadcast_phase parts R r old new k l"
  shows "k < WQDB_SLOTS \<and> (of_nat k :: u32) < b_count (bar r) - 1 \<longleftrightarrow> k < length old"
proof -
  have "card parts = Suc (length old)" "k \<le> length old"
    using assms(2) distinct_card [of "l # old"] by (auto simp: broadcast_phase_def)
  moreover have "b_count (bar r) = of_nat (card parts)" "card parts \<le> WQDB_SLOTS" using assms(1) by (auto simp: shared_ok_def)
  ultimately show ?thesis using small_less [of k "length old"] by auto
qed

lemma bar_inv_step: "bar_step parts r r' \<Longrightarrow> bar_inv parts r \<Longrightarrow> bar_inv parts r'"
proof (induction rule: bar_step.induct)
  case (sleeper t r task order b)
  then have ok: "finite parts" "shared_ok (card parts) (bar r)" by (auto simp: bar_inv_def)
  from sleeper.prems consider R ins where "waiting_phase parts R r ins" | R old new k l where "broadcast_phase parts R r old new k l"
    unfolding bar_inv_def by blast
  then show ?case
    using waiting_arrive [OF ok _ sleeper.hyps] broadcast_arrive [OF ok _ sleeper.hyps] by cases auto
next
  case (last t r task order b)
  then have ok: "finite parts" "shared_ok (card parts) (bar r)" by (auto simp: bar_inv_def)
  have "\<not> broadcast_phase parts R r old new k l" for R old new k l
    using broadcast_arrive(1) [OF ok _ last.hyps] by blast
  then obtain R ins where "waiting_phase parts R r ins" using last.prems unfolding bar_inv_def by blast
  from waiting_arrive [OF ok this last.hyps] show ?case by simp
next
  case (skip r j k l b)
  then obtain R old new k' l' where w: "broadcast_phase parts R r old new k' l'"
    by (auto simp: bar_inv_def waiting_phase_def)
  have ok: "finite parts" "shared_ok (card parts) (bar r)" using skip.prems by (auto simp: bar_inv_def)
  have "k' = j" "k = of_nat j" using w skip.hyps(1) by (auto simp: broadcast_phase_def)
  then have "j < length old" using broadcast_more [OF ok(2) w] skip.hyps by simp
  then show ?case using broadcast_wake(1) [OF ok w] skip.hyps(4) \<open>k' = j\<close> by simp
next
  case (wake r j k l u b)
  then obtain R old new k' l' where w: "broadcast_phase parts R r old new k' l'"
    by (auto simp: bar_inv_def waiting_phase_def)
  have ok: "finite parts" "shared_ok (card parts) (bar r)" using wake.prems by (auto simp: bar_inv_def)
  have eq: "k' = j" "k = of_nat j" "l' = l" using w wake.hyps(1) by (auto simp: broadcast_phase_def)
  then have "j < length old" using broadcast_more [OF ok(2) w] wake.hyps by simp
  then show ?case using broadcast_wake [OF ok w] wake.hyps(4) eq by simp
next
  case (finish r j k l)
  then obtain R old new k' l' where w: "broadcast_phase parts R r old new k' l'"
    by (auto simp: bar_inv_def waiting_phase_def)
  have ok: "finite parts" "shared_ok (card parts) (bar r)" using finish.prems by (auto simp: bar_inv_def)
  have eq: "k' = j" "k = of_nat j" "l' = l" using w finish.hyps(1) by (auto simp: broadcast_phase_def)
  then have "\<not> j < length old" using broadcast_more [OF ok(2) w] finish.hyps(2) by simp
  then show ?case using broadcast_finish [OF ok w] eq by simp
qed

definition bar_start :: "barrier_s \<Rightarrow> bar_run" where
  "bar_start b = \<lparr>bar = b, bc = None, arrived = (\<lambda>_. 0), passed = (\<lambda>_. 0)\<rparr>"

lemma alloc_pages_all: "(\<And>i. kmem_alloc i) \<Longrightarrow> alloc_pages kmem_alloc i n = i + n"
  by (induction n arbitrary: i) auto

lemma barrier_init_shared:
  assumes "barrier_init kmem_alloc task limit b0 count BARRIER_INIT_SHARED = (OK, b)" and "count = of_nat (card parts)"
    and "finite parts" and "card parts \<le> WQDB_SLOTS"
  shows "bar_inv parts (bar_start b)"
proof -
  have pos: "0 < card parts"
    using assms(1,2) by (cases "card parts = 0") (auto simp: barrier_init_def)
  then have b: "shared_ok (card parts) b" "b_index b = 0" "listners b = replicate WQDB_SLOTS None"
    using assms by (auto simp: barrier_init_def shared_ok_def Let_def spinlock_init_def split: if_splits)
  have "waiting_phase parts 0 (bar_start b) []"
    using b pos by (simp add: waiting_phase_def bar_start_def)
  then show ?thesis using bar_inv_waiting [OF assms(3)] b(1) by (simp add: bar_start_def)
qed

lemma bar_inv_reach: "(bar_step parts)\<^sup>*\<^sup>* r r' \<Longrightarrow> bar_inv parts r \<Longrightarrow> bar_inv parts r'"
  by (induction rule: rtranclp_induct) (auto intro: bar_inv_step)

lemma bar_inv_safe:
  assumes "bar_inv parts r" and "t \<in> parts" and "u \<in> parts"
  shows "passed r t \<le> arrived r u"
proof -
  from assms(1) consider R ins where "waiting_phase parts R r ins" | R old new k l where "broadcast_phase parts R r old new k l"
    unfolding bar_inv_def by blast
  then show ?thesis
    by cases (use assms(2,3) in \<open>auto simp: waiting_phase_def broadcast_phase_def\<close>)
qed

lemma waiting_outside:
  assumes "finite parts" and "waiting_phase parts R r ins"
  shows "\<exists>t\<in>parts. arrived r t = passed r t"
proof -
  have "card (set ins) < card parts" using assms(2) by (auto simp: waiting_phase_def distinct_card)
  then obtain t where "t \<in> parts" "t \<notin> set ins" using assms by (metis card_mono leD List.finite_set subsetI)
  then show ?thesis using assms(2) by (auto simp: waiting_phase_def)
qed

lemma bar_inv_live:
  assumes "bar_inv parts r"
  shows "bc r = None \<and> (\<exists>t\<in>parts. arrived r t = passed r t)
     \<or> (\<exists>r' u. bar_step parts r r' \<and> u \<in> parts \<and> passed r' = bump u (passed r))"
proof -
  have ok: "finite parts" "shared_ok (card parts) (bar r)" using assms by (auto simp: bar_inv_def)
  from assms consider R ins where "waiting_phase parts R r ins" | R old new k l where "broadcast_phase parts R r old new k l"
    unfolding bar_inv_def by blast
  then show ?thesis
  proof cases
    case 1
    then show ?thesis using waiting_outside [OF ok(1) 1] by (auto simp: waiting_phase_def)
  next
    case 2
    have bc: "bc r = Some (k, of_nat k, l)" and mem: "set (l # old) = parts" using 2 by (auto simp: broadcast_phase_def)
    note more = broadcast_more [OF ok(2) 2]
    show ?thesis
    proof (cases "k < length old")
      case True
      from bar_step.wake [OF bc _ _ broadcast_wake(1) [OF ok 2 True], where parts = parts] more True
      have "\<exists>r'. bar_step parts r r' \<and> passed r' = bump (old ! k) (passed r)" by auto
      then show ?thesis using True mem nth_mem by fastforce
    next
      case False
      from bar_step.finish [OF bc, where parts = parts] more False
      have "\<exists>r'. bar_step parts r r' \<and> passed r' = bump l (passed r)" by auto
      then show ?thesis using mem by auto
    qed
  qed
qed

lemma bar_inv_arrives:
  assumes "bar_inv parts r" and "t \<in> parts" and "arrived r t = passed r t"
  shows "\<exists>answer b. barrier_arrive t task order (bar r) = Some (answer, b) \<and> answer \<noteq> Invalid"
proof -
  have ok: "finite parts" "shared_ok (card parts) (bar r)" using assms by (auto simp: bar_inv_def)
  from assms(1) consider R ins where "waiting_phase parts R r ins" | R old new k l where "broadcast_phase parts R r old new k l"
    unfolding bar_inv_def by blast
  then obtain i where "b_index (bar r) = of_nat i" "i < card parts"
  proof cases
    case 1
    then show ?thesis using that by (auto simp: waiting_phase_def)
  next
    case 2
    then have "card (set new) \<le> card (set old)" "card parts = Suc (length old)" "distinct new" "distinct old"
      using distinct_card [of "l # old"] by (auto simp: broadcast_phase_def intro!: card_mono dest: in_set_takeD)
    then show ?thesis using 2 that [of "length new"] by (simp add: broadcast_phase_def distinct_card)
  qed
  from shared_arrive [OF ok(2) this, of t task order] show ?thesis by auto
qed

text \<open>
  C21: A shared barrier set up by a successful \<^verbatim>\<open>barrier_init\<close> for its participants is a barrier, over any
  number of rounds and with arrivals interleaved with a broadcast still in progress: nobody
  gets through round \<open>n\<close> before every participant has arrived \<open>n\<close> times; an arrival never touches a record
  outside the four pages; and the threads are never all asleep: either a participant is still outside, or a step of the
  broadcast can be taken that lets one more participant through.
\<close>

theorem barrier_shared_correct:
  assumes "barrier_init kmem_alloc task limit b0 (of_nat (card parts)) BARRIER_INIT_SHARED = (OK, b)"
    and "finite parts" and "card parts \<le> 2048" and "(bar_step parts)\<^sup>*\<^sup>* (bar_start b) r"
  shows "(\<forall>t\<in>parts. \<forall>u\<in>parts. passed r t \<le> arrived r u)
    \<and> (\<forall>t\<in>parts. arrived r t = passed r t \<longrightarrow>
          (\<exists>answer b'. barrier_arrive t task order (bar r) = Some (answer, b') \<and> answer \<noteq> Invalid))
    \<and> (bc r = None \<and> (\<exists>t\<in>parts. arrived r t = passed r t)
       \<or> (\<exists>r' u. bar_step parts r r' \<and> u \<in> parts \<and> passed r' = bump u (passed r)))"
proof -
  have "bar_inv parts r"
    using bar_inv_reach [OF assms(4) barrier_init_shared [OF assms(1) refl assms(2,3)]] .
  then show ?thesis using bar_inv_safe bar_inv_arrives bar_inv_live by auto
qed

definition demo_barrier :: barrier_s where
  "demo_barrier = \<lparr>b_word = 0, b_signature = 0, b_owner = None, b_count = 0, b_index = 0, listners = [], b_pages = 0\<rparr>"

text \<open>
  The witness: two participants; thread 1 arrives and sleeps, thread 2 arrives last and its
  broadcast wakes thread 1, which arrives for the next round before the broadcast has ended.
\<close>

definition ex_bar :: "tid option \<Rightarrow> u32 \<Rightarrow> barrier_s" where
  "ex_bar x i = \<lparr>b_word = 0, b_signature = BARRIER_ID, b_owner = None, b_count = 2, b_index = i,
     listners = x # replicate 2047 None, b_pages = 4\<rparr>"

lemma ex_bar_init:
  "barrier_init (\<lambda>_. True) 0 16 demo_barrier 2 BARRIER_INIT_SHARED = (OK, ex_bar None 0)"
proof -
  have "(2048 :: nat) = Suc 2047" by simp
  then have "replicate 2048 None = (None :: tid option) # replicate 2047 None" by (simp only: replicate_Suc)
  then show ?thesis
    by (simp add: barrier_init_def demo_barrier_def ex_bar_def spinlock_init_def alloc_pages_all)
qed

lemma ex_bar_count: "b_count (ex_bar x i) = 2"
  by (simp add: ex_bar_def)

lemma ex_bar_ops:
  "barrier_arrive t 0 0 (ex_bar None 0) = Some (Sleeper, ex_bar (Some t) 1)"
  "barrier_arrive t 0 0 (ex_bar x 1) = Some (Last, ex_bar x 0)"
  "broadcast_slot 0 (ex_bar (Some t) 0) = Some (Some t, ex_bar None 0)"
proof -
  have same: "(x # replicate 2047 None)[Suc 0 := None] = (x # replicate 2047 None :: tid option list)"
    by (simp add: list_update_same_conv)
  show "barrier_arrive t 0 0 (ex_bar None 0) = Some (Sleeper, ex_bar (Some t) 1)"
    by (simp add: barrier_arrive_def ex_bar_def karray spinlock_unlock_def)
  show "barrier_arrive t 0 0 (ex_bar x 1) = Some (Last, ex_bar x 0)"
    using same by (simp add: barrier_arrive_def ex_bar_def karray spinlock_unlock_def)
  show "broadcast_slot 0 (ex_bar (Some t) 0) = Some (Some t, ex_bar None 0)"
    by (simp add: broadcast_slot_def ex_bar_def karray)
qed

theorem barrier_shared_correct_witness:
  "\<exists>b r. barrier_init (\<lambda>_. True) 0 16 demo_barrier (of_nat (card {1, 2 :: tid})) BARRIER_INIT_SHARED = (OK, b)
     \<and> (bar_step {1, 2})\<^sup>*\<^sup>* (bar_start b) r \<and> bc r = Some (1, 1, 2)
     \<and> arrived r 1 = 2 \<and> passed r 1 = 1 \<and> arrived r 2 = 1 \<and> passed r 2 = 0
     \<and> passed r 1 \<le> arrived r 2
     \<and> (\<exists>r' u. bar_step {1, 2} r r' \<and> u \<in> {1, 2} \<and> passed r' = bump u (passed r))"
proof -
  let ?P = "{1, 2 :: tid}" and ?z = "\<lambda>_ :: tid. 0 :: nat"
  have init: "barrier_init (\<lambda>_. True) 0 16 demo_barrier (of_nat (card ?P)) BARRIER_INIT_SHARED = (OK, ex_bar None 0)"
    using ex_bar_init by simp
  define r1 where "r1 = \<lparr>bar = ex_bar (Some 1) 1, bc = None, arrived = bump 1 ?z, passed = ?z\<rparr>"
  define r2 where "r2 = \<lparr>bar = ex_bar (Some 1) 0, bc = Some (0, 0, 2), arrived = bump 2 (bump 1 ?z), passed = ?z\<rparr>"
  define r3 where "r3 = \<lparr>bar = ex_bar None 0, bc = Some (1, 1, 2), arrived = bump 2 (bump 1 ?z), passed = bump 1 ?z\<rparr>"
  define r4 where "r4 = \<lparr>bar = ex_bar (Some 1) 1, bc = Some (1, 1, 2), arrived = bump 1 (bump 2 (bump 1 ?z)),
    passed = bump 1 ?z\<rparr>"
  note ev = r1_def r2_def r3_def r4_def bar_start_def bump_def
  have s1: "bar_step ?P (bar_start (ex_bar None 0)) r1"
    using bar_step.sleeper [of 1 ?P "bar_start (ex_bar None 0)" 0 0] ex_bar_ops(1) by (simp add: ev)
  have s2: "bar_step ?P r1 r2"
    using bar_step.last [of 2 ?P r1 0 0] ex_bar_ops(2) by (simp add: ev)
  have s3: "bar_step ?P r2 r3"
    using bar_step.wake [of r2 0 0 2 1 _ ?P] ex_bar_ops(3) by (simp add: ev ex_bar_count)
  have s4: "bar_step ?P r3 r4"
    using bar_step.sleeper [of 1 ?P r3 0 0] ex_bar_ops(1) by (simp add: ev)
  note go = converse_rtranclp_into_rtranclp [where r = "bar_step ?P"]
  have run: "(bar_step ?P)\<^sup>*\<^sup>* (bar_start (ex_bar None 0)) r4"
    by (intro go [OF s1] go [OF s2] go [OF s3] go [OF s4] rtranclp.rtrancl_refl)
  have r4: "bc r4 = Some (1, 1, 2)" "arrived r4 1 = 2" "passed r4 1 = 1" "arrived r4 2 = 1" "passed r4 2 = 0"
    by (simp_all add: ev)
  have "finite ?P" "card ?P \<le> 2048" by simp_all
  note main = barrier_shared_correct [OF init this run]
  then have "\<exists>r' u. bar_step ?P r4 r' \<and> u \<in> ?P \<and> passed r' = bump u (passed r4)" using r4(1) by simp
  moreover from main have "passed r4 1 \<le> arrived r4 2" by blast
  ultimately show ?thesis using init run r4 by blast
qed

section \<open>Private barriers\<close>

definition private_barrier :: "u32 \<Rightarrow> barrier_s" where
  "private_barrier n = snd (barrier_init (\<lambda>_. True) 0 16 demo_barrier n BARRIER_INIT_PRIVATE)"

lemma private_barrier_eq:
  "n \<noteq> 0 \<Longrightarrow> unat n \<le> WQDB_SLOTS \<Longrightarrow> private_barrier n =
    \<lparr>b_word = n, b_signature = BARRIER_ID, b_owner = Some 0, b_count = n, b_index = 0,
     listners = replicate WQDB_SLOTS None, b_pages = 4\<rparr>"
  by (simp add: private_barrier_def barrier_init_def demo_barrier_def Let_def atomic_init_def alloc_pages_all)

lemma private_sleeper:
  assumes "b_signature b = BARRIER_ID" and "b_owner b = Some task" and "b_word b \<noteq> 1" and "order < length (listners b)"
  shows "barrier_wait this task order b =
    Some (Sleeping, b\<lparr>listners := (listners b)[order := Some this], b_word := spinlock_unlock (b_word b - 1) (b_word b - 1)\<rparr>)"
  using assms by (simp add: barrier_wait_def barrier_arrive_def Let_def karray atomic_add_def)

text \<open>The calls of \<^verbatim>\<open>barrier_wait\<close> by the threads of a list, each with its order, one after the other.\<close>

fun private_waits :: "(tid \<times> nat) list \<Rightarrow> barrier_s \<Rightarrow> (wait_result list \<times> barrier_s) option" where
  "private_waits [] b = Some ([], b)"
| "private_waits ((this, order) # ts) b = do {
     (res, b) \<leftarrow> barrier_wait this 0 order b;
     (ress, b) \<leftarrow> private_waits ts b;
     Some (res # ress, b) }"

definition private_ok :: "nat \<Rightarrow> barrier_s \<Rightarrow> bool" where
  "private_ok w b \<longleftrightarrow> b_signature b = BARRIER_ID \<and> b_owner b = Some 0 \<and> length (listners b) = WQDB_SLOTS
     \<and> b_word b = of_nat w \<and> w \<le> WQDB_SLOTS"

lemma small_sint: "n \<le> WQDB_SLOTS \<Longrightarrow> sint (of_nat n :: u32) = int n"
  by (simp add: sint_uint uint_nat signed_take_bit_int_eq_self)

lemma private_step:
  assumes "private_ok w b" and "w \<noteq> 1" and "order < WQDB_SLOTS"
  shows "\<exists>b'. barrier_wait this 0 order b = Some (Sleeping, b') \<and> private_ok (w - 2) b'"
proof -
  have "spinlock_unlock (of_nat w - 1) (of_nat w - 1) = (of_nat (w - 2) :: u32)"
  proof (cases "w = 0")
    case False
    then have "(of_nat w - 1 :: u32) = of_nat (w - 1)" and "(of_nat (w - 1) - 1 :: u32) = of_nat (w - 2)"
      using assms(2) by (simp_all add: of_nat_diff)
    moreover have "sint (of_nat (w - 1) :: u32) = int (w - 1)"
      using assms(1) by (intro small_sint) (auto simp: private_ok_def)
    ultimately show ?thesis by (simp add: spinlock_unlock_def atomic_add_def)
  qed (simp add: spinlock_unlock_def)
  moreover have "b_word b \<noteq> 1" using assms(1,2) small_eq [of w 1] by (simp add: private_ok_def)
  ultimately show ?thesis
    using private_sleeper [of b 0 order this] assms by (auto simp: private_ok_def)
qed

lemma private_sleepers:
  assumes "private_ok w b" and "\<forall>(_, order)\<in>set ts. order < WQDB_SLOTS" and "even w \<or> 2 * length ts < w"
  shows "\<exists>b'. private_waits ts b = Some (replicate (length ts) Sleeping, b') \<and> private_ok (w - 2 * length ts) b'"
  using assms
proof (induction ts arbitrary: w b)
  case (Cons a ts)
  obtain this order where a: "a = (this, order)" by fastforce
  have "w \<noteq> 1" "even (w - 2) \<or> 2 * length ts < w - 2" using Cons.prems(3) by auto
  moreover obtain b' where "barrier_wait this 0 order b = Some (Sleeping, b')" "private_ok (w - 2) b'"
    using private_step [OF Cons.prems(1) \<open>w \<noteq> 1\<close>, of order this] Cons.prems(2) a by auto
  ultimately show ?case using Cons.IH [of "w - 2" b'] Cons.prems(2) a by auto
qed auto

lemma private_start: "0 < n \<Longrightarrow> n \<le> WQDB_SLOTS \<Longrightarrow> private_ok n (private_barrier (of_nat n))"
  using small_eq [of n 0] by (simp add: private_barrier_eq private_ok_def)

text \<open>
  A private barrier does not work. The sleepers' release of the lock word falls on the counter, which shares
  its word, so each arrival takes two off it: a barrier for an even number of threads never
  opens, however many threads arrive, and one for \<open>2 m + 1\<close> threads opens at arrival \<open>m + 1\<close>.
\<close>

theorem barrier_private_broken:
  assumes "0 < n" and "n \<le> 2048" and "\<forall>(_, order)\<in>set ts. order < 2048" and "order < 2048"
  shows "(even n \<longrightarrow> (\<exists>b. private_waits ts (private_barrier (of_nat n)) = Some (replicate (length ts) Sleeping, b)))
    \<and> (n = 2 * length ts + 1 \<longrightarrow>
         (\<exists>b. private_waits ts (private_barrier (of_nat n)) = Some (replicate (length ts) Sleeping, b)
            \<and> (\<exists>b'. barrier_arrive this 0 order b = Some (Last, b'))))"
proof -
  note start = private_start [OF assms(1,2)]
  have "\<exists>b'. barrier_arrive this 0 order b = Some (Last, b')" if "private_ok 1 b" for b
    using that assms(4) by (simp add: private_ok_def barrier_arrive_def Let_def karray atomic_add_def)
  moreover have "\<exists>b. private_waits ts (private_barrier (of_nat n)) = Some (replicate (length ts) Sleeping, b)
      \<and> private_ok (n - 2 * length ts) b" if "even n \<or> n = 2 * length ts + 1"
    using private_sleepers [OF start assms(3)] that by auto
  ultimately show ?thesis by fastforce
qed

theorem barrier_private_broken_witness:
  "(\<exists>b. private_waits [(1, 0), (2, 1)] (private_barrier 2) = Some ([Sleeping, Sleeping], b))
   \<and> (\<exists>b b'. private_waits [(1, 0)] (private_barrier 3) = Some ([Sleeping], b) \<and> barrier_arrive 2 0 1 b = Some (Last, b'))"
  using barrier_private_broken [of 2 "[(1, 0), (2, 1)]" 3 4] barrier_private_broken [of 3 "[(1, 0)]" 1 2]
  by (auto simp: numeral_2_eq_2)

text \<open>An idle private barrier counts its missing threads as waiting: it can never be destroyed.\<close>

lemma private_destroy_busy:
  "0 < n \<Longrightarrow> n \<le> WQDB_SLOTS \<Longrightarrow> barrier_destroy 0 (private_barrier (of_nat n)) = (Some EBUSY, private_barrier (of_nat n))"
  using private_start [of n] small_eq [of n 0] by (simp add: barrier_destroy_def private_ok_def atomic_get_def)

end
