(* ===== verification/Kern_Keysdb.thy ===== *)
theory Kern_Keysdb
  imports Kernel_Prelude "HOL-Library.Monad_Syntax"
begin

text \<open>
  The two-level key database of \<^verbatim>\<open>src/kernel/kern/keysdb.c\<close>, which maps 16-bit keys to pointers: a page of 1024 record
  pointers, each to a record of 64 values. A null pointer is \<open>None\<close>; an access outside the page is the \<open>None\<close> of the
  outer option. Whether an allocation succeeds is a parameter.
\<close>

section \<open>Model\<close>

definition KEYS_PER_REC :: nat where "KEYS_PER_REC = 64"

type_synonym 'v keys_record_s = "'v option list"

record 'v keysdb_s =
  kroot :: "'v keys_record_s option list"
  records_nr :: nat
  records_bits :: nat
  key_width :: nat

definition keysdb_init :: "bool \<Rightarrow> 'v keysdb_s \<Rightarrow> nat \<Rightarrow> error_t \<times> 'v keysdb_s" where
  "keysdb_init alloc db width =
     (let db = db\<lparr>records_nr := 1024, records_bits := 10, key_width := width\<rparr>
      in if \<not> alloc then (Some ENOMEM, db) else (OK, db\<lparr>kroot := replicate 1024 None\<rparr>))"

text \<open>\<^verbatim>\<open>keysdb_destroy\<close>: the records it releases, in order.\<close>

definition keysdb_destroy :: "'v keysdb_s \<Rightarrow> nat list" where
  "keysdb_destroy db = filter (\<lambda>i. kroot db ! i \<noteq> None) [0..<records_nr db]"

definition keysdb_index :: "'v keysdb_s \<Rightarrow> u32 \<Rightarrow> nat \<times> nat" where
  "keysdb_index db key =
     (let bits = key_width db - records_bits db
      in (unat (drop_bit bits key), unat (key AND (push_bit bits 1 - 1))))"

text \<open>The end of both insertions: the slot must be free.\<close>

definition rec_put :: "nat \<Rightarrow> nat \<Rightarrow> 'v option \<Rightarrow> 'v keysdb_s \<Rightarrow> (error_t \<times> 'v keysdb_s) option" where
  "rec_put record_index key_index value db = do {
     p \<leftarrow> arr_get (kroot db) record_index;
     rec \<leftarrow> p;
     old \<leftarrow> arr_get rec key_index;
     if old \<noteq> None then Some (Some EEXIST, db)
     else do {
       rec \<leftarrow> arr_set rec key_index value;
       root \<leftarrow> arr_set (kroot db) record_index (Some rec);
       Some (OK, db\<lparr>kroot := root\<rparr>) } }"

definition keysdb_insert_seq :: "bool \<Rightarrow> 'v keysdb_s \<Rightarrow> u32 \<Rightarrow> 'v option \<Rightarrow> (error_t \<times> 'v keysdb_s) option" where
  "keysdb_insert_seq alloc db key value = do {
     let (record_index, key_index) = keysdb_index db key;
     p \<leftarrow> arr_get (kroot db) record_index;
     if p = None
     then if \<not> alloc then Some (Some ENOMEM, db)
          else do {
            root \<leftarrow> arr_set (kroot db) record_index (Some (replicate KEYS_PER_REC None));
            rec_put record_index key_index value (db\<lparr>kroot := root\<rparr>) }
     else rec_put record_index key_index value db }"

text \<open>
  \<^verbatim>\<open>keysdb_insert\<close> publishes a new record with a compare-and-swap. \<open>other\<close> is a record that another processor published
  between the test of the pointer and the swap, if any: the swap then fails and the new record is released.
\<close>

definition keysdb_insert :: "bool \<Rightarrow> 'v keys_record_s option \<Rightarrow> 'v keysdb_s \<Rightarrow> u32 \<Rightarrow> 'v option \<Rightarrow> (error_t \<times> 'v keysdb_s) option" where
  "keysdb_insert alloc other db key value = do {
     let (record_index, key_index) = keysdb_index db key;
     p \<leftarrow> arr_get (kroot db) record_index;
     if p = None
     then if \<not> alloc then Some (Some ENOMEM, db)
          else do {
            let p = (if other \<noteq> None then other else p);
            let p = (if p = None then Some (replicate KEYS_PER_REC None) else p);
            root \<leftarrow> arr_set (kroot db) record_index p;
            rec_put record_index key_index value (db\<lparr>kroot := root\<rparr>) }
     else rec_put record_index key_index value db }"

definition keysdb_remove :: "'v keysdb_s \<Rightarrow> u32 \<Rightarrow> ('v option \<times> 'v keysdb_s) option" where
  "keysdb_remove db key = do {
     let (record_index, key_index) = keysdb_index db key;
     p \<leftarrow> arr_get (kroot db) record_index;
     case p of
       None \<Rightarrow> Some (None, db)
     | Some rec \<Rightarrow> do {
         value \<leftarrow> arr_get rec key_index;
         rec \<leftarrow> arr_set rec key_index None;
         root \<leftarrow> arr_set (kroot db) record_index (Some rec);
         Some (value, db\<lparr>kroot := root\<rparr>) } }"

definition keysdb_lookup :: "'v keysdb_s \<Rightarrow> u32 \<Rightarrow> 'v option option" where
  "keysdb_lookup db key = do {
     let (record_index, key_index) = keysdb_index db key;
     p \<leftarrow> arr_get (kroot db) record_index;
     case p of None \<Rightarrow> Some None | Some rec \<Rightarrow> arr_get rec key_index }"

text \<open>\<^verbatim>\<open>keysdb_bind\<close>: the loop answers the error and how many keys were inserted; then these are taken out again.\<close>

primrec bind_loop :: "(nat \<Rightarrow> bool) \<Rightarrow> nat \<Rightarrow> nat \<Rightarrow> u32 \<Rightarrow> 'v option \<Rightarrow> 'v keysdb_s \<Rightarrow> (error_t \<times> nat \<times> 'v keysdb_s) option" where
  "bind_loop alloc i 0 key_start value db = Some (OK, i, db)"
| "bind_loop alloc i (Suc n) key_start value db = do {
     (err, db) \<leftarrow> keysdb_insert (alloc i) None db (key_start + of_nat i) value;
     if err \<noteq> OK then Some (err, i, db) else bind_loop alloc (Suc i) n key_start value db }"

primrec unbind_back :: "nat \<Rightarrow> u32 \<Rightarrow> 'v keysdb_s \<Rightarrow> 'v keysdb_s option" where
  "unbind_back 0 key_start db = Some db"
| "unbind_back (Suc i) key_start db = do {
     (value, db) \<leftarrow> keysdb_remove db (key_start + of_nat i);
     unbind_back i key_start db }"

definition keysdb_bind :: "(nat \<Rightarrow> bool) \<Rightarrow> 'v keysdb_s \<Rightarrow> u32 \<Rightarrow> nat \<Rightarrow> 'v option \<Rightarrow> (error_t \<times> 'v keysdb_s) option" where
  "keysdb_bind alloc db key_start keys_nr value = do {
     (err, i, db) \<leftarrow> bind_loop alloc 0 keys_nr key_start value db;
     if err = OK then Some (OK, db)
     else do { db \<leftarrow> unbind_back i key_start db; Some (err, db) } }"

primrec unbind_loop :: "nat \<Rightarrow> nat \<Rightarrow> u32 \<Rightarrow> 'v keysdb_s \<Rightarrow> 'v keysdb_s option" where
  "unbind_loop i 0 key_start db = Some db"
| "unbind_loop i (Suc n) key_start db = do {
     (value, db) \<leftarrow> keysdb_remove db (key_start + of_nat i);
     unbind_loop (Suc i) n key_start db }"

definition keysdb_unbind :: "'v keysdb_s \<Rightarrow> u32 \<Rightarrow> nat \<Rightarrow> 'v keysdb_s option" where
  "keysdb_unbind db key_start keys_nr = unbind_loop 0 keys_nr key_start db"

section \<open>The database as a map\<close>

definition db_ok :: "'v keysdb_s \<Rightarrow> bool" where
  "db_ok db \<longleftrightarrow> length (kroot db) = 1024 \<and> records_bits db = 10 \<and> key_width db = 16
     \<and> (\<forall>r. Some r \<in> set (kroot db) \<longrightarrow> length r = KEYS_PER_REC)"

definition slot :: "'v keysdb_s \<Rightarrow> nat \<Rightarrow> 'v option" where
  "slot db k = (if k < 65536 then case kroot db ! (k div 64) of None \<Rightarrow> None | Some r \<Rightarrow> r ! (k mod 64) else None)"

lemma keysdb_index_eq: "db_ok db \<Longrightarrow> keysdb_index db key = (unat key div 64, unat key mod 64)"
  using unat_and_mask [of key 6] unat_drop [of 6 key]
  by (simp add: keysdb_index_def db_ok_def mask_eq_exp_minus_1)

lemma init_ok:
  "keysdb_init True db 16 = (OK, db') \<Longrightarrow> db_ok db' \<and> slot db' = Map.empty"
  by (auto simp: keysdb_init_def db_ok_def slot_def Let_def fun_eq_iff)

lemma rec_at: "db_ok db \<Longrightarrow> i < 1024 \<Longrightarrow> kroot db ! i = Some r \<Longrightarrow> length r = 64"
  by (metis db_ok_def KEYS_PER_REC_def nth_mem)

lemma ok_update:
  assumes "db_ok db" and "length r = 64"
  shows "db_ok (db\<lparr>kroot := (kroot db)[i := Some r]\<rparr>)"
  using assms set_update_subset_insert [of "kroot db" i "Some r"] by (auto simp: db_ok_def KEYS_PER_REC_def)

lemma slot_update:
  assumes "db_ok db" and "k < 65536" and "length r = 64"
    and "\<And>j. j < 64 \<Longrightarrow> r ! j = (if j = k mod 64 then v else slot db (64 * (k div 64) + j))"
  shows "slot (db\<lparr>kroot := (kroot db)[k div 64 := Some r]\<rparr>) = (slot db)(k := v)"
proof
  fix l
  have len: "length (kroot db) = 1024" using assms(1) by (simp add: db_ok_def)
  show "slot (db\<lparr>kroot := (kroot db)[k div 64 := Some r]\<rparr>) l = ((slot db)(k := v)) l"
  proof (cases "l < 65536 \<and> l div 64 = k div 64")
    case True
    then have l: "64 * (k div 64) + l mod 64 = l" by (metis mult_div_mod_eq)
    then have "l mod 64 = k mod 64 \<longleftrightarrow> l = k" by (metis mult_div_mod_eq)
    then show ?thesis using True len assms(2) assms(4) [of "l mod 64"] l by (simp add: slot_def)
  next
    case False
    then have "l \<noteq> k" using assms(2) by auto
    then show ?thesis using False len by (auto simp: slot_def)
  qed
qed

lemma slot_fresh:
  "kroot db ! (k div 64) = None \<Longrightarrow> k < 65536 \<Longrightarrow> j < 64 \<Longrightarrow> slot db (64 * (k div 64) + j) = None"
  by (simp add: slot_def)

lemma slot_record:
  "kroot db ! (k div 64) = Some r \<Longrightarrow> k < 65536 \<Longrightarrow> j < 64 \<Longrightarrow> slot db (64 * (k div 64) + j) = r ! j"
proof -
  assume a: "kroot db ! (k div 64) = Some r" "k < 65536" "j < 64"
  then have "k div 64 \<le> 1023" by simp
  then have "64 * (k div 64) + j < 65536" using a(3) by linarith
  then show ?thesis using a by (simp add: slot_def)
qed

lemma rec_put_eq:
  assumes "db_ok db" and "k < 65536" and "kroot db ! (k div 64) = Some r"
  shows "\<exists>db'. rec_put (k div 64) (k mod 64) v db = Some (if slot db k \<noteq> None then Some EEXIST else OK, db') \<and> db_ok db'
    \<and> slot db' = (if slot db k \<noteq> None then slot db else (slot db)(k := v))"
proof -
  have len: "length (kroot db) = 1024" "length r = 64" using assms rec_at [of db "k div 64" r] by (auto simp: db_ok_def)
  have now: "slot db k = r ! (k mod 64)" using assms by (simp add: slot_def)
  show ?thesis
  proof (cases "slot db k")
    case None
    have "slot (db\<lparr>kroot := (kroot db)[k div 64 := Some (r[k mod 64 := v])]\<rparr>) = (slot db)(k := v)"
      using assms len slot_record [OF assms(3,2)] by (intro slot_update) (auto simp: nth_list_update)
    then show ?thesis using None now assms len ok_update [OF assms(1), of "r[k mod 64 := v]" "k div 64"]
      by (auto simp: rec_put_def karray)
  qed (use now assms len in \<open>auto simp: rec_put_def karray\<close>)
qed

text \<open>Insertion against the map, also when another processor published an empty record meanwhile.\<close>

lemma keysdb_insert_eq:
  assumes "db_ok db" and "unat key < 65536" and "other = None \<or> other = Some (replicate KEYS_PER_REC None)"
  shows "\<exists>err db'. keysdb_insert alloc other db key v = Some (err, db') \<and> db_ok db'
    \<and> (err = OK \<longrightarrow> slot db (unat key) = None \<and> slot db' = (slot db)(unat key := v))
    \<and> (err \<noteq> OK \<longrightarrow> slot db' = slot db \<and> (err = Some EEXIST \<and> slot db (unat key) \<noteq> None \<or> err = Some ENOMEM \<and> \<not> alloc))"
proof -
  let ?k = "unat key"
  have len: "length (kroot db) = 1024" "?k div 64 < 1024" using assms(1,2) by (auto simp: db_ok_def)
  show ?thesis
  proof (cases "kroot db ! (?k div 64)")
    case (Some r)
    from rec_put_eq [OF assms(1,2) Some, of v] show ?thesis
      using Some len keysdb_index_eq [OF assms(1)] by (auto simp: keysdb_insert_def karray split: if_splits)
  next
    case None
    let ?db = "db\<lparr>kroot := (kroot db)[?k div 64 := Some (replicate KEYS_PER_REC None)]\<rparr>"
    have free: "slot db ?k = None" using None by (simp add: slot_def)
    have ok: "db_ok ?db" by (rule ok_update [OF assms(1)]) (simp add: KEYS_PER_REC_def)
    have same: "slot ?db = slot db"
      using slot_update [OF assms(1,2), of "replicate 64 None" None] slot_fresh [OF None assms(2)] free
      by (simp add: KEYS_PER_REC_def fun_upd_idem)
    have "kroot ?db ! (?k div 64) = Some (replicate KEYS_PER_REC None)" using len by simp
    from rec_put_eq [OF ok assms(2) this, of v] show ?thesis
      using None len keysdb_index_eq [OF assms(1)] assms(1,3) free unfolding same by (auto simp: keysdb_insert_def karray)
  qed
qed

lemma keysdb_remove_eq:
  assumes "db_ok db" and "unat key < 65536"
  shows "\<exists>db'. keysdb_remove db key = Some (slot db (unat key), db') \<and> db_ok db' \<and> slot db' = (slot db)(unat key := None)"
proof -
  let ?k = "unat key"
  have len: "length (kroot db) = 1024" "?k div 64 < 1024" using assms(1,2) by (auto simp: db_ok_def)
  show ?thesis
  proof (cases "kroot db ! (?k div 64)")
    case None
    then have "slot db ?k = None" by (simp add: slot_def)
    then have "(slot db)(?k := None) = slot db" by (simp add: fun_upd_idem)
    then show ?thesis using None len assms keysdb_index_eq [OF assms(1)] by (simp add: keysdb_remove_def karray slot_def)
  next
    case (Some r)
    then have r: "length r = 64" using rec_at [OF assms(1) len(2)] by simp
    have "slot (db\<lparr>kroot := (kroot db)[?k div 64 := Some (r[?k mod 64 := None])]\<rparr>) = (slot db)(?k := None)"
      using assms r slot_record [OF Some assms(2)] by (intro slot_update) (auto simp: nth_list_update)
    then show ?thesis using Some len r assms keysdb_index_eq [OF assms(1)] ok_update [OF assms(1), of "r[?k mod 64 := None]" "?k div 64"]
      by (simp add: keysdb_remove_def karray slot_def)
  qed
qed

lemma keysdb_lookup_eq:
  assumes "db_ok db" and "unat key < 65536"
  shows "keysdb_lookup db key = Some (slot db (unat key))"
proof -
  let ?k = "unat key"
  have len: "length (kroot db) = 1024" "?k div 64 < 1024" using assms(1,2) by (auto simp: db_ok_def)
  show ?thesis using len rec_at [OF assms(1) len(2)] assms keysdb_index_eq [OF assms(1)]
    by (auto simp: keysdb_lookup_def karray slot_def split: option.split)
qed

definition bound :: "nat \<Rightarrow> nat \<Rightarrow> 'v option \<Rightarrow> (nat \<Rightarrow> 'v option) \<Rightarrow> (nat \<Rightarrow> 'v option)" where
  "bound a n v f = (\<lambda>k. if a \<le> k \<and> k < a + n then v else f k)"

lemma bound_Suc: "bound a (Suc n) v f = (bound a n v f)(a + n := v)"
  by (auto simp: bound_def fun_eq_iff less_Suc_eq)

lemma bound_0 [simp]: "bound a 0 v f = f"
  by (auto simp: bound_def fun_eq_iff)

lemma key_offset: "unat a + i < 65536 \<Longrightarrow> unat (a + of_nat i :: u32) = unat a + i"
  by (simp add: unat_word_ariths(1) unat_of_nat)

lemma bind_loop_eq:
  assumes "db_ok db" and "unat a + i + n \<le> 65536" and "slot db = bound (unat a) i v f" and "\<forall>k. unat a \<le> k \<and> k < unat a + i \<longrightarrow> f k = None"
  shows "\<exists>err j db'. bind_loop alloc i n a v db = Some (err, j, db') \<and> db_ok db' \<and> i \<le> j \<and> j \<le> i + n
    \<and> slot db' = bound (unat a) j v f \<and> (\<forall>k. unat a \<le> k \<and> k < unat a + j \<longrightarrow> f k = None) \<and> (err = OK \<longrightarrow> j = i + n)"
  using assms
proof (induction n arbitrary: i db)
  case (Suc n)
  have key: "unat (a + of_nat i) = unat a + i" using Suc.prems(2) by (intro key_offset) simp
  obtain err db' where ins: "keysdb_insert (alloc i) None db (a + of_nat i) v = Some (err, db')" "db_ok db'"
    "err = OK \<longrightarrow> slot db (unat a + i) = None \<and> slot db' = (slot db)(unat a + i := v)" "err \<noteq> OK \<longrightarrow> slot db' = slot db"
    using keysdb_insert_eq [OF Suc.prems(1), of "a + of_nat i" None "alloc i" v] key Suc.prems(2) by auto
  show ?case
  proof (cases "err = OK")
    case True
    then have "slot db' = bound (unat a) (Suc i) v f" using ins(3) Suc.prems(3) by (simp add: bound_Suc)
    moreover have "f (unat a + i) = None" using ins(3) True Suc.prems(3) by (simp add: bound_def)
    then have "\<forall>k. unat a \<le> k \<and> k < unat a + Suc i \<longrightarrow> f k = None" using Suc.prems(4) by (auto simp: less_Suc_eq)
    ultimately show ?thesis using Suc.IH [OF ins(2), of "Suc i"] Suc.prems(2) ins(1) True by fastforce
  next
    case False
    then show ?thesis using ins Suc.prems(3,4) by simp
  qed
qed simp

lemma unbind_back_eq:
  assumes "db_ok db" and "unat a + j \<le> 65536" and "slot db = bound (unat a) j v f" and "\<forall>k. unat a \<le> k \<and> k < unat a + j \<longrightarrow> f k = None"
  shows "\<exists>db'. unbind_back j a db = Some db' \<and> db_ok db' \<and> slot db' = f"
  using assms
proof (induction j arbitrary: db)
  case (Suc j)
  have key: "unat (a + of_nat j) = unat a + j" using Suc.prems(2) by (intro key_offset) simp
  have "(bound (unat a) (Suc j) v f)(unat a + j := None) = bound (unat a) j v f"
    using Suc.prems(4) by (auto simp: bound_def fun_eq_iff)
  then obtain val db' where "keysdb_remove db (a + of_nat j) = Some (val, db')" "db_ok db'" "slot db' = bound (unat a) j v f"
    using keysdb_remove_eq [OF Suc.prems(1), of "a + of_nat j"] key Suc.prems(2,3) by auto
  then show ?case using Suc.IH [of db'] Suc.prems(2,4) by auto
qed simp

lemma unbind_loop_eq:
  assumes "db_ok db" and "unat a + i + n \<le> 65536"
  shows "\<exists>db'. unbind_loop i n a db = Some db' \<and> db_ok db' \<and> slot db' = bound (unat a + i) n None (slot db)"
  using assms
proof (induction n arbitrary: i db)
  case (Suc n)
  have key: "unat (a + of_nat i) = unat a + i" using Suc.prems(2) by (intro key_offset) simp
  obtain val db' where r: "keysdb_remove db (a + of_nat i) = Some (val, db')" "db_ok db'" "slot db' = (slot db)(unat a + i := None)"
    using keysdb_remove_eq [OF Suc.prems(1), of "a + of_nat i"] key Suc.prems(2) by auto
  have "bound (unat a + Suc i) n None ((slot db)(unat a + i := None)) = bound (unat a + i) (Suc n) None (slot db)"
    by (auto simp: bound_def fun_eq_iff)
  then show ?case using Suc.IH [OF r(2), of "Suc i"] Suc.prems(2) r by (auto simp: fun_upd_def)
qed simp

lemma keysdb_bind_eq:
  assumes "db_ok db" and "unat key_start + keys_nr \<le> 65536"
  shows "\<exists>err db'. keysdb_bind alloc db key_start keys_nr v = Some (err, db') \<and> db_ok db'
    \<and> (err = OK \<longrightarrow> (\<forall>k. unat key_start \<le> k \<and> k < unat key_start + keys_nr \<longrightarrow> slot db k = None) \<and> slot db' = bound (unat key_start) keys_nr v (slot db))
    \<and> (err \<noteq> OK \<longrightarrow> slot db' = slot db)"
proof -
  let ?a = "unat key_start"
  have z: "\<forall>k. ?a \<le> k \<and> k < ?a + 0 \<longrightarrow> slot db k = None" by auto
  obtain err j db' where b: "bind_loop alloc 0 keys_nr key_start v db = Some (err, j, db')" "db_ok db'" "j \<le> keys_nr"
    "slot db' = bound ?a j v (slot db)" "\<forall>k. ?a \<le> k \<and> k < ?a + j \<longrightarrow> slot db k = None" "err = OK \<longrightarrow> j = keys_nr"
    using bind_loop_eq [OF assms(1) _ _ z, of keys_nr v alloc] assms(2) by auto
  then show ?thesis using unbind_back_eq [OF b(2) _ b(4,5)] assms(2) by (cases "err = OK") (auto simp: keysdb_bind_def)
qed

lemma keysdb_unbind_eq:
  assumes "db_ok db" and "unat key_start + keys_nr \<le> 65536"
  shows "\<exists>db'. keysdb_unbind db key_start keys_nr = Some db' \<and> db_ok db' \<and> slot db' = bound (unat key_start) keys_nr None (slot db)"
  using unbind_loop_eq [OF assms(1), of key_start 0 keys_nr] assms(2) by (simp add: keysdb_unbind_def)

text \<open>
  C33: Binding a range of keys is all or nothing. Inside the key space \<^verbatim>\<open>keysdb_bind\<close> stays within the pages; if it answers no error then
  all keys of the range were free and are now bound to the value, every other key is unchanged, and \<^verbatim>\<open>keysdb_unbind\<close> of the range gives
  the old contents back; if it answers an error, because a key was taken or memory ran out halfway, every key is bound as before.
\<close>

theorem keysdb_bind_atomic:
  assumes "db_ok db" and "unat key_start + keys_nr \<le> 65536"
  shows "\<exists>err db'. keysdb_bind alloc db key_start keys_nr v = Some (err, db') \<and> db_ok db'
    \<and> (err = OK \<longrightarrow> (\<forall>k. unat key_start \<le> k \<and> k < unat key_start + keys_nr \<longrightarrow> slot db k = None)
         \<and> slot db' = bound (unat key_start) keys_nr v (slot db)
         \<and> (\<exists>db2. keysdb_unbind db' key_start keys_nr = Some db2 \<and> db_ok db2 \<and> slot db2 = slot db))
    \<and> (err \<noteq> OK \<longrightarrow> slot db' = slot db)"
proof -
  obtain err db' where b: "keysdb_bind alloc db key_start keys_nr v = Some (err, db')" "db_ok db'"
    "err = OK \<longrightarrow> (\<forall>k. unat key_start \<le> k \<and> k < unat key_start + keys_nr \<longrightarrow> slot db k = None) \<and> slot db' = bound (unat key_start) keys_nr v (slot db)"
    "err \<noteq> OK \<longrightarrow> slot db' = slot db"
    using keysdb_bind_eq [OF assms] by blast
  have "bound (unat key_start) keys_nr None (slot db') = slot db" if "err = OK" using b(3) that by (auto simp: bound_def fun_eq_iff)
  then show ?thesis using b keysdb_unbind_eq [OF b(2) assms(2)] by auto
qed

definition demo_db :: "nat keysdb_s" where
  "demo_db = snd (keysdb_init True \<lparr>kroot = [], records_nr = 0, records_bits = 0, key_width = 0\<rparr> 16)"

lemma demo_db_ok: "db_ok demo_db \<and> slot demo_db = Map.empty"
  by (rule init_ok) (simp add: demo_db_def keysdb_init_def)

theorem keysdb_bind_atomic_witness:
  "\<exists>err db'. keysdb_bind (\<lambda>i. i < 3) demo_db 62 4 (Some 7) = Some (err, db') \<and> db_ok db' \<and> (err \<noteq> OK \<longrightarrow> slot db' = Map.empty)"
  using keysdb_bind_atomic [of demo_db 62 4 "\<lambda>i. i < 3" "Some 7"] demo_db_ok by auto

end
