(* ===== verification/Mm_Pmm.thy ===== *)
theory Mm_Pmm
  imports Kernel_Prelude "HOL-Library.Monad_Syntax"
begin

text \<open>
  The page tables of a task on the TSAR architecture, \<^verbatim>\<open>src/kernel/arch/tsar/pmm.c\<close> and \<^verbatim>\<open>arch-pmm.h\<close> (with \<^verbatim>\<open>RUN_IN_PHYSICAL_MODE\<close>). The directory has
  2048 entries, each 0, a huge page of 2 megabytes, or the address of a table of 512 entries of two words. The words of the tables are
  in a store indexed by address. The page that an allocation returns is a parameter; so is the entry another processor wrote to the
  directory first, if any.
\<close>

section \<open>Constants\<close>

definition PMM_PAGE_SIZE :: u32 where [kconfig]: "PMM_PAGE_SIZE = 0x1000"
definition PMM_HUGE_PAGE_SIZE :: u32 where [kconfig]: "PMM_HUGE_PAGE_SIZE = 0x200000"

definition PMM_BIT_ORDER :: "nat \<Rightarrow> u32" where [kconfig]: "PMM_BIT_ORDER x = push_bit x 1"

definition PMM_PRESENT :: u32 where [kconfig]: "PMM_PRESENT = PMM_BIT_ORDER 31"
definition PMM_READ :: u32 where [kconfig]: "PMM_READ = PMM_BIT_ORDER 31"
definition PMM_HUGE :: u32 where [kconfig]: "PMM_HUGE = PMM_BIT_ORDER 30"
definition MMU_PTD1 :: u32 where [kconfig]: "MMU_PTD1 = PMM_BIT_ORDER 30"
definition PMM_ACCESSED :: u32 where [kconfig]: "PMM_ACCESSED = PMM_BIT_ORDER 29 OR PMM_BIT_ORDER 28"
definition PMM_CACHED :: u32 where [kconfig]: "PMM_CACHED = PMM_BIT_ORDER 27"
definition PMM_WRITE :: u32 where [kconfig]: "PMM_WRITE = PMM_BIT_ORDER 26"
definition PMM_EXECUTE :: u32 where [kconfig]: "PMM_EXECUTE = PMM_BIT_ORDER 25"
definition PMM_USER :: u32 where [kconfig]: "PMM_USER = PMM_BIT_ORDER 24"
definition PMM_DIRTY :: u32 where [kconfig]: "PMM_DIRTY = PMM_BIT_ORDER 22"
definition PMM_COW :: u32 where [kconfig]: "PMM_COW = 0x01"
definition PMM_MIGRATE :: u32 where [kconfig]: "PMM_MIGRATE = 0x02"
definition PMM_LOCKED :: u32 where [kconfig]: "PMM_LOCKED = 0x08"
definition PMM_CLEAR :: u32 where [kconfig]: "PMM_CLEAR = 0x10"

definition MMU_PTE_MASK :: u32 where [kconfig]: "MMU_PTE_MASK = 0x001FF000"
definition MMU_PDE_PPN_MASK :: u32 where [kconfig]: "MMU_PDE_PPN_MASK = 0x0007FFFF"
definition MMU_PDE_ATTR_MASK :: u32 where [kconfig]: "MMU_PDE_ATTR_MASK = 0xFFC00000"
definition MMU_PPN_MASK :: u32 where [kconfig]: "MMU_PPN_MASK = PMM_BIT_ORDER 28 - 1"

text \<open>A test \<^verbatim>\<open>val & flag\<close>.\<close>

definition flag_set :: "u32 \<Rightarrow> u32 \<Rightarrow> bool" where
  "flag_set v f \<longleftrightarrow> v AND f \<noteq> 0"

section \<open>Model\<close>

record pmm_page_info =
  attr :: u32
  ppn :: u32
  isAtomic :: bool
  data :: u32

record pmm_s =
  pgdir :: "u32 \<Rightarrow> u32"
  pmem :: "u32 \<Rightarrow> u32"

definition MMU_PDE :: "u32 \<Rightarrow> u32" where
  "MMU_PDE vma = drop_bit 21 vma"

definition MMU_PTE :: "u32 \<Rightarrow> u32" where
  "MMU_PTE vma = push_bit 3 (drop_bit 12 (vma AND MMU_PTE_MASK))"

definition pmm_ppn2vma :: "u32 \<Rightarrow> u32" where
  "pmm_ppn2vma p = push_bit 12 p"

text \<open>The table a directory entry points at, and in it the entry of an address.\<close>

definition pte_of :: "u32 \<Rightarrow> u32 \<Rightarrow> u32" where
  "pte_of pde_val vaddr = pmm_ppn2vma (pde_val AND MMU_PPN_MASK) + MMU_PTE vaddr"

text \<open>\<^verbatim>\<open>pmm_alloc_pages\<close> asks for a page filled with zeros.\<close>

definition zero_page :: "u32 \<Rightarrow> pmm_s \<Rightarrow> pmm_s" where
  "zero_page p P = P\<lparr>pmem := (\<lambda>a. if a AND NOT 0xFFF = pmm_ppn2vma p then 0 else pmem P a)\<rparr>"

text \<open>
  The part common to \<^verbatim>\<open>__pmm_set_page\<close> and \<^verbatim>\<open>pmm_lock_page\<close>: the table of an address, allocated when there is none. When another
  processor was faster (\<open>race\<close>) its entry is used and the new page is released.
\<close>

definition get_table :: "u32 option \<Rightarrow> u32 option \<Rightarrow> u32 \<Rightarrow> pmm_s \<Rightarrow> (u32 \<times> pmm_s) option" where
  "get_table alloc race vaddr P =
     (let i = MMU_PDE vaddr; pde_val = pgdir P i
      in if pde_val = 0
         then case alloc of
                None \<Rightarrow> None
              | Some p \<Rightarrow>
                  (case race of
                     Some other \<Rightarrow> Some (pte_of other vaddr, P\<lparr>pgdir := (pgdir P)(i := other)\<rparr>)
                   | None \<Rightarrow> let P = zero_page p P
                             in Some (pmm_ppn2vma p + MMU_PTE vaddr, P\<lparr>pgdir := (pgdir P)(i := PMM_PRESENT OR MMU_PTD1 OR p)\<rparr>))
         else Some (pte_of pde_val vaddr, P))"

definition pmm_set_page :: "u32 option \<Rightarrow> u32 option \<Rightarrow> u32 \<Rightarrow> pmm_page_info \<Rightarrow> pmm_s \<Rightarrow> error_t \<times> pmm_s" where
  "pmm_set_page alloc race vaddr info P =
     (let i = MMU_PDE vaddr;
          isHuge = flag_set (attr info) PMM_HUGE;
          a = (if flag_set (attr info) PMM_CLEAR then if isHuge then PMM_HUGE else 0 else attr info);
          p = (if flag_set (attr info) PMM_CLEAR then 0 else ppn info);
          pde_val = pgdir P i
      in if isHuge
         then if p \<noteq> 0 \<and> (pde_val \<noteq> 0 \<or> flag_set a PMM_COW) then (Some EINVAL, P)
              else (OK, P\<lparr>pgdir := (pgdir P)(i := (a XOR PMM_HUGE) OR drop_bit 9 p)\<rparr>)
         else case get_table alloc race vaddr P of
                None \<Rightarrow> (Some ENOMEM, P)
              | Some (pte, P) \<Rightarrow> (OK, P\<lparr>pmem := (pmem P)(pte + 4 := p, pte := a)\<rparr>))"

definition pmm_get_page :: "u32 \<Rightarrow> pmm_s \<Rightarrow> u32 \<times> u32" where
  "pmm_get_page vaddr P =
     (let val = pgdir P (MMU_PDE vaddr)
      in if \<not> flag_set val PMM_PRESENT then (0, 0)
         else if \<not> flag_set val PMM_HUGE
         then ((val AND MMU_PDE_ATTR_MASK) OR PMM_HUGE,
               drop_bit 12 (push_bit 21 (val AND MMU_PDE_PPN_MASK) OR (vaddr AND 0x1FFFFF)))
         else (pmem P (pte_of val vaddr), pmem P (pte_of val vaddr + 4) AND MMU_PPN_MASK))"

text \<open>
  \<^verbatim>\<open>pmm_lock_page\<close> spins while the entry is locked: \<open>None\<close> is a call that does not return, nobody else running.
\<close>

definition pmm_lock_page :: "u32 option \<Rightarrow> u32 option \<Rightarrow> u32 \<Rightarrow> pmm_page_info \<Rightarrow> pmm_s \<Rightarrow> (error_t \<times> pmm_page_info \<times> pmm_s) option" where
  "pmm_lock_page alloc race vaddr info P =
     (let pde_val = pgdir P (MMU_PDE vaddr)
      in if pde_val \<noteq> 0 \<and> \<not> flag_set pde_val PMM_HUGE then Some (Some EINVAL, info, P)
         else case get_table alloc race vaddr P of
                None \<Rightarrow> Some (Some ENOMEM, info, P)
              | Some (pte, P) \<Rightarrow>
                  (let a = pmem P pte
                   in if flag_set a PMM_LOCKED then None
                      else Some (OK, \<lparr>attr = a, ppn = pmem P (pte + 4) AND MMU_PPN_MASK, isAtomic = True, data = pte\<rparr>,
                                 P\<lparr>pmem := (pmem P)(pte := a OR PMM_LOCKED)\<rparr>)))"

text \<open>
  \<^verbatim>\<open>attr &= !PMM_LOCKED\<close>: the logical negation of a constant that is not 0 is 0. The assertion that the entry is locked only prints
  when it fails, and the function goes on.
\<close>

definition pmm_unlock_page :: "pmm_page_info \<Rightarrow> pmm_s \<Rightarrow> pmm_page_info \<times> pmm_s" where
  "pmm_unlock_page info P =
     (let pte = data info; a = pmem P pte AND (if PMM_LOCKED = 0 then 1 else 0)
      in (info\<lparr>attr := a, ppn := pmem P (pte + 4), isAtomic := True\<rparr>, P\<lparr>pmem := (pmem P)(pte := a)\<rparr>))"

section \<open>Addresses of table entries\<close>

definition is_table :: "u32 \<Rightarrow> bool" where
  "is_table v \<longleftrightarrow> bit v 31 \<and> bit v 30"

definition tbl :: "u32 \<Rightarrow> nat" where
  "tbl v = unat v mod 2 ^ 20"

definition idx :: "u32 \<Rightarrow> nat" where
  "idx v = unat v div 4096 mod 512"

lemma flag_bit: "n < 32 \<Longrightarrow> flag_set v (PMM_BIT_ORDER n) \<longleftrightarrow> bit v n"
proof -
  assume "n < 32"
  then have "v AND push_bit n 1 = (if bit v n then push_bit n 1 else 0)"
    by (intro bit_word_eqI) (auto simp: bit_simps)
  moreover have "push_bit n (1 :: u32) \<noteq> 0" using bit_push_bit_1 [OF \<open>n < 32\<close>, of n] by (metis bit_0_eq bot_apply bot_bool_def)
  ultimately show ?thesis by (simp add: flag_set_def PMM_BIT_ORDER_def)
qed

lemma present_bit [simp]: "flag_set v PMM_PRESENT \<longleftrightarrow> bit v 31"
  by (simp add: PMM_PRESENT_def flag_bit)

lemma huge_bit [simp]: "flag_set v PMM_HUGE \<longleftrightarrow> bit v 30"
  by (simp add: PMM_HUGE_def flag_bit)

lemma ppn_mask: "MMU_PPN_MASK = mask 28"
  by (simp add: MMU_PPN_MASK_def PMM_BIT_ORDER_def mask_eq_exp_minus_1)

lemma unat_push: "unat (push_bit k w) = unat w * 2 ^ k mod 4294967296" for w :: u32
  unfolding unsigned_push_bit_eq take_bit_eq_mod by (simp add: push_bit_eq_mult)

lemma mod_20_12: "(n mod 268435456) * 4096 mod 4294967296 = n mod 1048576 * 4096" for n :: nat
proof -
  have "(n mod 268435456) * 4096 mod 4294967296 = n mod 268435456 mod 1048576 * 4096" using mult_mod_left [of "n mod 268435456" 1048576 4096] by simp
  also have "n mod 268435456 mod 1048576 = n mod 1048576" by (rule mod_mod_cancel) simp
  finally show ?thesis .
qed

lemma unat_table: "unat (pmm_ppn2vma (v AND MMU_PPN_MASK)) = tbl v * 4096"
  unfolding pmm_ppn2vma_def unat_push ppn_mask unat_and_mask by (simp add: tbl_def mod_20_12)

lemma pte_mask: "MMU_PTE_MASK = push_bit 12 (mask 9)"
  by (simp add: MMU_PTE_MASK_def mask_eq_exp_minus_1)

lemma unat_MMU_PTE: "unat (MMU_PTE v) = idx v * 8"
proof -
  have "drop_bit 12 (v AND MMU_PTE_MASK) = drop_bit 12 v AND mask 9"
    by (rule bit_word_eqI) (auto simp: pte_mask bit_simps)
  then show ?thesis unfolding MMU_PTE_def unat_push by (simp only: unat_and_mask unat_drop idx_def) simp
qed

lemma tbl_bound: "tbl v < 1048576" and idx_bound: "idx v < 512"
  by (simp_all add: tbl_def idx_def)

lemma unat_pte_of: "unat (pte_of v a) = tbl v * 4096 + idx a * 8"
  using tbl_bound [of v] idx_bound [of a] by (simp add: pte_of_def unat_word_ariths unat_table unat_MMU_PTE)

lemma unat_pte_of_4: "unat (pte_of v a + 4) = tbl v * 4096 + idx a * 8 + 4"
  using tbl_bound [of v] idx_bound [of a] by (simp add: unat_word_ariths unat_pte_of)

lemma pos_eq: "t * 4096 + i * 8 = u * 4096 + j * 8 \<longleftrightarrow> t = u \<and> i = j" if "i < 512" "j < 512" for t u i j :: nat
proof -
  have "(x * 4096 + k * 8) div 4096 = x" "(x * 4096 + k * 8) mod 4096 = k * 8" if "k < 512" for x k :: nat
    using that by auto
  then show ?thesis using that by (metis mult_cancel2 zero_neq_numeral)
qed

lemma pte_of_eq [simp]: "pte_of v a = pte_of w b \<longleftrightarrow> tbl v = tbl w \<and> idx a = idx b"
  using pos_eq [of "idx a" "idx b" "tbl v" "tbl w"] idx_bound by (simp add: unat_pte_of word_unat_eq_iff)

lemma pte_of_4 [simp]: "pte_of v a + 4 \<noteq> pte_of w b" "pte_of w b \<noteq> pte_of v a + 4"
proof -
  have "(t * 4096 + i * 8 + 4) mod 8 = 4" "(t * 4096 + i * 8) mod 8 = 0" for t i :: nat
    using mod_mult_self1 [of 4 "t * 512 + i" 8] mod_mult_self2_is_0 [of "t * 512 + i" 8] by (simp_all add: algebra_simps)
  then have "unat (pte_of v a + 4) \<noteq> unat (pte_of w b)" unfolding unat_pte_of unat_pte_of_4 by (metis zero_neq_numeral)
  then show "pte_of v a + 4 \<noteq> pte_of w b" "pte_of w b \<noteq> pte_of v a + 4" by metis+
qed

definition same_page :: "u32 \<Rightarrow> u32 \<Rightarrow> bool" where
  "same_page a b \<longleftrightarrow> unat a div 4096 = unat b div 4096"

lemma unat_PDE: "unat (MMU_PDE a) = unat a div 2097152"
  by (simp add: MMU_PDE_def unat_drop)

lemma same_page_iff: "same_page a b \<longleftrightarrow> MMU_PDE a = MMU_PDE b \<and> idx a = idx b"
proof -
  have d: "n div 2097152 = n div 4096 div 512" for n :: nat using div_mult2_eq [of n 4096 512] by simp
  have "MMU_PDE a = MMU_PDE b \<longleftrightarrow> unat a div 4096 div 512 = unat b div 4096 div 512" by (simp add: unat_PDE d word_unat_eq_iff)
  then show ?thesis unfolding same_page_def idx_def by (metis div_mult_mod_eq)
qed

section \<open>Small pages\<close>

text \<open>Every directory entry in use is marked present, and no two of them share a table.\<close>

definition pmm_ok :: "pmm_s \<Rightarrow> bool" where
  "pmm_ok P \<longleftrightarrow> (\<forall>i. pgdir P i \<noteq> 0 \<longrightarrow> bit (pgdir P i) 31)
     \<and> (\<forall>i j. is_table (pgdir P i) \<and> is_table (pgdir P j) \<and> tbl (pgdir P i) = tbl (pgdir P j) \<longrightarrow> i = j)"

definition fresh :: "u32 \<Rightarrow> pmm_s \<Rightarrow> bool" where
  "fresh p P \<longleftrightarrow> (\<forall>i. is_table (pgdir P i) \<longrightarrow> tbl (pgdir P i) \<noteq> tbl p)"

lemma get_small: "is_table (pgdir P (MMU_PDE v)) \<Longrightarrow>
    pmm_get_page v P = (pmem P (pte_of (pgdir P (MMU_PDE v)) v), pmem P (pte_of (pgdir P (MMU_PDE v)) v + 4) AND MMU_PPN_MASK)"
  by (simp add: pmm_get_page_def is_table_def Let_def)

lemma new_entry: "is_table (PMM_PRESENT OR MMU_PTD1 OR p)" "tbl (PMM_PRESENT OR MMU_PTD1 OR p) = tbl p"
proof -
  show "is_table (PMM_PRESENT OR MMU_PTD1 OR p)" by (simp add: is_table_def kconfig bit_simps)
  have "(PMM_PRESENT OR MMU_PTD1 OR p) AND mask 20 = p AND mask 20" 
    by (rule bit_word_eqI) (auto simp: PMM_PRESENT_def MMU_PTD1_def PMM_BIT_ORDER_def bit_and_iff bit_or_iff bit_mask_iff bit_push_bit_1
        simp del: push_bit_of_1)
  then show "tbl (PMM_PRESENT OR MMU_PTD1 OR p) = tbl p" unfolding tbl_def by (metis unat_and_mask)
qed

lemma page_mask: "(0xFFF :: u32) = mask 12"
  by (simp add: mask_eq_exp_minus_1)

lemma page_of_pte: "unat (pte_of v a AND NOT 0xFFF) = tbl v * 4096" "unat ((pte_of v a + 4) AND NOT 0xFFF) = tbl v * 4096"
proof -
  have "idx a * 8 < 4096" "idx a * 8 + 4 < 4096" using idx_bound [of a] by simp_all
  then show "unat (pte_of v a AND NOT 0xFFF) = tbl v * 4096" "unat ((pte_of v a + 4) AND NOT 0xFFF) = tbl v * 4096"
    unfolding page_mask unat_and_not_mask unat_pte_of unat_pte_of_4 by (simp_all add: add.assoc)
qed

lemma unat_ppn2vma: "unat (pmm_ppn2vma p) = tbl p * 4096"
  unfolding pmm_ppn2vma_def unat_push tbl_def using mult_mod_left [of "unat p" 1048576 4096] by simp

lemma in_page: "pte_of v a AND NOT 0xFFF = pmm_ppn2vma p \<longleftrightarrow> tbl v = tbl p" "(pte_of v a + 4) AND NOT 0xFFF = pmm_ppn2vma p \<longleftrightarrow> tbl v = tbl p"
  unfolding word_unat_eq_iff page_of_pte unat_ppn2vma by simp_all

lemma zero_page_mem: "pmem (zero_page p P) a = (if a AND NOT 0xFFF = pmm_ppn2vma p then 0 else pmem P a)"
  by (simp add: zero_page_def)

lemma zero_page_pte:
  "pmem (zero_page p P) (pte_of v a) = (if tbl v = tbl p then 0 else pmem P (pte_of v a))"
  "pmem (zero_page p P) (pte_of v a + 4) = (if tbl v = tbl p then 0 else pmem P (pte_of v a + 4))"
  unfolding zero_page_mem in_page by (rule refl)+

lemma new_pte: "pmm_ppn2vma p + MMU_PTE v = pte_of (PMM_PRESENT OR MMU_PTD1 OR p) v"
  using tbl_bound [of p] idx_bound [of v]
  by (simp add: word_unat_eq_iff unat_pte_of unat_word_ariths unat_ppn2vma unat_MMU_PTE new_entry)

definition table_room :: "u32 option \<Rightarrow> u32 \<Rightarrow> pmm_s \<Rightarrow> bool" where
  "table_room alloc v P \<longleftrightarrow> (if pgdir P (MMU_PDE v) = 0 then \<forall>p. alloc = Some p \<longrightarrow> fresh p P else is_table (pgdir P (MMU_PDE v)))"

lemma get_small_iff: "pmm_ok P \<Longrightarrow> table_room alloc v P \<Longrightarrow> \<not> is_table (pgdir P (MMU_PDE v)) \<Longrightarrow> pmm_get_page v P = (0, 0)"
  by (auto simp: table_room_def pmm_get_page_def split: if_splits)

lemma get_table_ok:
  assumes ok: "pmm_ok P" and room: "table_room alloc v P" and g: "get_table alloc None v P = Some (pte, Q)"
  shows "pmm_ok Q" and "is_table (pgdir Q (MMU_PDE v))" and "pte = pte_of (pgdir Q (MMU_PDE v)) v" and "pmm_get_page w Q = pmm_get_page w P"
proof -
  let ?i = "MMU_PDE v"
  have "pmm_ok Q \<and> is_table (pgdir Q ?i) \<and> pte = pte_of (pgdir Q ?i) v \<and> pmm_get_page w Q = pmm_get_page w P"
  proof (cases "pgdir P ?i = 0")
    case False
    then show ?thesis using assms by (auto simp: get_table_def table_room_def)
  next
    case True
    then obtain p where p: "alloc = Some p" and Q: "Q = (zero_page p P)\<lparr>pgdir := (pgdir P)(?i := PMM_PRESENT OR MMU_PTD1 OR p)\<rparr>"
        "pte = pte_of (PMM_PRESENT OR MMU_PTD1 OR p) v"
      using g by (auto simp: get_table_def Let_def new_pte zero_page_def split: option.splits)
    have f: "\<And>i. is_table (pgdir P i) \<Longrightarrow> tbl (pgdir P i) \<noteq> tbl p" using room True p by (simp add: table_room_def fresh_def)
    have "bit (PMM_PRESENT OR MMU_PTD1 OR p) 31" using new_entry(1) by (simp add: is_table_def)
    then have "pmm_ok Q" using ok f unfolding Q(1) pmm_ok_def by (auto simp: new_entry) (metis f)
    moreover have "pmm_get_page w Q = pmm_get_page w P"
    proof (cases "MMU_PDE w = ?i")
      case eq: True
      have "pmm_get_page w Q = (0, 0)" using get_small [of Q w] eq by (simp add: Q new_entry zero_page_pte)
      moreover have "pmm_get_page w P = (0, 0)" using True eq by (simp add: pmm_get_page_def)
      ultimately show ?thesis by simp
    next
      case False
      then show ?thesis using f [of "MMU_PDE w"]
        by (auto simp: pmm_get_page_def Q Let_def zero_page_pte is_table_def)
    qed
    ultimately show ?thesis using Q by (simp add: new_entry)
  qed
  then show "pmm_ok Q" and "is_table (pgdir Q ?i)" and "pte = pte_of (pgdir Q ?i) v" and "pmm_get_page w Q = pmm_get_page w P" by blast+
qed

lemma get_after_write:
  assumes ok: "pmm_ok Q" and t: "is_table (pgdir Q (MMU_PDE v))"
  shows "pmm_get_page w (Q\<lparr>pmem := (pmem Q)(pte_of (pgdir Q (MMU_PDE v)) v + 4 := p, pte_of (pgdir Q (MMU_PDE v)) v := a)\<rparr>) =
    (if same_page w v then (a, p AND MMU_PPN_MASK) else pmm_get_page w Q)"
proof (cases "is_table (pgdir Q (MMU_PDE w))")
  case True
  have "tbl (pgdir Q (MMU_PDE w)) = tbl (pgdir Q (MMU_PDE v)) \<longleftrightarrow> MMU_PDE w = MMU_PDE v"
    using ok True t by (auto simp: pmm_ok_def)
  then show ?thesis using get_small [of Q w] True by (auto simp: get_small same_page_iff)
next
  case False
  then have "\<not> same_page w v" using t by (auto simp: same_page_iff)
  then show ?thesis using False by (auto simp: pmm_get_page_def is_table_def Let_def)
qed

lemma small_write:
  assumes "\<not> bit (attr info) 30" and "\<not> flag_set (attr info) PMM_CLEAR"
  shows "pmm_set_page alloc race v info P = (case get_table alloc race v P of
     None \<Rightarrow> (Some ENOMEM, P)
   | Some (pte, Q) \<Rightarrow> (OK, Q\<lparr>pmem := (pmem Q)(pte + 4 := ppn info, pte := attr info)\<rparr>))"
  using assms by (simp add: pmm_set_page_def Let_def)

lemma pmm_ok_mem [simp]: "pmm_ok (Q\<lparr>pmem := m\<rparr>) \<longleftrightarrow> pmm_ok Q"
  by (simp add: pmm_ok_def)

lemma set_page_small:
  assumes "pmm_ok P" and "table_room alloc v P" and "\<not> bit (attr info) 30" and "\<not> flag_set (attr info) PMM_CLEAR"
    and "pgdir P (MMU_PDE v) = 0 \<Longrightarrow> alloc \<noteq> None"
  shows "\<exists>Q. pmm_set_page alloc None v info P = (OK, Q) \<and> pmm_ok Q
    \<and> (\<forall>w. pmm_get_page w Q = (if same_page w v then (attr info, ppn info AND MMU_PPN_MASK) else pmm_get_page w P))"
proof -
  obtain pte Q where g: "get_table alloc None v P = Some (pte, Q)" using assms(5)
    by (cases "pgdir P (MMU_PDE v) = 0"; cases alloc) (auto simp: get_table_def Let_def)
  note q = get_table_ok [OF assms(1,2) g]
  show ?thesis using q get_after_write [OF q(1,2)] small_write [OF assms(3,4)] g by simp
qed

text \<open>
  C13: Mapping a page and reading the mapping back. On page tables in order (directory entries present, no table shared), \<^verbatim>\<open>pmm_set_page\<close>
  of a small page answers \<^verbatim>\<open>ENOMEM\<close> and changes nothing when a table is needed and none can be had; otherwise it succeeds, the tables are still in
  order, \<^verbatim>\<open>pmm_get_page\<close> of every address in that page answers the attributes and the page number that were set, and of every other address what it
  answered before. A new table must be a page that no directory entry points at.
\<close>

theorem pmm_set_get:
  assumes "pmm_ok P" and "table_room alloc v P" and "\<not> bit (attr info) 30" and "\<not> flag_set (attr info) PMM_CLEAR"
  shows "if pgdir P (MMU_PDE v) = 0 \<and> alloc = None then pmm_set_page alloc None v info P = (Some ENOMEM, P)
    else \<exists>Q. pmm_set_page alloc None v info P = (OK, Q) \<and> pmm_ok Q
      \<and> (\<forall>w. pmm_get_page w Q = (if same_page w v then (attr info, ppn info AND MMU_PPN_MASK) else pmm_get_page w P))"
proof (cases "pgdir P (MMU_PDE v) = 0 \<and> alloc = None")
  case True
  then show ?thesis using small_write [OF assms(3,4)] by (simp add: get_table_def)
next
  case False
  then show ?thesis using set_page_small [OF assms] by auto
qed

definition empty_pmm :: pmm_s where
  "empty_pmm = \<lparr>pgdir = (\<lambda>_. 0), pmem = (\<lambda>_. 0)\<rparr>"

lemma empty_ok: "pmm_ok empty_pmm" "pgdir empty_pmm i = 0" "fresh p empty_pmm"
  by (simp_all add: pmm_ok_def empty_pmm_def is_table_def fresh_def)

theorem pmm_set_get_witness:
  "\<exists>Q. pmm_set_page (Some 7) None 0x5000 \<lparr>attr = 0x80000000, ppn = 9, isAtomic = False, data = 0\<rparr> empty_pmm = (OK, Q)
     \<and> pmm_get_page 0x5123 Q = (0x80000000, 9)"
  using pmm_set_get [of empty_pmm "Some 7" "0x5000" "\<lparr>attr = 0x80000000, ppn = 9, isAtomic = False, data = 0\<rparr>"]
  by (auto simp: empty_ok table_room_def flag_set_def PMM_CLEAR_def same_page_def MMU_PPN_MASK_def PMM_BIT_ORDER_def bit_numeral_rec)

section \<open>Huge pages\<close>

lemma pde_ppn_mask: "MMU_PDE_PPN_MASK = mask 19" and pde_attr_mask: "MMU_PDE_ATTR_MASK = push_bit 22 (mask 10)" and huge_mask: "(0x1FFFFF :: u32) = mask 21"
  by (simp_all add: MMU_PDE_PPN_MASK_def MMU_PDE_ATTR_MASK_def mask_eq_exp_minus_1)

lemma sum_bound: "x < 2048 \<Longrightarrow> y < 2097152 \<Longrightarrow> x * 2097152 + y < 4294967296" for x y :: nat
  by linarith

lemma huge_ppn:
  "unat (drop_bit 12 (push_bit 21 (drop_bit 9 p) OR (v AND mask 21)) :: u32) = unat p mod 1048576 div 512 * 512 + idx v"
proof -
  let ?x = "unat p mod 1048576 div 512" and ?y = "unat v mod 2097152"
  have o: "push_bit 21 (drop_bit 9 p) OR (v AND mask 21) = push_bit 21 (drop_bit 9 p) + (v AND mask 21)"
    by (intro disjunctive_add [symmetric]) (auto simp: bit_simps)
  have x: "unat (push_bit 21 (drop_bit 9 p)) = ?x * 2097152"
  proof -
    have "unat p div 512 * 2097152 mod 4294967296 = unat p div 512 mod 2048 * 2097152" using mult_mod_left [of "unat p div 512" 2048 2097152] by simp
    moreover have "?x = unat p div 512 mod 2048" using mod_mult2_eq [of "unat p" 512 2048] by simp
    ultimately show ?thesis unfolding unat_push unat_drop by simp
  qed
  have y: "unat (v AND mask 21) = ?y" unfolding unat_and_mask by simp
  have i: "?y div 4096 = idx v" unfolding idx_def using mod_mult2_eq [of "unat v" 4096 512] by simp
  have "?x < 2048" by (simp add: div_less_iff_less_mult)
  moreover have "?y < 2097152" by simp
  ultimately have "?x * 2097152 + ?y < 4294967296" by (rule sum_bound)
  moreover have "(x * 2097152 + y) div 4096 = x * 512 + y div 4096" for x y :: nat
    using div_mult_self3 [of 4096 "x * 512" y] by (simp add: mult.assoc)
  ultimately have "(?x * 2097152 + ?y) mod 4294967296 div 4096 = ?x * 512 + ?y div 4096" by simp
  then show ?thesis unfolding o unat_drop unat_word_ariths x y i by simp
qed

lemma huge_fields:
  assumes "a AND MMU_PDE_ATTR_MASK = a" and "bit a 30" and "p AND NOT MMU_PPN_MASK = 0"
  shows "((a XOR PMM_HUGE) OR drop_bit 9 p) AND MMU_PDE_PPN_MASK = drop_bit 9 p"
    and "((a XOR PMM_HUGE) OR drop_bit 9 p) AND MMU_PDE_ATTR_MASK OR PMM_HUGE = a"
    and "bit ((a XOR PMM_HUGE) OR drop_bit 9 p) 31 = bit a 31" and "\<not> bit ((a XOR PMM_HUGE) OR drop_bit 9 p) 30"
proof -
  have p: "\<not> bit p n" if "28 \<le> n" for n
  proof
    assume "bit p n"
    then have "bit (p AND NOT MMU_PPN_MASK) n" using that bit_imp_le_length [of p n]
      unfolding ppn_mask bit_and_iff bit_not_iff bit_mask_iff by simp
    then show False using assms(3) by simp
  qed
  have p': "bit p (9 + n) \<Longrightarrow> n < 19" for n using p [of "9 + n"] by (cases "n < 19") auto
  have a: "bit a n \<Longrightarrow> 22 \<le> n" for n using assms(1) by (metis pde_attr_mask bit_and_iff bit_push_bit_iff)
  have h: "bit PMM_HUGE n \<longleftrightarrow> n = 30" for n unfolding PMM_HUGE_def PMM_BIT_ORDER_def by (rule bit_push_bit_1) simp
  have m: "bit MMU_PDE_ATTR_MASK n \<longleftrightarrow> 22 \<le> n \<and> n < 32" for n unfolding pde_attr_mask by (auto simp: bit_simps)
  have k: "bit MMU_PDE_PPN_MASK n \<longleftrightarrow> n < 19" for n unfolding pde_ppn_mask by (auto simp: bit_simps)
  note b = bit_and_iff bit_or_iff bit_xor_iff bit_drop_bit_eq h m k
  show "((a XOR PMM_HUGE) OR drop_bit 9 p) AND MMU_PDE_PPN_MASK = drop_bit 9 p"
    by (rule bit_word_eqI) (auto simp: b dest: a p')
  show "((a XOR PMM_HUGE) OR drop_bit 9 p) AND MMU_PDE_ATTR_MASK OR PMM_HUGE = a"
    by (rule bit_word_eqI) (use assms(2) in \<open>auto simp: b p dest: a\<close>)
  show "bit ((a XOR PMM_HUGE) OR drop_bit 9 p) 31 = bit a 31" "\<not> bit ((a XOR PMM_HUGE) OR drop_bit 9 p) 30"
    using assms(2) by (auto simp: b p)
qed

text \<open>
  A huge page mapped at an address without mapping is read back with its attributes, but with its page number cut to 20 bits:
  the shift in \<^verbatim>\<open>pmm_get_page\<close> loses the bits that hold the cluster. Only pages of cluster 0 read back as they were set.
\<close>

theorem pmm_huge_ppn_cut:
  assumes "pgdir P (MMU_PDE v) = 0" and "attr info AND MMU_PDE_ATTR_MASK = attr info" and "bit (attr info) 31" and "bit (attr info) 30"
    and "ppn info AND NOT MMU_PPN_MASK = 0" and "MMU_PDE w = MMU_PDE v"
  shows "\<exists>Q. pmm_set_page alloc race v info P = (OK, Q) \<and> fst (pmm_get_page w Q) = attr info
    \<and> unat (snd (pmm_get_page w Q)) = unat (ppn info) mod 2 ^ 20 div 512 * 512 + idx w"
proof -
  let ?v = "(attr info XOR PMM_HUGE) OR drop_bit 9 (ppn info)"
  have low: "\<not> bit (attr info) n" if "n < 22" for n using assms(2) that by (metis pde_attr_mask bit_and_iff bit_push_bit_iff linorder_not_less)
  have "\<not> flag_set (attr info) PMM_CLEAR" "\<not> flag_set (attr info) PMM_COW"
    using flag_bit [of 4 "attr info"] flag_bit [of 0 "attr info"] low [of 4] low [of 0] by (simp_all add: PMM_CLEAR_def PMM_COW_def PMM_BIT_ORDER_def)
  then have "pmm_set_page alloc race v info P = (OK, P\<lparr>pgdir := (pgdir P)(MMU_PDE v := ?v)\<rparr>)"
    using assms(1,4) by (simp add: pmm_set_page_def Let_def)
  then show ?thesis using huge_fields [OF assms(2,4,5)] huge_ppn [of "ppn info" w] assms(3,6)
    by (simp add: pmm_get_page_def huge_mask)
qed

theorem pmm_huge_ppn_cut_witness:
  "\<exists>Q. pmm_set_page None None 0x600000 \<lparr>attr = 0xC0000000, ppn = 0x300200, isAtomic = False, data = 0\<rparr> empty_pmm = (OK, Q)
     \<and> unat (snd (pmm_get_page 0x603000 Q)) = 0x203"
  using pmm_huge_ppn_cut [of empty_pmm "0x600000" "\<lparr>attr = 0xC0000000, ppn = 0x300200, isAtomic = False, data = 0\<rparr>" "0x603000" None None]
  by (auto simp: empty_ok MMU_PDE_ATTR_MASK_def MMU_PPN_MASK_def PMM_BIT_ORDER_def bit_numeral_rec word_unat_eq_iff unat_PDE idx_def)

section \<open>The lock of an entry\<close>

lemma locked_bit [simp]: "flag_set v PMM_LOCKED \<longleftrightarrow> bit v 3"
  using flag_bit [of 3 v] by (simp add: PMM_LOCKED_def PMM_BIT_ORDER_def)

lemma locked_nz: "PMM_LOCKED \<noteq> 0"
  by (simp add: PMM_LOCKED_def)

lemma lock_page_spec:
  assumes "pmm_ok P" and "table_room alloc v P" and "pgdir P (MMU_PDE v) = 0 \<Longrightarrow> alloc \<noteq> None" and "\<not> bit (fst (pmm_get_page v P)) 3"
  obtains Q where "pmm_lock_page alloc None v info P =
      Some (OK, \<lparr>attr = fst (pmm_get_page v P), ppn = snd (pmm_get_page v P), isAtomic = True, data = pte_of (pgdir Q (MMU_PDE v)) v\<rparr>, Q)"
    and "pmm_ok Q" and "is_table (pgdir Q (MMU_PDE v))"
    and "\<And>w. pmm_get_page w Q = (if same_page w v then (fst (pmm_get_page v P) OR PMM_LOCKED, snd (pmm_get_page v P)) else pmm_get_page w P)"
proof -
  obtain pte Q where g: "get_table alloc None v P = Some (pte, Q)" using assms(3)
    by (cases "pgdir P (MMU_PDE v) = 0"; cases alloc) (auto simp: get_table_def Let_def)
  note q = get_table_ok [OF assms(1,2) g]
  let ?p = "pte_of (pgdir Q (MMU_PDE v)) v"
  have s: "pmm_get_page v P = (pmem Q ?p, pmem Q (?p + 4) AND MMU_PPN_MASK)" using q(4) [of v] get_small [OF q(2)] by simp
  have d: "pgdir P (MMU_PDE v) \<noteq> 0 \<Longrightarrow> bit (pgdir P (MMU_PDE v)) 30" using assms(2) by (auto simp: table_room_def is_table_def)
  let ?R = "Q\<lparr>pmem := (pmem Q)(?p := pmem Q ?p OR PMM_LOCKED)\<rparr>"
  have "?R = Q\<lparr>pmem := (pmem Q)(?p + 4 := pmem Q (?p + 4), ?p := pmem Q ?p OR PMM_LOCKED)\<rparr>" by (simp add: fun_upd_idem)
  then have r: "pmm_get_page w ?R = (if same_page w v then (pmem Q ?p OR PMM_LOCKED, pmem Q (?p + 4) AND MMU_PPN_MASK) else pmm_get_page w P)" for w
    using get_after_write [OF q(1,2), of w "pmem Q (?p + 4)" "pmem Q ?p OR PMM_LOCKED"] q(4) [of w] by simp
  have "pmm_lock_page alloc None v info P = Some (OK, \<lparr>attr = pmem Q ?p, ppn = pmem Q (?p + 4) AND MMU_PPN_MASK, isAtomic = True, data = ?p\<rparr>, ?R)"
    using d g q(3) assms(4) s by (auto simp: pmm_lock_page_def Let_def)
  then show thesis using that [of ?R] q(1,2) r s by simp
qed

lemma unlock_page_spec:
  assumes "pmm_ok Q" and "is_table (pgdir Q (MMU_PDE v))" and "data info = pte_of (pgdir Q (MMU_PDE v)) v"
  obtains i R where "pmm_unlock_page info Q = (i, R)" and "pmm_ok R"
    and "\<And>w. pmm_get_page w R = (if same_page w v then (0, snd (pmm_get_page v Q)) else pmm_get_page w Q)"
proof -
  let ?p = "pte_of (pgdir Q (MMU_PDE v)) v"
  let ?R = "Q\<lparr>pmem := (pmem Q)(?p := 0)\<rparr>"
  have s: "pmm_get_page v Q = (pmem Q ?p, pmem Q (?p + 4) AND MMU_PPN_MASK)" using get_small [OF assms(2)] .
  have "?R = Q\<lparr>pmem := (pmem Q)(?p + 4 := pmem Q (?p + 4), ?p := 0)\<rparr>" by (simp add: fun_upd_idem)
  then have "pmm_get_page w ?R = (if same_page w v then (0, snd (pmm_get_page v Q)) else pmm_get_page w Q)" for w
    using get_after_write [OF assms(1,2), of w "pmem Q (?p + 4)" 0] s by simp
  moreover have "\<exists>i. pmm_unlock_page info Q = (i, ?R)"
    using assms(3) locked_nz by (simp add: pmm_unlock_page_def Let_def)
  ultimately show thesis using that [of _ ?R] assms(1) by auto
qed

lemma same_page_refl [simp]: "same_page v v"
  by (simp add: same_page_def)

text \<open>
  C37: Locking an entry and unlocking it again does not restore it: \<^verbatim>\<open>pmm_lock_page\<close> of an entry that is not locked succeeds, answers the entry
  and marks it locked, but \<^verbatim>\<open>pmm_unlock_page\<close> then clears all attributes and not only the lock. A page that was present, writable or marked
  for copy-on-write is left not present; no other page is touched.
\<close>

theorem pmm_unlock_clears:
  assumes "pmm_ok P" and "is_table (pgdir P (MMU_PDE v))" and "\<not> bit (fst (pmm_get_page v P)) 3"
  shows "\<exists>info' Q i R. pmm_lock_page alloc None v info P = Some (OK, info', Q) \<and> (attr info', ppn info') = pmm_get_page v P
    \<and> pmm_get_page v Q = (fst (pmm_get_page v P) OR PMM_LOCKED, snd (pmm_get_page v P))
    \<and> pmm_unlock_page info' Q = (i, R)
    \<and> (\<forall>w. pmm_get_page w R = (if same_page w v then (0, snd (pmm_get_page v P)) else pmm_get_page w P))"
proof -
  have t: "table_room alloc v P" "pgdir P (MMU_PDE v) \<noteq> 0" using assms(2) by (auto simp: table_room_def is_table_def)
  obtain Q where Q: "pmm_lock_page alloc None v info P =
      Some (OK, \<lparr>attr = fst (pmm_get_page v P), ppn = snd (pmm_get_page v P), isAtomic = True, data = pte_of (pgdir Q (MMU_PDE v)) v\<rparr>, Q)"
    "pmm_ok Q" "is_table (pgdir Q (MMU_PDE v))"
    "\<And>w. pmm_get_page w Q = (if same_page w v then (fst (pmm_get_page v P) OR PMM_LOCKED, snd (pmm_get_page v P)) else pmm_get_page w P)"
    using lock_page_spec [OF assms(1) t(1) _ assms(3)] t(2) by blast
  obtain i R where R: "pmm_unlock_page \<lparr>attr = fst (pmm_get_page v P), ppn = snd (pmm_get_page v P), isAtomic = True, data = pte_of (pgdir Q (MMU_PDE v)) v\<rparr> Q = (i, R)"
    "\<And>w. pmm_get_page w R = (if same_page w v then (0, snd (pmm_get_page v Q)) else pmm_get_page w Q)"
    by (rule unlock_page_spec [OF Q(2,3), of "\<lparr>attr = fst (pmm_get_page v P), ppn = snd (pmm_get_page v P), isAtomic = True, data = pte_of (pgdir Q (MMU_PDE v)) v\<rparr>"]) auto
  show ?thesis using Q R by (intro exI) (auto simp: Q(4))
qed

definition one_page :: pmm_s where
  "one_page = empty_pmm\<lparr>pgdir := (\<lambda>_. 0)(0 := PMM_PRESENT OR MMU_PTD1 OR 7), pmem := (\<lambda>_. 0)(0x7028 := 0x84000000, 0x702C := 9)\<rparr>"

lemma one_page_facts: "pmm_ok one_page" "is_table (pgdir one_page (MMU_PDE 0x5000))" "pmm_get_page 0x5000 one_page = (0x84000000, 9)"
proof -
  have i: "MMU_PDE 0x5000 = 0" by (simp add: word_unat_eq_iff unat_PDE)
  show "pmm_ok one_page" using new_entry(1) [of 7] by (auto simp: pmm_ok_def one_page_def is_table_def)
  show t: "is_table (pgdir one_page (MMU_PDE 0x5000))" using new_entry(1) [of 7] by (simp add: one_page_def i)
  have "pte_of (PMM_PRESENT OR MMU_PTD1 OR 7) 0x5000 = 0x7028"
    by (simp add: word_unat_eq_iff unat_pte_of new_entry(2)) (simp add: tbl_def idx_def)
  then show "pmm_get_page 0x5000 one_page = (0x84000000, 9)"
    unfolding get_small [OF t] by (simp add: one_page_def i MMU_PPN_MASK_def PMM_BIT_ORDER_def)
qed

theorem pmm_unlock_clears_witness:
  "\<exists>info' Q i R. pmm_lock_page None None 0x5000 \<lparr>attr = 0, ppn = 0, isAtomic = False, data = 0\<rparr> one_page = Some (OK, info', Q)
     \<and> pmm_unlock_page info' Q = (i, R) \<and> pmm_get_page 0x5000 one_page = (0x84000000, 9) \<and> pmm_get_page 0x5000 R = (0, 9)"
  using pmm_unlock_clears [OF one_page_facts(1,2), of None "\<lparr>attr = 0, ppn = 0, isAtomic = False, data = 0\<rparr>"] one_page_facts(3)
  by (auto simp: bit_numeral_rec)

end
