(* ===== verification/Mm_VmRegion.thy ===== *)
theory Mm_VmRegion
  imports Rbtree_Ops Mm_Pmm Kern_Keysdb Libk_Bits
begin

text \<open>
  The regions of the virtual address space of a task: \<^verbatim>\<open>src/kernel/mm/vm_region.c\<close>. A region descriptor is known by its address; its
  \<^verbatim>\<open>vm_node\<close> comes first in the structure, so the tree node has the same address. The descriptors are in a store, the list of regions is a
  list of addresses (\<^verbatim>\<open>Libk_List\<close> shows that the list operations of the kernel are the operations on sequences). Addresses are 32-bit numbers and
  wrap around. A loop over the tree is a partial function; not returning is \<open>None\<close>.
\<close>

section \<open>Model\<close>

definition VM_REG_SHARED :: u32 where [kconfig]: "VM_REG_SHARED = 0x0001"
definition VM_REG_PRIVATE :: u32 where [kconfig]: "VM_REG_PRIVATE = 0x0002"
definition VM_REG_PVSH :: u32 where [kconfig]: "VM_REG_PVSH = 0x0003"
definition VM_REG_ANON :: u32 where [kconfig]: "VM_REG_ANON = 0x0004"
definition VM_REG_STACK :: u32 where [kconfig]: "VM_REG_STACK = 0x0008"
definition VM_REG_HUGETLB :: u32 where [kconfig]: "VM_REG_HUGETLB = 0x0020"
definition VM_REG_FIXED :: u32 where [kconfig]: "VM_REG_FIXED = 0x0040"
definition VM_REG_DEV :: u32 where [kconfig]: "VM_REG_DEV = 0x0080"
definition VM_REG_LAZY :: u32 where [kconfig]: "VM_REG_LAZY = 0x0200"
definition VM_REG_INIT :: u32 where [kconfig]: "VM_REG_INIT = 0x0400"
definition VM_REG_HEAP :: u32 where [kconfig]: "VM_REG_HEAP = 0x0800"

definition VM_REG_NON :: u32 where [kconfig]: "VM_REG_NON = 0x00"
definition VM_REG_RD :: u32 where [kconfig]: "VM_REG_RD = 0x01"
definition VM_REG_WR :: u32 where [kconfig]: "VM_REG_WR = 0x02"
definition VM_REG_EX :: u32 where [kconfig]: "VM_REG_EX = 0x04"

definition CONFIG_VM_REGION_KEYWIDTH :: nat where [kconfig]: "CONFIG_VM_REGION_KEYWIDTH = 16"
definition CONFIG_USR_OFFSET :: u32 where [kconfig]: "CONFIG_USR_OFFSET = 0x00004000"
definition CONFIG_USR_LIMIT :: u32 where [kconfig]: "CONFIG_USR_LIMIT = 0x80000000"
definition CONFIG_TASK_HEAP_MAX_SIZE :: u32 where [kconfig]: "CONFIG_TASK_HEAP_MAX_SIZE = 0x30000000"

text \<open>
  The tables of region operations of the kernel (\<^verbatim>\<open>struct vm_region_op_s\<close>): the default one of \<^verbatim>\<open>mm/vmm.c\<close> and those of the frame buffer, of the interrupt controller and of the memory cache.
\<close>

datatype vm_region_op_s = vm_region_default_op | fb_vm_region_op | icu_vm_region_op | memc_vm_region_op

text \<open>The mapper and the file of a region are known by a number; \<open>None\<close> is the null object, and the null pointer for the operations.\<close>

record vm_region_s =
  vm_refcount :: nat
  vm_begin :: u32
  vm_end :: u32
  vm_start :: u32
  vm_limit :: u32
  vm_prot :: u32
  vm_pgprot :: u32
  vm_flags :: u32
  vm_offset :: u32
  vm_op :: "vm_region_op_s option"
  vm_mapper :: "nat option"
  vm_file :: "nat option"

record vmm_s =
  regs :: "addr \<Rightarrow> vm_region_s"
  regions_tree :: rb_root
  regions_root :: "addr list"
  regions_db :: "addr keysdb_s"
  last_region :: addr
  last_mmap :: u32

definition vm_region_init :: "u32 \<Rightarrow> u32 \<Rightarrow> u32 \<Rightarrow> u32 \<Rightarrow> u32 \<Rightarrow> vm_region_s" where
  "vm_region_init vma_start vma_end prot offset flags =
     (let regsize = push_bit CONFIG_VM_REGION_KEYWIDTH 1;
          prot' = (if flag_set prot VM_REG_WR then prot OR VM_REG_RD else prot);
          pgprot = PMM_USER OR PMM_CACHED OR PMM_ACCESSED OR PMM_DIRTY;
          pgprot = (if flag_set prot VM_REG_WR then pgprot OR PMM_WRITE else pgprot);
          pgprot = (if flag_set prot' VM_REG_RD then pgprot OR PMM_READ else pgprot);
          pgprot = (if flag_set prot' VM_REG_EX then pgprot OR PMM_EXECUTE else pgprot);
          pgprot = (if prot' \<noteq> VM_REG_NON then pgprot OR PMM_PRESENT else pgprot);
          pgprot = (if flag_set flags VM_REG_HUGETLB then pgprot OR PMM_HUGE else pgprot)
      in \<lparr>vm_refcount = 1,
          vm_begin = ARROUND_DOWN vma_start regsize,
          vm_end = (if flag_set flags VM_REG_HEAP then ARROUND_UP CONFIG_TASK_HEAP_MAX_SIZE regsize else ARROUND_UP vma_end regsize),
          vm_start = vma_start, vm_limit = vma_end, vm_prot = prot', vm_pgprot = pgprot, vm_flags = flags, vm_offset = offset,
          vm_op = None, vm_mapper = None, vm_file = None\<rparr>)"

primrec find_in :: "(addr \<Rightarrow> vm_region_s) \<Rightarrow> u32 \<Rightarrow> addr list \<Rightarrow> addr" where
  "find_in M vaddr [] = 0"
| "find_in M vaddr (r # rs) = (if vaddr < vm_end (M r) then r else find_in M vaddr rs)"

definition vm_region_find_list :: "u32 \<Rightarrow> vmm_s \<Rightarrow> addr \<times> vmm_s" where
  "vm_region_find_list vaddr V =
     (let r = find_in (regs V) vaddr (regions_root V)
      in (r, if r \<noteq> 0 then V\<lparr>last_region := r\<rparr> else V))"

text \<open>The node a link points at.\<close>

fun get_link :: "rb_link \<Rightarrow> rb_root \<Rightarrow> addr" where
  "get_link Top S = rb_top S"
| "get_link (LeftOf a) S = rb_left (nodes S a)"
| "get_link (RightOf a) S = rb_right (nodes S a)"

text \<open>\<^verbatim>\<open>vm_region_find_prepare\<close> answers the region, the one before, and the link and the parent where a new region goes.\<close>

partial_function (option) prepare_loop :: "(addr \<Rightarrow> vm_region_s) \<Rightarrow> rb_root \<Rightarrow> u32 \<Rightarrow> rb_link \<Rightarrow> addr \<Rightarrow> addr \<Rightarrow> addr \<Rightarrow> (addr \<times> addr \<times> rb_link \<times> addr) option" where
  "prepare_loop M S a link parent prev vma =
     (let n = get_link link S
      in if n \<noteq> 0
         then if a < vm_end (M n)
              then if vm_begin (M n) \<le> a then Some (n, prev, link, n) else prepare_loop M S a (LeftOf n) n prev n
              else prepare_loop M S a (RightOf n) n n vma
         else Some (vma, prev, link, parent))"

definition vm_region_find_prepare :: "u32 \<Rightarrow> vmm_s \<Rightarrow> (addr \<times> addr \<times> rb_link \<times> addr) option" where
  "vm_region_find_prepare a V = prepare_loop (regs V) (regions_tree V) a Top 0 0 0"

definition vma_link_rb :: "addr \<Rightarrow> rb_link \<Rightarrow> addr \<Rightarrow> vmm_s \<Rightarrow> vmm_s option" where
  "vma_link_rb vma link parent V = do {
     t \<leftarrow> rb_insert_color vma (rb_link_node vma parent link (regions_tree V));
     Some (V\<lparr>regions_tree := t\<rparr>) }"

partial_function (option) find_loop :: "(addr \<Rightarrow> vm_region_s) \<Rightarrow> rb_root \<Rightarrow> u32 \<Rightarrow> addr \<Rightarrow> addr \<Rightarrow> addr option" where
  "find_loop M S vaddr node reg =
     (if node \<noteq> 0
      then if vaddr < vm_end (M node)
           then if vm_begin (M node) \<le> vaddr then Some node else find_loop M S vaddr (rb_left (nodes S node)) node
           else find_loop M S vaddr (rb_right (nodes S node)) reg
      else Some reg)"

definition vm_region_find :: "u32 \<Rightarrow> vmm_s \<Rightarrow> addr option" where
  "vm_region_find vaddr V = find_loop (regs V) (regions_tree V) vaddr (rb_top (regions_tree V)) 0"

text \<open>\<^verbatim>\<open>list_add_pred\<close> and \<^verbatim>\<open>list_add_next\<close> put an entry before and after another one.\<close>

primrec list_add_pred :: "addr \<Rightarrow> addr \<Rightarrow> addr list \<Rightarrow> addr list" where
  "list_add_pred r x [] = []"
| "list_add_pred r x (y # ys) = (if y = r then x # y # ys else y # list_add_pred r x ys)"

primrec list_add_next :: "addr \<Rightarrow> addr \<Rightarrow> addr list \<Rightarrow> addr list" where
  "list_add_next r x [] = []"
| "list_add_next r x (y # ys) = (if y = r then y # x # ys else y # list_add_next r x ys)"

text \<open>The loop of \<^verbatim>\<open>vm_region_solve\<close>: the start address it ends at and, if that is not past the limit, what \<^verbatim>\<open>vm_region_find_prepare\<close> answered last.\<close>

partial_function (option) solve_loop :: "vmm_s \<Rightarrow> u32 \<Rightarrow> u32 \<Rightarrow> u32 \<Rightarrow> (u32 \<times> addr \<times> rb_link \<times> addr) option" where
  "solve_loop V sz limit start =
     (if start \<le> limit
      then do {
        (reg, prev, link, parent) \<leftarrow> vm_region_find_prepare start V;
        if reg = 0 \<or> start + sz < vm_begin (regs V reg) then Some (start, reg, link, parent)
        else solve_loop V sz limit (vm_end (regs V reg)) }
      else Some (start, 0, Top, 0))"

text \<open>The four assignments that place a region at the address found.\<close>

definition moved :: "u32 \<Rightarrow> vm_region_s \<Rightarrow> vm_region_s" where
  "moved s r = r\<lparr>vm_begin := s, vm_start := s, vm_limit := vm_limit r + s, vm_end := s + vm_end r\<rparr>"

definition vm_region_solve :: "addr \<Rightarrow> vmm_s \<Rightarrow> (error_t \<times> vmm_s) option" where
  "vm_region_solve region V = do {
     let sz = vm_end (regs V region);
     let limit = CONFIG_USR_LIMIT - sz;
     (start, reg, link, parent) \<leftarrow> solve_loop V sz limit (last_mmap V);
     if limit < start then Some (Some ENOMEM, V)
     else do {
       let V = V\<lparr>regs := (regs V)(region := moved start (regs V region))\<rparr>;
       V \<leftarrow> vma_link_rb region link parent V;
       Some (OK, V\<lparr>regions_root :=
         (if reg \<noteq> 0
          then if vm_begin (regs V region) < vm_begin (regs V reg) then list_add_pred reg region (regions_root V)
               else list_add_next reg region (regions_root V)
          else regions_root V @ [region])\<rparr>) } }"

definition vm_region_attach_rbtree :: "addr \<Rightarrow> vmm_s \<Rightarrow> (error_t \<times> vmm_s) option" where
  "vm_region_attach_rbtree region V =
     (if flag_set (vm_flags (regs V region)) VM_REG_FIXED
      then do {
        (reg, prev, link, parent) \<leftarrow> vm_region_find_prepare (vm_begin (regs V region)) V;
        if reg \<noteq> 0 \<and> vm_begin (regs V reg) \<le> vm_begin (regs V region) then Some (Some EEXIST, V)
        else do {
          let V = V\<lparr>regions_root := (if reg = 0 then regions_root V @ [region] else list_add_pred reg region (regions_root V))\<rparr>;
          V \<leftarrow> vma_link_rb region link parent V;
          Some (OK, V) } }
      else vm_region_solve region V)"

definition vm_region_attach :: "addr \<Rightarrow> vmm_s \<Rightarrow> (error_t \<times> vmm_s) option" where
  "vm_region_attach region V = do {
     (err, V) \<leftarrow> vm_region_attach_rbtree region V;
     if err \<noteq> OK then Some (err, V) else Some (OK, V\<lparr>last_mmap := vm_begin (regs V region)\<rparr>) }"

text \<open>The first part of \<^verbatim>\<open>vm_region_detach\<close>, under the lock of the address space.\<close>

definition region_unlink :: "addr \<Rightarrow> vmm_s \<Rightarrow> vmm_s option" where
  "region_unlink region V = do {
     t \<leftarrow> rb_erase region (regions_tree V);
     let r = regs V region;
     let V = V\<lparr>regions_root := remove1 region (regions_root V), regions_tree := t\<rparr>;
     let V = (if last_region V = region then V\<lparr>last_region := 0\<rparr> else V);
     let V = (if vm_end r < last_mmap V then V\<lparr>last_mmap := vm_begin r\<rparr> else V);
     if flag_set (vm_flags r) VM_REG_LAZY then Some V
     else do {
       db \<leftarrow> keysdb_unbind (regions_db V) (drop_bit CONFIG_VM_REGION_KEYWIDTH (vm_begin r))
               (unat (drop_bit CONFIG_VM_REGION_KEYWIDTH (vm_end r - vm_begin r)));
       Some (V\<lparr>regions_db := db\<rparr>) } }"

declare prepare_loop.simps [code] find_loop.simps [code] solve_loop.simps [code]

section \<open>The layout of an address space\<close>

text \<open>No region is empty, they follow one another without overlap, and the tree and the list hold the same regions in the same order.\<close>

definition layout :: "(addr \<Rightarrow> vm_region_s) \<Rightarrow> addr list \<Rightarrow> bool" where
  "layout M xs \<longleftrightarrow> (\<forall>a\<in>set xs. vm_begin (M a) < vm_end (M a)) \<and> sorted_wrt (\<lambda>a b. vm_end (M a) \<le> vm_begin (M b)) xs"

definition regions_ok :: "vmm_s \<Rightarrow> bool" where
  "regions_ok V \<longleftrightarrow> rb_tree (regions_tree V) (regions_root V) \<and> layout (regs V) (regions_root V)"

lemma layout_append:
  "layout M (xs @ ys) \<longleftrightarrow> layout M xs \<and> layout M ys \<and> (\<forall>a\<in>set xs. \<forall>b\<in>set ys. vm_end (M a) \<le> vm_begin (M b))"
  by (auto simp: layout_def sorted_wrt_append)

lemma layout_Cons:
  "layout M (x # ys) \<longleftrightarrow> vm_begin (M x) < vm_end (M x) \<and> layout M ys \<and> (\<forall>b\<in>set ys. vm_end (M x) \<le> vm_begin (M b))"
  by (auto simp: layout_def)

lemmas layout_split = layout_append layout_Cons

lemma layout_cong: "(\<And>a. a \<in> set xs \<Longrightarrow> M' a = M a) \<Longrightarrow> layout M' xs \<longleftrightarrow> layout M xs"
proof (induction xs)
  case Nil
  then show ?case by (simp add: layout_def)
next
  case (Cons x xs)
  then show ?case by (simp add: layout_Cons)
qed

lemma find_in_append: "find_in M a (xs @ ys) = (if \<exists>x\<in>set xs. a < vm_end (M x) then find_in M a xs else find_in M a ys)"
  by (induction xs) auto

lemma find_in_mem: "\<exists>x\<in>set xs. a < vm_end (M x) \<Longrightarrow> find_in M a xs \<in> set xs \<and> a < vm_end (M (find_in M a xs))"
  by (induction xs) auto

lemma find_in_none: "\<not> (\<exists>x\<in>set xs. a < vm_end (M x)) \<Longrightarrow> find_in M a xs = 0"
  by (induction xs) auto

section \<open>Searching\<close>

lemma find_loop_spec:
  assumes "tr (nodes S) q t" and "layout M (addrs t)"
  shows "find_loop M S a (root_of t) reg = Some (if \<exists>x\<in>set (addrs t). a < vm_end (M x) then find_in M a (addrs t) else reg)"
  using assms
proof (induction t arbitrary: q reg)
  case Leaf
  then show ?case by (subst find_loop.simps) simp
next
  case (Node c l n r)
  have n: "n \<noteq> 0" "rb_left (nodes S n) = root_of l" "rb_right (nodes S n) = root_of r" using Node.prems(1) by auto
  have lo: "layout M (addrs l)" "layout M (addrs r)" "vm_begin (M n) < vm_end (M n)"
      "\<And>b. b \<in> set (addrs l) \<Longrightarrow> vm_end (M b) \<le> vm_begin (M n)"
    using Node.prems(2) by (auto simp: layout_split)
  show ?case
  proof (cases "a < vm_end (M n)")
    case True
    show ?thesis
    proof (cases "vm_begin (M n) \<le> a")
      case b: True
      then have "\<not> (\<exists>x\<in>set (addrs l). a < vm_end (M x))" using lo(4) by (meson leD order_trans)
      then show ?thesis using True b n(1) by (subst find_loop.simps) (simp add: find_in_append)
    next
      case False
      then show ?thesis using True n Node.IH(1) [of n n] Node.prems(1) lo(1) by (subst find_loop.simps) (auto simp: find_in_append)
    qed
  next
    case False
    then have "vm_end (M n) \<le> a" by simp
    then have "\<not> (\<exists>x\<in>set (addrs l). a < vm_end (M x))" using lo(3,4) by (meson leD order_trans less_imp_le)
    then show ?thesis using False n Node.IH(2) [of n reg] Node.prems(1) lo(2) by (subst find_loop.simps) (auto simp: find_in_append)
  qed
qed

lemma vm_region_find_spec: "regions_ok V \<Longrightarrow> vm_region_find a V = Some (find_in (regs V) a (regions_root V))"
proof -
  assume ok: "regions_ok V"
  then obtain t where t: "tr (nodes (regions_tree V)) 0 t" "rb_top (regions_tree V) = root_of t" "addrs t = regions_root V"
    by (auto simp: regions_ok_def rb_tree_def Rbtree_Rep.rep_def)
  then show ?thesis using find_loop_spec [OF t(1), of "regs V" a 0] find_in_none [of "regions_root V" a "regs V"] ok
    by (auto simp: vm_region_find_def regions_ok_def)
qed

definition answers :: "(addr \<Rightarrow> vm_region_s) \<Rightarrow> rb_root \<Rightarrow> u32 \<Rightarrow> addr list \<Rightarrow> addr \<times> addr \<times> rb_link \<times> addr \<Rightarrow> bool" where
  "answers M S a xs res \<longleftrightarrow>
     (\<exists>n\<in>set xs. vm_begin (M n) \<le> a \<and> a < vm_end (M n) \<and> fst res = n)
   \<or> (\<exists>as bs link p. xs = as @ bs \<and> (\<forall>b\<in>set as. vm_end (M b) \<le> a) \<and> (\<forall>b\<in>set bs. a < vm_begin (M b))
        \<and> res = (head_or_0 bs, head_or_0 (rev as), link, p) \<and> free_link S p link \<and> place link as bs)"

lemma free_at_leaf: "rep S C Leaf \<Longrightarrow> free_link S (up_of C) (link_of C) \<and> place (link_of C) (before C) (after C)"
  by (cases C rule: link_of.cases) (auto simp: Rbtree_Rep.rep_def)

lemma prepare_loop_spec:
  assumes "rep S C t" and "layout M (before C @ addrs t @ after C)" and "\<forall>b\<in>set (before C). vm_end (M b) \<le> a" and "\<forall>b\<in>set (after C). a < vm_begin (M b)"
  shows "\<exists>res. prepare_loop M S a (link_of C) (up_of C) (head_or_0 (rev (before C))) (head_or_0 (after C)) = Some res
    \<and> answers M S a (before C @ addrs t @ after C) res"
  using assms
proof (induction t arbitrary: C)
  case Leaf
  have "get_link (link_of C) S = 0" using Leaf(1) by (cases C rule: link_of.cases) (auto simp: Rbtree_Rep.rep_def)
  then show ?case using free_at_leaf [OF Leaf(1)] Leaf(3,4) by (subst prepare_loop.simps) (auto simp: answers_def)
next
  case (Node c l n r)
  have n: "n \<noteq> 0" "get_link (link_of C) S = n" using Node.prems(1) by (cases C rule: link_of.cases; auto simp: Rbtree_Rep.rep_def)+
  have lo: "vm_begin (M n) < vm_end (M n)" "\<And>b. b \<in> set (addrs r) \<Longrightarrow> vm_end (M n) \<le> vm_begin (M b)"
      "\<And>b. b \<in> set (addrs l) \<Longrightarrow> vm_end (M b) \<le> vm_begin (M n)"
    using Node.prems(2) by (auto simp: layout_split)
  show ?case
  proof (cases "a < vm_end (M n)")
    case True
    show ?thesis
    proof (cases "vm_begin (M n) \<le> a")
      case b: True
      then show ?thesis using True n by (subst prepare_loop.simps) (auto simp: answers_def)
    next
      case False
      then have "a < vm_begin (M n)" by simp
      then have "a < vm_begin (M b)" if "b \<in> set (addrs r)" for b using lo(1) lo(2) [OF that] by (meson less_le_trans less_trans)
      then have "\<forall>b\<in>set (after ((L, c, n, r) # C)). a < vm_begin (M b)" using \<open>a < vm_begin (M n)\<close> Node.prems(4) by auto
      then show ?thesis using Node.IH(1) [of "(L, c, n, r) # C"] Node.prems True False n by (subst prepare_loop.simps) (auto simp: rep_move)
    qed
  next
    case False
    then have "vm_end (M n) \<le> a" by simp
    then have "vm_end (M b) \<le> a" if "b \<in> set (addrs l)" for b using lo(1) lo(3) [OF that] by (meson order_trans less_imp_le)
    then have "\<forall>b\<in>set (before ((R, c, n, l) # C)). vm_end (M b) \<le> a" using \<open>vm_end (M n) \<le> a\<close> Node.prems(3) by auto
    then show ?thesis using Node.IH(2) [of "(R, c, n, l) # C"] Node.prems False n by (subst prepare_loop.simps) (auto simp: rep_move)
  qed
qed

lemma find_prepare_spec:
  assumes "regions_ok V"
  shows "\<exists>res. vm_region_find_prepare a V = Some res \<and> answers (regs V) (regions_tree V) a (regions_root V) res"
proof -
  obtain t where "rep (regions_tree V) [] t" "addrs t = regions_root V" using assms by (auto simp: regions_ok_def rb_tree_def)
  then show ?thesis using prepare_loop_spec [of "regions_tree V" "[]" t "regs V" a] assms by (simp add: vm_region_find_prepare_def regions_ok_def)
qed

section \<open>Attaching\<close>

lemma add_pred_hd: "b \<notin> set as \<Longrightarrow> list_add_pred b x (as @ b # bs) = as @ x # b # bs"
  by (induction as) auto

lemma answers_found:
  assumes "layout M xs" and "answers M S a xs res"
  shows "fst res = find_in M a xs"
  using assms(2) unfolding answers_def
proof (elim disjE bexE exE conjE)
  fix n
  assume n: "n \<in> set xs" "vm_begin (M n) \<le> a" "a < vm_end (M n)" "fst res = n"
  then obtain ys zs where xs: "xs = ys @ n # zs" by (meson split_list)
  have "\<not> a < vm_end (M y)" if "y \<in> set ys" for y using assms(1) that n(2) unfolding xs layout_append by (auto simp: not_less intro: order_trans)
  then show ?thesis using n by (auto simp: xs find_in_append)
next
  fix as bs link p
  assume h: "xs = as @ bs" "\<forall>b\<in>set as. vm_end (M b) \<le> a" "\<forall>b\<in>set bs. a < vm_begin (M b)" "res = (head_or_0 bs, head_or_0 (rev as), link, p)"
  have "find_in M a bs = head_or_0 bs"
    using h(3) assms(1) unfolding h(1) layout_append by (cases bs) (auto simp: layout_Cons intro: less_trans)
  then show ?thesis using h by (auto simp: find_in_append not_less)
qed

lemma link_rb_spec:
  assumes "rb_tree (regions_tree V) (as @ bs)" and "free_link (regions_tree V) p link" and "place link as bs" and "x \<noteq> 0" and "x \<notin> set (as @ bs)"
  shows "\<exists>t. vma_link_rb x link p V = Some (V\<lparr>regions_tree := t\<rparr>) \<and> rb_tree t (as @ x # bs)"
  using rbi.ins_law [of "regions_tree V" as bs "(p, link)" x] assms by (auto simp: vma_link_rb_def)

lemma add_at_head:
  "distinct (as @ bs) \<Longrightarrow> 0 \<notin> set bs \<Longrightarrow> (if head_or_0 bs = 0 then (as @ bs) @ [x] else list_add_pred (head_or_0 bs) x (as @ bs)) = as @ x # bs"
  by (cases bs) (auto simp: add_pred_hd)

text \<open>Insertion keeps the layout exactly when the new region ends before the next one begins.\<close>

lemma layout_insert:
  assumes "layout M (as @ bs)" and "\<forall>b\<in>set as. vm_end (M b) \<le> vm_begin (M x)" and "\<forall>b\<in>set bs. vm_begin (M x) < vm_begin (M b)"
    and "vm_begin (M x) < vm_end (M x)"
  shows "layout M (as @ x # bs) \<longleftrightarrow> (\<forall>b\<in>set bs. vm_end (M x) \<le> vm_begin (M b))"
  using assms by (auto simp: layout_split)

definition overlaps :: "vm_region_s \<Rightarrow> vm_region_s \<Rightarrow> bool" where
  "overlaps r s \<longleftrightarrow> vm_begin r < vm_end s \<and> vm_begin s < vm_end r"

lemma attach_fixed_spec:
  assumes ok: "regions_ok V" and x: "x \<noteq> 0" "x \<notin> set (regions_root V)" and f: "flag_set (vm_flags (regs V x)) VM_REG_FIXED"
    and ne: "vm_begin (regs V x) < vm_end (regs V x)"
  obtains (exists) b where "vm_region_attach x V = Some (Some EEXIST, V)" "b \<in> set (regions_root V)" "vm_begin (regs V b) \<le> vm_begin (regs V x)" "vm_begin (regs V x) < vm_end (regs V b)"
  | (attached) as bs t where "vm_region_attach x V = Some (OK, V\<lparr>regions_root := as @ x # bs, regions_tree := t, last_mmap := vm_begin (regs V x)\<rparr>)"
      "regions_root V = as @ bs" "rb_tree t (as @ x # bs)" "\<forall>b\<in>set as. vm_end (regs V b) \<le> vm_begin (regs V x)" "\<forall>b\<in>set bs. vm_begin (regs V x) < vm_begin (regs V b)"
proof -
  let ?a = "vm_begin (regs V x)" and ?xs = "regions_root V"
  have d: "distinct ?xs" "0 \<notin> set ?xs" using ok rb_tree_distinct by (auto simp: regions_ok_def)
  obtain res where res: "vm_region_find_prepare ?a V = Some res" "answers (regs V) (regions_tree V) ?a ?xs res" using find_prepare_spec [OF ok] by blast
  from res(2) consider n where "n \<in> set ?xs" "vm_begin (regs V n) \<le> ?a" "?a < vm_end (regs V n)" "fst res = n"
    | as bs link p where "?xs = as @ bs" "\<forall>b\<in>set as. vm_end (regs V b) \<le> ?a" "\<forall>b\<in>set bs. ?a < vm_begin (regs V b)"
        "res = (head_or_0 bs, head_or_0 (rev as), link, p)" "free_link (regions_tree V) p link" "place link as bs"
    unfolding answers_def by blast
  then show thesis
  proof cases
    case 1
    moreover have "n \<noteq> 0" using 1 d by metis
    ultimately have "vm_region_attach x V = Some (Some EEXIST, V)"
      using res(1) f by (cases res) (auto simp: vm_region_attach_def vm_region_attach_rbtree_def)
    then show thesis using exists 1 by blast
  next
    case 2
    have "head_or_0 bs = 0 \<or> head_or_0 bs \<in> set bs" by (cases bs) auto
    then have ns: "\<not> (head_or_0 bs \<noteq> 0 \<and> vm_begin (regs V (head_or_0 bs)) \<le> ?a)" using 2(3) by auto
    obtain t where t: "vma_link_rb x link p (V\<lparr>regions_root := as @ x # bs\<rparr>) = Some (V\<lparr>regions_root := as @ x # bs, regions_tree := t\<rparr>)" "rb_tree t (as @ x # bs)"
      using link_rb_spec [of "V\<lparr>regions_root := as @ x # bs\<rparr>" as bs p link x] ok 2 x by (auto simp: regions_ok_def)
    have l: "(if head_or_0 bs = 0 then ?xs @ [x] else list_add_pred (head_or_0 bs) x ?xs) = as @ x # bs"
      unfolding 2(1) by (rule add_at_head) (use d 2(1) in auto)
    have "vm_region_attach x V = Some (OK, V\<lparr>regions_root := as @ x # bs, regions_tree := t, last_mmap := ?a\<rparr>)"
      using res(1) f ns t(1) by (simp add: vm_region_attach_def vm_region_attach_rbtree_def 2(4) l)
    then show thesis using attached 2 t(2) by blast
  qed
qed

section \<open>Finding a free range\<close>

text \<open>A start address is blocked when the range of \<open>sz\<close> bytes from it on, and the byte after, meet a region.\<close>

definition blocked :: "vmm_s \<Rightarrow> u32 \<Rightarrow> u32 \<Rightarrow> bool" where
  "blocked V sz s \<longleftrightarrow> (\<exists>b\<in>set (regions_root V). s < vm_end (regs V b) \<and> vm_begin (regs V b) \<le> s + sz)"

lemma no_wrap:
  assumes "sz \<le> CONFIG_USR_LIMIT" and "s \<le> CONFIG_USR_LIMIT - sz"
  shows "unat (s + sz) = unat s + unat sz" and "s + sz \<le> CONFIG_USR_LIMIT" and "s \<le> s + sz" and "s' \<le> s \<Longrightarrow> s' + sz \<le> s + sz"
proof -
  have l: "unat CONFIG_USR_LIMIT = 2147483648" by (simp add: CONFIG_USR_LIMIT_def)
  have "unat (CONFIG_USR_LIMIT - sz) = 2147483648 - unat sz" using assms(1) l by (simp add: unat_sub)
  then have b: "unat s + unat sz \<le> 2147483648" using assms l by (simp add: word_le_nat_alt)
  then have e: "unat (w + sz) = unat w + unat sz" if "unat w \<le> unat s" for w using that by (simp add: unat_word_ariths)
  show "unat (s + sz) = unat s + unat sz" "s + sz \<le> CONFIG_USR_LIMIT" "s \<le> s + sz" using e [of s] b l by (simp_all add: word_le_nat_alt)
  show "s' \<le> s \<Longrightarrow> s' + sz \<le> s + sz" using e by (simp add: word_le_nat_alt)
qed

definition solved :: "vmm_s \<Rightarrow> u32 \<Rightarrow> u32 \<Rightarrow> u32 \<times> addr \<times> rb_link \<times> addr \<Rightarrow> bool" where
  "solved V sz start res \<longleftrightarrow> (case res of (s, reg, link, p) \<Rightarrow> start \<le> s
     \<and> (\<forall>s'. start \<le> s' \<and> s' < s \<and> s' \<le> CONFIG_USR_LIMIT - sz \<longrightarrow> blocked V sz s')
     \<and> (s \<le> CONFIG_USR_LIMIT - sz \<longrightarrow> (\<exists>as bs. regions_root V = as @ bs \<and> (\<forall>b\<in>set as. vm_end (regs V b) \<le> s)
          \<and> (\<forall>b\<in>set bs. s + sz < vm_begin (regs V b)) \<and> reg = head_or_0 bs \<and> free_link (regions_tree V) p link \<and> place link as bs)))"

lemma free_tail:
  assumes "layout M (as @ bs)" and "head_or_0 bs = 0 \<or> e < vm_begin (M (head_or_0 bs))" and "0 \<notin> set bs"
  shows "\<forall>b\<in>set bs. e < vm_begin (M b)"
  using assms by (cases bs) (auto simp: layout_split intro: less_trans less_le_trans)

lemma solve_step:
  assumes ok: "regions_ok V" and sz: "sz \<le> CONFIG_USR_LIMIT" and st: "start \<le> CONFIG_USR_LIMIT - sz"
    and a: "answers (regs V) (regions_tree V) start (regions_root V) (reg, prev, link, p)"
  shows "reg = 0 \<or> start + sz < vm_begin (regs V reg) \<Longrightarrow> solved V sz start (start, reg, link, p)"
    and "\<not> (reg = 0 \<or> start + sz < vm_begin (regs V reg)) \<Longrightarrow> reg \<in> set (regions_root V) \<and> start < vm_end (regs V reg)
           \<and> (\<forall>s'. start \<le> s' \<and> s' < vm_end (regs V reg) \<and> s' \<le> CONFIG_USR_LIMIT - sz \<longrightarrow> blocked V sz s')"
proof -
  have d: "0 \<notin> set (regions_root V)" "layout (regs V) (regions_root V)" using ok rb_tree_distinct by (auto simp: regions_ok_def)
  have f: "reg = find_in (regs V) start (regions_root V)" using answers_found [OF d(2) a] by simp
  have "start \<le> start + sz" using no_wrap(3) [OF sz st] .
  show "solved V sz start (start, reg, link, p)" if h: "reg = 0 \<or> start + sz < vm_begin (regs V reg)"
  proof -
    have "\<not> (\<exists>n\<in>set (regions_root V). vm_begin (regs V n) \<le> start \<and> start < vm_end (regs V n) \<and> reg = n)"
      using h d(1) \<open>start \<le> start + sz\<close> by (metis leD le_less_trans order_trans less_imp_le)
    then obtain as bs where ab: "regions_root V = as @ bs" "\<forall>b\<in>set as. vm_end (regs V b) \<le> start" "reg = head_or_0 bs" "free_link (regions_tree V) p link" "place link as bs"
      using a unfolding answers_def by auto
    moreover have "\<forall>b\<in>set bs. start + sz < vm_begin (regs V b)" using free_tail [of "regs V" as bs "start + sz"] h d ab(1,3) by auto
    ultimately show ?thesis unfolding solved_def by auto
  qed
  show "reg \<in> set (regions_root V) \<and> start < vm_end (regs V reg) \<and> (\<forall>s'. start \<le> s' \<and> s' < vm_end (regs V reg) \<and> s' \<le> CONFIG_USR_LIMIT - sz \<longrightarrow> blocked V sz s')"
    if h: "\<not> (reg = 0 \<or> start + sz < vm_begin (regs V reg))"
  proof -
    have m: "reg \<in> set (regions_root V) \<and> start < vm_end (regs V reg)" using h f find_in_mem find_in_none by metis
    have "blocked V sz s'" if "start \<le> s'" "s' < vm_end (regs V reg)" "s' \<le> CONFIG_USR_LIMIT - sz" for s'
      using m h that no_wrap(4) [OF sz that(3) that(1)] unfolding blocked_def by (meson not_le order_trans)
    then show ?thesis using m by blast
  qed
qed

lemma solved_mono:
  assumes "solved V sz e res" and "start < e" and "\<And>s'. start \<le> s' \<Longrightarrow> s' < e \<Longrightarrow> s' \<le> CONFIG_USR_LIMIT - sz \<Longrightarrow> blocked V sz s'"
  shows "solved V sz start res"
proof -
  obtain s reg link p where res: "res = (s, reg, link, p)" by (cases res)
  have "e \<le> s" using assms(1) by (simp add: solved_def res)
  then have "start \<le> s" using assms(2) by simp
  moreover have "blocked V sz s'" if "start \<le> s'" "s' < s" "s' \<le> CONFIG_USR_LIMIT - sz" for s'
  proof (cases "s' < e")
    case True
    then show ?thesis using assms(3) that by blast
  next
    case False
    then show ?thesis using assms(1) that by (simp add: solved_def res not_less)
  qed
  ultimately show ?thesis using assms(1) by (simp add: solved_def res)
qed

lemma solve_loop_spec:
  assumes "regions_ok V" and "sz \<le> CONFIG_USR_LIMIT"
  shows "\<exists>res. solve_loop V sz (CONFIG_USR_LIMIT - sz) start = Some res \<and> solved V sz start res"
proof (induction "length (filter (\<lambda>b. start < vm_end (regs V b)) (regions_root V))" arbitrary: start rule: less_induct)
  case less
  show ?case
  proof (cases "start \<le> CONFIG_USR_LIMIT - sz")
    case False
    then show ?thesis by (subst solve_loop.simps) (auto simp: solved_def)
  next
    case True
    obtain reg prev link p where g: "vm_region_find_prepare start V = Some (reg, prev, link, p)" "answers (regs V) (regions_tree V) start (regions_root V) (reg, prev, link, p)"
      using find_prepare_spec [OF assms(1)] by (metis prod_cases4)
    note step = solve_step [OF assms True g(2)]
    show ?thesis
    proof (cases "reg = 0 \<or> start + sz < vm_begin (regs V reg)")
      case t: True
      then show ?thesis using step(1) True g(1) by (subst solve_loop.simps) auto
    next
      case f: False
      let ?e = "vm_end (regs V reg)"
      note m = step(2) [OF f]
      have "set (filter (\<lambda>b. ?e < vm_end (regs V b)) (regions_root V)) \<subset> set (filter (\<lambda>b. start < vm_end (regs V b)) (regions_root V))"
        using m by (auto intro: less_trans)
      then have "length (filter (\<lambda>b. ?e < vm_end (regs V b)) (regions_root V)) < length (filter (\<lambda>b. start < vm_end (regs V b)) (regions_root V))"
        using assms(1) rb_tree_distinct by (metis psubset_card_mono List.finite_set distinct_card distinct_filter regions_ok_def)
      then obtain res where res: "solve_loop V sz (CONFIG_USR_LIMIT - sz) ?e = Some res" "solved V sz ?e res" using less by blast
      have "solved V sz start res" by (rule solved_mono [OF res(2)]) (use m in auto)
      then show ?thesis using res(1) True f g(1) by (subst solve_loop.simps) auto
    qed
  qed
qed

lemma add_at_begin:
  assumes "distinct (as @ bs)" and "0 \<notin> set bs" and "\<forall>b\<in>set bs. vm_begin (M x) < vm_begin (M b)"
  shows "(if head_or_0 bs \<noteq> 0
          then if vm_begin (M x) < vm_begin (M (head_or_0 bs)) then list_add_pred (head_or_0 bs) x (as @ bs) else list_add_next (head_or_0 bs) x (as @ bs)
          else (as @ bs) @ [x]) = as @ x # bs"
  using assms add_at_head [OF assms(1,2), of x] by (cases bs) auto

lemma attach_anywhere_spec:
  assumes ok: "regions_ok V" and x: "x \<noteq> 0" "x \<notin> set (regions_root V)" and f: "\<not> flag_set (vm_flags (regs V x)) VM_REG_FIXED"
    and sz: "0 < vm_end (regs V x)" "vm_end (regs V x) \<le> CONFIG_USR_LIMIT"
  obtains (full) "vm_region_attach x V = Some (Some ENOMEM, V)" "\<And>s. last_mmap V \<le> s \<Longrightarrow> s \<le> CONFIG_USR_LIMIT - vm_end (regs V x) \<Longrightarrow> blocked V (vm_end (regs V x)) s"
  | (attached) s as bs t where
      "vm_region_attach x V = Some (OK, V\<lparr>regs := (regs V)(x := moved s (regs V x)), regions_tree := t, regions_root := as @ x # bs, last_mmap := s\<rparr>)"
      "regions_root V = as @ bs" "rb_tree t (as @ x # bs)" "last_mmap V \<le> s" "s \<le> CONFIG_USR_LIMIT - vm_end (regs V x)"
      "\<forall>b\<in>set as. vm_end (regs V b) \<le> s" "\<forall>b\<in>set bs. s + vm_end (regs V x) < vm_begin (regs V b)"
      "\<And>s'. last_mmap V \<le> s' \<Longrightarrow> s' < s \<Longrightarrow> blocked V (vm_end (regs V x)) s'"
proof -
  let ?sz = "vm_end (regs V x)" and ?lim = "CONFIG_USR_LIMIT - vm_end (regs V x)"
  obtain s reg link p where l: "solve_loop V ?sz ?lim (last_mmap V) = Some (s, reg, link, p)" "solved V ?sz (last_mmap V) (s, reg, link, p)"
    using solve_loop_spec [OF ok sz(2)] by (metis prod_cases4)
  show thesis
  proof (cases "?lim < s")
    case True
    then have "vm_region_attach x V = Some (Some ENOMEM, V)"
      using l(1) f by (simp add: vm_region_attach_def vm_region_attach_rbtree_def vm_region_solve_def)
    moreover have "blocked V ?sz s'" if "last_mmap V \<le> s'" "s' \<le> ?lim" for s' using l(2) that True by (simp add: solved_def)
    ultimately show thesis using full by blast
  next
    case False
    then obtain as bs where ab: "regions_root V = as @ bs" "\<forall>b\<in>set as. vm_end (regs V b) \<le> s" "\<forall>b\<in>set bs. s + ?sz < vm_begin (regs V b)"
        "reg = head_or_0 bs" "free_link (regions_tree V) p link" "place link as bs"
      using l(2) by (auto simp: solved_def)
    have r: "rb_tree (regions_tree V) (as @ bs)" using ok ab(1) by (simp add: regions_ok_def)
    have d: "distinct (as @ bs)" "0 \<notin> set bs" "rb_tree (regions_tree V) (as @ bs)" using rb_tree_distinct [OF r] r by simp_all
    have s: "s \<le> s + ?sz" "s \<le> ?lim" using no_wrap(3) [OF sz(2), of s] False by auto
    let ?M = "(regs V)(x := moved s (regs V x))"
    obtain t where t: "vma_link_rb x link p (V\<lparr>regs := ?M\<rparr>) = Some (V\<lparr>regs := ?M, regions_tree := t\<rparr>)" "rb_tree t (as @ x # bs)"
      using link_rb_spec [of "V\<lparr>regs := ?M\<rparr>" as bs p link x] d(3) ab x by auto
    have "vm_begin (?M x) < vm_begin (?M b)" if "b \<in> set bs" for b
      using that ab(1,3) x(2) s(1) by (auto simp: moved_def intro: le_less_trans)
    then have g: "(if head_or_0 bs \<noteq> 0
          then if vm_begin (?M x) < vm_begin (?M (head_or_0 bs)) then list_add_pred (head_or_0 bs) x (as @ bs) else list_add_next (head_or_0 bs) x (as @ bs)
          else (as @ bs) @ [x]) = as @ x # bs" (is "?G = _")
      by (intro add_at_begin [OF d(1,2)]) blast
    have "vm_region_solve x V = Some (OK, V\<lparr>regs := ?M, regions_tree := t, regions_root := ?G\<rparr>)"
      using l(1) False t(1) ab(1,4) by (simp add: vm_region_solve_def)
    then have "vm_region_attach x V = Some (OK, V\<lparr>regs := ?M, regions_tree := t, regions_root := as @ x # bs, last_mmap := s\<rparr>)"
      unfolding g using f by (simp add: vm_region_attach_def vm_region_attach_rbtree_def) (simp add: moved_def)
    moreover have "blocked V ?sz s'" if "last_mmap V \<le> s'" "s' < s" for s' using l(2) that s(2) by (auto simp: solved_def)
    ultimately show thesis using attached ab t(2) s(2) l(2) by (auto simp: solved_def)
  qed
qed

section \<open>Detaching\<close>

lemma layout_remove: "layout M (as @ x # bs) \<Longrightarrow> layout M (as @ bs)"
  by (auto simp: layout_split)

lemma region_unlink_spec:
  assumes ok: "regions_ok V" and xs: "regions_root V = as @ x # bs"
    and db: "flag_set (vm_flags (regs V x)) VM_REG_LAZY \<or> keysdb_unbind (regions_db V) (drop_bit 16 (vm_begin (regs V x))) (unat (drop_bit 16 (vm_end (regs V x) - vm_begin (regs V x)))) \<noteq> None"
  shows "\<exists>V'. region_unlink x V = Some V' \<and> regions_ok V' \<and> regions_root V' = as @ bs \<and> regs V' = regs V
    \<and> last_region V' = (if last_region V = x then 0 else last_region V)"
proof -
  have r: "rb_tree (regions_tree V) (as @ x # bs)" "layout (regs V) (as @ x # bs)" using ok xs by (simp_all add: regions_ok_def)
  then have "x \<notin> set as" using rb_tree_distinct by fastforce
  then have rm: "remove1 x (as @ x # bs) = as @ bs" by (simp add: remove1_append)
  obtain t where "rb_erase x (regions_tree V) = Some t" "rb_tree t (as @ bs)" using rbi.del_law [OF r(1)] by blast
  then show ?thesis using db layout_remove [OF r(2)] rm
    by (auto simp: region_unlink_def xs regions_ok_def Let_def CONFIG_VM_REGION_KEYWIDTH_def)
qed

section \<open>Properties\<close>

lemma layout_disjoint: "layout M xs \<Longrightarrow> a \<in> set xs \<Longrightarrow> b \<in> set xs \<Longrightarrow> a \<noteq> b \<Longrightarrow> \<not> overlaps (M a) (M b)"
  by (induction xs) (auto simp: layout_Cons overlaps_def not_less)

lemma find_in_first:
  "layout M xs \<Longrightarrow> \<exists>x\<in>set xs. a < vm_end (M x) \<Longrightarrow> b \<in> set xs \<Longrightarrow> vm_end (M b) \<le> a \<or> vm_end (M (find_in M a xs)) \<le> vm_end (M b)"
proof (induction xs)
  case (Cons x xs)
  have "vm_end (M x) \<le> vm_end (M b)" if "b \<in> set xs" 
    using Cons.prems(1) that by (meson layout_Cons layout_def less_imp_le order_trans)
  then show ?case using Cons by (auto simp: layout_Cons not_less)
qed simp

definition region_at :: "u32 \<Rightarrow> u32 \<Rightarrow> u32 \<Rightarrow> vm_region_s" where
  "region_at b e f = \<lparr>vm_refcount = 1, vm_begin = b, vm_end = e, vm_start = b, vm_limit = e, vm_prot = VM_REG_RD, vm_pgprot = 0, vm_flags = f, vm_offset = 0,
     vm_op = Some vm_region_default_op, vm_mapper = None, vm_file = None\<rparr>"

text \<open>Three regions of 64 kilobytes, and two more that are not attached: one to go anywhere, one at a fixed address that runs into the second.\<close>

definition space :: vmm_s where
  "space = \<lparr>regs = (\<lambda>_. region_at 0 0x10000 VM_REG_ANON)
       (1 := region_at 0x10000 0x20000 0, 2 := region_at 0x30000 0x40000 0, 3 := region_at 0x50000 0x60000 0,
        8 := region_at 0x20000 0x40000 VM_REG_FIXED),
     regions_tree = three, regions_root = [1, 2, 3], regions_db = \<lparr>kroot = replicate 1024 None, records_nr = 1024, records_bits = 10, key_width = 16\<rparr>,
     last_region = 0, last_mmap = 0x10000\<rparr>"

lemma space_simps: "regs space 7 = region_at 0 0x10000 VM_REG_ANON" "regs space 8 = region_at 0x20000 0x40000 VM_REG_FIXED"
  "regs space (Suc 0) = region_at 0x10000 0x20000 0" "regs space 2 = region_at 0x30000 0x40000 0" "regs space 3 = region_at 0x50000 0x60000 0"
  "regions_root space = [1, 2, 3]"
  by (simp_all add: space_def)

lemma space_ok: "regions_ok space"
  using three_tree by (simp add: regions_ok_def space_def layout_def region_at_def)

text \<open>
  C11: \<^verbatim>\<open>vm_region_find\<close>, the search in the tree, returns on every address space in order and answers what the scan of the list, \<^verbatim>\<open>vm_region_find_list\<close>,
  answers: the region that contains the address if there is one, otherwise the first region above it, \<^verbatim>\<open>NULL\<close> when there is none.
\<close>

theorem vm_region_find_correct:
  assumes "regions_ok V"
  shows "\<exists>r. vm_region_find a V = Some r \<and> r = fst (vm_region_find_list a V)
    \<and> (\<forall>b\<in>set (regions_root V). vm_begin (regs V b) \<le> a \<and> a < vm_end (regs V b) \<longrightarrow> r = b)
    \<and> (if r = 0 then \<forall>b\<in>set (regions_root V). vm_end (regs V b) \<le> a
        else r \<in> set (regions_root V) \<and> a < vm_end (regs V r) \<and> (\<forall>b\<in>set (regions_root V). vm_end (regs V b) \<le> a \<or> vm_end (regs V r) \<le> vm_end (regs V b)))"
proof -
  let ?r = "find_in (regs V) a (regions_root V)"
  have l: "layout (regs V) (regions_root V)" "0 \<notin> set (regions_root V)" using assms rb_tree_distinct by (auto simp: regions_ok_def)
  have one: "?r = b" if b: "b \<in> set (regions_root V)" "vm_begin (regs V b) \<le> a" "a < vm_end (regs V b)" for b
  proof -
    have r: "?r \<in> set (regions_root V)" "a < vm_end (regs V ?r)" "vm_end (regs V b) \<le> a \<or> vm_end (regs V ?r) \<le> vm_end (regs V b)"
      using find_in_mem find_in_first [OF l(1) _ b(1)] b by blast+
    have "vm_begin (regs V ?r) < vm_end (regs V ?r)" using l(1) r(1) by (simp add: layout_def)
    then have "overlaps (regs V ?r) (regs V b)" using b r unfolding overlaps_def by (meson leD le_less_trans less_le_trans)
    then show ?thesis using layout_disjoint [OF l(1) r(1) b(1)] by blast
  qed
  show ?thesis
  proof (cases "\<exists>x\<in>set (regions_root V). a < vm_end (regs V x)")
    case True
    then have "?r \<noteq> 0" using find_in_mem l(2) by metis
    then show ?thesis using vm_region_find_spec [OF assms] one find_in_mem [OF True] find_in_first [OF l(1) True]
      by (intro exI [of _ ?r]) (simp add: vm_region_find_list_def Let_def)
  next
    case False
    then have "?r = 0" by (rule find_in_none)
    then show ?thesis using vm_region_find_spec [OF assms] one False by (intro exI [of _ ?r]) (simp add: vm_region_find_list_def Let_def not_less)
  qed
qed

theorem vm_region_find_correct_witness: "vm_region_find 0x38000 space = Some 2 \<and> vm_region_find 0x40000 space = Some 3 \<and> vm_region_find 0x60000 space = Some 0"
  using vm_region_find_correct [OF space_ok, of "0x38000"] vm_region_find_correct [OF space_ok, of "0x40000"] vm_region_find_correct [OF space_ok, of "0x60000"]
  by (simp add: vm_region_find_list_def Let_def) (simp add: space_def region_at_def)

text \<open>
  C9: A region that may go anywhere is attached at the first free place from \<^verbatim>\<open>last_mmap\<close> on, and the search for it ends. On success the address space
  is still in order (tree and list agree, regions sorted and without overlap), the region begins at or after the old \<^verbatim>\<open>last_mmap\<close>, has the size asked for,
  ends at or below the limit of user space and no other region was touched; every lower start address is blocked. \<^verbatim>\<open>ENOMEM\<close> changes nothing and
  means that every start address up to the limit is blocked.
\<close>

theorem vm_region_attach_first_fit:
  assumes "regions_ok V" and "x \<noteq> 0" and "x \<notin> set (regions_root V)" and "\<not> flag_set (vm_flags (regs V x)) VM_REG_FIXED"
    and "0 < vm_end (regs V x)" and "vm_end (regs V x) \<le> CONFIG_USR_LIMIT"
  shows "\<exists>err V'. vm_region_attach x V = Some (err, V')
    \<and> (if err = OK then regions_ok V' \<and> set (regions_root V') = insert x (set (regions_root V)) \<and> (\<forall>b. b \<noteq> x \<longrightarrow> regs V' b = regs V b)
          \<and> last_mmap V \<le> vm_begin (regs V' x) \<and> last_mmap V' = vm_begin (regs V' x)
          \<and> vm_end (regs V' x) = vm_begin (regs V' x) + vm_end (regs V x) \<and> vm_end (regs V' x) \<le> CONFIG_USR_LIMIT
          \<and> (\<forall>s. last_mmap V \<le> s \<and> s < vm_begin (regs V' x) \<longrightarrow> blocked V (vm_end (regs V x)) s)
        else err = Some ENOMEM \<and> V' = V \<and> (\<forall>s. last_mmap V \<le> s \<and> s \<le> CONFIG_USR_LIMIT - vm_end (regs V x) \<longrightarrow> blocked V (vm_end (regs V x)) s))"
  using assms
proof (cases rule: attach_anywhere_spec)
  case full
  then show ?thesis by auto
next
  case (attached s as bs t)
  let ?M = "(regs V)(x := moved s (regs V x))" and ?sz = "vm_end (regs V x)"
  have x: "x \<notin> set (as @ bs)" using assms(3) attached(2) by simp
  note w = no_wrap [OF assms(6) attached(5)]
  have lt: "s < s + ?sz" using w(1) assms(5) by (simp add: word_less_nat_alt)
  have "?M a = regs V a" if "a \<in> set (as @ bs)" for a using that x by auto
  from layout_cong [of "as @ bs" ?M "regs V", OF this] have "layout ?M (as @ bs)" using assms(1) attached(2) by (simp add: regions_ok_def)
  moreover have "\<forall>b\<in>set as. vm_end (?M b) \<le> vm_begin (?M x)" "\<forall>b\<in>set bs. vm_begin (?M x) < vm_begin (?M b)" "\<forall>b\<in>set bs. vm_end (?M x) \<le> vm_begin (?M b)"
    using attached(6,7) x lt by (auto simp: moved_def intro: less_trans less_imp_le)
  moreover have "vm_begin (?M x) < vm_end (?M x)" using lt by (simp add: moved_def)
  ultimately have "layout ?M (as @ x # bs)" using layout_insert by blast
  then show ?thesis using attached w(2) by (auto simp: regions_ok_def moved_def)
qed

theorem vm_region_attach_first_fit_witness:
  "\<exists>err V'. vm_region_attach 7 space = Some (err, V') \<and> (if err = OK then regions_ok V' \<and> 7 \<in> set (regions_root V') else V' = space)"
proof -
  have "\<not> flag_set (vm_flags (regs space 7)) VM_REG_FIXED" "0 < vm_end (regs space 7)" "vm_end (regs space 7) \<le> CONFIG_USR_LIMIT" "7 \<notin> set (regions_root space)"
    by (simp_all add: space_simps region_at_def flag_set_def VM_REG_FIXED_def VM_REG_ANON_def CONFIG_USR_LIMIT_def)
  then obtain err V' where "vm_region_attach 7 space = Some (err, V')" "if err = OK then regions_ok V' \<and> set (regions_root V') = insert 7 (set (regions_root space)) else V' = space"
    using vm_region_attach_first_fit [OF space_ok, of 7] by (auto split: if_splits)
  then show ?thesis by (intro exI [of _ err] exI [of _ V']) auto
qed

text \<open>
  A region with a fixed address (\<^verbatim>\<open>VM_REG_FIXED\<close>) is refused with \<^verbatim>\<open>EEXIST\<close>, and nothing changes, exactly when its first address lies in an attached
  region. Otherwise it is attached at its place in the order, and the address space stays in order exactly when the region overlaps no other:
  the code does not test the end of the new region against the next one.
\<close>

theorem vm_region_attach_fixed:
  assumes "regions_ok V" and "x \<noteq> 0" and "x \<notin> set (regions_root V)" and "flag_set (vm_flags (regs V x)) VM_REG_FIXED"
    and "vm_begin (regs V x) < vm_end (regs V x)"
  shows "if \<exists>b\<in>set (regions_root V). vm_begin (regs V b) \<le> vm_begin (regs V x) \<and> vm_begin (regs V x) < vm_end (regs V b)
    then vm_region_attach x V = Some (Some EEXIST, V)
    else \<exists>V'. vm_region_attach x V = Some (OK, V') \<and> regs V' = regs V \<and> last_mmap V' = vm_begin (regs V x)
      \<and> rb_tree (regions_tree V') (regions_root V') \<and> set (regions_root V') = insert x (set (regions_root V))
      \<and> (regions_ok V' \<longleftrightarrow> (\<forall>b\<in>set (regions_root V). \<not> overlaps (regs V x) (regs V b)))"
  using assms
proof (cases rule: attach_fixed_spec)
  case (exists b)
  then show ?thesis by auto
next
  case (attached as bs t)
  have l: "layout (regs V) (as @ bs)" using assms(1) attached(2) by (simp add: regions_ok_def)
  have "\<not> (vm_begin (regs V b) \<le> vm_begin (regs V x) \<and> vm_begin (regs V x) < vm_end (regs V b))" if "b \<in> set (as @ bs)" for b
    using that attached(4,5) by (auto simp: not_less not_le)
  moreover have "overlaps (regs V x) (regs V b) \<longleftrightarrow> b \<in> set bs \<and> vm_begin (regs V b) < vm_end (regs V x)" if "b \<in> set (as @ bs)" for b
  proof -
    have "vm_begin (regs V b) < vm_end (regs V b)" using l that by (simp add: layout_def)
    then show ?thesis using that attached(4,5) unfolding overlaps_def by (auto simp: not_less intro: less_trans dest: leD)
  qed
  ultimately show ?thesis using attached layout_insert [OF l attached(4,5) assms(5)] by (auto simp: regions_ok_def not_less)
qed

theorem vm_region_attach_fixed_witness:
  "\<exists>V'. vm_region_attach 8 space = Some (OK, V') \<and> set (regions_root V') = {1, 2, 3, 8} \<and> \<not> regions_ok V'"
proof -
  have h: "flag_set (vm_flags (regs space 8)) VM_REG_FIXED" "vm_begin (regs space 8) < vm_end (regs space 8)" "8 \<notin> set (regions_root space)"
    "\<not> (\<exists>b\<in>set (regions_root space). vm_begin (regs space b) \<le> vm_begin (regs space 8) \<and> vm_begin (regs space 8) < vm_end (regs space b))"
    "\<exists>b\<in>set (regions_root space). overlaps (regs space 8) (regs space b)"
    by (simp_all add: space_simps region_at_def flag_set_def VM_REG_FIXED_def overlaps_def)
  have "set (regions_root space) = {1, 2, 3}" by (simp add: space_simps)
  then show ?thesis using vm_region_attach_fixed [OF space_ok _ h(3,1,2)] h(4,5) by (auto split: if_splits)
qed

end
