(* ===== verification/Mm_VmmFault.thy ===== *)
theory Mm_VmmFault
  imports Mm_VmRegion
begin

text \<open>
  Page faults: the fault handlers of \<^verbatim>\<open>src/kernel/mm/vmm.c\<close> and \<^verbatim>\<open>vm_region_update\<close> of \<^verbatim>\<open>vm_region.c\<close>, above the page tables of \<^verbatim>\<open>Mm_Pmm\<close> and the regions of
  \<^verbatim>\<open>Mm_VmRegion\<close>. A page frame has contents, a reference count and possibly a mapper. What an allocation returns, whether a frame
  is local (a question to the architecture) and the frame a mapper supplies are parameters. A failed assertion prints and the handler goes on. \<open>None\<close> is a handler that does not return or that
  uses a pointer it never set.
\<close>

section \<open>Model\<close>

record 'c vm_state =
  pmm :: pmm_s
  content :: "u32 \<Rightarrow> 'c"
  refs :: "u32 \<Rightarrow> nat"
  has_mapper :: "u32 \<Rightarrow> bool"
  spurious :: nat

text \<open>The answers of the allocator and of the architecture during a fault: a frame, a page for a table, which frames are local.\<close>

record resources =
  frame :: "u32 option"
  table :: "u32 option"
  local :: "u32 \<Rightarrow> bool"

abbreviation set_pmm :: "pmm_s \<Rightarrow> 'c vm_state \<Rightarrow> 'c vm_state" where
  "set_pmm P s \<equiv> s\<lparr>pmm := P\<rparr>"

definition ppn_copy :: "u32 \<Rightarrow> u32 \<Rightarrow> 'c vm_state \<Rightarrow> 'c vm_state" where
  "ppn_copy dest src s = s\<lparr>content := (content s)(dest := content s src)\<rparr>"

text \<open>
  A frame whose last reference is dropped is free: \<^verbatim>\<open>ppm_free_pages\<close>, which \<^verbatim>\<open>ppn_refcount_down\<close> calls, gives it back to the page manager then (theory \<^verbatim>\<open>Mm_Ppm\<close>). The count stands for
  the 32-bit counter of a frame that has a reference to drop.
\<close>

definition ppn_refcount_down :: "u32 \<Rightarrow> 'c vm_state \<Rightarrow> 'c vm_state" where
  "ppn_refcount_down p s = s\<lparr>refs := (refs s)(p := refs s p - 1)\<rparr>"

definition new_frame :: "u32 \<Rightarrow> 'c vm_state \<Rightarrow> 'c vm_state" where
  "new_frame p s = s\<lparr>refs := (refs s)(p := 1), has_mapper := (has_mapper s)(p := False)\<rparr>"

definition free_frame :: "u32 \<Rightarrow> 'c vm_state \<Rightarrow> 'c vm_state" where
  "free_frame p s = s\<lparr>refs := (refs s)(p := 0)\<rparr>"

definition no_info :: pmm_page_info where
  "no_info = \<lparr>attr = 0, ppn = 0, isAtomic = False, data = 0\<rparr>"

definition unlock :: "pmm_page_info \<Rightarrow> 'c vm_state \<Rightarrow> 'c vm_state" where
  "unlock info s = set_pmm (snd (pmm_unlock_page info (pmm s))) s"

definition page_info :: "u32 \<Rightarrow> u32 \<Rightarrow> pmm_page_info" where
  "page_info a p = \<lparr>attr = a, ppn = p, isAtomic = False, data = 0\<rparr>"

definition vmm_do_cow :: "resources \<Rightarrow> vm_region_s \<Rightarrow> u32 \<Rightarrow> 'c vm_state \<Rightarrow> (error_t \<times> 'c vm_state) option" where
  "vmm_do_cow res region vaddr s = do {
     (err, old, P) \<leftarrow> pmm_lock_page (table res) None vaddr no_info (pmm s);
     let s = set_pmm P s;
     if err \<noteq> OK then None
     else if \<not> isAtomic old \<or> \<not> flag_set (attr old) PMM_COW
     then (let s = unlock old (s\<lparr>spurious := spurious s + 1\<rparr>) in Some (err, s))
     else do {
       let reuse = (local res (ppn old) \<and> \<not> has_mapper s (ppn old) \<and> refs s (ppn old) = 1);
       case (if reuse then Some (ppn old) else frame res) of
         None \<Rightarrow> (let s = unlock old s in Some (Some ENOMEM, s))
       | Some newpage \<Rightarrow> do {
           let s = (if reuse then s else ppn_copy newpage (ppn old) (new_frame newpage s));
           let new = page_info ((vm_pgprot region OR PMM_WRITE) AND NOT (PMM_COW OR PMM_MIGRATE)) newpage;
           let (err, P) = pmm_set_page (table res) None vaddr new (pmm s);
           let s = set_pmm P s;
           if err \<noteq> OK then (let s = unlock old s in Some (err, free_frame newpage s))
           else Some (OK, if reuse then s else ppn_refcount_down (ppn old) s) } } }"

definition vmm_do_migrate :: "resources \<Rightarrow> vm_region_s \<Rightarrow> u32 \<Rightarrow> u32 \<Rightarrow> 'c vm_state \<Rightarrow> (error_t \<times> 'c vm_state) option" where
  "vmm_do_migrate res region pinfo_ppn vaddr s = do {
     (err, current, P) \<leftarrow> pmm_lock_page (table res) None vaddr no_info (pmm s);
     let s = set_pmm P s;
     if err \<noteq> OK then None
     else if \<not> isAtomic current \<or> ppn current \<noteq> pinfo_ppn \<or> \<not> flag_set (attr current) PMM_MIGRATE
     then (let s = unlock current (s\<lparr>spurious := spurious s + 1\<rparr>) in Some (OK, s))
     else do {
       let newpage = (if local res pinfo_ppn then None else frame res);
       let s = (case newpage of None \<Rightarrow> s | Some n \<Rightarrow> ppn_copy n pinfo_ppn (new_frame n s));
       let a = (if newpage \<noteq> None \<and> flag_set (attr current) PMM_COW then (attr current OR PMM_WRITE) AND NOT PMM_COW else attr current);
       let p = (case newpage of None \<Rightarrow> ppn current | Some n \<Rightarrow> n);
       let new = page_info (((a OR PMM_PRESENT) AND NOT PMM_MIGRATE) AND NOT PMM_LOCKED) p;
       let (err, P) = pmm_set_page (table res) None vaddr new (pmm s);
       let s = set_pmm P s;
       if err \<noteq> OK
       then (let s = unlock current s in Some (err, case newpage of None \<Rightarrow> s | Some n \<Rightarrow> free_frame n s))
       else Some (OK, if newpage \<noteq> None then ppn_refcount_down pinfo_ppn s else s) } }"

text \<open>\<open>mapper_get_ppn\<close> answers the frame for an index of the mapper, with a reference taken, or 0.\<close>

definition vmm_do_mapped :: "resources \<Rightarrow> (u32 \<Rightarrow> u32) \<Rightarrow> vm_region_s \<Rightarrow> u32 \<Rightarrow> 'c vm_state \<Rightarrow> (error_t \<times> 'c vm_state) option" where
  "vmm_do_mapped res mapper_get_ppn region vaddr s = do {
     (err, current, P) \<leftarrow> pmm_lock_page (table res) None vaddr no_info (pmm s);
     let s = set_pmm P s;
     if err \<noteq> OK then Some (err, s)
     else if \<not> isAtomic current \<or> attr current \<noteq> 0 then Some (OK, s\<lparr>spurious := spurious s + 1\<rparr>)
     else do {
       let index = drop_bit 12 ((vaddr - vm_start region) + vm_offset region);
       let p = mapper_get_ppn index;
       if p = 0
       then (let s = unlock current s in Some (if vm_file region = None then Some EIO else Some ENOMEM, s))
       else do {
         let s = s\<lparr>refs := (refs s)(p := refs s p + 1)\<rparr>;
         let (err, P) = pmm_set_page (table res) None vaddr (page_info (vm_pgprot region) p) (pmm s);
         Some (err, set_pmm P s) } } }"

definition vmm_do_aod :: "resources \<Rightarrow> 'c \<Rightarrow> vm_region_s \<Rightarrow> u32 \<Rightarrow> 'c vm_state \<Rightarrow> (error_t \<times> 'c vm_state) option" where
  "vmm_do_aod res zero region vaddr s = do {
     (err, old, P) \<leftarrow> pmm_lock_page (table res) None vaddr no_info (pmm s);
     let s = set_pmm P s;
     if err \<noteq> OK then Some (err, s)
     else if \<not> isAtomic old then Some (OK, s\<lparr>spurious := spurious s + 1\<rparr>)
     else case frame res of
         None \<Rightarrow> (let s = unlock old s in Some (Some ENOMEM, s))
       | Some p \<Rightarrow> do {
           let s = new_frame p s;
           let s = s\<lparr>content := (content s)(p := zero)\<rparr>;
           let (err, P) = pmm_set_page (table res) None vaddr (page_info (vm_pgprot region) p) (pmm s);
           let s = set_pmm P s;
           if err \<noteq> OK then (let s = unlock old s in Some (err, free_frame p s))
           else Some (OK, s) } }"

text \<open>The bits of the fault report, from \<^verbatim>\<open>arch-pmm.h\<close>.\<close>

definition pmm_except_isWrite :: "u32 \<Rightarrow> bool" where "pmm_except_isWrite flags \<longleftrightarrow> flags AND 0x1000 = 0"
definition pmm_except_isExecute :: "u32 \<Rightarrow> bool" where "pmm_except_isExecute flags \<longleftrightarrow> flag_set flags 0x0010"
definition pmm_except_isPresent :: "u32 \<Rightarrow> bool" where "pmm_except_isPresent flags \<longleftrightarrow> flag_set flags 0x0003"
definition pmm_except_isRights :: "u32 \<Rightarrow> bool" where "pmm_except_isRights flags \<longleftrightarrow> flag_set flags 0x0004"
definition pmm_except_isInKernelMode :: "u32 \<Rightarrow> bool" where "pmm_except_isInKernelMode flags \<longleftrightarrow> flag_set flags 0x0100"

definition vmm_default_pagefault ::
  "resources \<Rightarrow> (nat \<Rightarrow> u32 \<Rightarrow> u32) \<Rightarrow> 'c \<Rightarrow> vm_region_s \<Rightarrow> u32 \<Rightarrow> u32 \<Rightarrow> 'c vm_state \<Rightarrow> (error_t \<times> 'c vm_state) option" where
  "vmm_default_pagefault res mapper_get_ppn zero region vaddr flags s =
     (let (a, p) = pmm_get_page vaddr (pmm s)
      in if a \<noteq> 0 \<and> p \<noteq> 0
         then if flag_set a PMM_COW \<and> pmm_except_isWrite flags then vmm_do_cow res region vaddr s
              else if flag_set a PMM_MIGRATE then vmm_do_migrate res region p vaddr s
              else Some (OK, s\<lparr>spurious := spurious s + 1\<rparr>)
         else case vm_mapper region of
                Some m \<Rightarrow> vmm_do_mapped res (mapper_get_ppn m) region vaddr s
              | None \<Rightarrow> vmm_do_aod res zero region vaddr s)"

text \<open>The \<^verbatim>\<open>page_fault\<close> operation of each table. Those of the devices (\<^verbatim>\<open>fb_pagefault\<close>, \<^verbatim>\<open>icu_pagefault\<close>, \<^verbatim>\<open>memc_pagefault\<close>) answer \<^verbatim>\<open>EFAULT\<close>: a device maps its pages in advance.\<close>

fun page_fault ::
  "vm_region_op_s \<Rightarrow> resources \<Rightarrow> (nat \<Rightarrow> u32 \<Rightarrow> u32) \<Rightarrow> 'c \<Rightarrow> vm_region_s \<Rightarrow> u32 \<Rightarrow> u32 \<Rightarrow> 'c vm_state \<Rightarrow> (error_t \<times> 'c vm_state) option" where
  "page_fault vm_region_default_op res mapper_get_ppn zero region vaddr flags s = vmm_default_pagefault res mapper_get_ppn zero region vaddr flags s"
| "page_fault fb_vm_region_op res mapper_get_ppn zero region vaddr flags s = Some (Some EFAULT, s)"
| "page_fault icu_vm_region_op res mapper_get_ppn zero region vaddr flags s = Some (Some EFAULT, s)"
| "page_fault memc_vm_region_op res mapper_get_ppn zero region vaddr flags s = Some (Some EFAULT, s)"

text \<open>\<^verbatim>\<open>vm_region_update\<close> calls the operation of the region, through a pointer that may be null. It answers 0, the error of the page fault handler, or a code from -1001 to -1005.\<close>

datatype update_err = Refused int | Failed errno

definition vm_region_update ::
  "resources \<Rightarrow> (nat \<Rightarrow> u32 \<Rightarrow> u32) \<Rightarrow> 'c \<Rightarrow> vm_region_s \<Rightarrow> u32 \<Rightarrow> u32 \<Rightarrow> 'c vm_state \<Rightarrow> (update_err option \<times> 'c vm_state) option" where
  "vm_region_update res mapper_get_ppn zero region vaddr flags s =
     (if pmm_except_isRights flags then Some (Some (Refused (-1001)), s)
      else if pmm_except_isPresent flags \<and> \<not> flag_set (vm_prot region) VM_REG_RD then Some (Some (Refused (-1002)), s)
      else if pmm_except_isWrite flags \<and> \<not> flag_set (vm_prot region) VM_REG_WR then Some (Some (Refused (-1003)), s)
      else if pmm_except_isExecute flags \<and> \<not> flag_set (vm_prot region) VM_REG_EX then Some (Some (Refused (-1004)), s)
      else if flag_set (vm_flags region) VM_REG_INIT then Some (Some (Refused (-1005)), s)
      else do {
        ops \<leftarrow> vm_op region;
        (err, s) \<leftarrow> page_fault ops res mapper_get_ppn zero region vaddr flags s;
        Some (map_option Failed err, s) })"

datatype vmm_error = VMM_ERESOLVED | VMM_ECHECKUSPACE | VMM_ESIGSEGV | VMM_ESIGBUS

definition NOT_IN_USPACE :: "u32 \<Rightarrow> bool" where
  "NOT_IN_USPACE a \<longleftrightarrow> \<not> (sint CONFIG_USR_OFFSET \<le> sint a \<and> a \<le> CONFIG_USR_LIMIT)"

definition vmm_keysdb_update :: "(nat \<Rightarrow> bool) \<Rightarrow> addr \<Rightarrow> vmm_s \<Rightarrow> vmm_s option" where
  "vmm_keysdb_update alloc region V = do {
     let r = regs V region;
     let key = drop_bit CONFIG_VM_REGION_KEYWIDTH (vm_begin r);
     let count = unat (drop_bit CONFIG_VM_REGION_KEYWIDTH (vm_end r - vm_begin r));
     (err, db) \<leftarrow> keysdb_bind alloc (regions_db V) key count (Some region);
     Some (V\<lparr>regions_db := db\<rparr>) }"

text \<open>
  \<^verbatim>\<open>vmm_fault_handler\<close>: the label \<^verbatim>\<open>FAULT_SEND_SIGSEGV\<close> falls through to \<^verbatim>\<open>FAULT_SEND_SIGBUS\<close>. \<open>kthread\<close>: the current thread is a kernel thread.
\<close>

definition fault_lookup :: "u32 \<Rightarrow> vmm_s \<Rightarrow> (addr \<times> bool) option" where
  "fault_lookup bad_vaddr V = do {
     hit \<leftarrow> keysdb_lookup (regions_db V) (drop_bit CONFIG_VM_REGION_KEYWIDTH bad_vaddr);
     case hit of
       Some r \<Rightarrow> Some (r, False)
     | None \<Rightarrow> do { r \<leftarrow> vm_region_find bad_vaddr V; Some (r, True) } }"

definition vmm_fault_handler ::
  "resources \<Rightarrow> (nat \<Rightarrow> u32 \<Rightarrow> u32) \<Rightarrow> 'c \<Rightarrow> (nat \<Rightarrow> bool) \<Rightarrow> bool \<Rightarrow> u32 \<Rightarrow> u32 \<Rightarrow> vmm_s \<Rightarrow> 'c vm_state \<Rightarrow> (vmm_error \<times> vmm_s \<times> 'c vm_state) option" where
  "vmm_fault_handler res mapper_get_ppn zero alloc kthread bad_vaddr flags V s =
     (if NOT_IN_USPACE bad_vaddr
      then Some (if pmm_except_isInKernelMode flags then VMM_ECHECKUSPACE else VMM_ESIGBUS, V, s)
      else if kthread then Some (VMM_ECHECKUSPACE, V, s)
      else do {
        (region, isMiss) \<leftarrow> fault_lookup bad_vaddr V;
        let r = regs V region;
        if region = 0 \<or> vm_limit r < bad_vaddr \<or> bad_vaddr < vm_start r
        then Some (if pmm_except_isInKernelMode flags then VMM_ECHECKUSPACE else VMM_ESIGBUS, V, s)
        else do {
          V \<leftarrow> (if isMiss then vmm_keysdb_update alloc region V else Some V);
          (err, s) \<leftarrow> vm_region_update res mapper_get_ppn zero r bad_vaddr flags s;
          Some (if err \<noteq> None then (let e = VMM_ESIGSEGV; e = VMM_ESIGBUS in e) else VMM_ERESOLVED, V, s) } })"

section \<open>Locking an entry and setting it\<close>

text \<open>A fault can be served at an address: the tables are in order, there is a table or one can be had, and nobody has locked the entry.\<close>

definition ready :: "u32 option \<Rightarrow> u32 \<Rightarrow> pmm_s \<Rightarrow> bool" where
  "ready alloc v P \<longleftrightarrow> pmm_ok P \<and> table_room alloc v P \<and> (pgdir P (MMU_PDE v) = 0 \<longrightarrow> alloc \<noteq> None) \<and> \<not> bit (fst (pmm_get_page v P)) 3"

definition small :: "u32 \<Rightarrow> bool" where
  "small a \<longleftrightarrow> \<not> bit a 30 \<and> \<not> flag_set a PMM_CLEAR"

definition remapped :: "u32 \<Rightarrow> u32 \<Rightarrow> u32 \<Rightarrow> pmm_s \<Rightarrow> pmm_s \<Rightarrow> bool" where
  "remapped v a p P Q \<longleftrightarrow> pmm_ok Q \<and> (\<forall>w. pmm_get_page w Q = (if same_page w v then (a, p AND MMU_PPN_MASK) else pmm_get_page w P))"

lemma lock_set:
  assumes "ready alloc v P"
  obtains Q where "pmm_lock_page alloc None v info P =
      Some (OK, \<lparr>attr = fst (pmm_get_page v P), ppn = snd (pmm_get_page v P), isAtomic = True, data = pte_of (pgdir Q (MMU_PDE v)) v\<rparr>, Q)"
    and "\<And>a p. small a \<Longrightarrow> \<exists>R. pmm_set_page alloc None v (page_info a p) Q = (OK, R) \<and> remapped v a p P R"
    and "\<And>i. data i = pte_of (pgdir Q (MMU_PDE v)) v \<Longrightarrow> \<exists>j R. pmm_unlock_page i Q = (j, R) \<and> remapped v 0 (snd (pmm_get_page v P)) P R"
    and "pmm_get_page v Q = (fst (pmm_get_page v P) OR PMM_LOCKED, snd (pmm_get_page v P))" and "pmm_ok Q" and "is_table (pgdir Q (MMU_PDE v))"
proof -
  have r: "pmm_ok P" "table_room alloc v P" "pgdir P (MMU_PDE v) = 0 \<Longrightarrow> alloc \<noteq> None" "\<not> bit (fst (pmm_get_page v P)) 3"
    using assms by (auto simp: ready_def)
  obtain Q where Q: "pmm_lock_page alloc None v info P =
      Some (OK, \<lparr>attr = fst (pmm_get_page v P), ppn = snd (pmm_get_page v P), isAtomic = True, data = pte_of (pgdir Q (MMU_PDE v)) v\<rparr>, Q)"
    "pmm_ok Q" "is_table (pgdir Q (MMU_PDE v))"
    "\<And>w. pmm_get_page w Q = (if same_page w v then (fst (pmm_get_page v P) OR PMM_LOCKED, snd (pmm_get_page v P)) else pmm_get_page w P)"
    using lock_page_spec [OF r] by metis
  have nz: "pgdir Q (MMU_PDE v) \<noteq> 0" using Q(3) by (auto simp: is_table_def)
  then have t: "table_room alloc v Q" using Q(3) by (auto simp: table_room_def)
  have s: "\<exists>R. pmm_set_page alloc None v (page_info a p) Q = (OK, R) \<and> remapped v a p P R" if "small a" for a p
    using set_page_small [OF Q(2) t, of "page_info a p"] that nz Q(4) by (auto simp: small_def page_info_def remapped_def)
  have m: "snd (pmm_get_page v P) AND MMU_PPN_MASK = snd (pmm_get_page v P)"
  proof (cases "is_table (pgdir P (MMU_PDE v))")
    case True
    then show ?thesis using get_small [of P v] by (simp add: and.assoc)
  next
    case False
    then show ?thesis using get_small_iff [OF r(1,2)] by simp
  qed
  have u: "\<exists>j R. pmm_unlock_page i Q = (j, R) \<and> remapped v 0 (snd (pmm_get_page v P)) P R" if "data i = pte_of (pgdir Q (MMU_PDE v)) v" for i
    by (rule unlock_page_spec [OF Q(2,3) that]) (auto simp: remapped_def Q(4) m)
  show thesis using that [OF Q(1)] s u Q(2-4) by simp
qed

lemma ppn_masked: "ready alloc v P \<Longrightarrow> snd (pmm_get_page v P) AND MMU_PPN_MASK = snd (pmm_get_page v P)"
  by (cases "is_table (pgdir P (MMU_PDE v))") (auto simp: ready_def get_small and.assoc dest: get_small_iff)

section \<open>First touch of a page\<close>

lemma do_aod_spec:
  assumes "ready (table res) v (pmm s)" and "frame res = Some p" and "small (vm_pgprot r)"
  shows "\<exists>P. vmm_do_aod res z r v s = Some (OK, s\<lparr>pmm := P, content := (content s)(p := z), refs := (refs s)(p := 1), has_mapper := (has_mapper s)(p := False)\<rparr>)
    \<and> remapped v (vm_pgprot r) p (pmm s) P"
proof -
  obtain Q where "pmm_lock_page (table res) None v no_info (pmm s) =
      Some (OK, \<lparr>attr = fst (pmm_get_page v (pmm s)), ppn = snd (pmm_get_page v (pmm s)), isAtomic = True, data = pte_of (pgdir Q (MMU_PDE v)) v\<rparr>, Q)"
    "\<And>a p. small a \<Longrightarrow> \<exists>R. pmm_set_page (table res) None v (page_info a p) Q = (OK, R) \<and> remapped v a p (pmm s) R"
    using lock_set [OF assms(1), of no_info] by metis
  moreover from this(2) [OF assms(3), of p] obtain R where "pmm_set_page (table res) None v (page_info (vm_pgprot r) p) Q = (OK, R)" "remapped v (vm_pgprot r) p (pmm s) R" by blast
  ultimately show ?thesis using assms(2) by (intro exI [of _ R]) (simp add: vmm_do_aod_def new_frame_def)
qed

text \<open>The access a fault reports is allowed by the protection of the region.\<close>

definition permitted :: "vm_region_s \<Rightarrow> u32 \<Rightarrow> bool" where
  "permitted r flags \<longleftrightarrow> \<not> pmm_except_isRights flags \<and> (pmm_except_isPresent flags \<longrightarrow> flag_set (vm_prot r) VM_REG_RD)
     \<and> (pmm_except_isWrite flags \<longrightarrow> flag_set (vm_prot r) VM_REG_WR) \<and> (pmm_except_isExecute flags \<longrightarrow> flag_set (vm_prot r) VM_REG_EX)
     \<and> \<not> flag_set (vm_flags r) VM_REG_INIT"

lemma update_permitted:
  "permitted r flags \<Longrightarrow> vm_op r = Some vm_region_default_op \<Longrightarrow> vm_region_update res m z r v flags s = do { (err, s) \<leftarrow> vmm_default_pagefault res m z r v flags s; Some (map_option Failed err, s) }"
  unfolding permitted_def vm_region_update_def by auto

lemma update_refused: "\<not> permitted r flags \<Longrightarrow> \<exists>c. vm_region_update res m z r v flags s = Some (Some (Refused c), s)"
  unfolding permitted_def vm_region_update_def by auto

text \<open>A region of a device refuses with \<^verbatim>\<open>EFAULT\<close>. The null pointer is not used as long as the region is marked as being set up.\<close>

lemma update_device:
  "permitted r flags \<Longrightarrow> vm_op r = Some ops \<Longrightarrow> ops \<noteq> vm_region_default_op \<Longrightarrow> vm_region_update res m z r v flags s = Some (Some (Failed EFAULT), s)"
  "vm_op r = None \<Longrightarrow> vm_region_update res m z r v flags s = None \<longleftrightarrow> permitted r flags"
  "flag_set (vm_flags r) VM_REG_INIT \<Longrightarrow> \<not> permitted r flags"
  by (cases ops) (auto simp: permitted_def vm_region_update_def)

lemma update_aod:
  assumes "permitted r flags" and "vm_op r = Some vm_region_default_op" and "pmm_get_page v (pmm s) = (0, q)" and "vm_mapper r = None"
    and "ready (table res) v (pmm s)" and "frame res = Some p" and "small (vm_pgprot r)"
  shows "\<exists>P. vm_region_update res m z r v flags s =
      Some (None, s\<lparr>pmm := P, content := (content s)(p := z), refs := (refs s)(p := 1), has_mapper := (has_mapper s)(p := False)\<rparr>)
    \<and> remapped v (vm_pgprot r) p (pmm s) P"
  using do_aod_spec [OF assms(5-7), of z] assms(1-4) by (auto simp: update_permitted vmm_default_pagefault_def)

section \<open>Copy on write\<close>

lemma do_cow_spec:
  assumes "ready (table res) v (pmm s)" and g: "pmm_get_page v (pmm s) = (a, p)" and "flag_set a PMM_COW"
    and "small ((vm_pgprot r OR PMM_WRITE) AND NOT (PMM_COW OR PMM_MIGRATE))"
  shows "let a' = (vm_pgprot r OR PMM_WRITE) AND NOT (PMM_COW OR PMM_MIGRATE)
    in if local res p \<and> \<not> has_mapper s p \<and> refs s p = 1
       then \<exists>P. vmm_do_cow res r v s = Some (OK, s\<lparr>pmm := P\<rparr>) \<and> remapped v a' p (pmm s) P
       else case frame res of
         None \<Rightarrow> \<exists>P. vmm_do_cow res r v s = Some (Some ENOMEM, s\<lparr>pmm := P\<rparr>) \<and> remapped v 0 p (pmm s) P
       | Some n \<Rightarrow> \<exists>P. vmm_do_cow res r v s = Some (OK, ppn_refcount_down p ((ppn_copy n p (new_frame n s))\<lparr>pmm := P\<rparr>)) \<and> remapped v a' n (pmm s) P"
proof -
  let ?a = "(vm_pgprot r OR PMM_WRITE) AND NOT (PMM_COW OR PMM_MIGRATE)"
  obtain Q where L: "pmm_lock_page (table res) None v no_info (pmm s) =
      Some (OK, \<lparr>attr = a, ppn = p, isAtomic = True, data = pte_of (pgdir Q (MMU_PDE v)) v\<rparr>, Q)"
    and S: "\<And>p. \<exists>R. pmm_set_page (table res) None v (page_info ?a p) Q = (OK, R) \<and> remapped v ?a p (pmm s) R"
    and U: "\<And>i. data i = pte_of (pgdir Q (MMU_PDE v)) v \<Longrightarrow> \<exists>j R. pmm_unlock_page i Q = (j, R) \<and> remapped v 0 p (pmm s) R"
    by (rule lock_set [OF assms(1), of no_info]) (use assms(4) g in auto)
  consider "local res p \<and> \<not> has_mapper s p \<and> refs s p = 1" | n where "\<not> (local res p \<and> \<not> has_mapper s p \<and> refs s p = 1)" "frame res = Some n"
    | "\<not> (local res p \<and> \<not> has_mapper s p \<and> refs s p = 1)" "frame res = None" by (cases "frame res") auto
  then show ?thesis
  proof cases
    case 1
    then show ?thesis using L S [of p] assms(3) by (auto simp: vmm_do_cow_def)
  next
    case (2 n)
    then show ?thesis using L S [of n] assms(3) by (auto simp: vmm_do_cow_def ppn_copy_def new_frame_def ppn_refcount_down_def)
  next
    case 3
    then show ?thesis using L U [of "\<lparr>attr = a, ppn = p, isAtomic = True, data = pte_of (pgdir Q (MMU_PDE v)) v\<rparr>"] assms(3) by (auto simp: vmm_do_cow_def unlock_def)
  qed
qed

section \<open>Finding the region of a fault\<close>

text \<open>The address space is in order, its regions occupy whole slots of 64 kilobytes, and the key database only knows slots of attached regions.\<close>

definition keys_ok :: "vmm_s \<Rightarrow> bool" where
  "keys_ok V \<longleftrightarrow> db_ok (regions_db V) \<and> (\<forall>k r. slot (regions_db V) k = Some r \<longrightarrow> r \<in> set (regions_root V)
     \<and> unat (vm_begin (regs V r)) \<le> k * 65536 \<and> k * 65536 < unat (vm_end (regs V r)))"

definition whole_slots :: "vm_region_s \<Rightarrow> bool" where
  "whole_slots r \<longleftrightarrow> 65536 dvd unat (vm_begin r) \<and> 65536 dvd unat (vm_end r)"

definition vmm_ok :: "vmm_s \<Rightarrow> bool" where
  "vmm_ok V \<longleftrightarrow> regions_ok V \<and> keys_ok V \<and> (\<forall>b\<in>set (regions_root V). whole_slots (regs V b))"

definition contains :: "vm_region_s \<Rightarrow> u32 \<Rightarrow> bool" where
  "contains r a \<longleftrightarrow> vm_begin r \<le> a \<and> a < vm_end r"

lemma contains_unique: "regions_ok V \<Longrightarrow> b \<in> set (regions_root V) \<Longrightarrow> c \<in> set (regions_root V) \<Longrightarrow> contains (regs V b) a \<Longrightarrow> contains (regs V c) a \<Longrightarrow> b = c"
  using layout_disjoint [of "regs V" "regions_root V" b c] by (auto simp: regions_ok_def contains_def overlaps_def intro: le_less_trans)

lemma slot_contains:
  assumes "65536 dvd b" and "65536 dvd e" and "b \<le> a div 65536 * 65536" and "a div 65536 * 65536 < e"
  shows "b \<le> a \<and> a < (e :: nat)"
proof -
  obtain m n where m: "b = 65536 * m" "e = 65536 * n" using assms(1,2) by (auto elim!: dvdE)
  have d: "a div 65536 * 65536 \<le> a" "a < a div 65536 * 65536 + 65536" using div_mult_mod_eq [of a 65536] mod_less_divisor [of 65536 a] by linarith+
  have "a div 65536 < n" using assms(4) m by simp
  then have "a div 65536 * 65536 + 65536 \<le> e" using m by simp
  then show ?thesis using d assms(3) by linarith
qed

lemma fault_lookup_spec:
  assumes "vmm_ok V"
  obtains (hit) r where "fault_lookup a V = Some (r, False)" "r \<in> set (regions_root V)" "contains (regs V r) a"
  | (miss) "fault_lookup a V = Some (find_in (regs V) a (regions_root V), True)"
proof -
  have ok: "regions_ok V" "db_ok (regions_db V)" using assms by (auto simp: vmm_ok_def keys_ok_def)
  have k: "unat (drop_bit 16 a) = unat a div 65536" by (simp add: unat_drop)
  have l: "keysdb_lookup (regions_db V) (drop_bit 16 a) = Some (slot (regions_db V) (unat a div 65536))"
    using keysdb_lookup_eq [OF ok(2), of "drop_bit 16 a"] k unat_bound [of a] by (simp add: div_less_iff_less_mult)
  show thesis
  proof (cases "slot (regions_db V) (unat a div 65536)")
    case None
    then show thesis using miss l vm_region_find_spec [OF ok(1)] by (simp add: fault_lookup_def CONFIG_VM_REGION_KEYWIDTH_def)
  next
    case (Some r)
    then have r: "r \<in> set (regions_root V)" "unat (vm_begin (regs V r)) \<le> unat a div 65536 * 65536" "unat a div 65536 * 65536 < unat (vm_end (regs V r))"
      using assms by (auto simp: vmm_ok_def keys_ok_def)
    moreover have "whole_slots (regs V r)" using assms r(1) by (simp add: vmm_ok_def)
    ultimately have "contains (regs V r) a" using slot_contains
      unfolding contains_def whole_slots_def word_le_nat_alt word_less_nat_alt by blast
    then show thesis using hit r(1) Some l by (simp add: fault_lookup_def CONFIG_VM_REGION_KEYWIDTH_def)
  qed
qed

lemma fault_lookup_contained:
  assumes "vmm_ok V" and "b \<in> set (regions_root V)" and "contains (regs V b) a"
  shows "\<exists>m. fault_lookup a V = Some (b, m)"
  using assms(1)
proof (cases rule: fault_lookup_spec [of V a])
  case (hit r)
  then show ?thesis using contains_unique [of V r b a] assms by (auto simp: vmm_ok_def)
next
  case miss
  have ok: "regions_ok V" using assms(1) by (simp add: vmm_ok_def)
  then have l: "layout (regs V) (regions_root V)" by (simp add: regions_ok_def)
  have "\<exists>x\<in>set (regions_root V). a < vm_end (regs V x)" using assms by (auto simp: contains_def)
  note f = find_in_mem [OF this] find_in_first [OF l this assms(2)]
  then have "vm_end (regs V (find_in (regs V) a (regions_root V))) \<le> vm_end (regs V b)" using assms(3) by (auto simp: contains_def)
  moreover have "vm_begin (regs V (find_in (regs V) a (regions_root V))) < vm_end (regs V (find_in (regs V) a (regions_root V)))" using l f(1) by (simp add: layout_def)
  ultimately have "overlaps (regs V (find_in (regs V) a (regions_root V))) (regs V b)"
    using f(1) assms(3) unfolding overlaps_def contains_def by (meson le_less_trans less_le_trans)
  then show ?thesis using miss layout_disjoint [OF l] f(1) assms(2) by metis
qed

lemma slot_range:
  fixes b e k :: nat
  assumes "65536 dvd b" and "65536 dvd e" and "b \<le> e" and "b div 65536 \<le> k" and "k < b div 65536 + (e - b) div 65536"
  shows "b \<le> k * 65536 \<and> k * 65536 < e"
proof -
  obtain m n where "b = 65536 * m" "e = 65536 * n" using assms(1,2) by (auto elim!: dvdE)
  moreover from this have "(e - b) div 65536 = n - m" "m \<le> n" using assms(3) by (simp_all add: flip: right_diff_distrib')
  ultimately show ?thesis using assms(4,5) by simp
qed

lemma keysdb_update_spec:
  assumes "vmm_ok V" and "b \<in> set (regions_root V)"
  shows "\<exists>db. vmm_keysdb_update alloc b V = Some (V\<lparr>regions_db := db\<rparr>) \<and> vmm_ok (V\<lparr>regions_db := db\<rparr>)"
proof -
  let ?r = "regs V b"
  let ?n = "unat (drop_bit 16 (vm_end ?r - vm_begin ?r))"
  have ok: "db_ok (regions_db V)" "whole_slots ?r" "vm_begin ?r < vm_end ?r" using assms by (auto simp: vmm_ok_def keys_ok_def regions_ok_def layout_def)
  have e: "unat (vm_end ?r - vm_begin ?r) = unat (vm_end ?r) - unat (vm_begin ?r)" using ok(3) by (simp add: unat_sub less_imp_le)
  have k: "unat (drop_bit 16 (vm_begin ?r)) = unat (vm_begin ?r) div 65536" "?n = (unat (vm_end ?r) - unat (vm_begin ?r)) div 65536"
    using e by (simp_all add: unat_drop)
  have "unat (vm_begin ?r) div 65536 + (unat (vm_end ?r) - unat (vm_begin ?r)) div 65536 \<le> 65536"
    using unat_bound [of "vm_end ?r"] ok(3) by (simp add: word_less_nat_alt)
  then obtain err db where db: "keysdb_bind alloc (regions_db V) (drop_bit 16 (vm_begin ?r)) ?n (Some b) = Some (err, db)" "db_ok db"
      "slot db = (if err = OK then bound (unat (vm_begin ?r) div 65536) ?n (Some b) (slot (regions_db V)) else slot (regions_db V))"
    using keysdb_bind_eq [OF ok(1), of "drop_bit 16 (vm_begin ?r)" ?n alloc "Some b"] k by auto
  have "r \<in> set (regions_root V) \<and> unat (vm_begin (regs V r)) \<le> j * 65536 \<and> j * 65536 < unat (vm_end (regs V r))" if s: "slot db j = Some r" for j r
  proof (cases "slot (regions_db V) j = Some r")
    case True
    then show ?thesis using assms(1) by (simp add: vmm_ok_def keys_ok_def)
  next
    case False
    then have "r = b" "unat (vm_begin ?r) div 65536 \<le> j" "j < unat (vm_begin ?r) div 65536 + (unat (vm_end ?r) - unat (vm_begin ?r)) div 65536"
      using s db(3) k(2) by (auto simp: bound_def split: if_splits)
    then show ?thesis using slot_range [of "unat (vm_begin ?r)" "unat (vm_end ?r)" j] ok(2,3) assms(2) by (auto simp: whole_slots_def word_less_nat_alt)
  qed
  then show ?thesis using db(1,2) assms(1)
    by (auto simp: vmm_keysdb_update_def CONFIG_VM_REGION_KEYWIDTH_def vmm_ok_def keys_ok_def regions_ok_def)
qed

section \<open>Two threads that fault on the same page\<close>

lemma ready_after:
  assumes "remapped v a p P Q" and "is_table (pgdir Q (MMU_PDE v))" and "\<not> bit a 3"
  shows "ready alloc v Q"
  using assms by (auto simp: ready_def remapped_def table_room_def is_table_def)

lemma remapped_table: "remapped v a p P Q \<Longrightarrow> a \<noteq> 0 \<Longrightarrow> \<not> bit a 30 \<Longrightarrow> is_table (pgdir Q (MMU_PDE v))"
proof -
  assume r: "remapped v a p P Q" "a \<noteq> 0" "\<not> bit a 30"
  then have g: "fst (pmm_get_page v Q) = a" by (simp add: remapped_def)
  have "bit PMM_HUGE 30" by (simp add: PMM_HUGE_def PMM_BIT_ORDER_def bit_push_bit_1 del: push_bit_of_1)
  then show ?thesis using g r(2,3) by (auto simp: pmm_get_page_def Let_def is_table_def bit_or_iff split: if_splits)
qed

text \<open>
  \<^verbatim>\<open>vmm_do_aod\<close> does not look at the entry it has locked. When two threads have both found the page untouched, the second replaces the frame of the first by another
  one filled with zeros: what the first thread wrote to its frame, \<open>c\<close>, is no longer mapped.
\<close>

lemma aod_race:
  assumes "ready (table res) v (pmm s)" and "frame res = Some p" and "frame res' = Some q" and "small (vm_pgprot r)" and "vm_pgprot r \<noteq> 0" and "\<not> bit (vm_pgprot r) 3"
  shows "\<exists>s1 s2. vmm_do_aod res z r v s = Some (OK, s1) \<and> vmm_do_aod res' z r v (s1\<lparr>content := (content s1)(p := c)\<rparr>) = Some (OK, s2)
    \<and> pmm_get_page v (pmm s1) = (vm_pgprot r, p AND MMU_PPN_MASK) \<and> pmm_get_page v (pmm s2) = (vm_pgprot r, q AND MMU_PPN_MASK) \<and> content s2 q = z \<and> (p \<noteq> q \<longrightarrow> refs s2 p = 1)"
proof -
  obtain P where P: "vmm_do_aod res z r v s = Some (OK, s\<lparr>pmm := P, content := (content s)(p := z), refs := (refs s)(p := 1), has_mapper := (has_mapper s)(p := False)\<rparr>)"
    "remapped v (vm_pgprot r) p (pmm s) P" using do_aod_spec [OF assms(1,2,4)] by blast
  let ?s1 = "s\<lparr>pmm := P, content := (content s)(p := z), refs := (refs s)(p := 1), has_mapper := (has_mapper s)(p := False)\<rparr>"
  let ?s = "?s1\<lparr>content := (content ?s1)(p := c)\<rparr>"
  have "is_table (pgdir P (MMU_PDE v))" using remapped_table [OF P(2) assms(5)] assms(4) by (simp add: small_def)
  then have "ready (table res') v (pmm ?s)" using ready_after [OF P(2) _ assms(6)] by simp
  from do_aod_spec [OF this assms(3,4), of z] obtain R where "vmm_do_aod res' z r v ?s =
      Some (OK, ?s\<lparr>pmm := R, content := (content ?s)(q := z), refs := (refs ?s)(q := 1), has_mapper := (has_mapper ?s)(q := False)\<rparr>)" "remapped v (vm_pgprot r) q P R" by auto
  then show ?thesis using P by (intro exI [of _ ?s1] exI conjI) (auto simp: remapped_def)
qed

text \<open>\<^verbatim>\<open>vmm_do_mapped\<close> returns without unlocking when it finds the entry in use: the next thread that wants to lock the entry waits forever.\<close>

lemma mapped_keeps_lock:
  assumes "ready (table res) v (pmm s)" and "fst (pmm_get_page v (pmm s)) \<noteq> 0"
  shows "\<exists>s'. vmm_do_mapped res m r v s = Some (OK, s') \<and> pmm_lock_page alloc None v info (pmm s') = None"
proof -
  obtain Q where L: "pmm_lock_page (table res) None v no_info (pmm s) =
      Some (OK, \<lparr>attr = fst (pmm_get_page v (pmm s)), ppn = snd (pmm_get_page v (pmm s)), isAtomic = True, data = pte_of (pgdir Q (MMU_PDE v)) v\<rparr>, Q)"
    and Q: "pmm_get_page v Q = (fst (pmm_get_page v (pmm s)) OR PMM_LOCKED, snd (pmm_get_page v (pmm s)))" "is_table (pgdir Q (MMU_PDE v))"
    using lock_set [OF assms(1), of no_info] by metis
  have "bit (pmem Q (pte_of (pgdir Q (MMU_PDE v)) v)) 3" 
  proof -
    have "bit (fst (pmm_get_page v Q)) 3" unfolding Q(1) by (simp add: bit_or_iff PMM_LOCKED_def bit_numeral_rec)
    then show ?thesis using get_small [OF Q(2)] by simp
  qed
  moreover have "bit (pgdir Q (MMU_PDE v)) 30" "pgdir Q (MMU_PDE v) \<noteq> 0" using Q(2) by (auto simp: is_table_def)
  ultimately have "pmm_lock_page alloc None v info Q = None" by (simp add: pmm_lock_page_def get_table_def Let_def)
  then show ?thesis using L assms(2) by (auto simp: vmm_do_mapped_def)
qed

section \<open>Properties\<close>

lemma handler_update:
  assumes "vmm_ok V" and "\<not> NOT_IN_USPACE v" and "b \<in> set (regions_root V)" and "contains (regs V b) v" and "vm_start (regs V b) \<le> v" and "v \<le> vm_limit (regs V b)"
    and u: "vm_region_update res m z (regs V b) v flags s = Some (err, s')"
  shows "\<exists>V'. vmm_fault_handler res m z alloc False v flags V s = Some (if err = None then VMM_ERESOLVED else VMM_ESIGBUS, V', s') \<and> vmm_ok V'
    \<and> regs V' = regs V \<and> regions_root V' = regions_root V"
proof -
  have nz: "b \<noteq> 0" using assms(1,3) rb_tree_distinct by (metis vmm_ok_def regions_ok_def)
  obtain miss where l: "fault_lookup v V = Some (b, miss)" using fault_lookup_contained [OF assms(1,3,4)] by blast
  obtain db where db: "vmm_keysdb_update alloc b V = Some (V\<lparr>regions_db := db\<rparr>)" "vmm_ok (V\<lparr>regions_db := db\<rparr>)"
    using keysdb_update_spec [OF assms(1,3)] by blast
  show ?thesis
  proof (cases miss)
    case True
    then show ?thesis using l db u nz assms(2,5,6) by (auto simp: vmm_fault_handler_def not_less Let_def)
  next
    case False
    then show ?thesis using l u nz assms(1,2,5,6) by (auto simp: vmm_fault_handler_def not_less Let_def)
  qed
qed

text \<open>
  C15: The first access to a page of an anonymous region is served. When a user thread faults on an address of an attached region with the default operations (those that
  \<^verbatim>\<open>vmm_mmap\<close> installs) that has no mapping yet, the access is permitted and memory is available, the handler answers \<^verbatim>\<open>VMM_ERESOLVED\<close>; the address is then mapped to the new frame, filled with zeros and
  with one reference, with the rights of the region. Every other address is mapped as before, every other frame keeps its contents, and the address
  space stays in order, including the key database that the handler fills.
\<close>

theorem vmm_fault_first_touch:
  assumes "vmm_ok V" and "\<not> NOT_IN_USPACE v" and "b \<in> set (regions_root V)" and "contains (regs V b) v" and "vm_start (regs V b) \<le> v" and "v \<le> vm_limit (regs V b)"
    and "permitted (regs V b) flags" and "vm_op (regs V b) = Some vm_region_default_op" and "pmm_get_page v (pmm s) = (0, q)" and "vm_mapper (regs V b) = None"
    and "ready (table res) v (pmm s)" and "frame res = Some p" and "p AND MMU_PPN_MASK = p" and "small (vm_pgprot (regs V b))"
  shows "\<exists>V' s'. vmm_fault_handler res m z alloc False v flags V s = Some (VMM_ERESOLVED, V', s') \<and> vmm_ok V' \<and> regions_root V' = regions_root V
    \<and> content s' = (content s)(p := z) \<and> refs s' = (refs s)(p := 1)
    \<and> (\<forall>w. pmm_get_page w (pmm s') = (if same_page w v then (vm_pgprot (regs V b), p) else pmm_get_page w (pmm s)))"
proof -
  obtain P where u: "vm_region_update res m z (regs V b) v flags s =
      Some (None, s\<lparr>pmm := P, content := (content s)(p := z), refs := (refs s)(p := 1), has_mapper := (has_mapper s)(p := False)\<rparr>)"
    "remapped v (vm_pgprot (regs V b)) p (pmm s) P"
    using update_aod [OF assms(7-12,14)] by blast
  show ?thesis using handler_update [OF assms(1-6) u(1), of alloc] u(2) assms(13) by (fastforce simp: remapped_def)
qed

definition empty_state :: "nat vm_state" where
  "empty_state = \<lparr>pmm = empty_pmm, content = (\<lambda>_. 5), refs = (\<lambda>_. 0), has_mapper = (\<lambda>_. False), spurious = 0\<rparr>"

definition some_memory :: resources where
  "some_memory = \<lparr>frame = Some 9, table = Some 7, local = (\<lambda>_. True)\<rparr>"

lemma space_vmm_ok: "vmm_ok space"
  using space_ok by (auto simp: vmm_ok_def keys_ok_def space_simps whole_slots_def region_at_def db_ok_def slot_def space_def split: if_splits)

lemma space_fault:
  "\<not> NOT_IN_USPACE 0x32000" "2 \<in> set (regions_root space)" "contains (regs space 2) 0x32000" "vm_start (regs space 2) \<le> 0x32000" "0x32000 \<le> vm_limit (regs space 2)"
  "permitted (regs space 2) 0x1001" "vm_op (regs space 2) = Some vm_region_default_op" "vm_mapper (regs space 2) = None" "small (vm_pgprot (regs space 2))" "vm_pgprot (regs space 2) = 0"
  by (simp_all add: NOT_IN_USPACE_def CONFIG_USR_OFFSET_def CONFIG_USR_LIMIT_def space_simps region_at_def contains_def permitted_def small_def flag_set_def
      pmm_except_isRights_def pmm_except_isPresent_def pmm_except_isWrite_def pmm_except_isExecute_def VM_REG_RD_def)

lemma empty_ready: "ready (Some 7) v (pmm empty_state)" "pmm_get_page v (pmm empty_state) = (0, 0)"
  by (simp_all add: ready_def empty_state_def empty_ok table_room_def pmm_get_page_def empty_pmm_def) (simp add: fresh_def is_table_def pmm_ok_def)

theorem vmm_fault_first_touch_witness:
  "\<exists>V' s'. vmm_fault_handler some_memory (\<lambda>_ _. 0) 0 (\<lambda>_. True) False 0x32000 0x1001 space empty_state = Some (VMM_ERESOLVED, V', s') \<and> vmm_ok V'
     \<and> content s' 9 = 0 \<and> refs s' 9 = 1 \<and> pmm_get_page 0x32010 (pmm s') = (0, 9)"
proof -
  have f: "frame some_memory = Some 9" "table some_memory = Some 7" "(9 :: u32) AND MMU_PPN_MASK = 9" "same_page 0x32010 0x32000"
    by (simp_all add: some_memory_def MMU_PPN_MASK_def PMM_BIT_ORDER_def same_page_def)
  show ?thesis
    using vmm_fault_first_touch [OF space_vmm_ok space_fault(1-7) empty_ready(2) space_fault(8) _ f(1) f(3) space_fault(9), where m = "\<lambda>_ _. 0" and z = 0 and alloc = "\<lambda>_. True"]
      empty_ready(1) f space_fault(10) by auto
qed

text \<open>
  C16: A write to a page shared for copy-on-write gets a page of its own. When the region has the default operations, the access is permitted and the entry can be locked, the handler maps a frame with the
  same contents, writable and no longer marked for copy: the old frame itself when it is local, has no mapper and nobody else refers to it, else a new frame
  with one reference, and the old one has one reference less. When no frame can be had the fault fails with \<^verbatim>\<open>ENOMEM\<close> and the old page is unmapped. Every
  other address and every frame in use keep mapping and contents.
\<close>

theorem vmm_fault_copy_on_write:
  fixes s :: "'c vm_state"
  assumes "permitted r flags" and "vm_op r = Some vm_region_default_op" and "pmm_except_isWrite flags" and "pmm_get_page v (pmm s) = (a, p)" and "flag_set a PMM_COW" and "p \<noteq> 0"
    and "ready (table res) v (pmm s)" and "small ((vm_pgprot r OR PMM_WRITE) AND NOT (PMM_COW OR PMM_MIGRATE))"
    and "\<And>n. frame res = Some n \<Longrightarrow> n AND MMU_PPN_MASK = n \<and> n \<noteq> p"
  shows "\<exists>err s'. vm_region_update res m z r v flags s = Some (err, s')
    \<and> (let own = local res p \<and> \<not> has_mapper s p \<and> refs s p = 1; a' = (vm_pgprot r OR PMM_WRITE) AND NOT (PMM_COW OR PMM_MIGRATE)
       in if own then err = None \<and> pmm_get_page v (pmm s') = (a', p) \<and> content s' = content s \<and> refs s' = refs s
          else case frame res of
            None \<Rightarrow> err = Some (Failed ENOMEM) \<and> pmm_get_page v (pmm s') = (0, p) \<and> content s' = content s \<and> refs s' = refs s
          | Some n \<Rightarrow> err = None \<and> pmm_get_page v (pmm s') = (a', n) \<and> content s' = (content s)(n := content s p) \<and> refs s' = (refs s)(n := 1, p := refs s p - 1))
    \<and> (\<forall>w. \<not> same_page w v \<longrightarrow> pmm_get_page w (pmm s') = pmm_get_page w (pmm s))"
proof -
  have c: "vm_region_update res m z r v flags s = do { (err, s) \<leftarrow> vmm_do_cow res r v s; Some (map_option Failed err, s) }"
    using assms(1-6) by (auto simp: update_permitted vmm_default_pagefault_def flag_set_def)
  have k: "p AND MMU_PPN_MASK = p" using ppn_masked [OF assms(7)] assms(4) by simp
  note spec = do_cow_spec [OF assms(7,4,5,8)]
  consider (own) "local res p \<and> \<not> has_mapper s p \<and> refs s p = 1" | (copy) n where "\<not> (local res p \<and> \<not> has_mapper s p \<and> refs s p = 1)" "frame res = Some n"
    | (none) "\<not> (local res p \<and> \<not> has_mapper s p \<and> refs s p = 1)" "frame res = None" by (cases "frame res") auto
  then show ?thesis
  proof cases
    case own
    then show ?thesis using spec c k by (auto simp: remapped_def Let_def)
  next
    case (copy n)
    then obtain P where "vmm_do_cow res r v s = Some (OK, ppn_refcount_down p ((ppn_copy n p (new_frame n s))\<lparr>pmm := P\<rparr>))"
        "remapped v ((vm_pgprot r OR PMM_WRITE) AND NOT (PMM_COW OR PMM_MIGRATE)) n (pmm s) P"
      using spec by (auto simp: Let_def)
    then show ?thesis using copy c assms(9) [OF copy(2)] by (auto simp: remapped_def Let_def ppn_copy_def new_frame_def ppn_refcount_down_def)
  next
    case none
    then show ?thesis using spec c k by (auto simp: remapped_def Let_def)
  qed
qed

lemma one_page_cow:
  "ready None 0x5000 (one_page\<lparr>pmem := (\<lambda>_. 0)(0x7028 := 0x80000001, 0x702C := 9)\<rparr>)" "pmm_get_page 0x5000 (one_page\<lparr>pmem := (\<lambda>_. 0)(0x7028 := 0x80000001, 0x702C := 9)\<rparr>) = (0x80000001, 9)"
proof -
  let ?P = "one_page\<lparr>pmem := (\<lambda>_. 0)(0x7028 := 0x80000001, 0x702C := 9)\<rparr>"
  have i: "MMU_PDE 0x5000 = 0" by (simp add: word_unat_eq_iff unat_PDE)
  have t: "is_table (pgdir ?P (MMU_PDE 0x5000))" using one_page_facts(2) by simp
  have "pte_of (PMM_PRESENT OR MMU_PTD1 OR 7) 0x5000 = 0x7028"
    by (simp add: word_unat_eq_iff unat_pte_of new_entry(2)) (simp add: tbl_def idx_def)
  then show g: "pmm_get_page 0x5000 ?P = (0x80000001, 9)" unfolding get_small [OF t] by (simp add: one_page_def i MMU_PPN_MASK_def PMM_BIT_ORDER_def)
  have "pgdir ?P (MMU_PDE 0x5000) \<noteq> 0" using t by (auto simp: is_table_def)
  then show "ready None 0x5000 ?P" using g t one_page_facts(1) by (simp add: ready_def table_room_def bit_numeral_rec)
qed

theorem vmm_fault_copy_on_write_witness:
  "\<exists>s'. vm_region_update \<lparr>frame = Some 12, table = None, local = (\<lambda>_. True)\<rparr> (\<lambda>_ _. 0) 0 (region_at 0 0x10000 0\<lparr>vm_prot := 3\<rparr>) 0x5000 0
       (empty_state\<lparr>pmm := one_page\<lparr>pmem := (\<lambda>_. 0)(0x7028 := 0x80000001, 0x702C := 9)\<rparr>, refs := (\<lambda>_. 2)\<rparr>) = Some (None, s')
     \<and> content s' 12 = 5 \<and> refs s' 9 = 1 \<and> pmm_get_page 0x5000 (pmm s') = (0x04000000, 12)"
proof -
  let ?s = "empty_state\<lparr>pmm := one_page\<lparr>pmem := (\<lambda>_. 0)(0x7028 := 0x80000001, 0x702C := 9)\<rparr>, refs := (\<lambda>_. 2)\<rparr>" and ?r = "region_at 0 0x10000 0\<lparr>vm_prot := 3\<rparr>"
  have p: "permitted ?r 0" "vm_op ?r = Some vm_region_default_op" "pmm_except_isWrite 0"
    by (simp_all add: permitted_def region_at_def flag_set_def pmm_except_isRights_def pmm_except_isPresent_def pmm_except_isWrite_def pmm_except_isExecute_def VM_REG_WR_def)
  have k: "small ((vm_pgprot ?r OR PMM_WRITE) AND NOT (PMM_COW OR PMM_MIGRATE))" "(vm_pgprot ?r OR PMM_WRITE) AND NOT (PMM_COW OR PMM_MIGRATE) = 0x04000000"
    "flag_set 0x80000001 PMM_COW" "(12 :: u32) AND MMU_PPN_MASK = 12"
    by (simp_all add: small_def region_at_def PMM_WRITE_def PMM_COW_def PMM_MIGRATE_def PMM_BIT_ORDER_def flag_set_def PMM_CLEAR_def bit_numeral_rec MMU_PPN_MASK_def)
  have g: "pmm_get_page 0x5000 (pmm ?s) = (0x80000001, 9)" "ready (table \<lparr>frame = Some 12, table = None, local = (\<lambda>_. True)\<rparr>) 0x5000 (pmm ?s)"
    using one_page_cow by simp_all
  show ?thesis
    using vmm_fault_copy_on_write [OF p g(1) k(3) _ g(2) k(1), where m = "\<lambda>_ _. 0" and z = 0] k(4) unfolding k(2) by (fastforce simp: empty_state_def)
qed

text \<open>
  C36: What the handler answers when it cannot serve a fault. A fault outside user space, by a kernel thread, or in no region changes nothing and is answered with
  \<^verbatim>\<open>VMM_ECHECKUSPACE\<close> in kernel mode (always for a kernel thread) and with \<^verbatim>\<open>VMM_ESIGBUS\<close> in user mode. An access the region forbids is answered with \<^verbatim>\<open>VMM_ESIGBUS\<close> too: \<^verbatim>\<open>VMM_ESIGSEGV\<close> is
  never the answer, because the label that sets it falls through.
\<close>

theorem vmm_fault_errors:
  assumes "vmm_ok V"
  shows "(NOT_IN_USPACE v \<longrightarrow> vmm_fault_handler res m z alloc kt v flags V s = Some (if pmm_except_isInKernelMode flags then VMM_ECHECKUSPACE else VMM_ESIGBUS, V, s))
    \<and> (\<not> NOT_IN_USPACE v \<longrightarrow> vmm_fault_handler res m z alloc True v flags V s = Some (VMM_ECHECKUSPACE, V, s))
    \<and> (\<not> NOT_IN_USPACE v \<and> (\<forall>b\<in>set (regions_root V). v < vm_start (regs V b) \<or> vm_limit (regs V b) < v) \<longrightarrow>
         vmm_fault_handler res m z alloc False v flags V s = Some (if pmm_except_isInKernelMode flags then VMM_ECHECKUSPACE else VMM_ESIGBUS, V, s))
    \<and> (\<forall>b\<in>set (regions_root V). \<not> NOT_IN_USPACE v \<and> contains (regs V b) v \<and> vm_start (regs V b) \<le> v \<and> v \<le> vm_limit (regs V b) \<and> \<not> permitted (regs V b) flags \<longrightarrow>
         (\<exists>V'. vmm_fault_handler res m z alloc False v flags V s = Some (VMM_ESIGBUS, V', s) \<and> vmm_ok V'))
    \<and> (\<forall>V' s'. vmm_fault_handler res m z alloc kt v flags V s \<noteq> Some (VMM_ESIGSEGV, V', s'))"
proof -
  have out: "vmm_fault_handler res m z alloc False v flags V s = Some (if pmm_except_isInKernelMode flags then VMM_ECHECKUSPACE else VMM_ESIGBUS, V, s)"
    if "\<not> NOT_IN_USPACE v" "\<forall>b\<in>set (regions_root V). v < vm_start (regs V b) \<or> vm_limit (regs V b) < v"
    using assms
  proof (cases rule: fault_lookup_spec [of V v])
    case (hit r)
    then show ?thesis using that by (auto simp: vmm_fault_handler_def Let_def)
  next
    case miss
    have "find_in (regs V) v (regions_root V) = 0 \<or> find_in (regs V) v (regions_root V) \<in> set (regions_root V)"
      using find_in_mem find_in_none by metis
    then show ?thesis using miss that by (auto simp: vmm_fault_handler_def Let_def)
  qed
  have forbidden: "\<exists>V'. vmm_fault_handler res m z alloc False v flags V s = Some (VMM_ESIGBUS, V', s) \<and> vmm_ok V'"
    if h: "b \<in> set (regions_root V)" "\<not> NOT_IN_USPACE v" "contains (regs V b) v" "vm_start (regs V b) \<le> v" "v \<le> vm_limit (regs V b)" "\<not> permitted (regs V b) flags" for b
  proof -
    obtain c where "vm_region_update res m z (regs V b) v flags s = Some (Some (Refused c), s)" using update_refused [OF h(6), of res m z v s] by blast
    from handler_update [OF assms h(2,1,3,4,5) this, of alloc] show ?thesis by auto
  qed
  have never: "vmm_fault_handler res m z alloc kt v flags V s \<noteq> Some (VMM_ESIGSEGV, V', s')" for V' s'
    by (auto simp: vmm_fault_handler_def Let_def split: if_splits Option.bind_splits)
  show ?thesis using out forbidden never by (auto simp: vmm_fault_handler_def)
qed

theorem vmm_fault_errors_witness:
  "vmm_fault_handler some_memory (\<lambda>_ _. 0) 0 (\<lambda>_. True) False 0x45000 0x1001 space empty_state = Some (VMM_ESIGBUS, space, empty_state)
   \<and> (\<exists>V'. vmm_fault_handler some_memory (\<lambda>_ _. 0) 0 (\<lambda>_. True) False 0x32000 0 space empty_state = Some (VMM_ESIGBUS, V', empty_state))"
proof -
  have o: "\<not> NOT_IN_USPACE 0x45000" "\<forall>b\<in>set (regions_root space). 0x45000 < vm_start (regs space b) \<or> vm_limit (regs space b) < 0x45000" "\<not> pmm_except_isInKernelMode 0x1001"
    by (simp_all add: NOT_IN_USPACE_def CONFIG_USR_OFFSET_def CONFIG_USR_LIMIT_def space_simps region_at_def pmm_except_isInKernelMode_def flag_set_def)
  have f: "\<not> permitted (regs space 2) 0" by (simp add: permitted_def space_simps region_at_def flag_set_def pmm_except_isWrite_def VM_REG_RD_def VM_REG_WR_def)
  show ?thesis
    using vmm_fault_errors [OF space_vmm_ok, of "0x45000" some_memory "\<lambda>_ _. 0" 0 "\<lambda>_. True" False "0x1001" empty_state]
      vmm_fault_errors [OF space_vmm_ok, of "0x32000" some_memory "\<lambda>_ _. 0" 0 "\<lambda>_. True" False 0 empty_state] o f space_fault(1-5) by auto
qed

end
