(* ===== verification/Mm_Heap.thy ===== *)
theory Mm_Heap
  imports Libk_Bits "HOL-Library.Monad_Syntax"
begin

text \<open>
  The heap of a cluster, \<^verbatim>\<open>src/kernel/mm/heap_manager.c\<close>: consecutive blocks, each with a header of eight bytes in front of
  its data. The headers are a store from addresses to headers; the field that leads from a block to its heap is left out, there is one
  heap. The heap lock makes each operation atomic.
\<close>

section \<open>Model\<close>

abbreviation (input) CACHE_LINE_SIZE :: u32 where "CACHE_LINE_SIZE \<equiv> 64"
abbreviation (input) HEADER :: u32 where "HEADER \<equiv> 8"

record block_info_s =
  busy :: bool
  bsize :: u32

record heap_manager_s =
  hdr :: "u32 \<Rightarrow> block_info_s"
  h_base :: u32
  h_start :: u32
  h_limit :: u32
  h_next :: u32

text \<open>The size has 31 bits.\<close>

definition set_header :: "u32 \<Rightarrow> bool \<Rightarrow> u32 \<Rightarrow> heap_manager_s \<Rightarrow> heap_manager_s" where
  "set_header a b s h = h\<lparr>hdr := (hdr h)(a := \<lparr>busy = b, bsize = take_bit 31 s\<rparr>)\<rparr>"

definition heap_manager_init :: "heap_manager_s \<Rightarrow> u32 \<Rightarrow> u32 \<Rightarrow> u32 \<Rightarrow> heap_manager_s" where
  "heap_manager_init h heap_base heap_start heap_limit =
     (set_header heap_start False (heap_limit - heap_start) h)
       \<lparr>h_base := heap_base, h_start := heap_start, h_limit := heap_limit, h_next := heap_start\<rparr>"

text \<open>The search; \<open>Some None\<close> is the end of the heap.\<close>

partial_function (option) heap_search :: "(u32 \<Rightarrow> block_info_s) \<Rightarrow> u32 \<Rightarrow> u32 \<Rightarrow> u32 \<Rightarrow> u32 option option" where
  "heap_search m limit effective_size current =
     (if busy (m current) \<or> bsize (m current) < effective_size
      then (let current = current + bsize (m current)
            in if current \<ge> limit then Some None else heap_search m limit effective_size current)
      else Some (Some current))"

text \<open>The block found is marked, and what remains of it becomes a free block when it is large enough.\<close>

definition heap_take :: "u32 \<Rightarrow> u32 \<Rightarrow> heap_manager_s \<Rightarrow> heap_manager_s" where
  "heap_take current effective_size h =
     (let csize = bsize (hdr h current)
      in if csize - effective_size \<ge> CACHE_LINE_SIZE
         then let nxt = current + effective_size;
                  h = set_header nxt False (csize - effective_size) h
              in set_header current True effective_size (h\<lparr>h_next := nxt\<rparr>)
         else set_header current True csize h)"

definition heap_manager_malloc :: "heap_manager_s \<Rightarrow> u32 \<Rightarrow> (u32 \<times> heap_manager_s) option" where
  "heap_manager_malloc h sz = do {
     let effective_size = ARROUND_UP (sz + HEADER) CACHE_LINE_SIZE;
     let current = (if h_next h > h_limit h - effective_size then h_start h else h_next h);
     found \<leftarrow> heap_search (hdr h) (h_limit h) effective_size current;
     case found of
       None \<Rightarrow> Some (0, h)
     | Some current \<Rightarrow> Some (current + HEADER, heap_take current effective_size h) }"

text \<open>The merge of a freed block with the free blocks after it.\<close>

partial_function (option) heap_merge :: "u32 \<Rightarrow> u32 \<Rightarrow> (u32 \<Rightarrow> block_info_s) \<Rightarrow> (u32 \<Rightarrow> block_info_s) option" where
  "heap_merge limit current m =
     (let nxt = current + bsize (m current)
      in if nxt = 0 \<or> nxt \<ge> limit \<or> busy (m nxt) then Some m
         else heap_merge limit current (m(current := (m current)\<lparr>bsize := take_bit 31 (bsize (m current) + bsize (m nxt))\<rparr>)))"

declare heap_search.simps [code] heap_merge.simps [code]

definition heap_manager_free :: "u32 \<Rightarrow> heap_manager_s \<Rightarrow> heap_manager_s option" where
  "heap_manager_free ptr h =
     (if ptr = 0 then Some h
      else do {
        let current = ptr - HEADER;
        let m = (hdr h)(current := (hdr h current)\<lparr>busy := False\<rparr>);
        m \<leftarrow> heap_merge (h_limit h) current m;
        Some (h\<lparr>hdr := m, h_next := (if current < h_next h then current else h_next h)\<rparr>) })"

section \<open>Well-formed heaps\<close>

text \<open>
  \<open>chain m a bs l\<close>: the headers from \<open>a\<close> to \<open>l\<close> are those of the blocks \<open>bs\<close>, given as busy bit and size.
\<close>

fun chain :: "(u32 \<Rightarrow> block_info_s) \<Rightarrow> nat \<Rightarrow> (bool \<times> nat) list \<Rightarrow> nat \<Rightarrow> bool" where
  "chain m a [] l \<longleftrightarrow> a = l"
| "chain m a ((b, s) # bs) l \<longleftrightarrow> m (of_nat a) = \<lparr>busy = b, bsize = of_nat s\<rparr> \<and> 0 < s \<and> 64 dvd s \<and> chain m (a + s) bs l"

definition sizes :: "(bool \<times> nat) list \<Rightarrow> nat" where
  "sizes bs = sum_list (map snd bs)"

text \<open>The allocated blocks, as address and size.\<close>

fun taken :: "nat \<Rightarrow> (bool \<times> nat) list \<Rightarrow> (nat \<times> nat) list" where
  "taken a [] = []"
| "taken a ((b, s) # bs) = (if b then [(a, s)] else []) @ taken (a + s) bs"

fun starts :: "nat \<Rightarrow> (bool \<times> nat) list \<Rightarrow> nat list" where
  "starts a [] = []"
| "starts a ((b, s) # bs) = a # starts (a + s) bs"

definition heap_ok :: "heap_manager_s \<Rightarrow> (bool \<times> nat) list \<Rightarrow> bool" where
  "heap_ok h bs \<longleftrightarrow> chain (hdr h) (unat (h_start h)) bs (unat (h_limit h)) \<and> sizes bs < 2 ^ 31
     \<and> unat (h_next h) \<in> set (starts (unat (h_start h)) bs)"

lemma sizes_simps [simp]: "sizes [] = 0" "sizes ((b, s) # bs) = s + sizes bs" "sizes (xs @ ys) = sizes xs + sizes ys"
  by (simp_all add: sizes_def)

lemma chain_sum: "chain m a bs l \<Longrightarrow> l = a + sizes bs"
  by (induction m a bs l rule: chain.induct) auto

lemma chain_dvd: "chain m a bs l \<Longrightarrow> 64 dvd sizes bs"
  by (induction m a bs l rule: chain.induct) auto

lemma chain_append: "chain m a (xs @ ys) l \<longleftrightarrow> chain m a xs (a + sizes xs) \<and> chain m (a + sizes xs) ys l"
proof (induction xs arbitrary: a)
  case (Cons x xs)
  then show ?case by (cases x) (auto simp: add.assoc)
qed simp

lemma chain_cong: "chain m a bs l \<Longrightarrow> (\<And>x. a \<le> x \<Longrightarrow> x < l \<Longrightarrow> m' (of_nat x) = m (of_nat x)) \<Longrightarrow> chain m' a bs l"
proof (induction m a bs l rule: chain.induct)
  case (2 m a b s bs l)
  have "l = a + s + sizes bs" using 2(2) chain_sum [of m "a + s" bs l] by simp
  then show ?case using 2 by simp
qed simp

lemma chain_upd:
  assumes "chain m a bs l" and "p < a \<or> l \<le> p" and "p < 4294967296" and "l \<le> 4294967296"
  shows "chain (m(of_nat p := v)) a bs l"
  by (rule chain_cong [OF assms(1)]) (use assms(2-4) u32_eq in auto)

lemma starts_append: "starts a (xs @ ys) = starts a xs @ starts (a + sizes xs) ys"
  by (induction a xs rule: starts.induct) (auto simp: add.assoc)

lemma starts_mid: "zs \<noteq> [] \<Longrightarrow> a + sizes ys \<in> set (starts a (ys @ zs))"
  by (cases zs) (auto simp: starts_append)

lemma starts_ge: "x \<in> set (starts a bs) \<Longrightarrow> a \<le> x"
  by (induction a bs rule: starts.induct) auto

lemma starts_iff: "x \<in> set (starts a bs) \<longleftrightarrow> (\<exists>ys zs. bs = ys @ zs \<and> zs \<noteq> [] \<and> x = a + sizes ys)"
proof (induction a bs rule: starts.induct)
  case (2 a b s bs)
  show ?case
  proof
    assume "x \<in> set (starts a ((b, s) # bs))"
    then consider "x = a" | ys zs where "bs = ys @ zs" "zs \<noteq> []" "x = a + s + sizes ys" using 2 by auto
    then show "\<exists>ys zs. (b, s) # bs = ys @ zs \<and> zs \<noteq> [] \<and> x = a + sizes ys"
    proof cases
      case 1
      then show ?thesis by (intro exI [of _ "[]"] exI [of _ "(b, s) # bs"]) auto
    next
      case (2 ys zs)
      then show ?thesis by (intro exI [of _ "(b, s) # ys"] exI [of _ zs]) auto
    qed
  next
    assume "\<exists>ys zs. (b, s) # bs = ys @ zs \<and> zs \<noteq> [] \<and> x = a + sizes ys"
    then show "x \<in> set (starts a ((b, s) # bs))" by (metis starts_mid)
  qed
qed simp

lemma taken_append: "taken a (xs @ ys) = taken a xs @ taken (a + sizes xs) ys"
  by (induction a xs rule: taken.induct) (auto simp: add.assoc)

lemma taken_free: "\<forall>x\<in>set bs. \<not> fst x \<Longrightarrow> taken a bs = []"
  by (induction a bs rule: taken.induct) auto

lemma taken_range: "(p, n) \<in> set (taken a bs) \<Longrightarrow> a \<le> p \<and> p + n \<le> a + sizes bs"
  by (induction a bs rule: taken.induct) (auto split: if_splits)

lemma taken_split: "(p, n) \<in> set (taken a bs) \<Longrightarrow> \<exists>ys zs. bs = ys @ (True, n) # zs \<and> p = a + sizes ys"
proof (induction a bs rule: taken.induct)
  case (2 a b s bs)
  then consider "b" "p = a" "n = s" | ys zs where "bs = ys @ (True, n) # zs" "p = a + s + sizes ys"
    by (auto split: if_splits)
  then show ?case
  proof cases
    case 1
    then show ?thesis by (intro exI [of _ "[]"] exI [of _ bs]) auto
  next
    case (2 ys zs)
    then show ?thesis by (intro exI [of _ "(b, s) # ys"] exI [of _ zs]) auto
  qed
qed simp

section \<open>Allocation\<close>

definition fits :: "nat \<Rightarrow> bool \<times> nat \<Rightarrow> bool" where
  "fits e x \<longleftrightarrow> \<not> fst x \<and> e \<le> snd x"

lemma search_step:
  assumes "chain m a ((b, s) # bs) l" and "l < 4294967296" and "e < 4294967296"
  shows "heap_search m (of_nat l) (of_nat e) (of_nat a) =
    (if fits e (b, s) then Some (Some (of_nat a)) else if bs = [] then Some None else heap_search m (of_nat l) (of_nat e) (of_nat (a + s)))"
proof -
  have c: "m (of_nat a) = \<lparr>busy = b, bsize = of_nat s\<rparr>" "chain m (a + s) bs l" "l = a + s + sizes bs"
    using assms(1) chain_sum [of m "a + s" bs l] by auto
  have sz: "unat (of_nat s :: u32) = s" "unat (of_nat e :: u32) = e" "unat (of_nat l :: u32) = l" "unat (of_nat (a + s) :: u32) = a + s"
    using c(3) assms(2,3) by (simp_all add: unat_small del: of_nat_add)
  have "bs = [] \<longleftrightarrow> l \<le> a + s" using c(2,3) by (cases bs) auto
  then have "(of_nat (a + s) :: u32) \<ge> of_nat l \<longleftrightarrow> bs = []" using sz(3,4) by (simp add: word_le_nat_alt)
  moreover have "(of_nat s :: u32) < of_nat e \<longleftrightarrow> s < e" using sz by (simp add: word_less_nat_alt)
  ultimately show ?thesis using c(1) by (subst heap_search.simps) (auto simp: fits_def Let_def)
qed

lemma search_none:
  "chain m a bs l \<Longrightarrow> l < 4294967296 \<Longrightarrow> e < 4294967296 \<Longrightarrow> bs \<noteq> [] \<Longrightarrow> \<forall>x\<in>set bs. \<not> fits e x \<Longrightarrow>
    heap_search m (of_nat l) (of_nat e) (of_nat a) = Some None"
proof (induction bs arbitrary: a)
  case (Cons x bs)
  obtain b s where x: "x = (b, s)" by fastforce
  show ?case using search_step [OF Cons.prems(1) [unfolded x] Cons.prems(2,3)] Cons.IH [of "a + s"] Cons.prems x by auto
qed simp

lemma search_some:
  "chain m a (ys @ (b, s) # zs) l \<Longrightarrow> l < 4294967296 \<Longrightarrow> e < 4294967296 \<Longrightarrow> fits e (b, s) \<Longrightarrow> \<forall>x\<in>set ys. \<not> fits e x \<Longrightarrow>
    heap_search m (of_nat l) (of_nat e) (of_nat a) = Some (Some (of_nat (a + sizes ys)))"
proof (induction ys arbitrary: a)
  case Nil
  then show ?case using search_step [of m a b s zs l e] by simp
next
  case (Cons x ys)
  obtain b' s' where x: "x = (b', s')" by fastforce
  have c: "chain m a ((b', s') # ys @ (b, s) # zs) l" "chain m (a + s') (ys @ (b, s) # zs) l" using Cons.prems(1) x by auto
  show ?case using search_step [OF c(1) Cons.prems(2,3)] Cons.IH [OF c(2) Cons.prems(2-4)] Cons.prems(5) x by (simp add: add.assoc)
qed

lemma take31: "s < 2147483648 \<Longrightarrow> take_bit 31 (of_nat s :: u32) = of_nat s"
  by (simp add: take_bit_of_nat take_bit_nat_eq_self flip: of_nat_take_bit)

lemma chain_mid:
  "chain m a (ys @ (b, s) # zs) l \<longleftrightarrow> chain m a ys (a + sizes ys) \<and> m (of_nat (a + sizes ys)) = \<lparr>busy = b, bsize = of_nat s\<rparr>
     \<and> 0 < s \<and> 64 dvd s \<and> chain m (a + sizes ys + s) zs l"
  by (simp add: chain_append)

lemma chain_mark:
  assumes "chain m a (ys @ (b, s) # zs) l" and "l \<le> 4294967296"
  shows "chain (m(of_nat (a + sizes ys) := \<lparr>busy = c, bsize = of_nat s\<rparr>)) a (ys @ (c, s) # zs) l"
proof -
  have "l = a + sizes ys + s + sizes zs" "0 < s" using chain_sum [OF assms(1)] assms(1) by (auto simp: chain_mid)
  then show ?thesis using assms unfolding chain_mid
    by (auto intro!: chain_upd simp del: of_nat_add)
qed

lemma chain_split:
  assumes "chain m a (ys @ (b, s) # zs) l" and "l \<le> 4294967296" and "0 < e" and "e < s" and "64 dvd e"
  shows "chain (m(of_nat (a + sizes ys + e) := \<lparr>busy = d, bsize = of_nat (s - e)\<rparr>, of_nat (a + sizes ys) := \<lparr>busy = c, bsize = of_nat e\<rparr>))
    a (ys @ (c, e) # (d, s - e) # zs) l"
proof -
  have l: "l = a + sizes ys + s + sizes zs" using chain_sum [OF assms(1)] by simp
  have ne: "(of_nat (a + sizes ys + e) :: u32) \<noteq> of_nat (a + sizes ys)" using u32_eq l assms(2-4) by (auto simp del: of_nat_add)
  have "64 dvd s - e" using assms(1,5) by (simp add: chain_mid)
  then show ?thesis using assms l ne unfolding chain_mid
    by (auto intro!: chain_upd simp: add.assoc simp del: of_nat_add)
qed

text \<open>The blocks after an allocation of \<open>e\<close> bytes out of the free block \<open>s\<close>.\<close>

definition carve :: "nat \<Rightarrow> nat \<Rightarrow> (bool \<times> nat) list" where
  "carve e s = (if s - e \<ge> 64 then [(True, e), (False, s - e)] else [(True, s)])"

lemma malloc_found:
  assumes ok: "heap_ok h (ys @ (False, s) # zs)" and "e \<le> s" and "0 < e" and "64 dvd e"
    and "p = unat (h_start h) + sizes ys"
  shows "\<exists>h'. heap_take (of_nat p) (of_nat e) h = h' \<and> heap_ok h' (ys @ carve e s @ zs)
       \<and> h_start h' = h_start h \<and> h_limit h' = h_limit h"
proof -
  let ?m = "hdr h" and ?a = "unat (h_start h)" and ?l = "unat (h_limit h)"
  have c: "chain ?m ?a (ys @ (False, s) # zs) ?l" and sz: "sizes ys + s + sizes zs < 2147483648"
    and nx: "unat (h_next h) \<in> set (starts ?a (ys @ (False, s) # zs))" using ok by (auto simp: heap_ok_def)
  have here: "bsize (?m (of_nat p)) = of_nat s" "64 dvd s" using c assms(5) by (auto simp: chain_mid)
  have l: "?l = p + s + sizes zs" using chain_sum [OF c] assms(5) by simp
  have lim: "?l \<le> 4294967296" using unat_bound [of "h_limit h"] by simp
  have sub: "(of_nat s - of_nat e :: u32) = of_nat (s - e)" using assms(2) by (simp add: of_nat_diff)
  have unat: "unat (of_nat (s - e) :: u32) = s - e" using sz by (intro unat_small) simp
  have big: "(of_nat s - of_nat e :: u32) \<ge> 64 \<longleftrightarrow> s - e \<ge> 64" unfolding sub by (simp add: word_le_nat_alt unat)
  show ?thesis
  proof (cases "s - e \<ge> 64")
    case True
    let ?h = "h\<lparr>hdr := ?m(of_nat (p + e) := \<lparr>busy = False, bsize = of_nat (s - e)\<rparr>, of_nat p := \<lparr>busy = True, bsize = of_nat e\<rparr>),
      h_next := of_nat (p + e)\<rparr>"
    have "unat (of_nat (p + e) :: u32) = p + e" using l assms(2) unat_bound [of "h_limit h"] by (intro unat_small) simp
    then have "heap_ok ?h (ys @ carve e s @ zs)"
      using chain_split [OF c lim assms(3) _ assms(4), of False True] True assms(2,5) sz
      by (simp add: heap_ok_def carve_def starts_append add.assoc)
    moreover have "take_bit 31 (of_nat (s - e) :: u32) = of_nat (s - e)" "take_bit 31 (of_nat e :: u32) = of_nat e"
      using sz assms(2) by (simp_all only: take31)
    moreover have "64 \<le> (of_nat (s - e) :: u32)" using True big unfolding sub by blast
    ultimately show ?thesis unfolding heap_take_def here(1) sub set_header_def Let_def
      by (intro exI [of _ ?h]) (simp del: of_nat_diff)
  next
    case False
    let ?h = "h\<lparr>hdr := ?m(of_nat p := \<lparr>busy = True, bsize = of_nat s\<rparr>)\<rparr>"
    have "heap_ok ?h (ys @ carve e s @ zs)"
      using chain_mark [OF c lim, of True] False assms(5) sz nx by (simp add: heap_ok_def carve_def starts_append)
    then show ?thesis using False big sz
      by (intro exI [of _ ?h]) (simp add: heap_take_def here take31 set_header_def)
  qed
qed

lemma taken_carve:
  "set (taken a (ys @ carve e s @ zs)) =
     insert (a + sizes ys, if s - e \<ge> 64 then e else s) (set (taken a (ys @ (False, s) # zs)))" if "e \<le> s"
  using that by (auto simp: taken_append carve_def)

lemma free_disjoint:
  "(q, k) \<in> set (taken a (ys @ (False, s) # zs)) \<Longrightarrow> q + k \<le> a + sizes ys \<or> a + sizes ys + s \<le> q"
  using taken_range [of q k a ys] taken_range [of q k "a + sizes ys + s" zs] by (auto simp: taken_append)

lemma starts_limit: "x \<in> set (starts a bs) \<Longrightarrow> \<exists>us vs. bs = us @ vs \<and> vs \<noteq> [] \<and> x = a + sizes us"
  by (simp add: starts_iff)

lemma malloc_cases:
  assumes ok: "heap_ok h bs" and e: "of_nat e = ARROUND_UP (sz + 8) 64" "64 dvd e" "0 < e" "e < 4294967296"
  shows "heap_manager_malloc h sz = Some (0, h)
    \<or> (\<exists>ys s zs h'. bs = ys @ (False, s) # zs \<and> e \<le> s \<and> heap_manager_malloc h sz = Some (of_nat (unat (h_start h) + sizes ys + 8), h')
         \<and> heap_ok h' (ys @ carve e s @ zs) \<and> h_start h' = h_start h \<and> h_limit h' = h_limit h)"
proof -
  obtain c where c: "c = (if h_next h > h_limit h - of_nat e then h_start h else h_next h)" by simp
  let ?a = "unat (h_start h)" and ?l = "unat (h_limit h)"
  have ch: "chain (hdr h) ?a bs ?l" and nx: "unat (h_next h) \<in> set (starts ?a bs)" using ok by (auto simp: heap_ok_def)
  have m: "heap_manager_malloc h sz = do { found \<leftarrow> heap_search (hdr h) (of_nat ?l) (of_nat e) (of_nat (unat c));
      case found of None \<Rightarrow> Some (0, h) | Some current \<Rightarrow> Some (current + 8, heap_take current (of_nat e) h) }"
    unfolding heap_manager_malloc_def Let_def c e(1) by simp
  have "c = h_start h \<or> c = h_next h" using c by simp
  then obtain us vs where uv: "bs = us @ vs" "vs \<noteq> []" "unat c = ?a + sizes us"
    using nx starts_limit [OF nx] by (cases bs) fastforce+
  have cv: "chain (hdr h) (unat c) vs ?l" using ch uv by (simp add: chain_append)
  show ?thesis
  proof (cases "\<forall>x\<in>set vs. \<not> fits e x")
    case True
    from search_none [OF cv unat_bound e(4) uv(2) True] show ?thesis unfolding m by simp
  next
    case False
    then obtain ws x zs where x: "vs = ws @ x # zs" "fits e x" "\<forall>y\<in>set ws. \<not> fits e y"
      using split_list_first_prop [of vs "fits e"] by blast
    obtain s where s: "x = (False, s)" "e \<le> s" using x(2) by (cases x) (auto simp: fits_def)
    have bs: "bs = (us @ ws) @ (False, s) # zs" and pos: "unat c + sizes ws = ?a + sizes (us @ ws)" using uv x(1) s(1) by simp_all
    note search_some [OF cv [unfolded x(1) s(1)] unat_bound e(4) x(2) [unfolded s(1)] x(3), unfolded pos]
    then have "heap_manager_malloc h sz = Some (of_nat (?a + sizes (us @ ws) + 8), heap_take (of_nat (?a + sizes (us @ ws))) (of_nat e) h)"
      unfolding m by simp
    then show ?thesis using malloc_found [OF ok [unfolded bs] s(2) e(3,2) refl] bs s(2) by blast
  qed
qed

section \<open>Release\<close>

lemma merge_free:
  assumes "chain m a ((False, s) # fs @ rest) l" and "\<forall>x\<in>set fs. \<not> fst x" and "rest = [] \<or> fst (hd rest)"
    and "l < 4294967296" and "s + sizes fs < 2147483648"
  shows "heap_merge (of_nat l) (of_nat a) m = Some (m(of_nat a := \<lparr>busy = False, bsize = of_nat (s + sizes fs)\<rparr>))"
  using assms
proof (induction fs arbitrary: s m)
  case Nil
  have l: "l = a + s + sizes rest" "0 < s" using chain_sum [OF Nil.prems(1)] Nil.prems(1) by auto
  have w: "unat (of_nat l :: u32) = l" "unat (of_nat (a + s) :: u32) = a + s"
    using l(1) Nil.prems(4) by (simp_all only: unat_small)
  have "of_nat (a + s) \<ge> (of_nat l :: u32) \<or> busy (m (of_nat (a + s)))"
    using Nil.prems(1,3) l w by (cases rest) (auto simp: word_le_nat_alt)
  moreover have here: "m (of_nat a) = \<lparr>busy = False, bsize = of_nat s\<rparr>" using Nil.prems(1) by simp
  ultimately show ?case by (subst heap_merge.simps) (auto simp: Let_def)
next
  case (Cons x fs)
  obtain k where x: "x = (False, k)" using Cons.prems(2) by (cases x) auto
  let ?m = "m(of_nat a := \<lparr>busy = False, bsize = of_nat (s + k)\<rparr>)"
  have here: "m (of_nat a) = \<lparr>busy = False, bsize = of_nat s\<rparr>" "m (of_nat (a + s)) = \<lparr>busy = False, bsize = of_nat k\<rparr>"
    "0 < s" "64 dvd s" "64 dvd k" "chain m (a + s + k) (fs @ rest) l" using Cons.prems(1) x by auto
  have l: "l = a + s + k + sizes (fs @ rest)" "0 < k" using chain_sum [OF Cons.prems(1)] Cons.prems(1) x by auto
  have w: "unat (of_nat l :: u32) = l" "unat (of_nat (a + s) :: u32) = a + s"
    using l(1) Cons.prems(4) by (simp_all only: unat_small)
  have "\<not> of_nat (a + s) \<ge> (of_nat l :: u32)" "(of_nat (a + s) :: u32) \<noteq> 0"
    using w l here(3) by (auto simp: word_le_nat_alt simp del: of_nat_add simp flip: unat_eq_0)
  moreover have "take_bit 31 (of_nat s + of_nat k :: u32) = of_nat (s + k)" using take31 [of "s + k"] Cons.prems(5) x by simp
  ultimately have "heap_merge (of_nat l) (of_nat a) m = heap_merge (of_nat l) (of_nat a) ?m"
    using here by (subst heap_merge.simps) (simp add: Let_def)
  moreover have "chain ?m (a + s + k) (fs @ rest) l" using here(3,6) l(1) Cons.prems(4) by (intro chain_upd) auto
  then have "chain ?m a ((False, s + k) # fs @ rest) l" using here(3-5) by (simp add: add.assoc)
  note IH = Cons.IH [OF this _ Cons.prems(3,4)]
  have "\<forall>x\<in>set fs. \<not> fst x" "s + k + sizes fs < 2147483648" using Cons.prems(2,5) x by simp_all
  note IH [OF this]
  ultimately show ?case using x by (simp only: fun_upd_upd sizes_simps add.assoc)
qed

lemma free_block:
  assumes ok: "heap_ok h (ys @ (True, s) # fs @ rest)" and "\<forall>x\<in>set fs. \<not> fst x" and "rest = [] \<or> fst (hd rest)"
    and p: "p = unat (h_start h) + sizes ys"
  shows "\<exists>h'. heap_manager_free (of_nat p + 8) h = Some h' \<and> heap_ok h' (ys @ (False, s + sizes fs) # rest)
    \<and> h_start h' = h_start h \<and> h_limit h' = h_limit h \<and> unat (h_next h') = min p (unat (h_next h))"
proof -
  let ?m = "hdr h" and ?a = "unat (h_start h)" and ?l = "unat (h_limit h)" and ?n = "h_next h"
  have c: "chain ?m ?a (ys @ (True, s) # fs @ rest) ?l" and sz: "sizes ys + s + sizes fs + sizes rest < 2147483648"
    and nx: "unat ?n \<in> set (starts ?a (ys @ (True, s) # fs @ rest))" using ok by (auto simp: heap_ok_def add.assoc)
  have l: "?l = p + s + sizes fs + sizes rest" "64 dvd s" "0 < s" using chain_sum [OF c] c p by (auto simp: chain_mid)
  have here: "?m (of_nat p) = \<lparr>busy = True, bsize = of_nat s\<rparr>" using c p by (simp add: chain_mid)
  let ?m1 = "?m(of_nat p := \<lparr>busy = False, bsize = of_nat s\<rparr>)"
  let ?m2 = "?m(of_nat p := \<lparr>busy = False, bsize = of_nat (s + sizes fs)\<rparr>)"
  have c1: "chain ?m1 ?a (ys @ (False, s) # fs @ rest) ?l" using chain_mark [OF c, of False] unat_bound [of "h_limit h"] p by simp
  then have "heap_merge (of_nat ?l) (of_nat p) ?m1 = Some ?m2"
    using merge_free [of ?m1 p s fs rest ?l] assms(2,3) sz unat_bound [of "h_limit h"] p by (simp add: chain_append)
  moreover have small: "unat (of_nat p :: u32) = p" using l unat_bound [of "h_limit h"] by (intro unat_small) simp
  then have "p + 8 < 4294967296" using l unat_bound [of "h_limit h"] dvd_imp_le [of 64 s] by linarith
  then have "(of_nat (p + 8) :: u32) \<noteq> 0" using u32_eq [of "p + 8" 0] by simp
  ultimately have free: "heap_manager_free (of_nat p + 8) h = Some (h\<lparr>hdr := ?m2, h_next := (if of_nat p < ?n then of_nat p else ?n)\<rparr>)"
    using here by (simp add: heap_manager_free_def Let_def)
  have "chain ?m2 ?a (ys @ (False, s + sizes fs) # rest) ?l"
  proof -
    have cr: "chain ?m (p + s + sizes fs) rest ?l" "chain ?m ?a ys p" using c p by (auto simp: chain_append)
    have "64 dvd sizes fs" using c by (auto simp: chain_append dest: chain_dvd)
    then show ?thesis using chain_upd [OF cr(1), of p] chain_upd [OF cr(2), of p] l p unat_bound [of "h_limit h"]
      by (simp add: chain_mid add.assoc del: of_nat_add)
  qed
  moreover have "(if of_nat p < ?n then p else unat ?n) \<in> set (starts ?a (ys @ (False, s + sizes fs) # rest))"
    using nx p starts_ge small by (fastforce simp: starts_append word_less_nat_alt)
  ultimately have "heap_ok (h\<lparr>hdr := ?m2, h_next := (if of_nat p < ?n then of_nat p else ?n)\<rparr>) (ys @ (False, s + sizes fs) # rest)"
    using sz small by (auto simp: heap_ok_def split: if_splits)
  then show ?thesis using free small by (simp add: word_less_nat_alt min_def)
qed

section \<open>The contract\<close>

lemma effective_size:
  assumes "unat sz \<le> 4294967224"
  shows "64 dvd unat (ARROUND_UP (sz + 8) 64)" "unat sz + 8 \<le> unat (ARROUND_UP (sz + 8) 64)"
proof -
  have "unat (sz + 8) = unat sz + 8" using assms by (simp add: unat_word_ariths(1))
  then show "64 dvd unat (ARROUND_UP (sz + 8) 64)" "unat sz + 8 \<le> unat (ARROUND_UP (sz + 8) 64)"
    using ARROUND_UP_pow2 [of 6 "sz + 8"] assms by simp_all
qed

lemma heap_limits: "heap_ok h bs \<Longrightarrow> unat (h_start h) + sizes bs = unat (h_limit h)"
  using chain_sum [of "hdr h" _ bs] by (auto simp: heap_ok_def)

text \<open>
  C22: On a well-formed heap \<^verbatim>\<open>heap_manager_malloc\<close> ends. It either answers \<^verbatim>\<open>NULL\<close> and changes nothing, or
  hands out a block inside the heap that holds the requested bytes and its header, does not overlap any block in use, and leaves a
  well-formed heap where it is the only new block in use. The request must be at least 72 bytes below \<open>2 ^ 32\<close>.
\<close>

theorem heap_malloc_correct:
  assumes "heap_ok h bs" and "unat sz \<le> 4294967224"
  shows "heap_manager_malloc h sz = Some (0, h)
    \<or> (\<exists>p n h' bs'. heap_manager_malloc h sz = Some (of_nat (p + 8), h') \<and> heap_ok h' bs' \<and> unat sz + 8 \<le> n
         \<and> unat (h_start h) \<le> p \<and> p + n \<le> unat (h_limit h)
         \<and> (\<forall>(q, k)\<in>set (taken (unat (h_start h)) bs). q + k \<le> p \<or> p + n \<le> q)
         \<and> set (taken (unat (h_start h)) bs') = insert (p, n) (set (taken (unat (h_start h)) bs)))"
proof -
  let ?e = "unat (ARROUND_UP (sz + 8) 64)" and ?a = "unat (h_start h)"
  note e = effective_size [OF assms(2)]
  have w: "of_nat ?e = ARROUND_UP (sz + 8) 64" "0 < ?e" using e(2) by simp_all
  consider "heap_manager_malloc h sz = Some (0, h)" | ys s zs h' where "bs = ys @ (False, s) # zs" "?e \<le> s"
      "heap_manager_malloc h sz = Some (of_nat (?a + sizes ys + 8), h')" "heap_ok h' (ys @ carve ?e s @ zs)"
    using malloc_cases [OF assms(1) w(1) e(1) w(2) unat_bound] by blast
  then show ?thesis
  proof cases
    case (2 ys s zs h')
    let ?p = "?a + sizes ys"
    obtain n where n: "n = (if s - ?e \<ge> 64 then ?e else s)" by simp
    then have le: "unat sz + 8 \<le> n" "n \<le> s" using e(2) 2(2) by auto
    have lim: "?p + n \<le> unat (h_limit h)" using 2(1) le(2) heap_limits [OF assms(1)] by simp
    have dis: "\<forall>(q, k)\<in>set (taken ?a bs). q + k \<le> ?p \<or> ?p + n \<le> q"
    proof (rule ballI, clarify)
      fix q k assume "(q, k) \<in> set (taken ?a bs)" "\<not> ?p + n \<le> q"
      then show "q + k \<le> ?p" using free_disjoint [of q k ?a ys s zs] 2(1) le(2) by simp
    qed
    have "set (taken ?a (ys @ carve ?e s @ zs)) = insert (?p, n) (set (taken ?a bs))"
      using taken_carve [OF 2(2)] 2(1) n by simp
    then show ?thesis using 2(3,4) le(1) lim dis le_add1 by blast
  qed simp
qed

definition demo_heap :: heap_manager_s where
  "demo_heap = heap_manager_init \<lparr>hdr = (\<lambda>_. \<lparr>busy = False, bsize = 0\<rparr>), h_base = 0, h_start = 0, h_limit = 0, h_next = 0\<rparr> 0x1000 0x1000 0x2000"

lemma heap_init_ok:
  assumes "start < limit" and "64 dvd unat (limit - start)" and "unat (limit - start) < 2147483648"
  shows "heap_ok (heap_manager_init h base start limit) [(False, unat (limit - start))]"
proof -
  have "take_bit 31 (limit - start) = limit - start" using take31 [OF assms(3)] by simp
  moreover have "unat (limit - start) = unat limit - unat start" using assms(1) by (simp add: unat_sub less_imp_le)
  ultimately show ?thesis using assms by (simp add: heap_ok_def heap_manager_init_def set_header_def word_less_nat_alt)
qed

lemma demo_heap_ok: "heap_ok demo_heap [(False, 4096)]"
  using heap_init_ok [of "0x1000" "0x2000"] by (simp add: demo_heap_def)

theorem heap_malloc_correct_witness:
  "\<exists>n\<ge>108. \<exists>h' bs'. heap_manager_malloc demo_heap 100 = Some (0x1008, h') \<and> heap_ok h' bs' \<and> set (taken 0x1000 bs') = {(0x1000, n)}"
proof -
  have r: "fst (the (heap_manager_malloc demo_heap 100)) = 0x1008" by code_simp
  have s: "unat (h_start demo_heap) = 0x1000" "taken 0x1000 [(False, 4096)] = []"
    by (simp_all add: demo_heap_def heap_manager_init_def)
  from heap_malloc_correct [OF demo_heap_ok, of 100] r s(2) obtain p n h' bs' where
    *: "heap_manager_malloc demo_heap 100 = Some (of_nat (p + 8), h')" "heap_ok h' bs'" "108 \<le> n" "p + n \<le> unat (h_limit demo_heap)"
      "set (taken 0x1000 bs') = {(p, n)}" unfolding s(1) by auto
  have "p + 8 < 4294967296" using *(3,4) unat_bound [of "h_limit demo_heap"] by linarith
  then have "p = 0x1000" using *(1) r u32_eq [of "p + 8" "0x1008"] by simp
  then show ?thesis using * by auto
qed

text \<open>The sum of the size and the header may wrap around: a request for almost 4 GB is granted 64 bytes.\<close>

lemma heap_malloc_wraps:
  "(case heap_manager_malloc demo_heap 0xFFFFFFFC of Some (ptr, h) \<Rightarrow> ptr = 0x1008 \<and> bsize (hdr h 0x1000) = 64 | None \<Rightarrow> False)"
  by code_simp

text \<open>
  The search never comes back to the blocks in front of the last split: a request may fail although a free block for it exists.
\<close>

definition demo_fragmented :: "heap_manager_s option" where
  "demo_fragmented = do {
     (a, h) \<leftarrow> heap_manager_malloc demo_heap 56;
     (b, h) \<leftarrow> heap_manager_malloc h 120;
     h \<leftarrow> heap_manager_free a h;
     (c, h) \<leftarrow> heap_manager_malloc h 120;
     (d, h) \<leftarrow> heap_manager_malloc h 3768;
     Some h }"

lemma heap_malloc_misses:
  "(case demo_fragmented of None \<Rightarrow> False
    | Some h \<Rightarrow> \<not> busy (hdr h 0x1000) \<and> bsize (hdr h 0x1000) = 64 \<and> map_option fst (heap_manager_malloc h 56) = Some 0)"
  by code_simp

text \<open>
  C23: Releasing a block in use ends and merges it with the free blocks that follow: when the heap is the blocks \<open>ys\<close>, the block and the
  blocks \<open>zs\<close>, it becomes \<open>ys\<close>, one free block of the size of the block and of all the free blocks at the front of \<open>zs\<close>, and the rest of
  \<open>zs\<close>, which is empty or starts with a block in use. The heap is well-formed again, exactly the other blocks are in use, its bounds do not
  change, and the next search starts at the released block at the latest.
\<close>

theorem heap_free_correct:
  assumes "heap_ok h bs" and "(p, n) \<in> set (taken (unat (h_start h)) bs)"
  shows "\<exists>ys zs h' bs'. bs = ys @ (True, n) # zs \<and> p = unat (h_start h) + sizes ys
    \<and> bs' = ys @ (False, n + sizes (takeWhile (\<lambda>x. \<not> fst x) zs)) # dropWhile (\<lambda>x. \<not> fst x) zs
    \<and> heap_manager_free (of_nat p + 8) h = Some h' \<and> heap_ok h' bs'
    \<and> set (taken (unat (h_start h')) bs') = set (taken (unat (h_start h)) bs) - {(p, n)}
    \<and> h_start h' = h_start h \<and> h_limit h' = h_limit h \<and> unat (h_next h') = min p (unat (h_next h))"
proof -
  let ?a = "unat (h_start h)"
  obtain ys zs where b: "bs = ys @ (True, n) # zs" "p = ?a + sizes ys" using taken_split [OF assms(2)] by blast
  let ?fs = "takeWhile (\<lambda>x. \<not> fst x) zs" and ?rest = "dropWhile (\<lambda>x. \<not> fst x) zs"
  have zs: "?fs @ ?rest = zs" by simp
  have "\<forall>x\<in>set ?fs. \<not> fst x" "?rest = [] \<or> fst (hd ?rest)"
    using hd_dropWhile [of "\<lambda>x. \<not> fst x" zs] set_takeWhileD [of _ "\<lambda>x. \<not> fst x" zs] by blast+
  then obtain h' where h': "heap_manager_free (of_nat p + 8) h = Some h'"
    "heap_ok h' (ys @ (False, n + sizes ?fs) # ?rest)" "h_start h' = h_start h" "h_limit h' = h_limit h"
    "unat (h_next h') = min p (unat (h_next h))"
    using free_block [OF _ _ _ b(2), of n ?fs ?rest] assms(1) unfolding b(1) zs by blast
  have pos: "0 < n" using assms(1) b(1) by (auto simp: heap_ok_def chain_append)
  have fs: "taken q ?fs = []" for q by (rule taken_free) (auto dest: set_takeWhileD)
  have "set (taken ?a bs) = set (taken ?a ys) \<union> {(p, n)} \<union> set (taken (p + n + sizes ?fs) ?rest)"
    using taken_append [of "p + n" ?fs ?rest] fs b by (simp add: taken_append add.assoc)
  moreover have "(p, n) \<notin> set (taken ?a ys)" "(p, n) \<notin> set (taken (p + n + sizes ?fs) ?rest)"
    using taken_range [of p n ?a ys] taken_range [of p n "p + n + sizes ?fs" ?rest] pos b(2) by auto
  moreover have "set (taken ?a (ys @ (False, n + sizes ?fs) # ?rest)) = set (taken ?a ys) \<union> set (taken (p + n + sizes ?fs) ?rest)"
    using b(2) by (simp add: taken_append add.assoc)
  ultimately show ?thesis using h' b
    by (intro exI [of _ ys] exI [of _ zs] exI [of _ h'] exI [of _ "ys @ (False, n + sizes ?fs) # ?rest"]) auto
qed

text \<open>The witness: two free blocks between two blocks in use; the first one is released.\<close>

definition demo_mixed :: heap_manager_s where
  "demo_mixed = demo_heap\<lparr>hdr := (hdr demo_heap)(0x1000 := \<lparr>busy = True, bsize = 128\<rparr>,
     0x1080 := \<lparr>busy = False, bsize = 64\<rparr>, 0x10C0 := \<lparr>busy = False, bsize = 320\<rparr>,
     0x1200 := \<lparr>busy = True, bsize = 3584\<rparr>)\<rparr>"

theorem heap_free_correct_witness:
  "\<exists>h. heap_manager_free (of_nat 0x1000 + 8) demo_mixed = Some h
     \<and> heap_ok h [(False, 512), (True, 3584)] \<and> h_limit h = 0x2000"
proof -
  let ?bs = "[(True, 128), (False, 64), (False, 320), (True, 3584)]"
  have start: "unat (h_start demo_mixed) = 0x1000" "h_limit demo_mixed = 0x2000"
    by (simp_all add: demo_mixed_def demo_heap_def heap_manager_init_def)
  have ok: "heap_ok demo_mixed ?bs"
    by (simp add: heap_ok_def demo_mixed_def demo_heap_def heap_manager_init_def set_header_def)
  have "(0x1000, 128) \<in> set (taken (unat (h_start demo_mixed)) ?bs)" by (simp add: start)
  from heap_free_correct [OF ok this] obtain ys zs h where
    *: "?bs = ys @ (True, 128) # zs" "0x1000 = 0x1000 + sizes ys" "heap_manager_free (of_nat 0x1000 + 8) demo_mixed = Some h"
      "heap_ok h (ys @ (False, 128 + sizes (takeWhile (\<lambda>x. \<not> fst x) zs)) # dropWhile (\<lambda>x. \<not> fst x) zs)"
      "h_limit h = 0x2000"
    unfolding start by blast
  have "ys = []" using *(1,2) by (cases ys) auto
  with * show ?thesis by auto
qed

end
