(* ===== verification/Buddy_Blocks.thy ===== *)
theory Buddy_Blocks
  imports Kernel_Prelude
begin

text \<open>
  The combinatorics of the buddy system, used by theory \<^verbatim>\<open>Mm_Ppm\<close>: aligned power-of-two blocks
  of page indices, the tilings of the page table by such blocks, and the two moves of the
  allocator on them (splitting a block and merging it with its buddy).
\<close>

type_synonym block = "nat \<times> nat"

definition cells :: "block \<Rightarrow> nat set" where
  "cells x = {fst x ..< fst x + 2 ^ snd x}"

definition aligned :: "block \<Rightarrow> bool" where
  "aligned x \<longleftrightarrow> 2 ^ snd x dvd fst x"

definition tiling :: "nat \<Rightarrow> block set \<Rightarrow> bool" where
  "tiling N B \<longleftrightarrow> (\<forall>x \<in> B. aligned x) \<and> (\<forall>x \<in> B. \<forall>y \<in> B. x \<noteq> y \<longrightarrow> cells x \<inter> cells y = {})
     \<and> (\<Union>x \<in> B. cells x) = {..<N}"

definition buddy :: "nat \<Rightarrow> nat \<Rightarrow> nat" where
  "buddy p c = p XOR push_bit c 1"

section \<open>The buddy of a block\<close>

lemma buddy_flip: "buddy p c = flip_bit c p"
  by (simp add: buddy_def flip_bit_eq_xor)

lemma bit_exp_nat: "bit (2 ^ c :: nat) n \<longleftrightarrow> n = c"
  using bit_exp_iff [where 'a = nat, of c n] by (auto simp: possible_bit_def)

lemma and_buddy: "p AND buddy p c = unset_bit c p"
  by (rule bit_eqI) (auto simp: buddy_def bit_simps bit_exp_nat)

lemma dvd_bit_clear:
  assumes "2 ^ c dvd p" shows "bit p c \<longleftrightarrow> \<not> 2 ^ Suc c dvd (p :: nat)"
proof -
  from assms obtain m where "p = 2 ^ c * m" by blast
  then show ?thesis by (simp add: bit_iff_odd dvd_mult_cancel1)
qed

lemma unset_bit_nat: "bit p c \<Longrightarrow> unset_bit c p = p - 2 ^ c" "\<not> bit p c \<Longrightarrow> unset_bit c p = p"
  for p :: nat
proof -
  assume "bit p c"
  then have "set_bit c (unset_bit c p) = p" by (intro bit_eqI) (auto simp: bit_simps)
  then show "unset_bit c p = p - 2 ^ c" by (simp add: set_bit_eq bit_simps)
next
  assume "\<not> bit p c"
  then show "unset_bit c p = p" by (intro bit_eqI) (auto simp: bit_simps)
qed

lemma buddy_up:
  assumes "2 ^ Suc c dvd p"
  shows "buddy p c = p + 2 ^ c" and "p AND buddy p c = p"
proof -
  have "\<not> bit p c" using assms dvd_bit_clear [of c p] by (metis dvd_mult_right power_Suc)
  then show "buddy p c = p + 2 ^ c" and "p AND buddy p c = p"
    unfolding and_buddy by (simp_all add: buddy_flip flip_bit_eq_if set_bit_eq unset_bit_nat)
qed

lemma buddy_down:
  assumes "2 ^ c dvd p" and "\<not> 2 ^ Suc c dvd p"
  shows "2 ^ c \<le> p" and "buddy p c = p - 2 ^ c" and "p AND buddy p c = p - 2 ^ c"
    and "2 ^ Suc c dvd p - 2 ^ c"
proof -
  have bit: "bit p c" using assms dvd_bit_clear by blast
  then show "buddy p c = p - 2 ^ c" and "p AND buddy p c = p - 2 ^ c"
    unfolding and_buddy by (simp_all add: buddy_flip flip_bit_eq_if unset_bit_nat)
  from assms obtain m where m: "p = 2 ^ c * m" by blast
  with assms have "odd m" by (auto elim!: evenE)
  then obtain k where "m = 2 * k + 1" by (elim oddE)
  with m have "p = 2 ^ Suc c * k + 2 ^ c" by (simp add: algebra_simps)
  then show "2 ^ c \<le> p" and "2 ^ Suc c dvd p - 2 ^ c" by simp_all
qed

lemma buddy_ne: "buddy p c \<noteq> p"
proof
  assume "buddy p c = p"
  then have "bit (buddy p c) c \<longleftrightarrow> bit p c" by simp
  then show False by (simp add: buddy_def bit_simps bit_exp_nat)
qed

lemma buddy_aligned: "2 ^ c dvd p \<Longrightarrow> 2 ^ c dvd buddy p c"
  using buddy_up [of c p] buddy_down [of c p] by (cases "2 ^ Suc c dvd p") auto

lemma buddy_buddy: "buddy (buddy p c) c = p"
  by (simp add: buddy_def flip: xor.assoc) (simp add: xor.assoc)

text \<open>In a table whose size is a multiple of the largest block, the buddy is in the table.\<close>

lemma buddy_less:
  assumes "2 ^ m dvd N" and "c < m" and "2 ^ c dvd p" and "p < N"
  shows "buddy p c < N"
proof (cases "2 ^ Suc c dvd p")
  case True
  have "2 ^ Suc c dvd N"
    using assms(2) by (intro dvd_trans [OF le_imp_power_dvd assms(1)]) simp
  with True have "2 ^ Suc c \<le> N - p" using assms(4) by (intro dvd_imp_le dvd_diff_nat) auto
  moreover have "(2 :: nat) ^ c < 2 ^ Suc c" by simp
  ultimately have "p + 2 ^ c < N" using assms(4) by linarith
  then show ?thesis using buddy_up(1) [OF True] by simp
next
  case False
  then show ?thesis using buddy_down(2) [OF assms(3) False] assms(4) by simp
qed

section \<open>Tilings\<close>

lemma cells_head [simp]: "fst x \<in> cells x"
  by (simp add: cells_def)

lemma finite_cells [simp]: "finite (cells x)"
  by (simp add: cells_def)

lemma card_cells [simp]: "card (cells x) = 2 ^ snd x"
  by (simp add: cells_def)

lemma tiling_unique:
  "tiling N B \<Longrightarrow> x \<in> B \<Longrightarrow> y \<in> B \<Longrightarrow> i \<in> cells x \<Longrightarrow> i \<in> cells y \<Longrightarrow> x = y"
  unfolding tiling_def by blast

lemma tiling_cover: "tiling N B \<Longrightarrow> i < N \<Longrightarrow> \<exists>x \<in> B. i \<in> cells x"
  unfolding tiling_def by blast

lemma tiling_cells_less: "tiling N B \<Longrightarrow> x \<in> B \<Longrightarrow> i \<in> cells x \<Longrightarrow> i < N"
  unfolding tiling_def by blast

lemma tiling_head_less: "tiling N B \<Longrightarrow> (b, k) \<in> B \<Longrightarrow> b < N"
  using tiling_cells_less [of N B "(b, k)" b] cells_head [of "(b, k)"] by simp

lemma tiling_aligned: "tiling N B \<Longrightarrow> (b, k) \<in> B \<Longrightarrow> 2 ^ k dvd b"
  unfolding tiling_def aligned_def by fastforce

lemma tiling_end: "tiling N B \<Longrightarrow> (b, k) \<in> B \<Longrightarrow> b + 2 ^ k \<le> N"
proof -
  assume T: "tiling N B" "(b, k) \<in> B"
  have pos: "0 < (2 :: nat) ^ k" by simp
  then have "b + 2 ^ k - 1 \<in> cells (b, k)" unfolding cells_def fst_conv snd_conv atLeastLessThan_iff by linarith
  from tiling_cells_less [OF T this] pos show ?thesis by linarith
qed

text \<open>Blocks of a tiling with the same first page are equal.\<close>

lemma tiling_head_unique: "tiling N B \<Longrightarrow> (b, k) \<in> B \<Longrightarrow> (b, j) \<in> B \<Longrightarrow> k = j"
  using tiling_unique [of N B "(b, k)" "(b, j)" b] cells_head [of "(b, k)"] cells_head [of "(b, j)"]
  by simp

lemma tiling_replace:
  assumes "tiling N B" and "X \<subseteq> B" and "\<forall>y \<in> Y. aligned y"
    and "\<forall>x \<in> Y. \<forall>y \<in> Y. x \<noteq> y \<longrightarrow> cells x \<inter> cells y = {}"
    and "(\<Union>y \<in> Y. cells y) = (\<Union>x \<in> X. cells x)"
  shows "tiling N (B - X \<union> Y)"
proof -
  have out: "cells x \<inter> cells y = {}" if "x \<in> B - X" "y \<in> Y" for x y
  proof (rule equals0I)
    fix i assume i: "i \<in> cells x \<inter> cells y"
    with that(2) have "i \<in> (\<Union>x \<in> X. cells x)" unfolding assms(5) [symmetric] by blast
    then obtain z where "z \<in> X" "i \<in> cells z" by blast
    with i that(1) assms(2) tiling_unique [OF assms(1), of x z i] show False by blast
  qed
  have "(\<Union>x \<in> B - X \<union> Y. cells x) = (\<Union>x \<in> B - X \<union> X. cells x)"
    by (simp only: UN_Un assms(5))
  also have "B - X \<union> X = B" using assms(2) by blast
  also have "(\<Union>x \<in> B. cells x) = {..<N}" using assms(1) by (simp add: tiling_def)
  finally have "(\<Union>x \<in> B - X \<union> Y. cells x) = {..<N}" .
  moreover have "cells x \<inter> cells y = {}" if "x \<in> B - X \<union> Y" "y \<in> B - X \<union> Y" "x \<noteq> y" for x y
  proof (cases "x \<in> Y"; cases "y \<in> Y")
    assume "x \<notin> Y" "y \<notin> Y"
    then show ?thesis using that assms(1) unfolding tiling_def by blast
  next
    assume "x \<in> Y" "y \<notin> Y"
    then show ?thesis using that out [of y x] by (simp add: Int_commute)
  qed (use that assms(4) out in \<open>simp_all\<close>)
  moreover have "\<forall>x \<in> B - X \<union> Y. aligned x" using assms(1,3) unfolding tiling_def by blast
  ultimately show ?thesis unfolding tiling_def by blast
qed

lemma cells_div: "2 ^ k dvd b \<Longrightarrow> i \<in> cells (b, k) \<longleftrightarrow> i div 2 ^ k = b div 2 ^ k"
proof -
  assume "2 ^ k dvd b"
  then obtain m where "b = m * 2 ^ k" by (metis dvd_def mult.commute)
  then show ?thesis
    using less_eq_div_iff_mult_less_eq [of "2 ^ k" m i] div_less_iff_less_mult [of "2 ^ k" i "Suc m"]
    by (auto simp: cells_def algebra_simps)
qed

lemma buddy_div: "c < k \<Longrightarrow> buddy p c div 2 ^ k = p div 2 ^ k"
  unfolding drop_bit_eq_div [symmetric] buddy_flip
  by (rule bit_eqI) (auto simp: bit_simps)

lemma cells_halves: "cells (b, Suc k) = cells (b, k) \<union> cells (b + 2 ^ k, k)"
  by (auto simp: cells_def)

lemma cells_halves_disjoint: "cells (b, k) \<inter> cells (b + 2 ^ k, k) = {}"
  by (auto simp: cells_def)

lemma tiling_split:
  assumes "tiling N B" and "(b, Suc k) \<in> B"
  shows "tiling N (B - {(b, Suc k)} \<union> {(b, k), (b + 2 ^ k, k)})"
proof -
  have "2 ^ Suc k dvd b" using tiling_aligned [OF assms] .
  then have "2 ^ k dvd b" by (metis dvd_mult_right power_Suc)
  then show ?thesis
    using assms cells_halves_disjoint [of b k]
    by (intro tiling_replace) (auto simp: aligned_def cells_halves Int_commute)
qed

lemma tiling_merge:
  assumes "tiling N B" and "(p, c) \<in> B" and "(buddy p c, c) \<in> B"
  shows "tiling N (B - {(p, c), (buddy p c, c)} \<union> {(p AND buddy p c, Suc c)})"
proof -
  have al: "2 ^ c dvd p" using tiling_aligned [OF assms(1,2)] .
  obtain b where b: "p AND buddy p c = b" "2 ^ Suc c dvd b" "{p, buddy p c} = {b, b + 2 ^ c}"
  proof (cases "2 ^ Suc c dvd p")
    case True
    show thesis by (rule that [of p]) (use True buddy_up [OF True] in simp_all)
  next
    case False
    note d = buddy_down [OF al False]
    show thesis by (rule that [of "p - 2 ^ c"]) (use d in \<open>simp_all add: insert_commute del: power_Suc\<close>)
  qed
  have "(\<Union>x \<in> {(p, c), (buddy p c, c)}. cells x) = (\<Union>x \<in> {p, buddy p c}. cells (x, c))"
    by simp
  also have "\<dots> = cells (b, Suc c)" unfolding b(3) cells_halves by simp
  finally have "(\<Union>x \<in> {(p, c), (buddy p c, c)}. cells x) = cells (b, Suc c)" .
  then show ?thesis
    unfolding b(1) using assms b(2)
    by (intro tiling_replace [OF assms(1)]) (auto simp: aligned_def simp del: power_Suc)
qed

text \<open>
  The page at the buddy position of a block heads a block that is not larger: the aligned blocks
  that contain it and are larger contain the block itself.
\<close>

lemma tiling_buddy_head:
  assumes "tiling N B" and "(p, c) \<in> B" and "buddy p c < N"
  obtains k where "(buddy p c, k) \<in> B" and "k \<le> c"
proof -
  obtain b k where x: "(b, k) \<in> B" "buddy p c \<in> cells (b, k)"
    using tiling_cover [OF assms(1,3)] by auto
  have al: "2 ^ c dvd p" and alb: "2 ^ k dvd b"
    using tiling_aligned assms(1,2) x(1) by auto
  have "k \<le> c"
  proof (rule ccontr)
    assume "\<not> k \<le> c"
    then have "p \<in> cells (b, k)" using x(2) by (simp add: cells_div [OF alb] buddy_div)
    then have "(b, k) = (p, c)"
      using tiling_unique [OF assms(1) x(1) assms(2)] cells_head [of "(p, c)"] by simp
    with \<open>\<not> k \<le> c\<close> show False by simp
  qed
  moreover have "2 ^ k dvd buddy p c"
    using le_imp_power_dvd [OF \<open>k \<le> c\<close>] buddy_aligned [OF al] by (rule dvd_trans)
  then have "buddy p c = buddy p c div 2 ^ k * 2 ^ k" by simp
  then have "buddy p c = b" using x(2) alb by (simp add: cells_div [OF alb])
  ultimately show thesis using that x(1) by blast
qed

section \<open>Counting\<close>

definition pages_of :: "block set \<Rightarrow> nat" where
  "pages_of B = (\<Sum>x \<in> B. 2 ^ snd x)"

lemma tiling_finite: "tiling N B \<Longrightarrow> finite B"
proof -
  assume T: "tiling N B"
  have "inj_on fst B" using tiling_head_unique [OF T] by (auto intro!: inj_onI)
  moreover have "fst ` B \<subseteq> {..<N}" using tiling_head_less [OF T] by auto
  ultimately show ?thesis using finite_subset finite_imageD by blast
qed

lemma tiling_pages: "tiling N B \<Longrightarrow> pages_of B = N"
proof -
  assume T: "tiling N B"
  have "card (\<Union>x \<in> B. cells x) = (\<Sum>x \<in> B. card (cells x))"
    using T tiling_finite [OF T] by (intro card_UN_disjoint) (auto simp: tiling_def)
  then show ?thesis using T by (simp add: pages_of_def tiling_def)
qed

lemma pages_of_insert: "finite B \<Longrightarrow> (b, k) \<notin> B \<Longrightarrow> pages_of (insert (b, k) B) = 2 ^ k + pages_of B"
  by (simp add: pages_of_def)

lemma pages_of_remove: "finite B \<Longrightarrow> (b, k) \<in> B \<Longrightarrow> pages_of B = 2 ^ k + pages_of (B - {(b, k)})"
  by (simp add: pages_of_def sum.remove)

lemma pages_of_union:
  "finite A \<Longrightarrow> finite B \<Longrightarrow> A \<inter> B = {} \<Longrightarrow> pages_of (A \<union> B) = pages_of A + pages_of B"
  by (simp add: pages_of_def sum.union_disjoint)

section \<open>Merged tilings are unique\<close>

text \<open>Aligned blocks are nested or disjoint.\<close>

lemma aligned_nested:
  assumes "2 ^ k dvd b" and "2 ^ j dvd a" and "i \<in> cells (b, k)" and "i \<in> cells (a, j)" and "j \<le> k"
  shows "cells (a, j) \<subseteq> cells (b, k)"
proof
  fix x assume "x \<in> cells (a, j)"
  then have "x div 2 ^ j = i div 2 ^ j" using assms(2,4) by (simp add: cells_div)
  moreover have "y div 2 ^ k = y div 2 ^ j div 2 ^ (k - j)" for y :: nat
    using assms(5) by (simp add: div_mult2_eq [symmetric] power_add [symmetric])
  ultimately have "x div 2 ^ k = i div 2 ^ k" by metis
  then show "x \<in> cells (b, k)" using assms(1,3) by (simp add: cells_div)
qed

text \<open>
  A block of one tiling that properly contains a free block of another tiling with the same used
  blocks forces two free buddies in the latter: look at a smallest free block inside it.
\<close>

lemma smaller_blocks_not_merged:
  assumes T: "tiling N (F \<union> A)" and T': "tiling N (F' \<union> A)" and dis: "F' \<inter> A = {}"
    and big: "(b, k) \<in> F'" and small: "(a, j) \<in> F" "j < k" "a \<in> cells (b, k)"
  shows "\<exists>p c. (p, c) \<in> F \<and> c < k \<and> (buddy p c, c) \<in> F"
proof -
  let ?in = "\<lambda>x. x \<in> F \<and> fst x \<in> cells (b, k) \<and> snd x < k"
  obtain x where x: "?in x" and least: "\<And>y. ?in y \<Longrightarrow> snd x \<le> snd y"
    using ex_has_least_nat [of ?in "(a, j)" snd] small by (metis fst_conv snd_conv)
  obtain p c where pc: "x = (p, c)" by force
  have alb: "2 ^ k dvd b" using tiling_aligned [OF T'] big by blast
  have c: "(p, c) \<in> F \<union> A" "c < k" "p \<in> cells (b, k)" using x pc by auto
  let ?q = "buddy p c"
  have q: "?q \<in> cells (b, k)" using c(2,3) by (simp add: cells_div [OF alb] buddy_div)
  then have "?q < N" using tiling_cells_less [OF T'] big by blast
  then obtain i where i: "(?q, i) \<in> F \<union> A" "i \<le> c" using tiling_buddy_head [OF T c(1)] by blast
  have "(?q, i) \<notin> A"
  proof
    assume "(?q, i) \<in> A"
    then have "(?q, i) = (b, k)"
      using tiling_unique [OF T' _ _ _ q, of "(?q, i)"] big cells_head [of "(?q, i)"] by simp
    with \<open>(?q, i) \<in> A\<close> big dis show False by blast
  qed
  with i have "(?q, i) \<in> F" by blast
  moreover have "c \<le> i" using least [of "(?q, i)"] calculation q i(2) c(2) pc by simp
  ultimately show ?thesis using i(2) x pc c(2) by (metis le_antisym)
qed

lemma merged_tiling_subset:
  assumes T: "tiling N (F \<union> A)" and T': "tiling N (F' \<union> A)" and dis: "F \<inter> A = {}" "F' \<inter> A = {}"
    and max: "\<And>b k. (b, k) \<in> F \<union> F' \<Longrightarrow> k \<le> m"
    and co: "\<And>p c. (p, c) \<in> F \<Longrightarrow> c < m \<Longrightarrow> (buddy p c, c) \<notin> F"
    and co': "\<And>p c. (p, c) \<in> F' \<Longrightarrow> c < m \<Longrightarrow> (buddy p c, c) \<notin> F'"
  shows "F \<subseteq> F'"
proof
  fix x assume "x \<in> F"
  then obtain a j where aj: "x = (a, j)" "(a, j) \<in> F" by (cases x) auto
  then have "a < N" using tiling_head_less [OF T] by blast
  then obtain b k where bk: "(b, k) \<in> F' \<union> A" "a \<in> cells (b, k)"
    using tiling_cover [OF T' \<open>a < N\<close>] by (metis prod.exhaust)
  have "(b, k) \<notin> A"
    using tiling_unique [OF T, of "(a, j)" "(b, k)" a] aj(2) bk(2) dis(1) cells_head [of "(a, j)"] by auto
  then have F': "(b, k) \<in> F'" using bk(1) by blast
  have al: "2 ^ k dvd b" "2 ^ j dvd a" using tiling_aligned [OF T'] tiling_aligned [OF T] bk(1) aj(2) by blast+
  consider "j < k" | "k < j" | "j = k" by linarith
  then show "x \<in> F'"
  proof cases
    case 1
    then obtain p c where "(p, c) \<in> F" "c < k" "(buddy p c, c) \<in> F"
      using smaller_blocks_not_merged [OF T T' dis(2) F' aj(2) 1 bk(2)] by blast
    moreover have "k \<le> m" using max F' by blast
    ultimately show ?thesis using co [of p c] by simp
  next
    case 2
    have "b \<in> cells (a, j)"
      using aligned_nested [OF al(2,1) _ bk(2)] 2 cells_head [of "(a, j)"] cells_head [of "(b, k)"] by auto
    then obtain p c where "(p, c) \<in> F'" "c < j" "(buddy p c, c) \<in> F'"
      using smaller_blocks_not_merged [OF T' T dis(1) aj(2) F' 2] by blast
    moreover have "j \<le> m" using max aj(2) by blast
    ultimately show ?thesis using co' [of p c] by simp
  next
    case 3
    then have "a = b" using bk(2) al by (metis cells_div dvd_div_eq_iff)
    with 3 F' aj show ?thesis by simp
  qed
qed

end
