(* ===== verification/Mm_Page.thy ===== *)
theory Mm_Page
  imports Kern_Atomic Kern_WaitQueue
begin

text \<open>
  Page descriptors: \<^verbatim>\<open>src/kernel/mm/page.h\<close> and \<^verbatim>\<open>page.c\<close>. One record per descriptor; the
  flag, cluster and order fields keep their bit-field widths. \<^verbatim>\<open>assert\<close> only prints and
  continues, so the transitions are total; the asserted source states are the predicate
  \<open>page_state_ok\<close>. The spin lock of a descriptor makes \<^verbatim>\<open>page_lock\<close> and \<^verbatim>\<open>page_unlock\<close>
  atomic, and a thread that has to sleep is left in the wait queue with the answer \<open>False\<close>.

  The lemmas show that the page lock is an instance of the blocking-lock contract, that a page
  is on the list of dirty pages exactly when its dirty flag is set, and that the write-back loop
  empties that list.
\<close>

section \<open>Model\<close>

type_synonym page_flags = "12 word"

definition PG_INIT :: page_flags where "PG_INIT = 0x001"
definition PG_INLOAD :: page_flags where "PG_INLOAD = 0x008"
definition PG_BUFFER :: page_flags where "PG_BUFFER = 0x020"
definition PG_DIRTY :: page_flags where "PG_DIRTY = 0x080"
definition PG_LOCKED :: page_flags where "PG_LOCKED = 0x100"
definition PG_MIGRATE :: page_flags where "PG_MIGRATE = 0x400"

datatype page_state = PGINIT | PGRESERVED | PGFREE | PGINVALID | PGVALID | PGLOCKEDIO | PGLOCKED

text \<open>
  \<^verbatim>\<open>index\<close> and \<^verbatim>\<open>shared\<close> share a word, as do \<^verbatim>\<open>private\<close> and the other attached objects. The two
  list entries of a descriptor are represented by its membership in the lists that own them.
\<close>

record page_s =
  pstate :: page_state
  pflags :: page_flags
  pcid :: "12 word"
  porder :: "4 word"
  wait_queue :: wait_queue_s
  pindex :: u32
  pmapper :: "nat option"
  pprivate :: u32
  pcount :: refcount_t

definition PAGE_SET :: "page_s \<Rightarrow> page_flags \<Rightarrow> page_s" where
  "PAGE_SET p flag = p\<lparr>pflags := pflags p OR flag\<rparr>"

definition PAGE_CLEAR :: "page_s \<Rightarrow> page_flags \<Rightarrow> page_s" where
  "PAGE_CLEAR p flag = p\<lparr>pflags := pflags p AND NOT flag\<rparr>"

definition PAGE_IS :: "page_s \<Rightarrow> page_flags \<Rightarrow> bool" where
  "PAGE_IS p flag \<longleftrightarrow> pflags p AND flag \<noteq> 0"

definition page_init :: "u32 \<Rightarrow> page_s" where
  "page_init cid =
     \<lparr>pstate = PGINIT, pflags = 0, pcid = ucast cid, porder = 0,
      wait_queue = wait_queue_init ''Page'', pindex = 0, pmapper = None, pprivate = 0,
      pcount = refcount_init\<rparr>"

definition page_refcount_up :: "page_s \<Rightarrow> u32 \<times> page_s" where
  "page_refcount_up p = (let (old, c) = refcount_up (pcount p) in (old, p\<lparr>pcount := c\<rparr>))"

definition page_refcount_down :: "page_s \<Rightarrow> u32 \<times> page_s" where
  "page_refcount_down p = (let (old, c) = refcount_down (pcount p) in (old, p\<lparr>pcount := c\<rparr>))"

definition page_shared_init :: "page_s \<Rightarrow> page_s" where
  "page_shared_init p = p\<lparr>pindex := 1\<rparr>"

definition page_shared_up :: "page_s \<Rightarrow> u32 \<times> page_s" where
  "page_shared_up p = (pindex p, p\<lparr>pindex := pindex p + 1\<rparr>)"

definition page_shared_down :: "page_s \<Rightarrow> u32 \<times> page_s" where
  "page_shared_down p = (pindex p, p\<lparr>pindex := pindex p - 1\<rparr>)"

definition page_lock :: "tid \<Rightarrow> page_s \<Rightarrow> bool \<times> page_s" where
  "page_lock this p =
     (if PAGE_IS p PG_LOCKED
      then (False, p\<lparr>wait_queue := wait_on this (wait_queue p) WAIT_LAST\<rparr>)
      else (True, PAGE_SET p PG_LOCKED))"

definition page_unlock :: "page_s \<Rightarrow> tid option \<times> page_s" where
  "page_unlock p =
     (if \<not> wait_queue_isEmpty (wait_queue p)
      then let (woken, q) = wakeup_one (wait_queue p) WAIT_FIRST in (woken, p\<lparr>wait_queue := q\<rparr>)
      else (None, PAGE_CLEAR p PG_LOCKED))"

subsection \<open>State transitions\<close>

text \<open>
  A transition returns whether the calling thread goes on (\<open>False\<close>: it sleeps in the wait queue
  of the page, and \<open>page_resume\<close> is the rest of the function once it has been given the lock),
  the thread it wakes, and the descriptor.
\<close>

type_synonym page_result = "bool \<times> tid option \<times> page_s"

definition page_to_free :: "page_s \<Rightarrow> page_result" where
  "page_to_free p = (True, None, p\<lparr>pstate := PGFREE\<rparr>)"

definition page_to_invalid :: "page_s \<Rightarrow> page_result" where
  "page_to_invalid p =
     (if pstate p = PGLOCKEDIO then (True, page_unlock (p\<lparr>pstate := PGINVALID\<rparr>))
      else (True, None, p\<lparr>pstate := PGINVALID\<rparr>))"

definition page_to_valid :: "page_s \<Rightarrow> page_result" where
  "page_to_valid p =
     (if pstate p = PGINVALID then (True, None, p\<lparr>pstate := PGVALID\<rparr>)
      else (True, page_unlock (p\<lparr>pstate := PGVALID\<rparr>)))"

definition page_resume :: "page_s \<Rightarrow> page_state \<Rightarrow> page_s" where
  "page_resume p st = p\<lparr>pstate := st\<rparr>"

definition page_to_locked_io :: "tid \<Rightarrow> page_s \<Rightarrow> page_result" where
  "page_to_locked_io this p =
     (let (got, p') = page_lock this p
      in (got, None, if got then page_resume p' PGLOCKEDIO else p'))"

definition page_to_locked :: "tid \<Rightarrow> page_s \<Rightarrow> page_result" where
  "page_to_locked this p =
     (let (got, p') = page_lock this p
      in (got, None, if got then page_resume p' PGLOCKED else p'))"

fun page_state_set :: "tid \<Rightarrow> page_s \<Rightarrow> page_state \<Rightarrow> page_result" where
  "page_state_set this p PGFREE = page_to_free p"
| "page_state_set this p PGINVALID = page_to_invalid p"
| "page_state_set this p PGVALID = page_to_valid p"
| "page_state_set this p PGLOCKEDIO = page_to_locked_io this p"
| "page_state_set this p PGLOCKED = page_to_locked this p"
| "page_state_set this p PGRESERVED =
     (True, None, p\<lparr>pcount := snd (refcount_set (pcount p) 1), pstate := PGRESERVED\<rparr>)"
| "page_state_set this p PGINIT = (True, None, p\<lparr>pstate := PGINIT\<rparr>)"

text \<open>The states from which each transition is asserted to start.\<close>

fun page_state_ok :: "page_state \<Rightarrow> page_state \<Rightarrow> bool" where
  "page_state_ok s PGFREE \<longleftrightarrow> s \<in> {PGINVALID, PGVALID, PGINIT}"
| "page_state_ok s PGINVALID \<longleftrightarrow> s \<in> {PGFREE, PGVALID, PGLOCKEDIO}"
| "page_state_ok s PGVALID \<longleftrightarrow> s \<in> {PGINVALID, PGLOCKED, PGLOCKEDIO}"
| "page_state_ok s PGLOCKEDIO \<longleftrightarrow> s \<in> {PGINVALID, PGVALID}"
| "page_state_ok s PGLOCKED \<longleftrightarrow> s = PGVALID"
| "page_state_ok s PGRESERVED \<longleftrightarrow> True"
| "page_state_ok s PGINIT \<longleftrightarrow> True"

subsection \<open>Dirty pages\<close>

text \<open>All the descriptors of the system and the global list \<^verbatim>\<open>dirty_pages\<close>.\<close>

record page_world =
  pg :: "nat \<Rightarrow> page_s"
  dirty_root :: "nat list"

definition dirty_pages_init :: "page_world \<Rightarrow> page_world" where
  "dirty_pages_init w = w\<lparr>dirty_root := []\<rparr>"

definition page_set_dirty :: "page_world \<Rightarrow> nat \<Rightarrow> bool \<times> page_world" where
  "page_set_dirty w p =
     (if \<not> PAGE_IS (pg w p) PG_DIRTY
      then (True, w\<lparr>pg := (pg w)(p := PAGE_SET (pg w p) PG_DIRTY), dirty_root := p # dirty_root w\<rparr>)
      else (False, w))"

definition page_clear_dirty :: "page_world \<Rightarrow> nat \<Rightarrow> bool \<times> page_world" where
  "page_clear_dirty w p =
     (if PAGE_IS (pg w p) PG_DIRTY
      then (True, w\<lparr>pg := (pg w)(p := PAGE_CLEAR (pg w p) PG_DIRTY),
                    dirty_root := remove1 p (dirty_root w)\<rparr>)
      else (False, w))"

text \<open>
  \<^verbatim>\<open>mapper_default_sync_page\<close> (\<^verbatim>\<open>mapper.c\<close>), the \<^verbatim>\<open>sync_page\<close> of every mapper of the kernel: it
  writes the page back through the file system (\<open>writepage\<close>, the error it reports) and clears
  the dirty flag only when the write succeeded. The radix-tree tag is not modelled here.
\<close>

definition mapper_default_sync_page ::
  "(nat \<Rightarrow> error_t) \<Rightarrow> page_world \<Rightarrow> nat \<Rightarrow> error_t \<times> page_world" where
  "mapper_default_sync_page writepage w p =
     (if PAGE_IS (pg w p) PG_DIRTY
      then (let err = writepage p
            in if err \<noteq> OK then (err, w) else (OK, snd (page_clear_dirty w p)))
      else (OK, w))"

text \<open>
  The loop of \<^verbatim>\<open>sync_all_pages\<close>, with fuel: \<open>None\<close> when the thread goes to sleep on a locked page
  or when the fuel is exhausted.
\<close>

fun sync_all_pages :: "nat \<Rightarrow> tid \<Rightarrow> (nat \<Rightarrow> error_t) \<Rightarrow> page_world \<Rightarrow> page_world option" where
  "sync_all_pages 0 this writepage w = None"
| "sync_all_pages (Suc fuel) this writepage w =
     (case dirty_root w of [] \<Rightarrow> Some w
      | p # _ \<Rightarrow>
          (case page_lock this (pg w p) of (False, _) \<Rightarrow> None
           | (True, p1) \<Rightarrow>
               (let w1 = snd (mapper_default_sync_page writepage (w\<lparr>pg := (pg w)(p := p1)\<rparr>) p);
                    p2 = snd (page_unlock (pg w1 p))
                in sync_all_pages fuel this writepage (w1\<lparr>pg := (pg w1)(p := p2)\<rparr>))))"

lemmas page_flag_defs = PAGE_SET_def PAGE_CLEAR_def PAGE_IS_def PG_DIRTY_def PG_LOCKED_def

lemmas page_ops_defs =
  page_lock_def page_unlock_def page_to_free_def page_to_invalid_def page_to_valid_def
  page_to_locked_io_def page_to_locked_def page_resume_def

section \<open>The page lock\<close>

text \<open>A flag is one bit of the flag word; setting or clearing it leaves the other flags.\<close>

lemma flag_bits:
  "v AND 2 ^ k \<noteq> 0 \<longleftrightarrow> bit v k"
  "n < 12 \<Longrightarrow> bit (v OR 2 ^ k) n \<longleftrightarrow> bit v n \<or> n = k"
  "n < 12 \<Longrightarrow> bit (v AND NOT (2 ^ k)) n \<longleftrightarrow> bit v n \<and> n \<noteq> k"
  for v :: page_flags
  by (auto simp: and_exp_eq_0_iff_not_bit bit_simps)

lemma PAGE_IS_bit: "PAGE_IS p PG_LOCKED \<longleftrightarrow> bit (pflags p) 8" "PAGE_IS p PG_DIRTY \<longleftrightarrow> bit (pflags p) 7"
  using flag_bits(1) [of "pflags p" 8] flag_bits(1) [of "pflags p" 7]
  by (simp_all add: page_flag_defs)

lemma bit_PAGE_SET:
  "n < 12 \<Longrightarrow> bit (pflags (PAGE_SET p PG_LOCKED)) n \<longleftrightarrow> bit (pflags p) n \<or> n = 8"
  "n < 12 \<Longrightarrow> bit (pflags (PAGE_SET p PG_DIRTY)) n \<longleftrightarrow> bit (pflags p) n \<or> n = 7"
  using flag_bits(2) [of n "pflags p" 8] flag_bits(2) [of n "pflags p" 7]
  by (simp_all add: page_flag_defs)

lemma bit_PAGE_CLEAR:
  "n < 12 \<Longrightarrow> bit (pflags (PAGE_CLEAR p PG_LOCKED)) n \<longleftrightarrow> bit (pflags p) n \<and> n \<noteq> 8"
  "n < 12 \<Longrightarrow> bit (pflags (PAGE_CLEAR p PG_DIRTY)) n \<longleftrightarrow> bit (pflags p) n \<and> n \<noteq> 7"
  using flag_bits(3) [of n "pflags p" 8] flag_bits(3) [of n "pflags p" 7]
  by (simp_all add: page_flag_defs)

lemmas page_bits = PAGE_IS_bit bit_PAGE_SET bit_PAGE_CLEAR

lemma PAGE_SET_frame [simp]:
  "wait_queue (PAGE_SET p f) = wait_queue p" "pstate (PAGE_SET p f) = pstate p"
  by (simp_all add: PAGE_SET_def)

lemma PAGE_CLEAR_frame [simp]:
  "wait_queue (PAGE_CLEAR p f) = wait_queue p" "pstate (PAGE_CLEAR p f) = pstate p"
  by (simp_all add: PAGE_CLEAR_def)

abbreviation page_waiting :: "page_s \<Rightarrow> tid list" where
  "page_waiting p \<equiv> wq_root (wait_queue p)"

definition page_unlocked :: "page_s \<Rightarrow> bool" where
  "page_unlocked p \<longleftrightarrow> \<not> PAGE_IS p PG_LOCKED \<and> page_waiting p = []"

text \<open>The lock records no owner, so any thread may be the one that has it.\<close>

interpretation pgl: blocking_lock page_lock "\<lambda>t p. page_unlock p" page_waiting page_unlocked
  "\<lambda>p t. PAGE_IS p PG_LOCKED"
  by unfold_locales
    (auto simp: page_lock_def page_unlock_def page_unlocked_def wait_queue_isEmpty_def page_bits
      split: if_splits)

abbreviation page_run :: "page_s lock_run \<Rightarrow> page_s lock_run \<Rightarrow> bool" where
  "page_run \<equiv> lock_step page_lock (\<lambda>t p. page_unlock p) page_waiting"

text \<open>
  C31: Page locking is mutual exclusion with first-come first-served hand-off: from an unlocked
  page, after any number of \<^verbatim>\<open>page_lock\<close> and \<^verbatim>\<open>page_unlock\<close> calls by any threads, at most one
  thread holds the page, the page was granted in the order in which it was asked for (the
  threads still queued are exactly the requests not granted yet), and threads are queued only
  while some thread holds the page.
\<close>

theorem page_lock_fair:
  assumes "page_unlocked p" and "page_run\<^sup>*\<^sup>* (run_of p) r"
  shows "(\<forall>t u. t \<in> owners r \<longrightarrow> u \<in> owners r \<longrightarrow> t = u)
    \<and> requests r = grants r @ page_waiting (lk r)
    \<and> (page_waiting (lk r) \<noteq> [] \<longrightarrow> owners r \<noteq> {})"
  using pgl.mutual_exclusion [OF assms] pgl.grants_in_order [OF assms] pgl.no_lost_wakeup [OF assms]
  by blast

lemma page_run_enter:
  "t \<notin> owners r \<Longrightarrow> t \<notin> set (page_waiting (lk r)) \<Longrightarrow> \<not> PAGE_IS (lk r) PG_LOCKED \<Longrightarrow>
   page_run r \<lparr>lk = PAGE_SET (lk r) PG_LOCKED, owners = insert t (owners r),
     requests = requests r @ [t], grants = grants r @ [t]\<rparr>"
  by (rule lock_step.enter) (simp_all add: page_lock_def)

theorem page_lock_fair_witness:
  "\<exists>r. page_unlocked (page_init 0) \<and> page_run\<^sup>*\<^sup>* (run_of (page_init 0)) r \<and> owners r = {7}
     \<and> requests r = grants r @ page_waiting (lk r)"
proof -
  define r where "r = \<lparr>lk = PAGE_SET (page_init 0) PG_LOCKED, owners = {7 :: tid},
    requests = [7], grants = [7]\<rparr>"
  have un: "page_unlocked (page_init 0)"
    by (simp add: page_unlocked_def page_init_def page_flag_defs wait_queue_init_def)
  have "page_run (run_of (page_init 0)) r"
    using page_run_enter [of 7 "run_of (page_init 0)"] un
    by (simp add: run_of_def r_def page_unlocked_def)
  then have run: "page_run\<^sup>*\<^sup>* (run_of (page_init 0)) r" by blast
  show ?thesis using page_lock_fair [OF un run] un run by (auto simp: r_def)
qed

section \<open>State transitions\<close>

text \<open>
  A page transition that completes leaves the page in the requested state, and the locking
  transitions and the transitions out of the locked states keep the page lock in step: a page
  that reached a locked state through \<^verbatim>\<open>page_state_set\<close> has its lock flag set, and leaving the
  locked state either clears it or hands the page to the first waiting thread.
\<close>

theorem page_state_set_result:
  assumes "page_state_set t p st = (True, w, p')"
  shows "pstate p' = st
    \<and> (st \<in> {PGLOCKED, PGLOCKEDIO} \<longrightarrow> \<not> PAGE_IS p PG_LOCKED \<and> PAGE_IS p' PG_LOCKED \<and> w = None)
    \<and> (st = PGVALID \<and> pstate p \<in> {PGLOCKED, PGLOCKEDIO} \<or> st = PGINVALID \<and> pstate p = PGLOCKEDIO
       \<longrightarrow> (page_waiting p = [] \<longrightarrow> w = None \<and> \<not> PAGE_IS p' PG_LOCKED)
         \<and> (\<forall>u us. page_waiting p = u # us \<longrightarrow>
              w = Some u \<and> page_waiting p' = us \<and> (PAGE_IS p' PG_LOCKED \<longleftrightarrow> PAGE_IS p PG_LOCKED)))"
  using assms
  by (cases st; cases "page_waiting p")
    (auto simp: page_ops_defs wait_queue_isEmpty_def page_bits split: if_splits)

theorem page_state_set_result_witness:
  "let p = (page_init 0)\<lparr>pstate := PGVALID\<rparr>; r = page_state_set 3 p PGLOCKED
   in fst r \<and> pstate (snd (snd r)) = PGLOCKED \<and> PAGE_IS (snd (snd r)) PG_LOCKED"
  using page_state_set_result [of 3 "(page_init 0)\<lparr>pstate := PGVALID\<rparr>" PGLOCKED None
      "PAGE_SET ((page_init 0)\<lparr>pstate := PGLOCKED\<rparr>) PG_LOCKED"]
  by (simp add: page_ops_defs page_init_def page_flag_defs Let_def)

section \<open>The list of dirty pages\<close>

definition dirty_inv :: "page_world \<Rightarrow> bool" where
  "dirty_inv w \<longleftrightarrow> distinct (dirty_root w) \<and> (\<forall>p. p \<in> set (dirty_root w) \<longleftrightarrow> PAGE_IS (pg w p) PG_DIRTY)"

lemma dirty_inv_set: "dirty_inv w \<Longrightarrow> dirty_inv (snd (page_set_dirty w p))"
  by (auto simp: dirty_inv_def page_set_dirty_def page_bits)

lemma dirty_inv_clear: "dirty_inv w \<Longrightarrow> dirty_inv (snd (page_clear_dirty w p))"
  by (auto simp: dirty_inv_def page_clear_dirty_def page_bits)

lemma page_set_dirty_result:
  "fst (page_set_dirty w p) \<longleftrightarrow> \<not> PAGE_IS (pg w p) PG_DIRTY"
  "PAGE_IS (pg (snd (page_set_dirty w p)) p) PG_DIRTY"
  "q \<noteq> p \<Longrightarrow> pg (snd (page_set_dirty w p)) q = pg w q"
  by (auto simp: page_set_dirty_def page_bits)

lemma page_clear_dirty_result:
  "fst (page_clear_dirty w p) \<longleftrightarrow> PAGE_IS (pg w p) PG_DIRTY"
  "\<not> PAGE_IS (pg (snd (page_clear_dirty w p)) p) PG_DIRTY"
  "q \<noteq> p \<Longrightarrow> pg (snd (page_clear_dirty w p)) q = pg w q"
  by (auto simp: page_clear_dirty_def page_bits)

fun dirty_calls :: "page_world \<Rightarrow> (bool \<times> nat) list \<Rightarrow> page_world" where
  "dirty_calls w [] = w"
| "dirty_calls w ((b, p) # cs) =
     dirty_calls (snd (if b then page_set_dirty w p else page_clear_dirty w p)) cs"

lemma dirty_inv_calls: "dirty_inv w \<Longrightarrow> dirty_inv (dirty_calls w cs)"
  by (induction w cs rule: dirty_calls.induct) (simp_all add: dirty_inv_set dirty_inv_clear)

text \<open>
  The dirty list is exact. From an empty list and clean pages, over any sequence of
  \<^verbatim>\<open>page_set_dirty\<close> (\<open>True\<close>) and \<^verbatim>\<open>page_clear_dirty\<close> (\<open>False\<close>) calls on any pages, a page is
  linked on the list of dirty pages exactly when its dirty flag is set, and never twice.
\<close>

theorem dirty_list_exact:
  assumes "\<And>p. \<not> PAGE_IS (pg w p) PG_DIRTY" and "w' = dirty_calls (dirty_pages_init w) cs"
  shows "distinct (dirty_root w') \<and> (\<forall>p. p \<in> set (dirty_root w') \<longleftrightarrow> PAGE_IS (pg w' p) PG_DIRTY)"
proof -
  have "dirty_inv (dirty_pages_init w)"
    using assms(1) by (simp add: dirty_inv_def dirty_pages_init_def)
  from dirty_inv_calls [OF this, of cs] show ?thesis
    by (simp add: assms(2) dirty_inv_def)
qed

theorem dirty_list_exact_witness:
  "let w = \<lparr>pg = \<lambda>_. page_init 0, dirty_root = [9]\<rparr>;
       w' = dirty_calls (dirty_pages_init w) [(True, 4), (True, 5), (True, 4), (False, 5)]
   in dirty_root w' = [4] \<and> PAGE_IS (pg w' 4) PG_DIRTY \<and> \<not> PAGE_IS (pg w' 5) PG_DIRTY"
proof -
  define w where "w = \<lparr>pg = \<lambda>_. page_init 0, dirty_root = [9]\<rparr>"
  define w' where "w' = dirty_calls (dirty_pages_init w) [(True, 4), (True, 5), (True, 4), (False, 5)]"
  have root: "dirty_root w' = [4]"
    by (simp add: w'_def w_def page_init_def page_flag_defs page_set_dirty_def page_clear_dirty_def
        dirty_pages_init_def)
  have "\<not> PAGE_IS (pg w p) PG_DIRTY" for p
    by (simp add: w_def page_init_def page_flag_defs)
  from dirty_list_exact [OF this w'_def]
  have "PAGE_IS (pg w' p) PG_DIRTY \<longleftrightarrow> p \<in> set (dirty_root w')" for p by blast
  then have "PAGE_IS (pg w' 4) PG_DIRTY \<and> \<not> PAGE_IS (pg w' 5) PG_DIRTY" by (simp add: root)
  with root show ?thesis unfolding w'_def w_def Let_def by blast
qed

text \<open>One iteration of the write-back loop whose write succeeds removes the first dirty page.\<close>

lemma sync_iteration:
  assumes "dirty_root w = p # ps" and "dirty_inv w" and "page_unlocked (pg w p)"
    and "writepage p = OK"
  shows "\<exists>q. sync_all_pages (Suc fuel) t writepage w =
      sync_all_pages fuel t writepage (w\<lparr>dirty_root := ps, pg := (pg w)(p := q)\<rparr>)
    \<and> \<not> PAGE_IS q PG_DIRTY"
proof -
  have "PAGE_IS (pg w p) PG_DIRTY" using assms(1,2) by (auto simp: dirty_inv_def)
  then show ?thesis
    using assms
    by (intro exI [of _ "PAGE_CLEAR (PAGE_CLEAR (PAGE_SET (pg w p) PG_LOCKED) PG_DIRTY) PG_LOCKED"])
      (auto simp: page_lock_def page_unlock_def page_unlocked_def mapper_default_sync_page_def
        page_clear_dirty_def wait_queue_isEmpty_def page_bits)
qed

lemma sync_all_pages_run:
  assumes "dirty_inv w" and "\<And>p. p \<in> set (dirty_root w) \<Longrightarrow> page_unlocked (pg w p) \<and> writepage p = OK"
  shows "\<exists>w'. sync_all_pages (Suc (length (dirty_root w))) t writepage w = Some w'
    \<and> dirty_root w' = [] \<and> dirty_inv w'"
  using assms
proof (induction "dirty_root w" arbitrary: w)
  case (Cons p ps)
  note eq = Cons.hyps(2) [symmetric]
  obtain q where q: "sync_all_pages (Suc (length (dirty_root w))) t writepage w =
      sync_all_pages (length (dirty_root w)) t writepage (w\<lparr>dirty_root := ps, pg := (pg w)(p := q)\<rparr>)"
    and clean: "\<not> PAGE_IS q PG_DIRTY"
    using sync_iteration [OF eq Cons.prems(1)] Cons.prems(2) [of p] eq by (metis list.set_intros(1))
  let ?w = "w\<lparr>dirty_root := ps, pg := (pg w)(p := q)\<rparr>"
  have "dirty_inv ?w" using Cons.prems(1) eq clean by (auto simp: dirty_inv_def)
  moreover have "page_unlocked (pg ?w r) \<and> writepage r = OK" if "r \<in> set (dirty_root ?w)" for r
    using that Cons.prems eq by (auto simp: dirty_inv_def)
  ultimately show ?case
    unfolding q using Cons.hyps(1) [of ?w] eq by (simp del: sync_all_pages.simps)
qed auto

text \<open>
  The write-back loop finishes and leaves no dirty page: when no dirty page is locked and
  the file system writes every dirty page without error, one iteration per dirty page is enough,
  the list of dirty pages is empty at the end and no page has its dirty flag set.
\<close>

theorem sync_all_pages_terminates:
  assumes "dirty_inv w" and "\<forall>p \<in> set (dirty_root w). page_unlocked (pg w p) \<and> writepage p = OK"
  shows "\<exists>w'. sync_all_pages (Suc (length (dirty_root w))) t writepage w = Some w'
    \<and> dirty_root w' = [] \<and> (\<forall>p. \<not> PAGE_IS (pg w' p) PG_DIRTY)"
  using sync_all_pages_run [of w writepage t] assms by (fastforce simp: dirty_inv_def)

theorem sync_all_pages_terminates_witness:
  "let w = dirty_calls \<lparr>pg = \<lambda>_. page_init 0, dirty_root = []\<rparr> [(True, 4), (True, 5)]
   in \<exists>w'. sync_all_pages (Suc 2) 1 (\<lambda>_. OK) w = Some w' \<and> dirty_root w' = []"
proof -
  define w0 where "w0 = \<lparr>pg = \<lambda>_. page_init 0, dirty_root = []\<rparr>"
  define w where "w = dirty_calls w0 [(True, 4), (True, 5)]"
  have root: "dirty_root w = [5, 4]"
    by (simp add: w_def w0_def page_init_def page_flag_defs page_set_dirty_def)
  have "dirty_inv w0" by (simp add: w0_def dirty_inv_def page_init_def page_flag_defs)
  then have inv: "dirty_inv w" unfolding w_def by (rule dirty_inv_calls)
  have "\<forall>p \<in> set (dirty_root w). page_unlocked (pg w p) \<and> (\<lambda>_. OK) p = OK"
    unfolding root
    by (simp add: w_def w0_def page_init_def page_flag_defs page_set_dirty_def page_unlocked_def
        wait_queue_init_def)
  from sync_all_pages_terminates [OF inv this, of 1] show ?thesis
    unfolding Let_def w_def [symmetric] w0_def [symmetric] root
    by (auto simp: numeral_2_eq_2 simp del: sync_all_pages.simps)
qed

text \<open>
  A page that cannot be written back stops the write-back for good: when the write of the
  first dirty page fails, no number of iterations lets \<^verbatim>\<open>sync_all_pages\<close> return.
\<close>

theorem sync_all_pages_livelock:
  assumes "dirty_root w = p # ps" and "PAGE_IS (pg w p) PG_DIRTY" and "page_unlocked (pg w p)"
    and "writepage p \<noteq> OK"
  shows "sync_all_pages fuel t writepage w = None"
  using assms
proof (induction fuel arbitrary: w)
  case (Suc fuel)
  let ?p = "PAGE_CLEAR (PAGE_SET (pg w p) PG_LOCKED) PG_LOCKED"
  have "sync_all_pages (Suc fuel) t writepage w =
      sync_all_pages fuel t writepage (w\<lparr>pg := (pg w)(p := ?p)\<rparr>)"
    using Suc.prems
    by (auto simp: page_lock_def page_unlock_def page_unlocked_def mapper_default_sync_page_def
        wait_queue_isEmpty_def page_bits)
  also have "\<dots> = None"
    using Suc.prems by (intro Suc.IH) (auto simp: page_unlocked_def page_bits)
  finally show ?case .
qed simp

theorem sync_all_pages_livelock_witness:
  "sync_all_pages 100 1 (\<lambda>_. Some EINVAL)
     (snd (page_set_dirty \<lparr>pg = \<lambda>_. page_init 0, dirty_root = []\<rparr> 4)) = None"
  by (rule sync_all_pages_livelock [where p = 4 and ps = "[]"])
    (simp_all add: page_init_def page_flag_defs page_set_dirty_def page_unlocked_def wait_queue_init_def)

end
