(* ===== verification/Mm_Ppm.thy ===== *)
theory Mm_Ppm
  imports Buddy_Blocks Mm_Page "HOL-Library.Monad_Syntax"
begin

text \<open>
  The physical page manager \<^verbatim>\<open>src/kernel/mm/ppm.c\<close>, a buddy allocator over the page table of a
  cluster. A page is its index in \<^verbatim>\<open>pages_tbl\<close>; an access outside the table (or outside the array
  of free lists) is \<open>None\<close>. The spin lock makes each operation atomic.

  The invariant \<open>ppm_wf ppm A\<close> says that the free blocks and the blocks \<open>A\<close> in use (allocated or
  reserved) tile the page table, that the descriptors, the free lists and the counters agree with
  that tiling, and that no two free buddies are left unmerged. Initialization establishes it, and
  allocation and release keep it.
\<close>

section \<open>Model\<close>

definition PPM_MAX_ORDER :: nat where [kconfig]: "PPM_MAX_ORDER = 10"
definition PPM_LAST_ORDER :: nat where [kconfig]: "PPM_LAST_ORDER = PPM_MAX_ORDER - 1"
definition PMM_PAGE_SHIFT :: nat where [kconfig]: "PMM_PAGE_SHIFT = 12"
definition PMM_PAGE_SIZE :: u32 where [kconfig]: "PMM_PAGE_SIZE = 0x1000"
definition PPM_ID :: u32 where "PPM_ID = 0xF0F0A5A5"

record buddy_list_s =
  broot :: "nat list"
  bpages_nr :: u32

record ppm_s =
  ppm_signature :: u32
  ppn_start :: u32
  vaddr_begin :: u32
  vaddr_start :: u32
  free_pages :: "buddy_list_s list"
  pages_tbl :: "page_s list"
  pages_nr :: u32
  free_pages_nr :: u32
  uprio_pages_min :: u32
  kprio_pages_min :: u32
  urgent_pages_min :: u32
  ppm_begin :: u64
  wait_tbl :: "wait_queue_s list"

subsection \<open>Address conversions\<close>

definition ppm_page2addr :: "ppm_s \<Rightarrow> nat \<Rightarrow> u32" where
  "ppm_page2addr ppm page = of_nat page * PMM_PAGE_SIZE + vaddr_begin ppm"

definition ppm_addr2page :: "ppm_s \<Rightarrow> u32 \<Rightarrow> nat" where
  "ppm_addr2page ppm ad = unat (drop_bit PMM_PAGE_SHIFT (ad - vaddr_begin ppm))"

definition ppm_page2ppn :: "ppm_s \<Rightarrow> nat \<Rightarrow> u32" where
  "ppm_page2ppn ppm page = of_nat page + ppn_start ppm"

definition ppm_ppn2page :: "ppm_s \<Rightarrow> u32 \<Rightarrow> nat" where
  "ppm_ppn2page ppm ppn = unat (ppn - ppn_start ppm)"

definition ppm_ppn2vma :: "ppm_s \<Rightarrow> u32 \<Rightarrow> u32" where
  "ppm_ppn2vma ppm ppn = push_bit PMM_PAGE_SHIFT (ppn - ppn_start ppm) + vaddr_begin ppm"

definition ppm_vma2ppn :: "ppm_s \<Rightarrow> u32 \<Rightarrow> u32" where
  "ppm_vma2ppn ppm vma = drop_bit PMM_PAGE_SHIFT (vma - vaddr_begin ppm) + ppn_start ppm"

subsection \<open>Free lists\<close>

text \<open>\<^verbatim>\<open>list_unlink\<close> takes an entry out of whatever list links it.\<close>

definition free_unlink :: "nat \<Rightarrow> buddy_list_s list \<Rightarrow> buddy_list_s list" where
  "free_unlink block fl = map (\<lambda>l. l\<lparr>broot := remove1 block (broot l)\<rparr>) fl"

definition bl_update :: "nat \<Rightarrow> (buddy_list_s \<Rightarrow> buddy_list_s) \<Rightarrow> ppm_s \<Rightarrow> ppm_s option" where
  "bl_update k f ppm = do {
     l \<leftarrow> arr_get (free_pages ppm) k;
     fl \<leftarrow> arr_set (free_pages ppm) k (f l);
     Some (ppm\<lparr>free_pages := fl\<rparr>) }"

definition bl_add :: "nat \<Rightarrow> buddy_list_s \<Rightarrow> buddy_list_s" where
  "bl_add block l = l\<lparr>broot := block # broot l, bpages_nr := bpages_nr l + 1\<rparr>"

definition bl_dec :: "buddy_list_s \<Rightarrow> buddy_list_s" where
  "bl_dec l = l\<lparr>bpages_nr := bpages_nr l - 1\<rparr>"

definition tbl_update :: "nat \<Rightarrow> (page_s \<Rightarrow> page_s) \<Rightarrow> ppm_s \<Rightarrow> ppm_s option" where
  "tbl_update i f ppm = do {
     p \<leftarrow> arr_get (pages_tbl ppm) i;
     tbl \<leftarrow> arr_set (pages_tbl ppm) i (f p);
     Some (ppm\<lparr>pages_tbl := tbl\<rparr>) }"

definition set_order :: "nat \<Rightarrow> page_s \<Rightarrow> page_s" where
  "set_order k p = p\<lparr>porder := of_nat k\<rparr>"

text \<open>
  The state changes of the page manager, to \<open>PGFREE\<close>, \<open>PGINVALID\<close> from a free page and
  \<open>PGRESERVED\<close>, never sleep and wake nobody: the calling thread does not matter.
\<close>

definition set_state :: "page_state \<Rightarrow> page_s \<Rightarrow> page_s" where
  "set_state st p = snd (snd (page_state_set 0 p st))"

subsection \<open>Release\<close>

function merge_loop :: "ppm_s \<Rightarrow> nat \<Rightarrow> nat \<Rightarrow> (ppm_s \<times> nat \<times> nat) option" where
  "merge_loop ppm page_index current_order =
     (if current_order < PPM_LAST_ORDER then do {
        let block_index = page_index XOR push_bit current_order 1;
        block \<leftarrow> arr_get (pages_tbl ppm) block_index;
        if pstate block \<noteq> PGFREE \<or> unat (porder block) \<noteq> current_order
        then Some (ppm, page_index, current_order)
        else do {
          let ppm = ppm\<lparr>free_pages := free_unlink block_index (free_pages ppm)\<rparr>;
          ppm \<leftarrow> bl_update current_order bl_dec ppm;
          ppm \<leftarrow> tbl_update block_index (set_order 0) ppm;
          merge_loop ppm (page_index AND block_index) (Suc current_order) } }
      else Some (ppm, page_index, current_order))"
  by pat_completeness auto
termination by (relation "measure (\<lambda>(_, _, c). PPM_LAST_ORDER - c)") auto

declare merge_loop.simps [simp del]

definition ppm_free_pages_nolock :: "ppm_s \<Rightarrow> nat \<Rightarrow> nat \<Rightarrow> ppm_s option" where
  "ppm_free_pages_nolock ppm order index = do {
     ppm \<leftarrow> tbl_update index (set_state PGFREE) ppm;
     let ppm = ppm\<lparr>free_pages_nr := free_pages_nr ppm + push_bit order 1\<rparr>;
     (ppm, page_index, current_order) \<leftarrow> merge_loop ppm index order;
     ppm \<leftarrow> tbl_update page_index (set_order current_order) ppm;
     bl_update current_order (bl_add page_index) ppm }"

definition ppm_free_pages :: "ppm_s \<Rightarrow> nat \<Rightarrow> ppm_s option" where
  "ppm_free_pages ppm index = do {
     page \<leftarrow> arr_get (pages_tbl ppm) index;
     let (old, page) = page_refcount_down page;
     ppm \<leftarrow> tbl_update index (\<lambda>_. page) ppm;
     if old > 1 then Some ppm
     else ppm_free_pages_nolock ppm (unat (porder page)) index }"

subsection \<open>Allocation\<close>

function find_block :: "ppm_s \<Rightarrow> nat \<Rightarrow> (nat \<times> nat) option" where
  "find_block ppm current_order =
     (if current_order < PPM_MAX_ORDER
      then (case broot (free_pages ppm ! current_order) of
              [] \<Rightarrow> find_block ppm (Suc current_order)
            | block # _ \<Rightarrow> Some (block, current_order))
      else None)"
  by pat_completeness auto
termination by (relation "measure (\<lambda>(_, c). PPM_MAX_ORDER - c)") auto

declare find_block.simps [simp del]

fun split_loop :: "ppm_s \<Rightarrow> nat \<Rightarrow> nat \<Rightarrow> nat \<Rightarrow> nat \<Rightarrow> ppm_s option" where
  "split_loop ppm block order 0 current_size = Some ppm"
| "split_loop ppm block order (Suc current_order) current_size =
     (if Suc current_order > order then do {
        let current_size = drop_bit 1 current_size;
        let remaining_block = block + current_size;
        ppm \<leftarrow> tbl_update remaining_block (set_order current_order) ppm;
        ppm \<leftarrow> bl_update current_order (bl_add remaining_block) ppm;
        split_loop ppm block order current_order current_size }
      else Some ppm)"

definition ppm_do_alloc_pages :: "ppm_s \<Rightarrow> nat \<Rightarrow> (nat option \<times> ppm_s) option" where
  "ppm_do_alloc_pages ppm order =
     (case find_block ppm order of
        None \<Rightarrow> Some (None, ppm)
      | Some (block, current_order) \<Rightarrow> do {
          let ppm = ppm\<lparr>free_pages := free_unlink block (free_pages ppm)\<rparr>;
          let ppm = ppm\<lparr>free_pages_nr := free_pages_nr ppm - push_bit order 1\<rparr>;
          ppm \<leftarrow> bl_update current_order bl_dec ppm;
          ppm \<leftarrow> split_loop ppm block order current_order (push_bit current_order 1);
          ppm \<leftarrow> tbl_update block
            (\<lambda>p. set_order order (snd (page_refcount_up (set_state PGINVALID p)))) ppm;
          Some (Some block, ppm) })"

section \<open>The buddy structure\<close>

text \<open>
  \<open>binv\<close> relates the free blocks \<open>F\<close>, the blocks in use \<open>A\<close> and the block \<open>H\<close> that an operation
  has in hand to the state \<open>st\<close> and the order \<open>od\<close> of every page. Only the first page of a block
  in use is not \<open>PGFREE\<close>: the other pages of a block keep the state they had when they were freed.
\<close>

definition coalesced :: "block set \<Rightarrow> bool" where
  "coalesced F \<longleftrightarrow> (\<forall>p c. (p, c) \<in> F \<longrightarrow> c < PPM_LAST_ORDER \<longrightarrow> (buddy p c, c) \<notin> F)"

definition binv ::
  "nat \<Rightarrow> block set \<Rightarrow> block set \<Rightarrow> block set \<Rightarrow> (nat \<Rightarrow> page_state) \<Rightarrow> (nat \<Rightarrow> nat) \<Rightarrow> bool" where
  "binv N F A H st od \<longleftrightarrow>
     tiling N (F \<union> A \<union> H) \<and> F \<inter> A = {} \<and> F \<inter> H = {} \<and> A \<inter> H = {}
     \<and> (\<forall>b k. (b, k) \<in> F \<union> A \<union> H \<longrightarrow> k < PPM_MAX_ORDER)
     \<and> (\<forall>b k. (b, k) \<in> F \<longrightarrow> od b = k)
     \<and> (\<forall>b k. (b, k) \<in> A \<longrightarrow> st b \<noteq> PGFREE \<and> od b = k)
     \<and> (\<forall>i < N. st i \<noteq> PGFREE \<longrightarrow> (\<exists>k. (i, k) \<in> A))
     \<and> coalesced F"

lemma binvD:
  assumes "binv N F A H st od"
  shows "tiling N (F \<union> A \<union> H)" "F \<inter> A = {}" "F \<inter> H = {}" "A \<inter> H = {}"
    "\<And>b k. (b, k) \<in> F \<union> A \<union> H \<Longrightarrow> k < PPM_MAX_ORDER"
    "\<And>b k. (b, k) \<in> F \<Longrightarrow> od b = k"
    "\<And>b k. (b, k) \<in> A \<Longrightarrow> st b \<noteq> PGFREE \<and> od b = k"
    "\<And>i. i < N \<Longrightarrow> st i \<noteq> PGFREE \<Longrightarrow> \<exists>k. (i, k) \<in> A"
    "coalesced F"
  using assms unfolding binv_def by blast+

lemma binv_head_unique:
  "binv N F A H st od \<Longrightarrow> (b, k) \<in> F \<union> A \<union> H \<Longrightarrow> (b, j) \<in> F \<union> A \<union> H \<Longrightarrow> k = j"
  using tiling_head_unique [OF binvD(1)] by blast

text \<open>The page heading a free block, or the block in hand, is \<open>PGFREE\<close>.\<close>

lemma binv_free_state:
  assumes "binv N F A H st od" and "(b, k) \<in> F \<union> H"
  shows "st b = PGFREE"
proof (rule ccontr)
  assume "st b \<noteq> PGFREE"
  moreover have "b < N" using tiling_head_less [OF binvD(1) [OF assms(1)]] assms(2) by blast
  ultimately obtain j where "(b, j) \<in> A" using binvD(8) [OF assms(1)] by blast
  moreover from this assms have "k = j" by (intro binv_head_unique [OF assms(1)]) auto
  ultimately show False using assms(2) binvD(2,4) [OF assms(1)] by blast
qed

text \<open>The test of the merge loop recognises exactly the free buddies.\<close>

lemma binv_buddy_test:
  assumes "binv N F A {(p, c)} st od" and "2 ^ PPM_LAST_ORDER dvd N" and "c < PPM_LAST_ORDER"
  shows "buddy p c < N" and "st (buddy p c) = PGFREE \<and> od (buddy p c) = c \<longleftrightarrow> (buddy p c, c) \<in> F"
proof -
  note T = binvD(1) [OF assms(1)]
  have p: "(p, c) \<in> F \<union> A \<union> {(p, c)}" by simp
  show less: "buddy p c < N"
    using buddy_less [OF assms(2,3) tiling_aligned [OF T p] tiling_head_less [OF T p]] .
  obtain k where k: "(buddy p c, k) \<in> F \<union> A \<union> {(p, c)}"
    using tiling_buddy_head [OF T p less] by blast
  then consider "(buddy p c, k) \<in> F" | "(buddy p c, k) \<in> A" using buddy_ne by auto
  then show "st (buddy p c) = PGFREE \<and> od (buddy p c) = c \<longleftrightarrow> (buddy p c, c) \<in> F"
  proof cases
    case 1
    then show ?thesis
      using binvD(6) [OF assms(1)] binv_free_state [OF assms(1), of "buddy p c" k] by auto
  next
    case 2
    then have "st (buddy p c) \<noteq> PGFREE" using binvD(7) [OF assms(1)] by simp
    then show ?thesis using binv_free_state [OF assms(1), of "buddy p c" c] by auto
  qed
qed

lemma coalesced_subset: "coalesced F \<Longrightarrow> G \<subseteq> F \<Longrightarrow> coalesced G"
  unfolding coalesced_def by blast

lemma coalesced_insert:
  "coalesced F \<Longrightarrow> c < PPM_LAST_ORDER \<longrightarrow> (buddy p c, c) \<notin> F \<Longrightarrow> coalesced (insert (p, c) F)"
  unfolding coalesced_def using buddy_buddy buddy_ne by (metis insert_iff prod.inject)

subsection \<open>The moves of the allocator\<close>

lemma binv_take:
  assumes "binv N F A {} st od" and "x \<in> F"
  shows "binv N (F - {x}) A {x} st od"
proof -
  have "F - {x} \<union> A \<union> {x} = F \<union> A \<union> {}" using assms(2) by blast
  then show ?thesis
    using assms coalesced_subset [of F "F - {x}"] unfolding binv_def by auto
qed

lemma binv_put:
  assumes "binv N F A {(p, c)} st od" and "c < PPM_LAST_ORDER \<longrightarrow> (buddy p c, c) \<notin> F"
  shows "binv N (insert (p, c) F) A {} st (od(p := c))"
proof -
  have "insert (p, c) F \<union> A \<union> {} = F \<union> A \<union> {(p, c)}" by blast
  moreover have "(p, k) \<notin> F \<union> A" for k
    using binv_head_unique [OF assms(1), of p k c] binvD(3,4) [OF assms(1)] by blast
  ultimately show ?thesis
    using assms coalesced_insert [of F c p] unfolding binv_def by auto
qed

lemma binv_claim:
  assumes "binv N F A {(b, k)} st od" and "s \<noteq> PGFREE"
  shows "binv N F (insert (b, k) A) {} (st(b := s)) (od(b := k))"
proof -
  have "F \<union> insert (b, k) A \<union> {} = F \<union> A \<union> {(b, k)}" by blast
  moreover have "(b, j) \<notin> F \<union> A" for j
    using binv_head_unique [OF assms(1), of b j k] binvD(3,4) [OF assms(1)] by blast
  ultimately show ?thesis
    using assms unfolding binv_def by auto
qed

lemma binv_reclaim:
  assumes "binv N F A {} st od" and "(b, k) \<in> A"
  shows "binv N F (A - {(b, k)}) {(b, k)} (st(b := PGFREE)) od"
proof -
  have "F \<union> (A - {(b, k)}) \<union> {(b, k)} = F \<union> A \<union> {}" using assms(2) by blast
  moreover have "j = k" if "(b, j) \<in> A" for j
    using binv_head_unique [OF assms(1), of b j k] that assms(2) by blast
  then have "st' i \<noteq> PGFREE \<and> od i = j" if "(i, j) \<in> A - {(b, k)}" "st' = st(b := PGFREE)" for i j st'
    using that binvD(7) [OF assms(1)] by auto
  moreover have "\<exists>j. (i, j) \<in> A - {(b, k)}" if "i < N" "(st(b := PGFREE)) i \<noteq> PGFREE" for i
    using that binvD(8) [OF assms(1), of i] by (auto split: if_splits)
  moreover have "F \<inter> (A - {(b, k)}) = {}" "F \<inter> {(b, k)} = {}"
    using binvD(2) [OF assms(1)] assms(2) by blast+
  ultimately show ?thesis
    using assms(1) unfolding binv_def by simp
qed

text \<open>Splitting the block in hand frees its upper half.\<close>

lemma binv_split:
  assumes "binv N F A {(b, Suc k)} st od"
  shows "binv N (insert (b + 2 ^ k, k) F) A {(b, k)} st (od(b + 2 ^ k := k))"
proof -
  let ?r = "b + 2 ^ k"
  note T = binvD(1) [OF assms]
  have al: "2 ^ Suc k dvd b" using tiling_aligned [OF T] by blast
  have notin: "(i, j) \<notin> F \<union> A" if "i \<in> cells (b, Suc k)" for i j
  proof
    assume ij: "(i, j) \<in> F \<union> A"
    then have "(i, j) = (b, Suc k)"
      using tiling_unique [OF T _ _ _ that, of "(i, j)"] cells_head [of "(i, j)"] by simp
    with ij show False using binvD(3,4) [OF assms] by blast
  qed
  have in_cells: "b \<in> cells (b, Suc k)" "?r \<in> cells (b, Suc k)" by (simp_all add: cells_def)
  have "F \<union> A \<union> {(b, Suc k)} - {(b, Suc k)} \<union> {(b, k), (?r, k)} = insert (?r, k) F \<union> A \<union> {(b, k)}"
    using notin [OF in_cells(1)] by blast
  with tiling_split [OF T, of b k] have T': "tiling N (insert (?r, k) F \<union> A \<union> {(b, k)})" by simp
  have "buddy ?r k = b" using buddy_up(1) [OF al] buddy_buddy [of b k] by simp
  then have co: "coalesced (insert (?r, k) F)"
    using binvD(9) [OF assms] notin [OF in_cells(1)] by (intro coalesced_insert) auto
  have k: "k < PPM_MAX_ORDER" using binvD(5) [OF assms, of b "Suc k"] by simp
  have old: "j < PPM_MAX_ORDER" if "(i, j) \<in> F \<or> (i, j) \<in> A" for i j
    using binvD(5) [OF assms, of i j] that by blast
  show ?thesis
    unfolding binv_def
    using T' co k old notin [OF in_cells(1)] notin [OF in_cells(2)] binvD(2,6-8) [OF assms]
    by auto
qed

text \<open>Merging the block in hand with its free buddy.\<close>

lemma binv_merge:
  assumes "binv N F A {(p, c)} st od" and "(buddy p c, c) \<in> F" and "c < PPM_LAST_ORDER"
  shows "binv N (F - {(buddy p c, c)}) A {(p AND buddy p c, Suc c)} st (od(buddy p c := 0))"
proof -
  let ?q = "buddy p c" and ?b = "p AND buddy p c"
  note T = binvD(1) [OF assms(1)]
  have dis: "(?q, c) \<notin> A" "(p, c) \<notin> A" "(p, c) \<notin> F" using binvD(2-4) [OF assms(1)] assms(2) by blast+
  have "F \<union> A \<union> {(p, c)} - {(p, c), (?q, c)} \<union> {(?b, Suc c)} = F - {(?q, c)} \<union> A \<union> {(?b, Suc c)}"
    using dis by blast
  with tiling_merge [OF T, of p c] assms(2)
  have T': "tiling N (F - {(?q, c)} \<union> A \<union> {(?b, Suc c)})" by simp
  have b: "?b = p \<or> ?b = ?q"
    using buddy_up [of c p] buddy_down [of c p] tiling_aligned [OF T, of p c]
    by (cases "2 ^ Suc c dvd p") auto
  have notin: "(?b, Suc c) \<notin> F \<union> A"
    using b binv_head_unique [OF assms(1), of ?b "Suc c" c] assms(2) by auto
  have head: "(?q, j) \<notin> F - {(?q, c)} \<union> A" for j
    using binv_head_unique [OF assms(1), of ?q j c] assms(2) dis by auto
  have "Suc c < PPM_MAX_ORDER" using assms(3) by (simp add: kconfig)
  then show ?thesis
    unfolding binv_def
    using T' notin head coalesced_subset [OF binvD(9) [OF assms(1)], of "F - {(?q, c)}"]
      binvD(2,5-8) [OF assms(1)]
    by auto
qed

section \<open>The page manager\<close>

text \<open>The free lists hold exactly the free blocks, each once, and count them.\<close>

definition flists :: "buddy_list_s list \<Rightarrow> block set \<Rightarrow> bool" where
  "flists fl F \<longleftrightarrow> length fl = PPM_MAX_ORDER
     \<and> (\<forall>k < PPM_MAX_ORDER. distinct (broot (fl ! k))
          \<and> bpages_nr (fl ! k) = of_nat (length (broot (fl ! k)))
          \<and> (\<forall>b. b \<in> set (broot (fl ! k)) \<longleftrightarrow> (b, k) \<in> F))"

definition freeset :: "ppm_s \<Rightarrow> block set" where
  "freeset ppm = {(b, k). k < PPM_MAX_ORDER \<and> b \<in> set (broot (free_pages ppm ! k))}"

abbreviation st_of :: "ppm_s \<Rightarrow> nat \<Rightarrow> page_state" where
  "st_of ppm \<equiv> \<lambda>i. pstate (pages_tbl ppm ! i)"

abbreviation od_of :: "ppm_s \<Rightarrow> nat \<Rightarrow> nat" where
  "od_of ppm \<equiv> \<lambda>i. unat (porder (pages_tbl ppm ! i))"

definition ppm_inv :: "ppm_s \<Rightarrow> block set \<Rightarrow> block set \<Rightarrow> block set \<Rightarrow> bool" where
  "ppm_inv ppm F A H \<longleftrightarrow>
     flists (free_pages ppm) F \<and> binv (length (pages_tbl ppm)) F A H (st_of ppm) (od_of ppm)
     \<and> 2 ^ PPM_LAST_ORDER dvd length (pages_tbl ppm)"

lemma flists_push:
  assumes "flists fl F" and "(b, k) \<notin> F" and "k < PPM_MAX_ORDER"
  shows "flists (fl[k := bl_add b (fl ! k)]) (insert (b, k) F)"
  using assms by (auto simp: flists_def bl_add_def nth_list_update)

lemma flists_unlink:
  assumes "flists fl F" and "(b, k) \<in> F" and "k < PPM_MAX_ORDER"
    and "\<And>j. (b, j) \<in> F \<Longrightarrow> j = k"
  shows "flists ((free_unlink b fl)[k := bl_dec (free_unlink b fl ! k)]) (F - {(b, k)})"
proof -
  let ?fl = "(free_unlink b fl)[k := bl_dec (free_unlink b fl ! k)]"
  have len: "length fl = PPM_MAX_ORDER" using assms(1) by (simp add: flists_def)
  have old: "distinct (broot (fl ! j))" "bpages_nr (fl ! j) = of_nat (length (broot (fl ! j)))"
    "\<And>a. a \<in> set (broot (fl ! j)) \<longleftrightarrow> (a, j) \<in> F" if "j < PPM_MAX_ORDER" for j
    using assms(1) that by (simp_all add: flists_def)
  have in_k: "b \<in> set (broot (fl ! k))" using old(3) assms(2,3) by blast
  have "distinct (broot (?fl ! j)) \<and> bpages_nr (?fl ! j) = of_nat (length (broot (?fl ! j)))
      \<and> (\<forall>a. a \<in> set (broot (?fl ! j)) \<longleftrightarrow> (a, j) \<in> F - {(b, k)})" if j: "j < PPM_MAX_ORDER" for j
  proof (cases "j = k")
    case True
    have "length (broot (fl ! k)) = Suc (length (remove1 b (broot (fl ! k))))"
      using in_k length_pos_if_in_set [OF in_k] by (simp add: length_remove1)
    then have "of_nat (length (broot (fl ! k))) - 1 = (of_nat (length (remove1 b (broot (fl ! k)))) :: u32)"
      by simp
    with True j len old [OF j] in_k show ?thesis by (simp add: free_unlink_def bl_dec_def)
  next
    case False
    then have "b \<notin> set (broot (fl ! j))" using old(3) [OF j] assms(4) by blast
    with False j len old [OF j] show ?thesis by (simp add: free_unlink_def remove1_idem)
  qed
  then show ?thesis unfolding flists_def by (simp add: len free_unlink_def)
qed

text \<open>The updates of the page table, seen through the state and the order of the pages.\<close>

lemma of_nat_order [simp]: "k < PPM_MAX_ORDER \<Longrightarrow> unat (of_nat k :: 4 word) = k"
  by (simp add: kconfig unat_of_nat)

lemma tbl_update_in:
  "i < length (pages_tbl ppm) \<Longrightarrow>
   tbl_update i f ppm = Some (ppm\<lparr>pages_tbl := (pages_tbl ppm)[i := f (pages_tbl ppm ! i)]\<rparr>)"
  by (simp add: tbl_update_def karray)

lemma bl_update_in:
  "k < length (free_pages ppm) \<Longrightarrow>
   bl_update k f ppm = Some (ppm\<lparr>free_pages := (free_pages ppm)[k := f (free_pages ppm ! k)]\<rparr>)"
  by (simp add: bl_update_def karray)

lemma st_update:
  "i < length tbl \<Longrightarrow> (\<lambda>j. pstate (tbl[i := p] ! j)) = (\<lambda>j. pstate (tbl ! j))(i := pstate p)"
  by (auto simp: nth_list_update)

lemma od_update:
  "i < length tbl \<Longrightarrow>
   (\<lambda>j. unat (porder (tbl[i := p] ! j))) = (\<lambda>j. unat (porder (tbl ! j)))(i := unat (porder p))"
  by (auto simp: nth_list_update)

lemma st_same: "pstate p = pstate (tbl ! i) \<Longrightarrow> (\<lambda>j. pstate (tbl[i := p] ! j)) = (\<lambda>j. pstate (tbl ! j))"
  by (cases "i < length tbl") (auto simp: nth_list_update list_update_beyond)

lemma od_same:
  "porder p = porder (tbl ! i) \<Longrightarrow>
   (\<lambda>j. unat (porder (tbl[i := p] ! j))) = (\<lambda>j. unat (porder (tbl ! j)))"
  by (cases "i < length tbl") (auto simp: nth_list_update list_update_beyond)

lemma set_order_fields [simp]:
  "pstate (set_order k p) = pstate p" "porder (set_order k p) = of_nat k"
  "pcount (set_order k p) = pcount p"
  by (simp_all add: set_order_def)

lemma set_state_free [simp]:
  "pstate (set_state PGFREE p) = PGFREE" "porder (set_state PGFREE p) = porder p"
  by (simp_all add: set_state_def page_to_free_def)

lemmas ppm_step_simps = tbl_update_in bl_update_in st_update od_update

text \<open>
  The loops change the free lists and the orders only: \<open>same_pages\<close> compares two page managers up
  to these.
\<close>

definition same_pages :: "ppm_s \<Rightarrow> ppm_s \<Rightarrow> bool" where
  "same_pages ppm ppm' \<longleftrightarrow>
     ppm'\<lparr>free_pages := free_pages ppm, pages_tbl := pages_tbl ppm\<rparr> = ppm
     \<and> map (set_order 0) (pages_tbl ppm') = map (set_order 0) (pages_tbl ppm)"

lemma same_pages_refl [simp]: "same_pages ppm ppm"
  by (simp add: same_pages_def)

lemma same_pages_trans:
  assumes "same_pages a b" and "same_pages b c" shows "same_pages a c"
proof -
  have "c\<lparr>free_pages := free_pages a, pages_tbl := pages_tbl a\<rparr> =
    c\<lparr>free_pages := free_pages b, pages_tbl := pages_tbl b\<rparr>
      \<lparr>free_pages := free_pages a, pages_tbl := pages_tbl a\<rparr>" by simp
  with assms show ?thesis by (simp add: same_pages_def)
qed

lemma same_pages_free_nr: "same_pages ppm ppm' \<Longrightarrow> free_pages_nr ppm' = free_pages_nr ppm"
  unfolding same_pages_def by (metis (no_types, lifting) ppm_s.select_convs(8) ppm_s.surjective
      ppm_s.update_convs(5,6))

lemma same_pages_length: "same_pages ppm ppm' \<Longrightarrow> length (pages_tbl ppm') = length (pages_tbl ppm)"
  unfolding same_pages_def by (metis length_map)

lemma same_pages_order:
  "i < length (pages_tbl ppm) \<Longrightarrow> same_pages ppm
     (ppm\<lparr>free_pages := fl, pages_tbl := (pages_tbl ppm)[i := set_order k (pages_tbl ppm ! i)]\<rparr>)"
  by (auto simp: same_pages_def set_order_def nth_list_update intro!: nth_equalityI)

subsection \<open>Release\<close>

lemma merge_loop_buddy:
  "merge_loop ppm page_index current_order =
     (if current_order < PPM_LAST_ORDER then do {
        block \<leftarrow> arr_get (pages_tbl ppm) (buddy page_index current_order);
        if pstate block \<noteq> PGFREE \<or> unat (porder block) \<noteq> current_order
        then Some (ppm, page_index, current_order)
        else do {
          let ppm = ppm\<lparr>free_pages := free_unlink (buddy page_index current_order) (free_pages ppm)\<rparr>;
          ppm \<leftarrow> bl_update current_order bl_dec ppm;
          ppm \<leftarrow> tbl_update (buddy page_index current_order) (set_order 0) ppm;
          merge_loop ppm (page_index AND buddy page_index current_order) (Suc current_order) } }
      else Some (ppm, page_index, current_order))"
  unfolding buddy_def by (subst merge_loop.simps) (simp only: Let_def)

text \<open>
  One iteration of the merge loop takes the free buddy out of its list, and the loop stops when
  the buddy is not free (or the block is of the largest order).
\<close>

lemma merge_iteration:
  assumes "ppm_inv ppm F A {(p, c)}" and "c < PPM_LAST_ORDER" and "(buddy p c, c) \<in> F"
  obtains ppm' where "merge_loop ppm p c = merge_loop ppm' (p AND buddy p c) (Suc c)"
    and "ppm_inv ppm' (F - {(buddy p c, c)}) A {(p AND buddy p c, Suc c)}" and "same_pages ppm ppm'"
proof -
  let ?q = "buddy p c" and ?tbl = "pages_tbl ppm"
  let ?fl = "(free_unlink ?q (free_pages ppm))[c := bl_dec (free_unlink ?q (free_pages ppm) ! c)]"
  let ?ppm = "ppm\<lparr>free_pages := ?fl, pages_tbl := ?tbl[?q := set_order 0 (?tbl ! ?q)]\<rparr>"
  note inv = assms(1) [unfolded ppm_inv_def]
  note B = conjunct1 [OF conjunct2 [OF inv]] and D = conjunct2 [OF conjunct2 [OF inv]]
  note test = binv_buddy_test [OF B D assms(2)]
  have c: "c < PPM_MAX_ORDER" using assms(2) by (simp add: kconfig)
  have len: "length (free_pages ppm) = PPM_MAX_ORDER" using inv by (simp add: flists_def)
  have "merge_loop ppm p c = merge_loop ?ppm (p AND ?q) (Suc c)"
    using assms(2,3) test c len
    by (subst merge_loop_buddy) (simp add: Let_def karray ppm_step_simps free_unlink_def)
  moreover have "flists ?fl (F - {(?q, c)})"
    using inv assms(3) c binv_head_unique [OF B, of ?q _ c] by (intro flists_unlink) auto
  with binv_merge [OF B assms(3,2)] D test(1)
  have "ppm_inv ?ppm (F - {(?q, c)}) A {(p AND ?q, Suc c)}"
    by (simp add: ppm_inv_def st_same od_update)
  moreover have "same_pages ppm ?ppm" using test(1) by (rule same_pages_order)
  ultimately show thesis by (rule that)
qed

lemma merge_stop:
  assumes "ppm_inv ppm F A {(p, c)}" and "\<not> (c < PPM_LAST_ORDER \<and> (buddy p c, c) \<in> F)"
  shows "merge_loop ppm p c = Some (ppm, p, c)"
proof (cases "c < PPM_LAST_ORDER")
  case True
  have B: "binv (length (pages_tbl ppm)) F A {(p, c)} (st_of ppm) (od_of ppm)"
    and D: "2 ^ PPM_LAST_ORDER dvd length (pages_tbl ppm)" using assms(1) by (simp_all add: ppm_inv_def)
  show ?thesis
    using assms(2) True binv_buddy_test [OF B D True]
    by (subst merge_loop_buddy) (auto simp: karray)
qed (simp add: merge_loop_buddy)

lemma merge_loop_ok:
  assumes "ppm_inv ppm F A {(p, c)}"
  shows "\<exists>ppm' F' p' c'. merge_loop ppm p c = Some (ppm', p', c') \<and> ppm_inv ppm' F' A {(p', c')}
    \<and> same_pages ppm ppm' \<and> (c' < PPM_LAST_ORDER \<longrightarrow> (buddy p' c', c') \<notin> F')"
  using assms
proof (induction "PPM_LAST_ORDER - c" arbitrary: ppm F p c rule: less_induct)
  case less
  show ?case
  proof (cases "c < PPM_LAST_ORDER \<and> (buddy p c, c) \<in> F")
    case True
    then obtain ppm1 where step: "merge_loop ppm p c = merge_loop ppm1 (p AND buddy p c) (Suc c)"
      and inv: "ppm_inv ppm1 (F - {(buddy p c, c)}) A {(p AND buddy p c, Suc c)}"
      and same: "same_pages ppm ppm1"
      using merge_iteration [OF less.prems] by blast
    have "PPM_LAST_ORDER - Suc c < PPM_LAST_ORDER - c" using True by linarith
    from less.hyps [OF this inv] show ?thesis
      unfolding step using same_pages_trans [OF same] by blast
  next
    case False
    then show ?thesis using merge_stop [OF less.prems False] less.prems by auto
  qed
qed

text \<open>Releasing a block in use.\<close>

lemma free_nolock_ok:
  assumes "ppm_inv ppm F A {}" and "(b, k) \<in> A"
  obtains ppm' F' where "ppm_free_pages_nolock ppm k b = Some ppm'"
    and "ppm_inv ppm' F' (A - {(b, k)}) {}"
    and "same_pages (ppm\<lparr>pages_tbl := (pages_tbl ppm)[b := set_state PGFREE (pages_tbl ppm ! b)],
           free_pages_nr := free_pages_nr ppm + push_bit k 1\<rparr>) ppm'"
proof -
  let ?tbl = "pages_tbl ppm"
  let ?ppm = "ppm\<lparr>pages_tbl := ?tbl[b := set_state PGFREE (?tbl ! b)],
    free_pages_nr := free_pages_nr ppm + push_bit k 1\<rparr>"
  have B: "binv (length ?tbl) F A {} (st_of ppm) (od_of ppm)" using assms(1) by (simp add: ppm_inv_def)
  have b: "b < length ?tbl" using tiling_head_less [OF binvD(1) [OF B]] assms(2) by blast
  have "ppm_inv ?ppm F (A - {(b, k)}) {(b, k)}"
    using binv_reclaim [OF B assms(2)] assms(1) b
    by (simp add: ppm_inv_def st_same od_same st_update od_update)
  from merge_loop_ok [OF this] obtain ppm1 F1 p c where
    loop: "merge_loop ?ppm b k = Some (ppm1, p, c)" and inv: "ppm_inv ppm1 F1 (A - {(b, k)}) {(p, c)}"
    and same: "same_pages ?ppm ppm1" and stop: "c < PPM_LAST_ORDER \<longrightarrow> (buddy p c, c) \<notin> F1" by blast
  note B1 = inv [unfolded ppm_inv_def, THEN conjunct2, THEN conjunct1]
  have p: "p < length (pages_tbl ppm1)" using tiling_head_less [OF binvD(1) [OF B1]] by blast
  have c: "c < PPM_MAX_ORDER" using binvD(5) [OF B1, of p c] by blast
  have new: "(p, c) \<notin> F1" using binvD(3) [OF B1] by blast
  have len: "length (free_pages ppm1) = PPM_MAX_ORDER" using inv by (simp add: ppm_inv_def flists_def)
  let ?ppm2 = "ppm1\<lparr>free_pages := (free_pages ppm1)[c := bl_add p (free_pages ppm1 ! c)],
    pages_tbl := (pages_tbl ppm1)[p := set_order c (pages_tbl ppm1 ! p)]\<rparr>"
  have "ppm_free_pages_nolock ppm k b = Some ?ppm2"
    using b loop p c len
    by (simp add: ppm_free_pages_nolock_def ppm_step_simps Let_def del: push_bit_of_1)
  moreover have "ppm_inv ?ppm2 (insert (p, c) F1) (A - {(b, k)}) {}"
    using binv_put [OF B1 stop] inv p c flists_push [OF _ new c]
    by (simp add: ppm_inv_def st_same od_same st_update od_update)
  ultimately show thesis
    using that same_pages_trans [OF same same_pages_order [OF p]] by simp
qed

subsection \<open>Allocation\<close>

lemma find_block_Some:
  "find_block ppm c = Some (b, j) \<Longrightarrow> c \<le> j \<and> j < PPM_MAX_ORDER \<and> b \<in> set (broot (free_pages ppm ! j))"
proof (induction ppm c rule: find_block.induct)
  case (1 ppm c)
  then show ?case
    using find_block.simps [of ppm c] by (fastforce split: if_splits list.splits)
qed

lemma find_block_None:
  "find_block ppm c = None \<Longrightarrow> c \<le> j \<Longrightarrow> j < PPM_MAX_ORDER \<Longrightarrow> broot (free_pages ppm ! j) = []"
proof (induction ppm c rule: find_block.induct)
  case (1 ppm c)
  have c: "c < PPM_MAX_ORDER" using "1.prems"(2,3) by simp
  then have "broot (free_pages ppm ! c) = []" "find_block ppm (Suc c) = None"
    using "1.prems"(1) by (subst (asm) find_block.simps; simp split: list.splits)+
  then show ?case using "1.IH" [OF c] "1.prems"(2,3) by (cases "j = c") auto
qed

lemma ppm_update_swap:
  "ppm\<lparr>pages_tbl := tbl, free_pages := fl\<rparr> = ppm\<lparr>free_pages := fl, pages_tbl := tbl\<rparr>"
  by simp

lemma split_loop_ok:
  assumes "ppm_inv ppm F A {(b, c)}" and "order \<le> c"
  shows "\<exists>ppm' F'. split_loop ppm b order c (push_bit c 1) = Some ppm'
    \<and> ppm_inv ppm' F' A {(b, order)} \<and> same_pages ppm ppm'"
  using assms
proof (induction c arbitrary: ppm F)
  case (Suc c)
  show ?case
  proof (cases "order = Suc c")
    case True
    then show ?thesis using Suc.prems by auto
  next
    case False
    then have le: "order \<le> c" using Suc.prems(2) by simp
    let ?r = "b + 2 ^ c"
    let ?ppm = "ppm\<lparr>free_pages := (free_pages ppm)[c := bl_add ?r (free_pages ppm ! c)],
      pages_tbl := (pages_tbl ppm)[?r := set_order c (pages_tbl ppm ! ?r)]\<rparr>"
    have B: "binv (length (pages_tbl ppm)) F A {(b, Suc c)} (st_of ppm) (od_of ppm)"
      and len: "length (free_pages ppm) = PPM_MAX_ORDER"
      using Suc.prems(1) by (simp_all add: ppm_inv_def flists_def)
    have c: "c < PPM_MAX_ORDER" using binvD(5) [OF B, of b "Suc c"] by simp
    have r: "?r < length (pages_tbl ppm)"
      using tiling_cells_less [OF binvD(1) [OF B], of "(b, Suc c)" ?r] by (simp add: cells_def)
    note B' = binv_split [OF B]
    have new: "(?r, c) \<notin> F"
      using binvD(1) [OF B] binvD(3) [OF B] tiling_unique [of _ "F \<union> A \<union> {(b, Suc c)}" "(?r, c)" "(b, Suc c)" ?r]
      by (auto simp: cells_def)
    have inv: "ppm_inv ?ppm (insert (?r, c) F) A {(b, c)}"
      using Suc.prems(1) B' r c flists_push [OF _ new c]
      by (simp add: ppm_inv_def st_same od_update)
    have "drop_bit 1 (push_bit (Suc c) 1) = push_bit c (1 :: nat)" by (simp add: drop_bit_eq_div)
    then have "split_loop ppm b order (Suc c) (push_bit (Suc c) 1) = split_loop ?ppm b order c (push_bit c 1)"
      using le r c len by (simp add: ppm_step_simps Let_def ppm_update_swap)
    then show ?thesis
      using Suc.IH [OF inv le] same_pages_trans [OF same_pages_order [OF r]] by metis
  qed
qed auto

lemma set_state_invalid [simp]:
  "pstate p = PGFREE \<Longrightarrow> set_state PGINVALID p = p\<lparr>pstate := PGINVALID\<rparr>"
  by (simp add: set_state_def page_to_invalid_def)

lemma same_pages_nth:
  "same_pages ppm ppm' \<Longrightarrow> i < length (pages_tbl ppm) \<Longrightarrow>
   pages_tbl ppm' ! i = set_order (od_of ppm' i) (pages_tbl ppm ! i)"
proof -
  assume same: "same_pages ppm ppm'" and i: "i < length (pages_tbl ppm)"
  then have "set_order 0 (pages_tbl ppm' ! i) = set_order 0 (pages_tbl ppm ! i)"
    unfolding same_pages_def by (metis length_map nth_map)
  then show ?thesis
    by (cases "pages_tbl ppm' ! i"; cases "pages_tbl ppm ! i") (simp add: set_order_def)
qed

lemma do_alloc_ok:
  assumes "ppm_inv ppm F A {}" and "find_block ppm order = Some (b, j)"
  obtains ppm' F' where "ppm_do_alloc_pages ppm order = Some (Some b, ppm')"
    and "ppm_inv ppm' F' (insert (b, order) A) {}" and "(b, order) \<notin> A"
    and "free_pages_nr ppm' = free_pages_nr ppm - push_bit order 1"
    and "pcount (pages_tbl ppm' ! b) = pcount (pages_tbl ppm ! b) + 1"
    and "length (pages_tbl ppm') = length (pages_tbl ppm)"
proof -
  note found = find_block_Some [OF assms(2)]
  have B: "binv (length (pages_tbl ppm)) F A {} (st_of ppm) (od_of ppm)"
    and fl: "flists (free_pages ppm) F" using assms(1) by (simp_all add: ppm_inv_def)
  have F: "(b, j) \<in> F" using fl found by (auto simp: flists_def)
  have len: "length (free_pages ppm) = PPM_MAX_ORDER" using fl by (simp add: flists_def)
  let ?fl = "(free_unlink b (free_pages ppm))[j := bl_dec (free_unlink b (free_pages ppm) ! j)]"
  let ?ppm = "ppm\<lparr>free_pages_nr := free_pages_nr ppm - push_bit order 1, free_pages := ?fl\<rparr>"
  have "flists ?fl (F - {(b, j)})"
    using fl F found binv_head_unique [OF B, of b _ j] by (intro flists_unlink) auto
  then have "ppm_inv ?ppm (F - {(b, j)}) A {(b, j)}"
    using binv_take [OF B F] assms(1) by (simp add: ppm_inv_def)
  from split_loop_ok [OF this] found obtain ppm1 F1 where
    split: "split_loop ?ppm b order j (push_bit j 1) = Some ppm1"
    and inv: "ppm_inv ppm1 F1 A {(b, order)}" and same: "same_pages ?ppm ppm1" by blast
  note B1 = inv [unfolded ppm_inv_def, THEN conjunct2, THEN conjunct1]
  have b: "b < length (pages_tbl ppm1)" using tiling_head_less [OF binvD(1) [OF B1]] by blast
  have st: "pstate (pages_tbl ppm1 ! b) = PGFREE" using binv_free_state [OF B1] by blast
  have ord: "order < PPM_MAX_ORDER" using found by simp
  let ?p = "set_order order (snd (page_refcount_up (set_state PGINVALID (pages_tbl ppm1 ! b))))"
  let ?ppm2 = "ppm1\<lparr>pages_tbl := (pages_tbl ppm1)[b := ?p]\<rparr>"
  have p: "pstate ?p = PGINVALID" "pcount ?p = pcount (pages_tbl ppm1 ! b) + 1"
    using st by (simp_all add: page_refcount_up_def refcount_defs)
  have "ppm_do_alloc_pages ppm order = Some (Some b, ?ppm2)"
    using assms(2) found len split b
    by (simp add: ppm_do_alloc_pages_def bl_update_in free_unlink_def tbl_update_in Let_def)
  moreover have "ppm_inv ?ppm2 F1 (insert (b, order) A) {}"
    using binv_claim [OF B1, of PGINVALID] inv b p(1) ord
    by (simp add: ppm_inv_def st_update od_update)
  moreover have "(b, order) \<notin> A" using binvD(4) [OF B1] by blast
  moreover have "free_pages_nr ?ppm2 = free_pages_nr ppm - push_bit order 1"
    using same_pages_free_nr [OF same] by simp
  moreover have "pcount (pages_tbl ?ppm2 ! b) = pcount (pages_tbl ppm ! b) + 1"
    using arg_cong [OF same_pages_nth [OF same, of b], of pcount] same_pages_length [OF same] b p(2)
    by simp
  ultimately show thesis using that same_pages_length [OF same] by simp
qed

section \<open>Properties\<close>

text \<open>
  The page manager with the blocks \<open>A\<close> in use: the invariant with nothing in hand, and the number
  of free pages is the size of the table less the pages in use.
\<close>

definition ppm_wf :: "ppm_s \<Rightarrow> block set \<Rightarrow> bool" where
  "ppm_wf ppm A \<longleftrightarrow> ppm_inv ppm (freeset ppm) A {}
     \<and> free_pages_nr ppm = of_nat (length (pages_tbl ppm)) - of_nat (pages_of A)"

lemma ppm_inv_freeset: "ppm_inv ppm F A H \<Longrightarrow> F = freeset ppm"
  unfolding ppm_inv_def freeset_def flists_def using binvD(5) by blast

lemma ppm_wf_tiling: "ppm_wf ppm A \<Longrightarrow> tiling (length (pages_tbl ppm)) (freeset ppm \<union> A)"
  unfolding ppm_wf_def ppm_inv_def using binvD(1) by fastforce

lemma ppm_wf_finite: "ppm_wf ppm A \<Longrightarrow> finite A"
  using tiling_finite [OF ppm_wf_tiling] by blast

lemma word_push_bit_1: "push_bit k (1 :: u32) = of_nat (2 ^ k)"
  by simp

text \<open>A block in use after an operation on the page manager.\<close>

lemma ppm_wf_alloc:
  assumes "ppm_wf ppm A" and "find_block ppm order = Some (b, j)"
  obtains ppm' where "ppm_do_alloc_pages ppm order = Some (Some b, ppm')"
    and "ppm_wf ppm' (insert (b, order) A)" and "(b, order) \<notin> A"
    and "pcount (pages_tbl ppm' ! b) = pcount (pages_tbl ppm ! b) + 1"
    and "length (pages_tbl ppm') = length (pages_tbl ppm)"
proof -
  have inv: "ppm_inv ppm (freeset ppm) A {}" using assms(1) by (simp add: ppm_wf_def)
  from do_alloc_ok [OF inv assms(2)] obtain ppm' F' where
    r: "ppm_do_alloc_pages ppm order = Some (Some b, ppm')"
    and inv': "ppm_inv ppm' F' (insert (b, order) A) {}" and new: "(b, order) \<notin> A"
    and nr: "free_pages_nr ppm' = free_pages_nr ppm - push_bit order 1"
    and cnt: "pcount (pages_tbl ppm' ! b) = pcount (pages_tbl ppm ! b) + 1"
    and len: "length (pages_tbl ppm') = length (pages_tbl ppm)" by blast
  have wf: "ppm_wf ppm' (insert (b, order) A)"
    using inv' assms(1) nr pages_of_insert [OF ppm_wf_finite [OF assms(1)] new]
    by (simp add: ppm_wf_def len flip: ppm_inv_freeset [OF inv'])
  show thesis by (rule that [OF r wf new cnt len])
qed

lemma ppm_wf_free:
  assumes "ppm_wf ppm A" and "(b, k) \<in> A"
  obtains ppm' where "ppm_free_pages_nolock ppm k b = Some ppm'" and "ppm_wf ppm' (A - {(b, k)})"
    and "length (pages_tbl ppm') = length (pages_tbl ppm)"
    and "\<And>i. i < length (pages_tbl ppm) \<Longrightarrow> i \<noteq> b \<Longrightarrow>
      pages_tbl ppm' ! i = set_order (od_of ppm' i) (pages_tbl ppm ! i)"
proof -
  have inv: "ppm_inv ppm (freeset ppm) A {}" using assms(1) by (simp add: ppm_wf_def)
  let ?ppm = "ppm\<lparr>pages_tbl := (pages_tbl ppm)[b := set_state PGFREE (pages_tbl ppm ! b)],
    free_pages_nr := free_pages_nr ppm + push_bit k 1\<rparr>"
  from free_nolock_ok [OF inv assms(2)] obtain ppm' F' where
    r: "ppm_free_pages_nolock ppm k b = Some ppm'" and inv': "ppm_inv ppm' F' (A - {(b, k)}) {}"
    and same: "same_pages ?ppm ppm'" by blast
  have len: "length (pages_tbl ppm') = length (pages_tbl ppm)"
    using same_pages_length [OF same] by simp
  have "ppm_wf ppm' (A - {(b, k)})"
    using inv' assms(1) same_pages_free_nr [OF same]
      pages_of_remove [OF ppm_wf_finite [OF assms(1)] assms(2)]
    by (simp add: ppm_wf_def len flip: ppm_inv_freeset [OF inv'])
  moreover have "pages_tbl ppm' ! i = set_order (od_of ppm' i) (pages_tbl ppm ! i)"
    if "i < length (pages_tbl ppm)" "i \<noteq> b" for i
    using same_pages_nth [OF same, of i] that by simp
  ultimately show thesis using that r len by blast
qed

text \<open>A page manager of 512 pages, all of them free in one block, for the witnesses.\<close>

definition ppm_small :: ppm_s where
  "ppm_small = \<lparr>ppm_signature = PPM_ID, ppn_start = 0, vaddr_begin = 0, vaddr_start = 0,
     free_pages = replicate 9 \<lparr>broot = [], bpages_nr = 0\<rparr> @ [\<lparr>broot = [0], bpages_nr = 1\<rparr>],
     pages_tbl = map (\<lambda>i. (page_init 0)\<lparr>pstate := PGFREE, porder := if i = 0 then 9 else 0\<rparr>) [0..<512],
     pages_nr = 512, free_pages_nr = 512, uprio_pages_min = 0, kprio_pages_min = 0,
     urgent_pages_min = 0, ppm_begin = 0, wait_tbl = []\<rparr>"

lemma ppm_small_freeset: "freeset ppm_small = {(0, 9)}"
  by (auto simp: freeset_def ppm_small_def nth_append kconfig split: if_splits)

lemma ppm_small_wf: "ppm_wf ppm_small {}"
proof -
  have "tiling 512 {(0, 9)}" by (auto simp: tiling_def aligned_def cells_def)
  then have "binv 512 {(0, 9)} {} {} (st_of ppm_small) (od_of ppm_small)"
    by (auto simp: binv_def ppm_small_def coalesced_def kconfig)
  moreover have "flists (free_pages ppm_small) {(0, 9)}"
    by (auto simp: flists_def ppm_small_def nth_append kconfig)
  ultimately show ?thesis
    by (simp add: ppm_wf_def ppm_inv_def ppm_small_freeset pages_of_def kconfig)
      (simp add: ppm_small_def)
qed

lemma ppm_small_find: "find_block ppm_small 3 = Some (0, 9)"
  by (simp add: find_block.simps ppm_small_def kconfig nth_append)

lemma ppm_small_alloc:
  obtains ppm where "ppm_do_alloc_pages ppm_small 3 = Some (Some 0, ppm)" and "ppm_wf ppm {(0, 3)}"
    and "pcount (pages_tbl ppm ! 0) = 1"
proof -
  have "pcount (pages_tbl ppm_small ! 0) = 0" by (simp add: ppm_small_def page_init_def refcount_defs)
  then show thesis using ppm_wf_alloc [OF ppm_small_wf ppm_small_find] that by (metis add_0)
qed

text \<open>
  C1: Page allocation is correct. On a well-formed page manager with the blocks \<open>A\<close> in use,
  \<^verbatim>\<open>ppm_do_alloc_pages\<close> never leaves the page table; when it fails no free block is large enough
  and nothing changed; when it succeeds, the block it returns is aligned on its size, lies in the
  page table, shares no page with any block in use, has its reference count raised, and the page
  manager is well formed with that block in use.
\<close>

theorem ppm_alloc_correct:
  assumes "ppm_wf ppm A"
  shows "\<exists>r ppm'. ppm_do_alloc_pages ppm order = Some (r, ppm') \<and>
    (case r of
       None \<Rightarrow> ppm' = ppm \<and> (\<forall>b k. (b, k) \<in> freeset ppm \<longrightarrow> k < order)
     | Some b \<Rightarrow> ppm_wf ppm' (insert (b, order) A) \<and> 2 ^ order dvd b
         \<and> b + 2 ^ order \<le> length (pages_tbl ppm)
         \<and> (\<forall>x \<in> A. cells (b, order) \<inter> cells x = {})
         \<and> pcount (pages_tbl ppm' ! b) = pcount (pages_tbl ppm ! b) + 1)"
proof (cases "find_block ppm order")
  case None
  then have "k < order" if "(b, k) \<in> freeset ppm" for b k
    using that find_block_None [OF None, of k] by (force simp: freeset_def not_less)
  then show ?thesis using None by (auto simp: ppm_do_alloc_pages_def)
next
  case (Some x)
  then obtain b j where f: "find_block ppm order = Some (b, j)" by (cases x) auto
  obtain ppm' where r: "ppm_do_alloc_pages ppm order = Some (Some b, ppm')"
    and wf: "ppm_wf ppm' (insert (b, order) A)" and new: "(b, order) \<notin> A"
    and cnt: "pcount (pages_tbl ppm' ! b) = pcount (pages_tbl ppm ! b) + 1"
    and len: "length (pages_tbl ppm') = length (pages_tbl ppm)"
    using ppm_wf_alloc [OF assms f] by blast
  note T = ppm_wf_tiling [OF wf]
  have "2 ^ order dvd b" using tiling_aligned [OF T, of b order] by blast
  moreover have "b + 2 ^ order \<le> length (pages_tbl ppm)"
    using tiling_end [OF T, of b order] len by simp
  moreover have "cells (b, order) \<inter> cells x = {}" if "x \<in> A" for x
    using tiling_unique [OF T, of "(b, order)" x] that new by auto
  ultimately show ?thesis using r wf cnt by auto
qed

theorem ppm_alloc_correct_witness:
  "ppm_wf ppm_small {} \<and> (\<exists>r ppm'. ppm_do_alloc_pages ppm_small 3 = Some (r, ppm')
     \<and> r = Some 0 \<and> ppm_wf ppm' {(0, 3)})"
proof -
  obtain ppm1 where r: "ppm_do_alloc_pages ppm_small 3 = Some (Some 0, ppm1)"
    using ppm_small_alloc by blast
  from ppm_alloc_correct [OF ppm_small_wf, of 3] r ppm_small_wf show ?thesis by auto
qed

lemma ppm_wf_order: "ppm_wf ppm A \<Longrightarrow> (b, k) \<in> A \<Longrightarrow> od_of ppm b = k"
  unfolding ppm_wf_def ppm_inv_def using binvD(7) by fast

lemma ppm_wf_less: "ppm_wf ppm A \<Longrightarrow> (b, k) \<in> A \<Longrightarrow> b < length (pages_tbl ppm)"
  using tiling_head_less [OF ppm_wf_tiling] by blast

text \<open>Changing the reference count of a page does not touch the structure.\<close>

lemma ppm_wf_count:
  assumes "ppm_wf ppm A" and "p = (pages_tbl ppm ! b)\<lparr>pcount := n\<rparr>"
  shows "ppm_wf (ppm\<lparr>pages_tbl := (pages_tbl ppm)[b := p]\<rparr>) A"
  using assms by (simp add: ppm_wf_def ppm_inv_def freeset_def st_same od_same)

lemma ppm_free_pages_ok:
  assumes "ppm_wf ppm A" and "(b, k) \<in> A"
  obtains ppm' where "ppm_free_pages ppm b = Some ppm'"
    and "ppm_wf ppm' (if pcount (pages_tbl ppm ! b) > 1 then A else A - {(b, k)})"
    and "length (pages_tbl ppm') = length (pages_tbl ppm)"
    and "pcount (pages_tbl ppm ! b) > 1 \<Longrightarrow>
      ppm' = ppm\<lparr>pages_tbl := (pages_tbl ppm)
        [b := (pages_tbl ppm ! b)\<lparr>pcount := pcount (pages_tbl ppm ! b) - 1\<rparr>]\<rparr>"
proof -
  let ?p = "(pages_tbl ppm ! b)\<lparr>pcount := pcount (pages_tbl ppm ! b) - 1\<rparr>"
  let ?ppm = "ppm\<lparr>pages_tbl := (pages_tbl ppm)[b := ?p]\<rparr>"
  note b = ppm_wf_less [OF assms] and wf = ppm_wf_count [OF assms(1) refl, of b]
  have ord: "unat (porder ?p) = k" using ppm_wf_order [OF assms] by simp
  have run: "ppm_free_pages ppm b =
    (if pcount (pages_tbl ppm ! b) > 1 then Some ?ppm else ppm_free_pages_nolock ?ppm k b)"
    using b ord by (simp add: ppm_free_pages_def karray tbl_update_in page_refcount_down_def refcount_defs)
  show thesis
  proof (cases "pcount (pages_tbl ppm ! b) > 1")
    case True
    then show ?thesis using that run wf by simp
  next
    case False
    obtain ppm' where "ppm_free_pages_nolock ?ppm k b = Some ppm'" "ppm_wf ppm' (A - {(b, k)})"
      "length (pages_tbl ppm') = length (pages_tbl ?ppm)"
      using ppm_wf_free [OF wf assms(2)] by blast
    with False run that show ?thesis by simp
  qed
qed

text \<open>
  C2: Page release is correct. On a well-formed page manager, releasing a block in use never leaves
  the page table; while other references remain it only drops one reference, and the last release
  gives the block back, merged with its free buddies, leaving the page manager well formed with
  the block no longer in use.
\<close>

theorem ppm_free_correct:
  assumes "ppm_wf ppm A" and "(b, k) \<in> A"
  shows "\<exists>ppm'. ppm_free_pages ppm b = Some ppm' \<and>
    (if pcount (pages_tbl ppm ! b) > 1
     then ppm_wf ppm' A \<and> freeset ppm' = freeset ppm
       \<and> pcount (pages_tbl ppm' ! b) = pcount (pages_tbl ppm ! b) - 1
     else ppm_wf ppm' (A - {(b, k)}))"
proof -
  obtain ppm' where "ppm_free_pages ppm b = Some ppm'"
    "ppm_wf ppm' (if pcount (pages_tbl ppm ! b) > 1 then A else A - {(b, k)})"
    "pcount (pages_tbl ppm ! b) > 1 \<Longrightarrow> ppm' = ppm\<lparr>pages_tbl := (pages_tbl ppm)
        [b := (pages_tbl ppm ! b)\<lparr>pcount := pcount (pages_tbl ppm ! b) - 1\<rparr>]\<rparr>"
    using ppm_free_pages_ok [OF assms] by metis
  then show ?thesis using ppm_wf_less [OF assms] by (auto simp: freeset_def)
qed

theorem ppm_free_correct_witness:
  "\<exists>ppm ppm'. ppm_do_alloc_pages ppm_small 3 = Some (Some 0, ppm) \<and> ppm_wf ppm {(0, 3)}
     \<and> ppm_free_pages ppm 0 = Some ppm' \<and> ppm_wf ppm' {}"
proof -
  obtain ppm where "ppm_do_alloc_pages ppm_small 3 = Some (Some 0, ppm)" "ppm_wf ppm {(0, 3)}"
    "pcount (pages_tbl ppm ! 0) = 1" using ppm_small_alloc by blast
  with ppm_free_correct [of ppm "{(0, 3)}" 0 3] show ?thesis by auto
qed

text \<open>The free blocks are determined by the blocks in use.\<close>

lemma ppm_wf_coalesced:
  "ppm_wf ppm A \<Longrightarrow> (p, c) \<in> freeset ppm \<Longrightarrow> c < PPM_LAST_ORDER \<Longrightarrow> (buddy p c, c) \<notin> freeset ppm"
  unfolding ppm_wf_def ppm_inv_def using binvD(9) coalesced_def by metis

lemma ppm_wf_disjoint: "ppm_wf ppm A \<Longrightarrow> freeset ppm \<inter> A = {}"
  unfolding ppm_wf_def ppm_inv_def using binvD(2) by fast

lemma freeset_order: "(b, k) \<in> freeset ppm \<Longrightarrow> k \<le> PPM_LAST_ORDER"
  by (auto simp: freeset_def kconfig)

lemma freeset_unique:
  assumes "ppm_wf ppm A" and "ppm_wf ppm' A" and "length (pages_tbl ppm') = length (pages_tbl ppm)"
  shows "freeset ppm' = freeset ppm"
proof (rule equalityI)
  note T = ppm_wf_tiling [OF assms(1)] and T' = ppm_wf_tiling [OF assms(2), unfolded assms(3)]
  note D = ppm_wf_disjoint [OF assms(1)] and D' = ppm_wf_disjoint [OF assms(2)]
  note C = ppm_wf_coalesced [OF assms(1)] and C' = ppm_wf_coalesced [OF assms(2)]
  show "freeset ppm' \<subseteq> freeset ppm"
    by (rule merged_tiling_subset [OF T' T D' D _ C' C]) (auto dest: freeset_order)
  show "freeset ppm \<subseteq> freeset ppm'"
    by (rule merged_tiling_subset [OF T T' D D' _ C C']) (auto dest: freeset_order)
qed

text \<open>
  C3: Allocation followed by release is the identity on the free memory: the free blocks (all
  splits undone by the merges) and the number of free pages are what they were.
\<close>

theorem ppm_alloc_free_roundtrip:
  assumes "ppm_wf ppm A" and "ppm_do_alloc_pages ppm order = Some (Some b, ppm1)"
    and "pcount (pages_tbl ppm ! b) = 0"
  shows "\<exists>ppm2. ppm_free_pages ppm1 b = Some ppm2 \<and> freeset ppm2 = freeset ppm
    \<and> free_pages_nr ppm2 = free_pages_nr ppm"
proof -
  obtain j where f: "find_block ppm order = Some (b, j)"
    using assms(2) by (auto simp: ppm_do_alloc_pages_def bind_eq_Some_conv Let_def split: option.splits)
  have wf1: "ppm_wf ppm1 (insert (b, order) A)" and new: "(b, order) \<notin> A"
    and cnt: "pcount (pages_tbl ppm1 ! b) = 1"
    and len: "length (pages_tbl ppm1) = length (pages_tbl ppm)"
    using ppm_wf_alloc [OF assms(1) f] assms(2,3) by auto
  obtain ppm2 where r: "ppm_free_pages ppm1 b = Some ppm2"
    and wf2: "ppm_wf ppm2 (insert (b, order) A - {(b, order)})"
    and len2: "length (pages_tbl ppm2) = length (pages_tbl ppm1)"
    using ppm_free_pages_ok [OF wf1, of b order] cnt by auto
  have wf2': "ppm_wf ppm2 A" using wf2 new by simp
  have "free_pages_nr ppm2 = free_pages_nr ppm"
    using wf2' assms(1) len len2 by (simp add: ppm_wf_def)
  with freeset_unique [OF assms(1) wf2'] r len len2 show ?thesis by simp
qed

theorem ppm_alloc_free_roundtrip_witness:
  "\<exists>ppm1 ppm2. ppm_do_alloc_pages ppm_small 3 = Some (Some 0, ppm1)
     \<and> ppm_free_pages ppm1 0 = Some ppm2 \<and> freeset ppm2 = {(0, 9)} \<and> free_pages_nr ppm2 = 512"
proof -
  obtain ppm1 where r: "ppm_do_alloc_pages ppm_small 3 = Some (Some 0, ppm1)"
    using ppm_small_alloc by blast
  have "pcount (pages_tbl ppm_small ! 0) = 0" by (simp add: ppm_small_def page_init_def refcount_defs)
  from ppm_alloc_free_roundtrip [OF ppm_small_wf r this] r show ?thesis
    by (auto simp: ppm_small_freeset) (simp add: ppm_small_def)
qed

lemma ppm_wf_free_nr:
  assumes "ppm_wf ppm A" and "length (pages_tbl ppm) < 2 ^ 32"
  shows "unat (free_pages_nr ppm) = pages_of (freeset ppm)
    \<and> unat (free_pages_nr ppm) + pages_of A = length (pages_tbl ppm)"
proof -
  note T = ppm_wf_tiling [OF assms(1)]
  have "finite (freeset ppm)" "finite A" using tiling_finite [OF T] by auto
  then have sum: "pages_of (freeset ppm) + pages_of A = length (pages_tbl ppm)"
    using tiling_pages [OF T] pages_of_union ppm_wf_disjoint [OF assms(1)] by metis
  then have "free_pages_nr ppm = of_nat (pages_of (freeset ppm))"
    using assms(1) by (simp add: ppm_wf_def flip: sum)
  moreover have "pages_of (freeset ppm) < 2 ^ 32" using sum assms(2) by linarith
  ultimately have "unat (free_pages_nr ppm) = pages_of (freeset ppm)"
    by (simp add: unat_of_nat take_bit_nat_eq_self)
  with sum show ?thesis by simp
qed

section \<open>Sequences of operations\<close>

text \<open>
  What the clients of a page manager do, with the blocks in use: allocate a block of any order, take
  another reference to a block in use (\<^verbatim>\<open>page_refcount_up\<close>), and release a reference.
\<close>

inductive ppm_step :: "ppm_s \<times> block set \<Rightarrow> ppm_s \<times> block set \<Rightarrow> bool" where
  alloc: "ppm_do_alloc_pages ppm order = Some (Some b, ppm') \<Longrightarrow> ppm_step (ppm, A) (ppm', insert (b, order) A)"
| alloc_fails: "ppm_do_alloc_pages ppm order = Some (None, ppm') \<Longrightarrow> ppm_step (ppm, A) (ppm', A)"
| share: "(b, k) \<in> A \<Longrightarrow> tbl_update b (snd \<circ> page_refcount_up) ppm = Some ppm' \<Longrightarrow> ppm_step (ppm, A) (ppm', A)"
| free: "(b, k) \<in> A \<Longrightarrow> ppm_free_pages ppm b = Some ppm' \<Longrightarrow>
    ppm_step (ppm, A) (ppm', if pcount (pages_tbl ppm ! b) > 1 then A else A - {(b, k)})"

lemma ppm_alloc_total:
  assumes "ppm_wf ppm A"
  obtains "ppm_do_alloc_pages ppm order = Some (None, ppm)"
  | b ppm' where "ppm_do_alloc_pages ppm order = Some (Some b, ppm')" and "ppm_wf ppm' (insert (b, order) A)"
    and "length (pages_tbl ppm') = length (pages_tbl ppm)"
proof (cases "find_block ppm order")
  case None
  then show thesis using that(1) by (simp add: ppm_do_alloc_pages_def)
next
  case (Some x)
  then show thesis using ppm_wf_alloc [OF assms, of order "fst x" "snd x"] that(2) by (cases x) auto
qed

lemma ppm_step_wf:
  assumes "ppm_step x y" and "ppm_wf (fst x) (snd x)"
  shows "ppm_wf (fst y) (snd y) \<and> length (pages_tbl (fst y)) = length (pages_tbl (fst x))"
  using assms
proof (cases rule: ppm_step.cases)
  case (alloc ppm order b ppm' A)
  then have "ppm_wf ppm A" using assms(2) by simp
  then show ?thesis by (rule ppm_alloc_total [of ppm A order]) (use alloc in auto)
next
  case (alloc_fails ppm order ppm' A)
  then have "ppm_wf ppm A" using assms(2) by simp
  then show ?thesis by (rule ppm_alloc_total [of ppm A order]) (use alloc_fails assms(2) in auto)
next
  case (share b k A ppm ppm')
  then have b: "b < length (pages_tbl ppm)" using assms(2) ppm_wf_less by auto
  let ?p = "snd (page_refcount_up (pages_tbl ppm ! b))"
  have "ppm' = ppm\<lparr>pages_tbl := (pages_tbl ppm)[b := ?p]\<rparr>" using share(4) b by (simp add: tbl_update_in)
  moreover have "?p = (pages_tbl ppm ! b)\<lparr>pcount := pcount (pages_tbl ppm ! b) + 1\<rparr>"
    by (simp add: page_refcount_up_def refcount_defs)
  ultimately show ?thesis using share(1,2) assms(2) ppm_wf_count [of ppm A] by simp
next
  case (free b k A ppm ppm')
  then have "ppm_wf ppm A" using assms(2) by simp
  from this free(3) show ?thesis by (rule ppm_free_pages_ok) (use free in auto)
qed

lemma ppm_run_wf:
  assumes "ppm_step\<^sup>*\<^sup>* x y" and "ppm_wf (fst x) (snd x)"
  shows "ppm_wf (fst y) (snd y) \<and> length (pages_tbl (fst y)) = length (pages_tbl (fst x))"
  using assms by (induction rule: rtranclp_induct) (use ppm_step_wf in auto)

text \<open>
  C5: The page manager keeps exact accounts over its whole life. From a well-formed page manager (as
  \<^verbatim>\<open>ppm_init\<close> leaves it), after any sequence of allocations, new references and releases: every
  operation the clients may do next ends inside the page table; no two blocks in use share a page;
  \<^verbatim>\<open>free_pages_nr\<close> is the total size of the free blocks; and together with the blocks in use it accounts
  for the whole table, so no page is lost or handed out twice.
\<close>

theorem ppm_run_accounts:
  assumes "ppm_wf ppm0 A0" and "length (pages_tbl ppm0) < 2 ^ 32" and "ppm_step\<^sup>*\<^sup>* (ppm0, A0) (ppm, A)"
  shows "(\<forall>order. ppm_do_alloc_pages ppm order \<noteq> None) \<and> (\<forall>(b, k) \<in> A. ppm_free_pages ppm b \<noteq> None)
    \<and> (\<forall>x \<in> A. \<forall>y \<in> A. x \<noteq> y \<longrightarrow> cells x \<inter> cells y = {})
    \<and> unat (free_pages_nr ppm) = pages_of (freeset ppm)
    \<and> unat (free_pages_nr ppm) + pages_of A = length (pages_tbl ppm0)"
proof -
  have wf: "ppm_wf ppm A" and len: "length (pages_tbl ppm) = length (pages_tbl ppm0)"
    using ppm_run_wf [OF assms(3)] assms(1) by simp_all
  have "ppm_do_alloc_pages ppm order \<noteq> None" for order by (rule ppm_alloc_total [OF wf, of order]) auto
  moreover have "ppm_free_pages ppm b \<noteq> None" if "(b, k) \<in> A" for b k
    by (rule ppm_free_pages_ok [OF wf that]) auto
  moreover have "\<forall>x \<in> A. \<forall>y \<in> A. x \<noteq> y \<longrightarrow> cells x \<inter> cells y = {}"
    using tiling_unique [OF ppm_wf_tiling [OF wf]] by blast
  moreover have "unat (free_pages_nr ppm) = pages_of (freeset ppm)
      \<and> unat (free_pages_nr ppm) + pages_of A = length (pages_tbl ppm0)"
    using ppm_wf_free_nr [OF wf] len assms(2) by simp
  ultimately show ?thesis by blast
qed

text \<open>The witness: a block of 8 pages is allocated out of 512 and released.\<close>

theorem ppm_run_accounts_witness:
  "\<exists>ppm1 ppm2. ppm_step\<^sup>*\<^sup>* (ppm_small, {}) (ppm1, {(0, 3)}) \<and> unat (free_pages_nr ppm1) + 8 = 512
     \<and> ppm_step\<^sup>*\<^sup>* (ppm_small, {}) (ppm2, {}) \<and> unat (free_pages_nr ppm2) = 512"
proof -
  obtain ppm1 where r1: "ppm_do_alloc_pages ppm_small 3 = Some (Some 0, ppm1)" "ppm_wf ppm1 {(0, 3)}"
    "pcount (pages_tbl ppm1 ! 0) = 1" using ppm_small_alloc by blast
  obtain ppm2 where r2: "ppm_free_pages ppm1 0 = Some ppm2"
    using ppm_free_pages_ok [OF r1(2), of 0 3] by blast
  have s1: "ppm_step (ppm_small, {}) (ppm1, {(0, 3)})" using ppm_step.alloc [OF r1(1), of "{}"] by simp
  have s2: "ppm_step (ppm1, {(0, 3)}) (ppm2, {})" using ppm_step.free [OF _ r2, of 3 "{(0, 3)}"] r1(3) by simp
  have run: "ppm_step\<^sup>*\<^sup>* (ppm_small, {}) (ppm1, {(0, 3)})" "ppm_step\<^sup>*\<^sup>* (ppm_small, {}) (ppm2, {})"
    using s1 s2 by auto
  have len: "length (pages_tbl ppm_small) = 512" by (simp add: ppm_small_def)
  then have "unat (free_pages_nr ppm1) + 8 = 512" "unat (free_pages_nr ppm2) = 512"
    using ppm_run_accounts [OF ppm_small_wf _ run(1)] ppm_run_accounts [OF ppm_small_wf _ run(2)]
    by (simp_all add: pages_of_def)
  with run show ?thesis by blast
qed

end
