(* ===== verification/Mm_PpmInit.thy ===== *)
theory Mm_PpmInit
  imports Mm_Ppm Libk_Bits
begin

text \<open>
  Initialization of the page manager and the policy layer over it, from \<^verbatim>\<open>src/kernel/mm/ppm.c\<close>:
  \<^verbatim>\<open>ppm_init\<close> builds the page table, reserves the pages of the kernel image, of the page table
  itself and of the boot area, and releases every other page one by one; \<^verbatim>\<open>ppm_alloc_pages\<close>
  keeps a share of the free pages for the more important requests and retries. The size of a page
  descriptor in bytes is a parameter. The lemmas show that the booted page manager is well formed,
  and supply the witnesses of theory \<^verbatim>\<open>Mm_Ppm\<close>.
\<close>

section \<open>Initialization\<close>

record boot_info_s =
  local_cluster_id :: u32
  reserved_start :: u32
  reserved_end :: u32

fun reserve_pages :: "nat \<Rightarrow> nat \<Rightarrow> ppm_s \<Rightarrow> ppm_s option" where
  "reserve_pages i 0 ppm = Some ppm"
| "reserve_pages i (Suc n) ppm = do {
     ppm \<leftarrow> tbl_update i (set_state PGRESERVED) ppm;
     reserve_pages (Suc i) n ppm }"

definition ppm_init_pages :: "u32 \<Rightarrow> ppm_s \<Rightarrow> u32 \<Rightarrow> ppm_s option" where
  "ppm_init_pages sizeof_page ppm cid =
     (let reserved_pages_nr =
            drop_bit PMM_PAGE_SHIFT (ARROUND_UP (pages_nr ppm * sizeof_page) PMM_PAGE_SIZE);
          reserved_pages_nr =
            reserved_pages_nr + drop_bit PMM_PAGE_SHIFT (vaddr_start ppm - vaddr_begin ppm);
          ppm = ppm\<lparr>pages_tbl := replicate (unat (pages_nr ppm)) (page_init cid)\<rparr>
      in reserve_pages 0 (unat reserved_pages_nr) ppm)"

text \<open>
  The boot area, page by page. The descriptor of an address is computed through the page number on
  the boot cluster and directly elsewhere, with the same result on the cluster's own page manager.
  The fuel \<open>2 ^ 20\<close> is the number of pages of the address space: it runs out only if the address
  wraps around.
\<close>

definition boot_fuel :: nat where "boot_fuel = 2 ^ 20"

fun reserve_boot :: "nat \<Rightarrow> u32 \<Rightarrow> u32 \<Rightarrow> ppm_s \<Rightarrow> ppm_s option" where
  "reserve_boot 0 reserved limit ppm = None"
| "reserve_boot (Suc fuel) reserved limit ppm =
     (if reserved < limit then do {
        ppm \<leftarrow> tbl_update (ppm_addr2page ppm reserved) (set_state PGRESERVED) ppm;
        reserve_boot fuel (reserved + PMM_PAGE_SIZE) limit ppm }
      else Some ppm)"

fun free_boot :: "nat \<Rightarrow> nat \<Rightarrow> ppm_s \<Rightarrow> ppm_s option" where
  "free_boot i 0 ppm = Some ppm"
| "free_boot i (Suc n) ppm = do {
     page \<leftarrow> arr_get (pages_tbl ppm) i;
     ppm \<leftarrow> (if pstate page \<noteq> PGRESERVED
             then ppm_free_pages_nolock ppm (unat (porder page)) i else Some ppm);
     free_boot (Suc i) n ppm }"

definition ppm_init_finalize :: "u32 \<Rightarrow> ppm_s \<Rightarrow> boot_info_s \<Rightarrow> ppm_s option" where
  "ppm_init_finalize sizeof_page ppm info = do {
     ppm \<leftarrow> ppm_init_pages sizeof_page ppm (local_cluster_id info);
     ppm \<leftarrow> reserve_boot (Suc boot_fuel) (reserved_start info) (reserved_end info) ppm;
     free_boot 0 (unat (pages_nr ppm)) ppm }"

definition percent :: "u32 \<Rightarrow> u32 \<Rightarrow> u32" where
  "percent n p = (n * p) div 100"

definition ppm_init ::
  "u32 \<Rightarrow> u64 \<Rightarrow> u64 \<Rightarrow> u32 \<Rightarrow> u32 \<Rightarrow> boot_info_s \<Rightarrow> ppm_s option" where
  "ppm_init sizeof_page begin_addr limit vbegin vstart info = do {
     let ppm = \<lparr>ppm_signature = PPM_ID,
       ppn_start = ucast (drop_bit PMM_PAGE_SHIFT begin_addr),
       vaddr_begin = vbegin, vaddr_start = vstart,
       free_pages = replicate PPM_MAX_ORDER \<lparr>broot = [], bpages_nr = 0\<rparr>,
       pages_tbl = [],
       pages_nr = drop_bit PMM_PAGE_SHIFT (ucast (limit - begin_addr)),
       free_pages_nr = 0, uprio_pages_min = 0, kprio_pages_min = 0, urgent_pages_min = 0,
       ppm_begin = begin_addr,
       wait_tbl = replicate PPM_MAX_ORDER (wait_queue_init ''PPM WAIT TBL'')\<rparr>;
     ppm \<leftarrow> ppm_init_finalize sizeof_page ppm info;
     Some (ppm\<lparr>uprio_pages_min := percent (free_pages_nr ppm) 80,
               kprio_pages_min := percent (free_pages_nr ppm) 15,
               urgent_pages_min := percent (free_pages_nr ppm) 5\<rparr>) }"

section \<open>Allocation policy\<close>

definition AF_TTL_MASK :: u32 where "AF_TTL_MASK = 0x000000FF"
definition AF_TTL_LOW :: u32 where "AF_TTL_LOW = 0x00000008"
definition AF_TTL_HIGH :: u32 where "AF_TTL_HIGH = 0x00000080"
definition AF_USR :: u32 where "AF_USR = 0x00020000"
definition AF_PRIO :: u32 where "AF_PRIO = 0x00100000"
definition AF_AFFINITY :: u32 where "AF_AFFINITY = 0x00800000"

definition PT_ATTR_MEM_PRIO :: u32 where "PT_ATTR_MEM_PRIO = 0x008"
definition PT_ATTR_INTERLEAVE_SEQ :: u32 where "PT_ATTR_INTERLEAVE_SEQ = 0x010"
definition PT_ATTR_INTERLEAVE_ALL :: u32 where "PT_ATTR_INTERLEAVE_ALL = 0x020"
definition PT_ATTR_MEM_CID_RR :: u32 where "PT_ATTR_MEM_CID_RR = 0x100"

text \<open>
  Every cluster the function turns to is the current one (the code replaces each remote page
  manager by \<^verbatim>\<open>current_cluster->ppm\<close>), so the loop runs on one page manager when it is called, as
  \<^verbatim>\<open>kmem_alloc\<close> and the cache manager do, on the current cluster's. The cluster number it keeps is
  then used for nothing else and is left out. \<open>dqdt k\<close> is whether the \<^verbatim>\<open>dqdt_mem_request\<close> made with
  \<open>k\<close> iterations left finds a cluster; \<open>last_cid\<close> is the \<^verbatim>\<open>ppm_last_cid\<close> of the calling thread.

  \<open>page_threshold\<close> is the number of pages a request has to leave free.
\<close>

definition page_threshold :: "ppm_s \<Rightarrow> u32 \<Rightarrow> bool \<Rightarrow> u32" where
  "page_threshold ppm flags isUseUPRIO =
     (if isUseUPRIO then uprio_pages_min ppm
      else if flags AND AF_USR \<noteq> 0 then kprio_pages_min ppm
      else if flags AND AF_PRIO \<noteq> 0 then urgent_pages_min ppm
      else 0)"

function alloc_loop ::
  "(nat \<Rightarrow> bool) \<Rightarrow> ppm_s \<Rightarrow> u32 \<Rightarrow> nat \<Rightarrow> u32 \<Rightarrow> bool \<Rightarrow> bool \<Rightarrow> bool \<Rightarrow> nat \<Rightarrow>
   (nat option \<times> ppm_s \<times> u32) option" where
  "alloc_loop dqdt ppm last_cid order flags isInterleave isSeqNextCID isUseUPRIO cntr =
     (if cntr = 0 then Some (None, ppm, last_cid)
      else do {
        let cntr = cntr - 1;
        let threshold = page_threshold ppm flags isUseUPRIO;
        let last_cid =
          (if \<not> isUseUPRIO \<and> flags AND AF_USR \<noteq> 0 \<and> isInterleave then last_cid + 1 else last_cid);
        (ptr, ppm) \<leftarrow> (if free_pages_nr ppm > threshold then ppm_do_alloc_pages ppm order
                       else Some (None, ppm));
        if ptr \<noteq> None then Some (ptr, ppm, last_cid)
        else if cntr = 0 \<and> isUseUPRIO
        then alloc_loop dqdt ppm last_cid order flags isInterleave isSeqNextCID False (unat AF_TTL_LOW)
        else if isSeqNextCID \<or> dqdt cntr
        then alloc_loop dqdt ppm last_cid order flags isInterleave isSeqNextCID isUseUPRIO cntr
        else alloc_loop dqdt ppm last_cid order flags isInterleave isSeqNextCID False cntr })"
  by pat_completeness auto
termination
  by (relation "measures [\<lambda>(_, _, _, _, _, _, _, u, _). if u then 1 else 0,
      \<lambda>(_, _, _, _, _, _, _, _, n). n]")
    (auto split: if_splits)

declare alloc_loop.simps [simp del]

definition ppm_alloc_pages ::
  "(nat \<Rightarrow> bool) \<Rightarrow> u32 \<Rightarrow> u32 \<Rightarrow> ppm_s \<Rightarrow> nat \<Rightarrow> u32 \<Rightarrow> (nat option \<times> ppm_s \<times> u32) option" where
  "ppm_alloc_pages dqdt attr_flags last_cid ppm order flags =
     (let affinity = (flags AND AF_AFFINITY \<noteq> 0);
          isInterleave = (affinity \<and> (attr_flags AND PT_ATTR_INTERLEAVE_ALL \<noteq> 0
                                       \<or> attr_flags AND PT_ATTR_INTERLEAVE_SEQ \<noteq> 0));
          isSeqNextCID = (affinity \<and> attr_flags AND PT_ATTR_MEM_CID_RR \<noteq> 0);
          isUseUPRIO = (affinity \<and> attr_flags AND PT_ATTR_MEM_PRIO \<noteq> 0);
          cntr = (if isUseUPRIO then AF_TTL_HIGH AND AF_TTL_MASK else flags AND AF_TTL_MASK);
          cntr = (if cntr = 0 then 1 else cntr)
      in alloc_loop dqdt ppm last_cid order flags isInterleave isSeqNextCID isUseUPRIO (unat cntr))"

section \<open>The booted page manager\<close>

text \<open>Before any page is released, every page is a block of its own that is in use.\<close>

definition singles :: "nat \<Rightarrow> (nat \<Rightarrow> bool) \<Rightarrow> block set" where
  "singles N P = {(i, 0) | i. i < N \<and> P i}"

definition boot_ppm :: "ppm_s \<Rightarrow> bool" where
  "boot_ppm ppm \<longleftrightarrow> free_pages ppm = replicate PPM_MAX_ORDER \<lparr>broot = [], bpages_nr = 0\<rparr>
     \<and> free_pages_nr ppm = 0
     \<and> (\<forall>p \<in> set (pages_tbl ppm). porder p = 0 \<and> pstate p \<in> {PGINIT, PGRESERVED})"

lemma tiling_singles: "tiling N (singles N (\<lambda>_. True))"
  by (auto simp: tiling_def singles_def aligned_def cells_def)

lemma pages_of_singles: "pages_of (singles N (\<lambda>_. True)) = N"
  using tiling_pages [OF tiling_singles] .

lemma boot_ppm_wf:
  assumes "boot_ppm ppm" and "2 ^ PPM_LAST_ORDER dvd length (pages_tbl ppm)"
  shows "ppm_wf ppm (singles (length (pages_tbl ppm)) (\<lambda>_. True))"
proof -
  let ?N = "length (pages_tbl ppm)"
  have F: "freeset ppm = {}" using assms(1) by (auto simp: freeset_def boot_ppm_def)
  have pg: "porder (pages_tbl ppm ! i) = 0 \<and> pstate (pages_tbl ppm ! i) \<noteq> PGFREE" if "i < ?N" for i
    using assms(1) that by (auto simp: boot_ppm_def dest!: bspec [OF _ nth_mem])
  have "flists (free_pages ppm) {}" using assms(1) by (simp add: flists_def boot_ppm_def)
  moreover have "binv ?N {} (singles ?N (\<lambda>_. True)) {} (st_of ppm) (od_of ppm)"
    using tiling_singles [of ?N] pg by (auto simp: binv_def coalesced_def kconfig) (auto simp: singles_def)
  ultimately show ?thesis
    using assms pages_of_singles [of ?N] F by (simp add: ppm_wf_def ppm_inv_def boot_ppm_def)
qed

lemma set_state_reserved [simp]:
  "pstate (set_state PGRESERVED p) = PGRESERVED" "porder (set_state PGRESERVED p) = porder p"
  by (simp_all add: set_state_def)

lemma boot_ppm_reserve:
  assumes "boot_ppm ppm" and "i < length (pages_tbl ppm)"
  obtains ppm' where "tbl_update i (set_state PGRESERVED) ppm = Some ppm'" and "boot_ppm ppm'"
    and "length (pages_tbl ppm') = length (pages_tbl ppm)" and "pages_nr ppm' = pages_nr ppm"
    and "vaddr_begin ppm' = vaddr_begin ppm"
    and "st_of ppm' = (st_of ppm)(i := PGRESERVED)"
proof -
  let ?p = "set_state PGRESERVED (pages_tbl ppm ! i)"
  let ?ppm = "ppm\<lparr>pages_tbl := (pages_tbl ppm)[i := ?p]\<rparr>"
  have "porder (pages_tbl ppm ! i) = 0" using assms by (auto simp: boot_ppm_def)
  then have "porder p = 0 \<and> pstate p \<in> {PGINIT, PGRESERVED}" if "p \<in> set ((pages_tbl ppm)[i := ?p])" for p
    using subsetD [OF set_update_subset_insert that] assms(1) by (auto simp: boot_ppm_def)
  then have "boot_ppm ?ppm" using assms(1) by (simp add: boot_ppm_def)
  then show thesis using that [of ?ppm] assms(2) by (simp add: tbl_update_in st_update)
qed

lemma reserve_pages_ok:
  assumes "boot_ppm ppm" and "i + n \<le> length (pages_tbl ppm)"
  shows "\<exists>ppm'. reserve_pages i n ppm = Some ppm' \<and> boot_ppm ppm'
    \<and> length (pages_tbl ppm') = length (pages_tbl ppm) \<and> pages_nr ppm' = pages_nr ppm
    \<and> vaddr_begin ppm' = vaddr_begin ppm
    \<and> (\<forall>j. st_of ppm' j = (if i \<le> j \<and> j < i + n then PGRESERVED else st_of ppm j))"
  using assms
proof (induction n arbitrary: i ppm)
  case (Suc n)
  then have "i < length (pages_tbl ppm)" by simp
  then obtain ppm1 where s: "tbl_update i (set_state PGRESERVED) ppm = Some ppm1" "boot_ppm ppm1"
    "length (pages_tbl ppm1) = length (pages_tbl ppm)" "pages_nr ppm1 = pages_nr ppm"
    "vaddr_begin ppm1 = vaddr_begin ppm" "st_of ppm1 = (st_of ppm)(i := PGRESERVED)"
    using boot_ppm_reserve [OF Suc.prems(1)] by blast
  moreover have "st_of ppm1 j = ((st_of ppm)(i := PGRESERVED)) j" for j using fun_cong [OF s(6)] .
  ultimately show ?case using Suc.IH [of ppm1 "Suc i"] Suc.prems(2) by auto
qed auto

lemma ex_Suc_cases: "(\<exists>m. P m) \<longleftrightarrow> P 0 \<or> (\<exists>m. P (Suc m))"
  by (metis not0_implies_Suc)

text \<open>
  The boot area: the address advances by one page as long as it does not wrap around, which it
  cannot do below the last page of the address space.
\<close>

definition boot_area :: "u32 \<Rightarrow> u32 \<Rightarrow> u32 \<Rightarrow> nat \<Rightarrow> bool" where
  "boot_area vbegin start limit j \<longleftrightarrow>
     (\<exists>m. unat start + m * 2 ^ 12 < unat limit
        \<and> j = unat (drop_bit 12 (start + of_nat m * PMM_PAGE_SIZE - vbegin)))"

lemma boot_area_step:
  assumes "start < limit" and "unat (start + PMM_PAGE_SIZE) = unat start + 2 ^ 12"
  shows "boot_area vbegin start limit j \<longleftrightarrow>
    j = unat (drop_bit 12 (start - vbegin)) \<or> boot_area vbegin (start + PMM_PAGE_SIZE) limit j"
proof -
  have "unat start < unat limit" using assms(1) by (simp add: word_less_nat_alt)
  then show ?thesis
    unfolding boot_area_def assms(2)
    by (subst ex_Suc_cases) (simp add: algebra_simps)
qed

lemma reserve_boot_ok:
  assumes "boot_ppm ppm" and "unat limit \<le> 2 ^ 32 - 2 ^ 12"
    and "unat limit \<le> unat reserved + fuel * 2 ^ 12"
    and "\<And>ad. reserved \<le> ad \<Longrightarrow> ad < limit \<Longrightarrow> ppm_addr2page ppm ad < length (pages_tbl ppm)"
  shows "\<exists>ppm'. reserve_boot (Suc fuel) reserved limit ppm = Some ppm' \<and> boot_ppm ppm'
    \<and> length (pages_tbl ppm') = length (pages_tbl ppm) \<and> pages_nr ppm' = pages_nr ppm
    \<and> (\<forall>j. st_of ppm' j =
          (if boot_area (vaddr_begin ppm) reserved limit j then PGRESERVED else st_of ppm j))"
  using assms
proof (induction fuel arbitrary: reserved ppm)
  case 0
  then have "\<not> reserved < limit" by (simp add: word_less_nat_alt)
  then show ?case using 0 by (simp add: boot_area_def word_less_nat_alt)
next
  case (Suc fuel)
  show ?case
  proof (cases "reserved < limit")
    case True
    obtain ppm1 where s: "tbl_update (ppm_addr2page ppm reserved) (set_state PGRESERVED) ppm = Some ppm1"
      "boot_ppm ppm1" "length (pages_tbl ppm1) = length (pages_tbl ppm)" "pages_nr ppm1 = pages_nr ppm"
      "vaddr_begin ppm1 = vaddr_begin ppm"
      "st_of ppm1 = (st_of ppm)(ppm_addr2page ppm reserved := PGRESERVED)"
      using boot_ppm_reserve [OF Suc.prems(1) Suc.prems(4) [OF order_refl True]] by blast
    have st1: "st_of ppm1 j = ((st_of ppm)(ppm_addr2page ppm reserved := PGRESERVED)) j" for j
      using fun_cong [OF s(6)] .
    have next_addr: "unat (reserved + PMM_PAGE_SIZE) = unat reserved + 2 ^ 12"
      using True Suc.prems(2) by (simp add: kconfig unat_word_ariths word_less_nat_alt)
    have "\<exists>ppm'. reserve_boot (Suc fuel) (reserved + PMM_PAGE_SIZE) limit ppm1 = Some ppm' \<and> boot_ppm ppm'
      \<and> length (pages_tbl ppm') = length (pages_tbl ppm1) \<and> pages_nr ppm' = pages_nr ppm1
      \<and> (\<forall>j. st_of ppm' j =
          (if boot_area (vaddr_begin ppm1) (reserved + PMM_PAGE_SIZE) limit j then PGRESERVED else st_of ppm1 j))"
    proof (rule Suc.IH [OF s(2) Suc.prems(2)])
      show "unat limit \<le> unat (reserved + PMM_PAGE_SIZE) + fuel * 2 ^ 12"
        using Suc.prems(3) next_addr by simp
      show "ppm_addr2page ppm1 ad < length (pages_tbl ppm1)"
        if "reserved + PMM_PAGE_SIZE \<le> ad" "ad < limit" for ad
        using Suc.prems(4) [of ad] that next_addr s(3,5)
        by (simp add: word_le_nat_alt ppm_addr2page_def)
    qed
    then show ?thesis
      using True s boot_area_step [OF True next_addr, of "vaddr_begin ppm"] st1
      by (auto simp: ppm_addr2page_def kconfig simp del: reserve_boot.simps
          simp: reserve_boot.simps(2) [of "Suc fuel"])
  next
    case False
    then show ?thesis using Suc.prems(1) by (simp add: boot_area_def word_less_nat_alt)
  qed
qed

text \<open>Releasing the pages that are not reserved, one after the other.\<close>

lemma free_boot_ok:
  assumes "ppm_wf ppm (singles N (\<lambda>j. i \<le> j \<or> R j))" and "length (pages_tbl ppm) = N" and "i + n = N"
    and "\<And>j. i \<le> j \<Longrightarrow> j < N \<Longrightarrow> pstate (pages_tbl ppm ! j) = PGRESERVED \<longleftrightarrow> R j"
  shows "\<exists>ppm'. free_boot i n ppm = Some ppm' \<and> ppm_wf ppm' (singles N R) \<and> length (pages_tbl ppm') = N"
  using assms
proof (induction n arbitrary: i ppm)
  case 0
  then have "singles N (\<lambda>j. i \<le> j \<or> R j) = singles N R" by (auto simp: singles_def)
  with 0 show ?case by simp
next
  case (Suc n)
  let ?A = "singles N (\<lambda>j. i \<le> j \<or> R j)" and ?A' = "singles N (\<lambda>j. Suc i \<le> j \<or> R j)"
  have i: "i < N" using Suc.prems(3) by simp
  then have inA: "(i, 0) \<in> ?A" by (simp add: singles_def)
  have R: "pstate (pages_tbl ppm ! i) = PGRESERVED \<longleftrightarrow> R i" using Suc.prems(4) i by simp
  have "\<exists>ppm1. (if \<not> R i then ppm_free_pages_nolock ppm (od_of ppm i) i else Some ppm) = Some ppm1
    \<and> ppm_wf ppm1 ?A' \<and> length (pages_tbl ppm1) = N
    \<and> (\<forall>j. Suc i \<le> j \<longrightarrow> j < N \<longrightarrow> (pstate (pages_tbl ppm1 ! j) = PGRESERVED \<longleftrightarrow> R j))"
  proof (cases "R i")
    case True
    then have "?A' = ?A" by (auto simp: singles_def not_less_eq_eq le_less)
    with True Suc.prems show ?thesis by simp
  next
    case False
    then have A: "?A - {(i, 0)} = ?A'" by (auto simp: singles_def)
    obtain ppm1 where "ppm_free_pages_nolock ppm 0 i = Some ppm1" "ppm_wf ppm1 ?A'"
      "length (pages_tbl ppm1) = length (pages_tbl ppm)"
      and nth: "\<And>j. j < length (pages_tbl ppm) \<Longrightarrow> j \<noteq> i \<Longrightarrow>
        pages_tbl ppm1 ! j = set_order (od_of ppm1 j) (pages_tbl ppm ! j)"
      using ppm_wf_free [OF Suc.prems(1) inA, unfolded A] by metis
    moreover have "pstate (pages_tbl ppm1 ! j) = PGRESERVED \<longleftrightarrow> R j" if "Suc i \<le> j" "j < N" for j
      using arg_cong [OF nth [of j], of pstate] that Suc.prems(2) Suc.prems(4) [of j] by simp
    moreover have "od_of ppm i = 0" using ppm_wf_order [OF Suc.prems(1) inA] .
    ultimately show ?thesis using False Suc.prems(2) by (intro exI [of _ ppm1]) simp
  qed
  then obtain ppm1 where
    step: "(if \<not> R i then ppm_free_pages_nolock ppm (od_of ppm i) i else Some ppm) = Some ppm1"
    and wf1: "ppm_wf ppm1 ?A'" and len1: "length (pages_tbl ppm1) = N"
    and st1: "\<And>j. Suc i \<le> j \<Longrightarrow> j < N \<Longrightarrow> pstate (pages_tbl ppm1 ! j) = PGRESERVED \<longleftrightarrow> R j"
    by blast
  have "Suc i + n = N" using Suc.prems(3) by simp
  from Suc.IH [OF wf1 len1 this st1] show ?case
    using step R i Suc.prems(2) by (simp add: karray)
qed

text \<open>
  C4: A booted page manager is well formed. When the number of pages is a multiple of the largest
  block, the descriptors and the kernel image fit in the region, and the boot area lies in the
  region below the last page of the address space, \<^verbatim>\<open>ppm_init\<close> succeeds without leaving the page
  table; the blocks in use are exactly the reserved pages, every other page is free (and merged
  into the largest possible blocks), and the three reserves are 80, 15 and 5 percent of the free
  pages.
\<close>

theorem ppm_init_wf:
  fixes sizeof_page vbegin vstart :: u32 and begin_addr limit :: u64
  defines "nr \<equiv> drop_bit 12 (ucast (limit - begin_addr)) :: u32"
  assumes "2 ^ PPM_LAST_ORDER dvd unat nr"
    and "unat (drop_bit 12 (ARROUND_UP (nr * sizeof_page) PMM_PAGE_SIZE)
           + drop_bit 12 (vstart - vbegin) :: u32) \<le> unat nr"
    and "unat (reserved_end info) \<le> 2 ^ 32 - 2 ^ 12"
    and "\<forall>ad. reserved_start info \<le> ad \<and> ad < reserved_end info
           \<longrightarrow> unat (drop_bit 12 (ad - vbegin)) < unat nr"
  shows "\<exists>ppm. ppm_init sizeof_page begin_addr limit vbegin vstart info = Some ppm
    \<and> length (pages_tbl ppm) = unat nr
    \<and> ppm_wf ppm (singles (unat nr) (\<lambda>i.
        i < unat (drop_bit 12 (ARROUND_UP (nr * sizeof_page) PMM_PAGE_SIZE)
              + drop_bit 12 (vstart - vbegin) :: u32)
        \<or> boot_area vbegin (reserved_start info) (reserved_end info) i))
    \<and> uprio_pages_min ppm = percent (free_pages_nr ppm) 80
    \<and> kprio_pages_min ppm = percent (free_pages_nr ppm) 15
    \<and> urgent_pages_min ppm = percent (free_pages_nr ppm) 5"
proof -
  define p0 where "p0 = \<lparr>ppm_signature = PPM_ID,
       ppn_start = ucast (drop_bit PMM_PAGE_SHIFT begin_addr),
       vaddr_begin = vbegin, vaddr_start = vstart,
       free_pages = replicate PPM_MAX_ORDER \<lparr>broot = [], bpages_nr = 0\<rparr>,
       pages_tbl = replicate (unat nr) (page_init (local_cluster_id info)),
       pages_nr = nr,
       free_pages_nr = 0, uprio_pages_min = 0, kprio_pages_min = 0, urgent_pages_min = 0,
       ppm_begin = begin_addr,
       wait_tbl = replicate PPM_MAX_ORDER (wait_queue_init ''PPM WAIT TBL'')\<rparr>"
  let ?res = "unat (drop_bit 12 (ARROUND_UP (nr * sizeof_page) PMM_PAGE_SIZE)
           + drop_bit 12 (vstart - vbegin) :: u32)"
  have b0: "boot_ppm p0" and l0: "length (pages_tbl p0) = unat nr" "vaddr_begin p0 = vbegin" "pages_nr p0 = nr"
    by (simp_all add: p0_def boot_ppm_def page_init_def)
  obtain p1 where p1: "reserve_pages 0 ?res p0 = Some p1" "boot_ppm p1"
    "length (pages_tbl p1) = unat nr" "pages_nr p1 = nr" "vaddr_begin p1 = vbegin"
    and st1: "\<And>j. st_of p1 j = (if j < ?res then PGRESERVED else st_of p0 j)"
    using reserve_pages_ok [OF b0, of 0 ?res] assms(3) l0 by auto
  have "unat (reserved_end info) \<le> unat (reserved_start info) + boot_fuel * 2 ^ 12"
    using assms(4) by (simp add: boot_fuel_def)
  then obtain p2 where p2: "reserve_boot (Suc boot_fuel) (reserved_start info) (reserved_end info) p1 = Some p2"
    "boot_ppm p2" "length (pages_tbl p2) = unat nr" "pages_nr p2 = nr"
    and st2: "\<And>j. st_of p2 j = (if boot_area vbegin (reserved_start info) (reserved_end info) j
      then PGRESERVED else st_of p1 j)"
    using reserve_boot_ok [OF p1(2) assms(4), of "reserved_start info" boot_fuel] assms(5) p1(3-5)
    by (auto simp: ppm_addr2page_def kconfig simp del: reserve_boot.simps)
  let ?R = "\<lambda>i. i < ?res \<or> boot_area vbegin (reserved_start info) (reserved_end info) i"
  have R: "pstate (pages_tbl p2 ! j) = PGRESERVED \<longleftrightarrow> ?R j" if "j < unat nr" for j
    using that by (simp add: st1 st2) (simp add: p0_def page_init_def)
  have "ppm_wf p2 (singles (unat nr) (\<lambda>j. 0 \<le> j \<or> ?R j))"
    using boot_ppm_wf [OF p2(2)] assms(2) p2(3) by simp
  from free_boot_ok [OF this p2(3)] R obtain p3 where p3: "free_boot 0 (unat nr) p2 = Some p3"
    "ppm_wf p3 (singles (unat nr) ?R)" "length (pages_tbl p3) = unat nr" by auto
  let ?ppm = "p3\<lparr>uprio_pages_min := percent (free_pages_nr p3) 80,
    kprio_pages_min := percent (free_pages_nr p3) 15, urgent_pages_min := percent (free_pages_nr p3) 5\<rparr>"
  have "ppm_init sizeof_page begin_addr limit vbegin vstart info = Some ?ppm"
    using p1(1) p2(1,4) p3(1)
    by (simp add: ppm_init_def ppm_init_finalize_def ppm_init_pages_def Let_def p0_def kconfig
        del: reserve_boot.simps flip: nr_def)
  moreover have "ppm_wf ?ppm (singles (unat nr) ?R)"
    using p3(2) by (simp add: ppm_wf_def ppm_inv_def freeset_def)
  ultimately show ?thesis using p3(3) by auto
qed

theorem ppm_init_wf_witness:
  "\<exists>ppm. ppm_init 64 0 0x200000 0 0x4000 \<lparr>local_cluster_id = 0, reserved_start = 0x10000, reserved_end = 0x12000\<rparr>
       = Some ppm
     \<and> length (pages_tbl ppm) = 512
     \<and> ppm_wf ppm (singles 512 (\<lambda>i. i < 12 \<or> boot_area 0 0x10000 0x12000 i))"
proof -
  have "unat (drop_bit 12 ad) < 512" if "ad < 0x12000" for ad :: u32
    using that by (simp add: unat_drop_bit_eq drop_bit_eq_div word_less_nat_alt unat_div)
  then show ?thesis
    using ppm_init_wf [where limit = "0x200000" and begin_addr = 0 and sizeof_page = 64 and vbegin = 0
        and vstart = "0x4000" and info = "\<lparr>local_cluster_id = 0, reserved_start = 0x10000, reserved_end = 0x12000\<rparr>"]
    by (auto simp: kconfig ARROUND_UP_def drop_bit_eq_div)
qed

section \<open>The allocation policy\<close>

lemma do_alloc_cases:
  assumes "ppm_wf ppm A"
  obtains "ppm_do_alloc_pages ppm order = Some (None, ppm)" and "\<And>b k. (b, k) \<in> freeset ppm \<Longrightarrow> k < order"
  | b ppm' where "ppm_do_alloc_pages ppm order = Some (Some b, ppm')" and "ppm_wf ppm' (insert (b, order) A)"
proof (cases "find_block ppm order")
  case None
  then have "k < order" if "(b, k) \<in> freeset ppm" for b k
    using that find_block_None [OF None, of k] by (force simp: freeset_def not_less)
  then show thesis using that(1) None by (simp add: ppm_do_alloc_pages_def)
next
  case (Some x)
  then show thesis using ppm_wf_alloc [OF assms, of order "fst x" "snd x"] that(2) by (cases x) auto
qed

lemma free_zero:
  assumes "ppm_wf ppm A" and "length (pages_tbl ppm) < 2 ^ 32" and "free_pages_nr ppm = 0"
  shows "freeset ppm = {}"
proof -
  have "finite (freeset ppm)" using tiling_finite [OF ppm_wf_tiling [OF assms(1)]] by blast
  moreover have "pages_of (freeset ppm) = 0" using ppm_wf_free_nr [OF assms(1,2)] assms(3) by simp
  ultimately show ?thesis by (auto simp: pages_of_def)
qed

text \<open>One iteration: it returns a block, or goes on with the page manager unchanged.\<close>

lemma alloc_iteration:
  assumes "ppm_wf ppm A" and "cntr \<noteq> 0"
  obtains b ppm' cid where "alloc_loop dqdt ppm last_cid order flags il seq u cntr = Some (Some b, ppm', cid)"
      and "ppm_wf ppm' (insert (b, order) A)" and "free_pages_nr ppm > page_threshold ppm flags u"
  | cid v n where "alloc_loop dqdt ppm last_cid order flags il seq u cntr =
        alloc_loop dqdt ppm cid order flags il seq v n"
      and "v \<longrightarrow> u" and "n + (if v then 9 else 0) < cntr + (if u then 9 else 0)" and "n \<noteq> 0 \<or> \<not> u"
      and "free_pages_nr ppm > page_threshold ppm flags u \<Longrightarrow> \<forall>b k. (b, k) \<in> freeset ppm \<longrightarrow> k < order"
proof -
  note found = that(1) and goes_on = that(2)
  let ?cid = "if \<not> u \<and> flags AND AF_USR \<noteq> 0 \<and> il then last_cid + 1 else last_cid"
  let ?v = "if cntr - 1 = 0 \<and> u then False else u \<and> (seq \<or> dqdt (cntr - 1))"
  let ?n = "if cntr - 1 = 0 \<and> u then unat AF_TTL_LOW else cntr - 1"
  have go: thesis if none: "(if free_pages_nr ppm > page_threshold ppm flags u
        then ppm_do_alloc_pages ppm order else Some (None, ppm)) = Some (None, ppm)"
      and fit: "free_pages_nr ppm > page_threshold ppm flags u \<Longrightarrow> \<forall>b k. (b, k) \<in> freeset ppm \<longrightarrow> k < order"
  proof (rule goes_on [where cid = ?cid and v = ?v and n = ?n])
    show "alloc_loop dqdt ppm last_cid order flags il seq u cntr =
        alloc_loop dqdt ppm ?cid order flags il seq ?v ?n"
      using assms(2) none by (subst alloc_loop.simps) (auto simp: Let_def)
  qed (use assms(2) fit in \<open>auto simp: AF_TTL_LOW_def\<close>)
  show thesis
  proof (cases "free_pages_nr ppm > page_threshold ppm flags u")
    case True
    show ?thesis
    proof (cases rule: do_alloc_cases [OF assms(1), of order])
      case 1
      then show ?thesis using go True by auto
    next
      case (2 b ppm')
      have run: "alloc_loop dqdt ppm last_cid order flags il seq u cntr = Some (Some b, ppm', ?cid)"
        using 2(1) True assms(2) by (subst alloc_loop.simps) (simp add: Let_def)
      show ?thesis by (rule found [OF run 2(2) True])
    qed
  qed (use go in auto)
qed

lemma alloc_loop_ok:
  assumes "ppm_wf ppm A" and "length (pages_tbl ppm) < 2 ^ 32"
  shows "\<exists>r ppm' cid. alloc_loop dqdt ppm last_cid order flags il seq u cntr = Some (r, ppm', cid) \<and>
    (case r of
       None \<Rightarrow> ppm' = ppm \<and> (cntr \<noteq> 0 \<longrightarrow> page_threshold ppm flags False = 0 \<longrightarrow>
                 (\<forall>b k. (b, k) \<in> freeset ppm \<longrightarrow> k < order))
     | Some b \<Rightarrow> ppm_wf ppm' (insert (b, order) A)
         \<and> (\<exists>v. (v \<longrightarrow> u) \<and> free_pages_nr ppm > page_threshold ppm flags v))"
proof (induction "cntr + (if u then 9 else 0)" arbitrary: last_cid u cntr rule: less_induct)
  case less
  show ?case
  proof (cases "cntr = 0")
    case True
    then show ?thesis by (simp add: alloc_loop.simps)
  next
    case False
    show ?thesis
    proof (cases rule: alloc_iteration [OF assms(1) False, of dqdt last_cid order flags il seq u])
      case (1 b ppm' cid)
      then show ?thesis by auto
    next
      case (2 cid v n)
      have zero: "\<forall>b k. (b, k) \<in> freeset ppm \<longrightarrow> k < order"
        if "\<not> u" "page_threshold ppm flags False = 0"
        using 2(5) that free_zero [OF assms] by (cases "free_pages_nr ppm = 0") (auto simp: word_gt_0)
      from less [OF 2(3), of cid] show ?thesis
        unfolding 2(1) using 2(2,4) zero by (fastforce split: option.splits)
    qed
  qed
qed

text \<open>
  C6: The allocation policy. On a well-formed page manager, for every request and every answer of
  the cluster search, \<^verbatim>\<open>ppm_alloc_pages\<close> returns: a failed request changes nothing, and a request
  that may use the whole reserve (neither user nor priority) fails only when no free block is large
  enough; a successful one leaves the page manager well formed with the block in use, and a user
  request without memory priority is served only while more than the kernel's reserve is free.
\<close>

theorem ppm_alloc_pages_policy:
  assumes "ppm_wf ppm A" and "length (pages_tbl ppm) < 2 ^ 32"
  shows "\<exists>r ppm' cid. ppm_alloc_pages dqdt attr_flags last_cid ppm order flags = Some (r, ppm', cid) \<and>
    (case r of
       None \<Rightarrow> ppm' = ppm \<and> (flags AND AF_USR = 0 \<and> flags AND AF_PRIO = 0 \<longrightarrow>
                 (\<forall>b k. (b, k) \<in> freeset ppm \<longrightarrow> k < order))
     | Some b \<Rightarrow> ppm_wf ppm' (insert (b, order) A)
         \<and> (flags AND AF_USR \<noteq> 0 \<and> (flags AND AF_AFFINITY = 0 \<or> attr_flags AND PT_ATTR_MEM_PRIO = 0)
            \<longrightarrow> free_pages_nr ppm > kprio_pages_min ppm))"
proof -
  let ?aff = "flags AND AF_AFFINITY \<noteq> 0"
  let ?u = "?aff \<and> attr_flags AND PT_ATTR_MEM_PRIO \<noteq> 0"
  define c where "c = (if ?u then AF_TTL_HIGH AND AF_TTL_MASK else flags AND AF_TTL_MASK)"
  define n where "n = unat (if c = 0 then 1 else c)"
  have "n \<noteq> 0" by (simp add: n_def unat_eq_zero)
  have run: "ppm_alloc_pages dqdt attr_flags last_cid ppm order flags =
    alloc_loop dqdt ppm last_cid order flags
      (?aff \<and> (attr_flags AND PT_ATTR_INTERLEAVE_ALL \<noteq> 0 \<or> attr_flags AND PT_ATTR_INTERLEAVE_SEQ \<noteq> 0))
      (?aff \<and> attr_flags AND PT_ATTR_MEM_CID_RR \<noteq> 0) ?u n"
    unfolding ppm_alloc_pages_def Let_def n_def c_def ..
  have thr: "page_threshold ppm flags False = 0" if "flags AND AF_USR = 0" "flags AND AF_PRIO = 0"
    using that by (simp add: page_threshold_def)
  have thr': "page_threshold ppm flags False = kprio_pages_min ppm" if "flags AND AF_USR \<noteq> 0"
    using that by (simp add: page_threshold_def)
  obtain r ppm' cid where
    eq: "ppm_alloc_pages dqdt attr_flags last_cid ppm order flags = Some (r, ppm', cid)"
    and res: "case r of
       None \<Rightarrow> ppm' = ppm \<and> (n \<noteq> 0 \<longrightarrow> page_threshold ppm flags False = 0 \<longrightarrow>
                 (\<forall>b k. (b, k) \<in> freeset ppm \<longrightarrow> k < order))
     | Some b \<Rightarrow> ppm_wf ppm' (insert (b, order) A)
         \<and> (\<exists>v. (v \<longrightarrow> ?u) \<and> free_pages_nr ppm > page_threshold ppm flags v)"
    unfolding run using alloc_loop_ok [OF assms] by blast
  show ?thesis
  proof (cases r)
    case None
    then show ?thesis using eq res \<open>n \<noteq> 0\<close> thr by simp
  next
    case (Some b)
    then obtain v where "v \<longrightarrow> ?u" "free_pages_nr ppm > page_threshold ppm flags v" using res by auto
    then show ?thesis using eq res Some thr' by (cases v) auto
  qed
qed

theorem ppm_alloc_pages_policy_witness:
  "\<exists>r ppm' cid. ppm_alloc_pages (\<lambda>_. False) 0 0 ppm_small 3 0x20008 = Some (r, ppm', cid)
     \<and> (\<forall>b. r = Some b \<longrightarrow> ppm_wf ppm' {(b, 3)} \<and> free_pages_nr ppm_small > kprio_pages_min ppm_small)"
proof -
  have "length (pages_tbl ppm_small) < 2 ^ 32" by (simp add: ppm_small_def)
  from ppm_alloc_pages_policy [OF ppm_small_wf this, of "\<lambda>_. False" 0 0 3 "0x20008"]
  show ?thesis by (auto simp: AF_USR_def split: option.splits)
qed

section \<open>Addresses\<close>

text \<open>
  The address conversions of the page manager are inverse to one another: for a page of a
  region that fits in the address space, going to its address, its physical page number, or the
  address of that number and back gives the page again, and two different pages have different
  addresses.
\<close>

theorem ppm_address_roundtrip:
  assumes "page < 2 ^ 20"
  shows "ppm_addr2page ppm (ppm_page2addr ppm page) = page
    \<and> ppm_ppn2page ppm (ppm_page2ppn ppm page) = page
    \<and> ppm_ppn2vma ppm (ppm_page2ppn ppm page) = ppm_page2addr ppm page
    \<and> ppm_vma2ppn ppm (ppm_page2addr ppm page) = ppm_page2ppn ppm page"
proof -
  have small: "unat (of_nat page :: u32) = page"
    using assms by (simp add: unat_of_nat take_bit_nat_eq_self)
  have "drop_bit 12 (push_bit 12 (of_nat page :: u32)) = of_nat page"
    using assms by (intro word_unat_eq_iff [THEN iffD2])
      (simp add: unat_drop_bit_eq drop_bit_eq_div push_bit_eq_mult unat_word_ariths small unat_div)
  moreover have "push_bit 12 (of_nat page :: u32) = of_nat page * PMM_PAGE_SIZE"
    by (simp add: push_bit_eq_mult kconfig)
  ultimately show ?thesis
    by (simp add: ppm_addr2page_def ppm_page2addr_def ppm_ppn2page_def ppm_page2ppn_def
        ppm_ppn2vma_def ppm_vma2ppn_def PMM_PAGE_SHIFT_def small)
qed

theorem ppm_address_roundtrip_witness:
  "ppm_addr2page ppm_small (ppm_page2addr ppm_small 37) = 37"
  using ppm_address_roundtrip [of 37 ppm_small] by simp

section \<open>Regions that are not a multiple of the largest block\<close>

text \<open>
  The merge loop reads past the page table when the number of pages is not a multiple of the
  largest block: in a table of three pages, releasing the last one looks for the buddy descriptor at
  index 3.
\<close>

theorem ppm_free_reads_past_table:
  assumes "length (pages_tbl ppm) = 3"
  shows "ppm_free_pages_nolock ppm 0 2 = None"
  using assms
  by (simp add: ppm_free_pages_nolock_def tbl_update_in merge_loop.simps karray arr_get_def kconfig
      Let_def numeral_3_eq_3)

theorem ppm_free_reads_past_table_witness:
  "ppm_free_pages_nolock (ppm_small\<lparr>pages_tbl := replicate 3 (page_init 0)\<rparr>) 0 2 = None"
  by (rule ppm_free_reads_past_table) simp

end
