(* ===== verification/Vfs_File.thy ===== *)
theory Vfs_File
  imports Kernel_Prelude
begin

text \<open>
  Open files: the reference counts of \<^verbatim>\<open>src/kernel/vfs/vfs_file.c\<close> and the operations on an open file of \<^verbatim>\<open>src/kernel/vfs/vfs.c\<close> that do not look up a path. A file
  descriptor of a task (\<^verbatim>\<open>vfs_file_s\<close>) refers to the object shared by all tasks that have the file open (\<^verbatim>\<open>vfs_file_remote_s\<close>), known here by a number. The remote
  procedure calls to the cluster of that object are function calls; the operations of the file system below (\<^verbatim>\<open>close\<close>, \<^verbatim>\<open>lseek\<close>, \<^verbatim>\<open>read\<close>, \<^verbatim>\<open>write\<close>) and the size of an inode are
  parameters.
\<close>

section \<open>Model\<close>

definition VFS_O_DIRECTORY :: u32 where [kconfig]: "VFS_O_DIRECTORY = 0x00040000"
definition VFS_O_APPEND :: u32 where [kconfig]: "VFS_O_APPEND = 0x00080000"
definition VFS_O_RDONLY :: u32 where [kconfig]: "VFS_O_RDONLY = 0x00100000"
definition VFS_O_WRONLY :: u32 where [kconfig]: "VFS_O_WRONLY = 0x00200000"

definition VFS_IS :: "u32 \<Rightarrow> u32 \<Rightarrow> bool" where
  "VFS_IS state flag \<longleftrightarrow> state AND flag \<noteq> 0"

record vfs_file_remote_s =
  fr_offset :: u32
  fr_count :: int
  fr_inode :: "nat option"

record vfs_file_s =
  f_flags :: u32
  f_remote :: nat
  f_mapper :: "nat option"

text \<open>
  The shared objects, the references on inodes given back, and the objects that were released, in order. A released object keeps its last value here, as its memory does until
  the allocator hands it out again.
\<close>

record files_s =
  remote :: "nat \<Rightarrow> vfs_file_remote_s"
  inode_downs :: "nat list"
  released :: "nat list"

definition vfs_file_up :: "vfs_file_s \<Rightarrow> files_s \<Rightarrow> files_s" where
  "vfs_file_up f W = W\<lparr>remote := (remote W)(f_remote f := (remote W (f_remote f))\<lparr>fr_count := fr_count (remote W (f_remote f)) + 1\<rparr>)\<rparr>"

text \<open>The answer is a count, or the error of the \<^verbatim>\<open>close\<close> operation.\<close>

datatype down = Count int | Error errno

definition vfs_file_remote_down :: "(nat \<Rightarrow> error_t) \<Rightarrow> nat \<Rightarrow> files_s \<Rightarrow> down \<times> files_s" where
  "vfs_file_remote_down close_op r W =
     (let count = fr_count (remote W r);
          W = W\<lparr>remote := (remote W)(r := (remote W r)\<lparr>fr_count := count - 1\<rparr>)\<rparr>
      in if 1 < count then (Count 0, W)
         else let W = (case fr_inode (remote W r) of None \<Rightarrow> W | Some i \<Rightarrow> W\<lparr>inode_downs := inode_downs W @ [i]\<rparr>)
              in case close_op r of
                   Some e \<Rightarrow> (Error e, W)
                 | None \<Rightarrow> (Count count, W\<lparr>released := released W @ [r]\<rparr>))"

definition vfs_file_down :: "(nat \<Rightarrow> error_t) \<Rightarrow> vfs_file_s \<Rightarrow> files_s \<Rightarrow> down \<times> files_s" where
  "vfs_file_down close_op f W = vfs_file_remote_down close_op (f_remote f) W"

text \<open>\<^verbatim>\<open>vfs_close\<close> answers 0 whatever happens; the count goes through a pointer.\<close>

definition vfs_close :: "(nat \<Rightarrow> error_t) \<Rightarrow> vfs_file_s \<Rightarrow> files_s \<Rightarrow> error_t \<times> down \<times> files_s" where
  "vfs_close close_op f W = (OK, vfs_file_down close_op f W)"

definition vfs_closedir :: "(nat \<Rightarrow> error_t) \<Rightarrow> vfs_file_s \<Rightarrow> files_s \<Rightarrow> error_t \<times> files_s" where
  "vfs_closedir close_op f W =
     (if \<not> VFS_IS (f_flags f) VFS_O_DIRECTORY then (Some EBADF, W) else let (err, n, W) = vfs_close close_op f W in (err, W))"

text \<open>
  \<^verbatim>\<open>vfs_read\<close> and \<^verbatim>\<open>vfs_write\<close> answer a signed size. The operation of the file system may move the offset. The numbers are those of \<^verbatim>\<open>errno.h\<close>.
\<close>

fun errno_code :: "errno \<Rightarrow> int" where
  "errno_code EPERM = 1" | "errno_code ENOENT = 2" | "errno_code ESRCH = 3" | "errno_code EIO = 5" | "errno_code EBADF = 9" | "errno_code EAGAIN = 11"
| "errno_code ENOMEM = 12" | "errno_code EACCES = 13" | "errno_code EFAULT = 14" | "errno_code EBUSY = 16" | "errno_code EEXIST = 17" | "errno_code ENODEV = 19"
| "errno_code EISDIR = 21" | "errno_code EINVAL = 22" | "errno_code ENFILE = 23" | "errno_code EMFILE = 24" | "errno_code ERANGE = 34" | "errno_code EDEADLK = 35"
| "errno_code ENOSYS = 38" | "errno_code EOVERFLOW = 75" | "errno_code EBADFD = 77" | "errno_code ECANCELED = 133"

type_synonym io_op = "vfs_file_s \<Rightarrow> files_s \<Rightarrow> int \<times> files_s"

definition vfs_read :: "io_op \<Rightarrow> vfs_file_s \<Rightarrow> files_s \<Rightarrow> int \<times> files_s" where
  "vfs_read read_op f W =
     (if VFS_IS (f_flags f) VFS_O_DIRECTORY then (- errno_code EISDIR, W)
      else if \<not> VFS_IS (f_flags f) VFS_O_RDONLY then (- errno_code EBADF, W)
      else read_op f W)"

definition vfs_write :: "io_op \<Rightarrow> vfs_file_s \<Rightarrow> files_s \<Rightarrow> int \<times> files_s" where
  "vfs_write write_op f W =
     (if VFS_IS (f_flags f) VFS_O_DIRECTORY then (errno_code EINVAL, W)
      else if \<not> VFS_IS (f_flags f) VFS_O_WRONLY then (errno_code EBADF, W)
      else write_op f W)"

definition VFS_SEEK_SET :: u32 where [kconfig]: "VFS_SEEK_SET = 0"
definition VFS_SEEK_CUR :: u32 where [kconfig]: "VFS_SEEK_CUR = 1"
definition VFS_SEEK_END :: u32 where [kconfig]: "VFS_SEEK_END = 2"
definition UINT32_MAX :: "64 word" where [kconfig]: "UINT32_MAX = 4294967295"

text \<open>The new offset, in 64 bits: the sum for \<^verbatim>\<open>VFS_SEEK_CUR\<close> is done there, the one for \<^verbatim>\<open>VFS_SEEK_END\<close> in 32 bits before. \<open>Inl\<close> ends the call with that answer.\<close>

definition seek_target :: "u32 \<Rightarrow> u32 \<Rightarrow> u32 \<Rightarrow> u32 \<Rightarrow> int + 64 word" where
  "seek_target inode_size old_offset offset whence =
     (if whence = VFS_SEEK_SET then if offset = old_offset then Inl 0 else Inr (ucast offset)
      else if whence = VFS_SEEK_CUR then Inr (ucast old_offset + ucast offset)
      else if whence = VFS_SEEK_END then Inr (ucast (inode_size + offset))
      else Inl (errno_code EINVAL))"

text \<open>\<^verbatim>\<open>__vfs_lseek\<close>: the error (that of the \<^verbatim>\<open>lseek\<close> operation with the sign changed), what is stored through \<^verbatim>\<open>new_offset_ptr\<close> (\<open>None\<close>: nothing) and the object.\<close>

definition vfs_lseek_remote :: "u32 \<Rightarrow> (u32 \<Rightarrow> error_t) \<Rightarrow> u32 \<Rightarrow> u32 \<Rightarrow> vfs_file_remote_s \<Rightarrow> int \<times> u32 option \<times> vfs_file_remote_s" where
  "vfs_lseek_remote inode_size lseek_op offset whence r =
     (case seek_target inode_size (fr_offset r) offset whence of
        Inl err \<Rightarrow> (err, None, r)
      | Inr new_offset \<Rightarrow>
          if UINT32_MAX \<le> new_offset then (errno_code EOVERFLOW, None, r)
          else case lseek_op (ucast new_offset) of
                 Some e \<Rightarrow> (- errno_code e, None, r)
               | None \<Rightarrow> (0, Some (ucast new_offset), r\<lparr>fr_offset := ucast new_offset\<rparr>))"

definition vfs_lseek :: "(nat \<Rightarrow> u32) \<Rightarrow> (u32 \<Rightarrow> error_t) \<Rightarrow> vfs_file_s \<Rightarrow> u32 \<Rightarrow> u32 \<Rightarrow> files_s \<Rightarrow> int \<times> u32 option \<times> files_s" where
  "vfs_lseek inode_size lseek_op f offset whence W =
     (if VFS_IS (f_flags f) VFS_O_DIRECTORY then (errno_code EBADF, None, W)
      else let (err, new, r) = vfs_lseek_remote (inode_size (f_remote f)) lseek_op offset whence (remote W (f_remote f))
           in (err, new, W\<lparr>remote := (remote W)(f_remote f := r)\<rparr>))"

section \<open>Seeking\<close>

lemma unat_ucast64 [simp]: "unat (ucast (a :: u32) :: 64 word) = unat a"
  using unat_bound [of a] by (simp add: unsigned_ucast_eq take_bit_nat_eq_self_iff)

lemma ucast_ucast64 [simp]: "(ucast (ucast (a :: u32) :: 64 word) :: u32) = a"
  by (rule bit_word_eqI) (simp add: bit_ucast_iff)

lemma seek_small: "UINT32_MAX \<le> ucast (a :: u32) \<longleftrightarrow> a = 0xFFFFFFFF"
  using unat_bound [of a] by (auto simp: word_le_nat_alt UINT32_MAX_def word_unat_eq_iff)

lemma unat_sum64: "unat (ucast (a :: u32) + ucast (b :: u32) :: 64 word) = unat a + unat b"
  using unat_bound [of a] unat_bound [of b] by (simp add: unat_word_ariths)

lemma seek_cur_overflow: "UINT32_MAX \<le> ucast (a :: u32) + ucast (b :: u32) \<longleftrightarrow> 4294967295 \<le> unat a + unat b"
  by (simp add: word_le_nat_alt unat_sum64 UINT32_MAX_def)

lemma ucast_sum64 [simp]: "(ucast (ucast (a :: u32) + ucast (b :: u32) :: 64 word) :: u32) = a + b"
  by (simp add: word_unat_eq_iff unat_word_ariths unsigned_ucast_eq take_bit_eq_mod mod_mod_cancel)

lemma lseek_cur:
  "vfs_lseek_remote n op d VFS_SEEK_CUR r =
     (if 4294967295 \<le> unat (fr_offset r) + unat d then (errno_code EOVERFLOW, None, r)
      else case op (fr_offset r + d) of Some e \<Rightarrow> (- errno_code e, None, r) | None \<Rightarrow> (0, Some (fr_offset r + d), r\<lparr>fr_offset := fr_offset r + d\<rparr>))"
  by (simp add: vfs_lseek_remote_def seek_target_def VFS_SEEK_SET_def VFS_SEEK_CUR_def seek_cur_overflow split: option.split)

lemma unat_minus:
  assumes "k \<noteq> (0 :: u32)"
  shows "unat (- k) + unat k = 4294967296"
proof -
  have "(unat (- k) + unat k) mod 4294967296 = 0" using unat_word_ariths(1) [of "- k" k] by simp
  moreover have "0 < unat k" using assms by (simp add: unat_gt_0)
  ultimately show ?thesis using unat_bound [of "- k"] unat_bound [of k] by (auto simp: mod_if split: if_splits)
qed

text \<open>
  C39: Moving the offset of a file backwards relative to where it is. \<^verbatim>\<open>__vfs_lseek\<close> with \<^verbatim>\<open>VFS_SEEK_CUR\<close> and an offset of minus \<open>k\<close> does the opposite of what it is for: when
  the target is inside the file, or one byte before its start, the call fails with \<^verbatim>\<open>EOVERFLOW\<close> and the offset stays; when the target is further before the start, the
  call succeeds and the offset becomes the wrapped-around value, beyond two gigabytes for any signed \<open>k\<close>. The sum is done in 64 bits with an offset that was not sign extended.
\<close>

theorem vfs_lseek_backwards:
  assumes "k \<noteq> 0"
  shows "if unat k \<le> unat (fr_offset r) + 1 then vfs_lseek_remote inode_size (\<lambda>_. OK) (- k) VFS_SEEK_CUR r = (errno_code EOVERFLOW, None, r)
    else vfs_lseek_remote inode_size (\<lambda>_. OK) (- k) VFS_SEEK_CUR r = (0, Some (fr_offset r - k), r\<lparr>fr_offset := fr_offset r - k\<rparr>)
      \<and> unat (fr_offset r - k) = unat (fr_offset r) + (4294967296 - unat k)"
proof -
  have k: "unat (- k) + unat k = 4294967296" using unat_minus [OF assms] .
  then have "4294967295 \<le> unat (fr_offset r) + unat (- k) \<longleftrightarrow> unat k \<le> unat (fr_offset r) + 1" by linarith
  moreover have "unat (fr_offset r - k) = unat (fr_offset r) + (4294967296 - unat k)" if "\<not> unat k \<le> unat (fr_offset r) + 1"
    using that k unat_word_ariths(1) [of "fr_offset r" "- k"] by (simp add: mod_less)
  ultimately show ?thesis by (simp add: lseek_cur)
qed

theorem vfs_lseek_backwards_witness:
  "vfs_lseek_remote 0x1000 (\<lambda>_. OK) (- 16) VFS_SEEK_CUR \<lparr>fr_offset = 100, fr_count = 1, fr_inode = None\<rparr>
     = (errno_code EOVERFLOW, None, \<lparr>fr_offset = 100, fr_count = 1, fr_inode = None\<rparr>)
   \<and> vfs_lseek_remote 0x1000 (\<lambda>_. OK) (- 200) VFS_SEEK_CUR \<lparr>fr_offset = 100, fr_count = 1, fr_inode = None\<rparr>
     = (0, Some 0xFFFFFF9C, \<lparr>fr_offset = 0xFFFFFF9C, fr_count = 1, fr_inode = None\<rparr>)"
  using vfs_lseek_backwards [where k = 16 and r = "\<lparr>fr_offset = 100, fr_count = 1, fr_inode = None\<rparr>" and inode_size = "0x1000"]
    vfs_lseek_backwards [where k = 200 and r = "\<lparr>fr_offset = 100, fr_count = 1, fr_inode = None\<rparr>" and inode_size = "0x1000"] by simp

text \<open>Seeking to where the file is answers success and stores no offset: the caller reads a variable that was never set. The other cases do what they say.\<close>

lemma lseek_set:
  "vfs_lseek_remote n op d VFS_SEEK_SET r =
     (if d = fr_offset r then (0, None, r) else if d = 0xFFFFFFFF then (errno_code EOVERFLOW, None, r)
      else case op d of Some e \<Rightarrow> (- errno_code e, None, r) | None \<Rightarrow> (0, Some d, r\<lparr>fr_offset := d\<rparr>))"
  by (simp add: vfs_lseek_remote_def seek_target_def seek_small split: option.split)

lemma lseek_end:
  "vfs_lseek_remote n op d VFS_SEEK_END r =
     (if n + d = 0xFFFFFFFF then (errno_code EOVERFLOW, None, r)
      else case op (n + d) of Some e \<Rightarrow> (- errno_code e, None, r) | None \<Rightarrow> (0, Some (n + d), r\<lparr>fr_offset := n + d\<rparr>))"
  by (simp add: vfs_lseek_remote_def seek_target_def seek_small VFS_SEEK_SET_def VFS_SEEK_CUR_def VFS_SEEK_END_def split: option.split)

section \<open>Reference counts\<close>

abbreviation count_of :: "files_s \<Rightarrow> nat \<Rightarrow> int" where
  "count_of W r \<equiv> fr_count (remote W r)"

lemma up_count [simp]: "count_of (vfs_file_up f W) r = count_of W r + (if r = f_remote f then 1 else 0)"
  by (simp add: vfs_file_up_def)

lemma up_other [simp]: "released (vfs_file_up f W) = released W" "inode_downs (vfs_file_up f W) = inode_downs W"
  by (simp_all add: vfs_file_up_def)

lemma close_count: "vfs_close op f W = (err, n, W') \<Longrightarrow> err = OK \<and> count_of W' r = count_of W r - (if r = f_remote f then 1 else 0)"
  by (auto simp: vfs_close_def vfs_file_down_def vfs_file_remote_down_def Let_def split: if_splits option.splits)

lemma close_released:
  "vfs_close (\<lambda>_. OK) f W = (err, n, W') \<Longrightarrow> released W' = released W @ (if 1 < count_of W (f_remote f) then [] else [f_remote f])
     \<and> n = (if 1 < count_of W (f_remote f) then Count 0 else Count (count_of W (f_remote f)))"
  by (auto simp: vfs_close_def vfs_file_down_def vfs_file_remote_down_def Let_def split: if_splits option.splits)

end
