(* ===== verification/Kern_TaskFd.thy ===== *)
theory Kern_TaskFd
  imports Vfs_File "HOL-Library.Monad_Syntax"
begin

text \<open>
  The table of file descriptors of a task (\<^verbatim>\<open>src/kernel/kern/task.c\<close>) and the system calls that go through it: open, create, close, seek, read and write. The table is an
  array of eight entries inside the task; an access outside it, or after the task gave it up, is \<open>None\<close>. Path lookup and the file system are parameters. Locks are left out: the
  operations run one at a time.
\<close>

section \<open>Model\<close>

definition CONFIG_TASK_FILE_MAX_NR :: nat where [kconfig]: "CONFIG_TASK_FILE_MAX_NR = 8"

record fd_entry_s =
  busy :: bool
  efile :: vfs_file_s

text \<open>\<open>efile\<close> is the field \<^verbatim>\<open>file\<close>. \<open>fd_entry\<close>: the pointer to the entries is set, and is that of the array inside the task.\<close>

record fd_info_s =
  extended :: bool
  max_nr :: nat
  fd_entry :: bool
  fd_entry_base :: "fd_entry_s list"

definition get_entry :: "fd_info_s \<Rightarrow> nat \<Rightarrow> fd_entry_s option" where
  "get_entry I fd = (if fd_entry I then arr_get (fd_entry_base I) fd else None)"

definition set_entry :: "fd_info_s \<Rightarrow> nat \<Rightarrow> fd_entry_s \<Rightarrow> fd_info_s option" where
  "set_entry I fd e = (if fd_entry I then do { es \<leftarrow> arr_set (fd_entry_base I) fd e; Some (I\<lparr>fd_entry_base := es\<rparr>) } else None)"

definition set_busy :: "nat \<Rightarrow> bool \<Rightarrow> fd_info_s \<Rightarrow> fd_info_s option" where
  "set_busy fd b I = do { e \<leftarrow> get_entry I fd; set_entry I fd (e\<lparr>busy := b\<rparr>) }"

primrec init_loop :: "nat \<Rightarrow> nat \<Rightarrow> fd_info_s \<Rightarrow> fd_info_s option" where
  "init_loop 0 i I = Some I"
| "init_loop (Suc n) i I = do { I \<leftarrow> set_busy i False I; init_loop n (Suc i) I }"

definition task_fd_init :: "fd_info_s \<Rightarrow> fd_info_s option" where
  "task_fd_init I = init_loop CONFIG_TASK_FILE_MAX_NR 0 (I\<lparr>extended := False, max_nr := CONFIG_TASK_FILE_MAX_NR, fd_entry := True\<rparr>)"

text \<open>\<^verbatim>\<open>task_fd_lookup\<close> answers the place of the file, here its index. Whether the entry is in use is not tested.\<close>

definition task_fd_lookup :: "fd_info_s \<Rightarrow> nat \<Rightarrow> errno + nat" where
  "task_fd_lookup I fd = (if max_nr I \<le> fd then Inl EBADFD else Inr fd)"

definition task_fd_set :: "nat \<Rightarrow> vfs_file_s \<Rightarrow> fd_info_s \<Rightarrow> fd_info_s option" where
  "task_fd_set fd f I = set_entry I fd \<lparr>busy = True, efile = f\<rparr>"

primrec get_loop :: "nat \<Rightarrow> nat \<Rightarrow> fd_info_s \<Rightarrow> ((errno + nat) \<times> fd_info_s) option" where
  "get_loop 0 fd I = Some (Inl EMFILE, I)"
| "get_loop (Suc n) fd I = do {
     e \<leftarrow> get_entry I fd;
     if \<not> busy e then do { I \<leftarrow> set_busy fd True I; Some (Inr fd, I) }
     else get_loop n (Suc fd) I }"

definition task_fd_get :: "fd_info_s \<Rightarrow> ((errno + nat) \<times> fd_info_s) option" where
  "task_fd_get I = get_loop (max_nr I) 0 I"

definition task_fd_put :: "nat \<Rightarrow> fd_info_s \<Rightarrow> (error_t \<times> fd_info_s) option" where
  "task_fd_put fd I = (if max_nr I < fd then Some (Some EBADF, I) else do { I \<leftarrow> set_busy fd False I; Some (OK, I) })"

primrec fork_loop :: "nat \<Rightarrow> nat \<Rightarrow> fd_info_s \<Rightarrow> fd_info_s \<Rightarrow> files_s \<Rightarrow> (fd_info_s \<times> files_s) option" where
  "fork_loop 0 fd src dst W = Some (dst, W)"
| "fork_loop (Suc n) fd src dst W = do {
     e \<leftarrow> get_entry src fd;
     if busy e then do { dst \<leftarrow> set_entry dst fd e; fork_loop n (Suc fd) src dst (vfs_file_up (efile e) W) }
     else fork_loop n (Suc fd) src dst W }"

definition task_fd_fork :: "fd_info_s \<Rightarrow> fd_info_s \<Rightarrow> files_s \<Rightarrow> (fd_info_s \<times> files_s) option" where
  "task_fd_fork dst src W = fork_loop (max_nr src) 0 src dst W"

primrec destroy_loop :: "(nat \<Rightarrow> error_t) \<Rightarrow> nat \<Rightarrow> nat \<Rightarrow> fd_info_s \<Rightarrow> files_s \<Rightarrow> files_s option" where
  "destroy_loop close_op 0 i I W = Some W"
| "destroy_loop close_op (Suc n) i I W = do {
     e \<leftarrow> get_entry I i;
     destroy_loop close_op n (Suc i) I (if busy e then snd (snd (vfs_close close_op (efile e) W)) else W) }"

definition task_fd_destroy :: "(nat \<Rightarrow> error_t) \<Rightarrow> fd_info_s \<Rightarrow> files_s \<Rightarrow> (fd_info_s \<times> files_s) option" where
  "task_fd_destroy close_op I W = do { W \<leftarrow> destroy_loop close_op (max_nr I) 0 I W; Some (I\<lparr>fd_entry := False\<rparr>, W) }"

text \<open>
  A system call answers a number and sets \<^verbatim>\<open>errno\<close> (a number too; \<open>None\<close>: left alone). \<open>fd_file\<close> is the test of the descriptor that they share.
\<close>

type_synonym answer = "int \<times> int option"

definition failed :: "errno \<Rightarrow> answer" where
  "failed e = (-1, Some (errno_code e))"

definition fd_file :: "nat \<Rightarrow> fd_info_s \<Rightarrow> (errno + vfs_file_s) option" where
  "fd_file fd I =
     (if CONFIG_TASK_FILE_MAX_NR \<le> fd then Some (Inl EBADFD)
      else case task_fd_lookup I fd of
             Inl e \<Rightarrow> Some (Inl EBADFD)
           | Inr i \<Rightarrow> do { e \<leftarrow> get_entry I i; Some (Inr (efile e)) })"

text \<open>
  \<^verbatim>\<open>sys_open\<close>, \<^verbatim>\<open>sys_creat\<close> and \<^verbatim>\<open>sys_opendir\<close> differ in the function that opens the file, which writes the file into the entry: \<open>vfs_open\<close> answers an error or the
  new contents of the place, given the old ones.
\<close>

definition sys_open :: "(vfs_file_s \<Rightarrow> files_s \<Rightarrow> error_t \<times> vfs_file_s \<times> files_s) \<Rightarrow> fd_info_s \<Rightarrow> files_s \<Rightarrow> (answer \<times> fd_info_s \<times> files_s) option" where
  "sys_open vfs_open I W = do {
     (res, I) \<leftarrow> task_fd_get I;
     case res of
       Inl _ \<Rightarrow> Some (failed ENFILE, I, W)
     | Inr fd \<Rightarrow> do {
         e \<leftarrow> get_entry I fd;
         let (err, f, W) = vfs_open (efile e) W;
         I \<leftarrow> set_entry I fd (e\<lparr>efile := f\<rparr>);
         case err of
           None \<Rightarrow> Some ((int fd, None), I, W)
         | Some x \<Rightarrow> do { (_, I) \<leftarrow> task_fd_put fd I; Some (failed x, I, W) } } }"

definition sys_close :: "(nat \<Rightarrow> error_t) \<Rightarrow> nat \<Rightarrow> fd_info_s \<Rightarrow> files_s \<Rightarrow> (answer \<times> fd_info_s \<times> files_s) option" where
  "sys_close close_op fd I W = do {
     res \<leftarrow> fd_file fd I;
     case res of
       Inl e \<Rightarrow> Some (failed e, I, W)
     | Inr f \<Rightarrow> do {
         let (err, _, W) = vfs_close close_op f W;
         case err of
           Some e \<Rightarrow> Some (failed e, I, W)
         | None \<Rightarrow> do { (_, I) \<leftarrow> task_fd_put fd I; Some ((0, None), I, W) } } }"

definition sys_closedir :: "(nat \<Rightarrow> error_t) \<Rightarrow> nat \<Rightarrow> fd_info_s \<Rightarrow> files_s \<Rightarrow> (answer \<times> fd_info_s \<times> files_s) option" where
  "sys_closedir close_op fd I W = do {
     res \<leftarrow> fd_file fd I;
     case res of
       Inl e \<Rightarrow> Some (failed e, I, W)
     | Inr f \<Rightarrow> do {
         let (err, W) = vfs_closedir close_op f W;
         case err of
           Some e \<Rightarrow> Some (failed e, I, W)
         | None \<Rightarrow> do { (_, I) \<leftarrow> task_fd_put fd I; Some ((0, None), I, W) } } }"

text \<open>\<^verbatim>\<open>sys_lseek\<close>: the outer \<open>None\<close> is also a call that answers with a variable that was never set.\<close>

definition sys_lseek :: "(nat \<Rightarrow> u32) \<Rightarrow> (u32 \<Rightarrow> error_t) \<Rightarrow> nat \<Rightarrow> u32 \<Rightarrow> u32 \<Rightarrow> fd_info_s \<Rightarrow> files_s \<Rightarrow> (answer \<times> files_s) option" where
  "sys_lseek inode_size lseek_op fd offset whence I W = do {
     res \<leftarrow> fd_file fd I;
     case res of
       Inl e \<Rightarrow> Some (failed e, W)
     | Inr f \<Rightarrow>
         (let (err, new, W) = vfs_lseek inode_size lseek_op f offset whence W
          in if err \<noteq> 0 then Some ((-1, Some (if err < 0 then - err else err)), W)
             else do { n \<leftarrow> new; Some ((sint n, None), W) }) }"

text \<open>\<^verbatim>\<open>sys_read\<close> and \<^verbatim>\<open>sys_write\<close>.\<close>

definition sys_io :: "(vfs_file_s \<Rightarrow> files_s \<Rightarrow> int \<times> files_s) \<Rightarrow> nat \<Rightarrow> fd_info_s \<Rightarrow> files_s \<Rightarrow> (answer \<times> files_s) option" where
  "sys_io vfs_op fd I W = do {
     res \<leftarrow> fd_file fd I;
     case res of
       Inl e \<Rightarrow> Some (failed e, W)
     | Inr f \<Rightarrow> (let (err, W) = vfs_op f W in Some (if err < 0 then (-1, Some (- err)) else (err, None), W)) }"

definition sys_read :: "io_op \<Rightarrow> nat \<Rightarrow> fd_info_s \<Rightarrow> files_s \<Rightarrow> (answer \<times> files_s) option" where
  "sys_read read_op fd I W = sys_io (vfs_read read_op) fd I W"

definition sys_write :: "io_op \<Rightarrow> nat \<Rightarrow> fd_info_s \<Rightarrow> files_s \<Rightarrow> (answer \<times> files_s) option" where
  "sys_write write_op fd I W = sys_io (vfs_write write_op) fd I W"

section \<open>The table\<close>

definition fd_ok :: "fd_info_s \<Rightarrow> bool" where
  "fd_ok I \<longleftrightarrow> fd_entry I \<and> max_nr I = CONFIG_TASK_FILE_MAX_NR \<and> length (fd_entry_base I) = CONFIG_TASK_FILE_MAX_NR"

lemma get_entry_ok: "fd_ok I \<Longrightarrow> i < 8 \<Longrightarrow> get_entry I i = Some (fd_entry_base I ! i)"
  by (simp add: fd_ok_def get_entry_def arr_get_def CONFIG_TASK_FILE_MAX_NR_def)

lemma set_entry_ok: "fd_ok I \<Longrightarrow> i < 8 \<Longrightarrow> set_entry I i e = Some (I\<lparr>fd_entry_base := (fd_entry_base I)[i := e]\<rparr>)"
  by (simp add: fd_ok_def set_entry_def arr_set_def CONFIG_TASK_FILE_MAX_NR_def)

lemma fd_ok_upd [simp]: "fd_ok (I\<lparr>fd_entry_base := es\<rparr>) \<longleftrightarrow> fd_entry I \<and> max_nr I = CONFIG_TASK_FILE_MAX_NR \<and> length es = CONFIG_TASK_FILE_MAX_NR"
  by (simp add: fd_ok_def)

lemma fd_ok_length: "fd_ok I \<Longrightarrow> length (fd_entry_base I) = 8" "fd_ok I \<Longrightarrow> max_nr I = 8"
  by (simp_all add: fd_ok_def CONFIG_TASK_FILE_MAX_NR_def)

lemma set_busy_ok: "fd_ok I \<Longrightarrow> i < 8 \<Longrightarrow> set_busy i b I = Some (I\<lparr>fd_entry_base := (fd_entry_base I)[i := (fd_entry_base I ! i)\<lparr>busy := b\<rparr>]\<rparr>)"
  by (simp add: set_busy_def get_entry_ok set_entry_ok)

lemma get_loop_spec:
  assumes "fd_ok I" and "n + i = 8"
  shows "get_loop n i I = (case find (\<lambda>j. \<not> busy (fd_entry_base I ! j)) [i..<8] of
      None \<Rightarrow> Some (Inl EMFILE, I)
    | Some j \<Rightarrow> Some (Inr j, I\<lparr>fd_entry_base := (fd_entry_base I)[j := (fd_entry_base I ! j)\<lparr>busy := True\<rparr>]\<rparr>))"
  using assms(2)
proof (induction n arbitrary: i)
  case (Suc n)
  then have "[i..<8] = i # [Suc i..<8]" by (simp add: upt_rec)
  then show ?case using Suc assms(1) by (simp add: get_entry_ok set_busy_ok)
qed simp

text \<open>The entries of a list that hold the file \<open>r\<close> open.\<close>

definition opens :: "fd_entry_s list \<Rightarrow> nat \<Rightarrow> nat" where
  "opens es r = length (filter (\<lambda>e. busy e \<and> f_remote (efile e) = r) es)"

lemma opens_Nil [simp]: "opens [] r = 0"
  by (simp add: opens_def)

lemma opens_Cons [simp]: "opens (e # es) r = opens es r + (if busy e \<and> f_remote (efile e) = r then 1 else 0)"
  by (simp add: opens_def)

lemma fork_loop_spec:
  assumes "fd_ok src" and "fd_ok dst" and "n + i = 8"
  shows "\<exists>dst' W'. fork_loop n i src dst W = Some (dst', W') \<and> fd_ok dst'
    \<and> (\<forall>j<8. fd_entry_base dst' ! j = (if i \<le> j \<and> busy (fd_entry_base src ! j) then fd_entry_base src ! j else fd_entry_base dst ! j))
    \<and> (\<forall>r. count_of W' r = count_of W r + int (opens (drop i (fd_entry_base src)) r)) \<and> released W' = released W"
  using assms(2,3)
proof (induction n arbitrary: i dst W)
  case 0
  then show ?case using assms(1) by (auto simp: fd_ok_length)
next
  case (Suc n)
  let ?e = "fd_entry_base src ! i"
  have i: "i < 8" "get_entry src i = Some ?e" "drop i (fd_entry_base src) = ?e # drop (Suc i) (fd_entry_base src)"
    using Suc.prems assms(1) by (simp_all add: get_entry_ok Cons_nth_drop_Suc fd_ok_length)
  show ?case
  proof (cases "busy ?e")
    case True
    let ?d = "dst\<lparr>fd_entry_base := (fd_entry_base dst)[i := ?e]\<rparr>"
    have d: "fd_ok ?d" "set_entry dst i ?e = Some ?d" using Suc.prems(1) i(1) by (auto simp: set_entry_ok fd_ok_def)
    obtain d' W' where "fork_loop n (Suc i) src ?d (vfs_file_up (efile ?e) W) = Some (d', W')" "fd_ok d'" "released W' = released W"
      and j: "\<And>j. j < 8 \<Longrightarrow> fd_entry_base d' ! j = (if Suc i \<le> j \<and> busy (fd_entry_base src ! j) then fd_entry_base src ! j else fd_entry_base ?d ! j)"
      and c: "\<And>r. count_of W' r = count_of (vfs_file_up (efile ?e) W) r + int (opens (drop (Suc i) (fd_entry_base src)) r)"
      using Suc.IH [OF d(1), of "Suc i" "vfs_file_up (efile ?e) W"] Suc.prems(2) by auto
    moreover have "fd_entry_base d' ! j = (if i \<le> j \<and> busy (fd_entry_base src ! j) then fd_entry_base src ! j else fd_entry_base dst ! j)" if "j < 8" for j
      using j [OF that] True Suc.prems(1) i(1) by (cases "j = i") (auto simp: fd_ok_length)
    ultimately show ?thesis using True i d(2) by auto
  next
    case False
    have "i \<le> j \<and> busy (fd_entry_base src ! j) \<longleftrightarrow> Suc i \<le> j \<and> busy (fd_entry_base src ! j)" for j using False by (cases "j = i") auto
    then show ?thesis using Suc.IH [OF Suc.prems(1), of "Suc i" W] Suc.prems(2) False i by auto
  qed
qed

lemma destroy_loop_spec:
  assumes "fd_ok I" and "n + i = 8" and "\<And>r. int (opens (drop i (fd_entry_base I)) r) \<le> count_of W r"
  shows "\<exists>W' rs. destroy_loop (\<lambda>_. OK) n i I W = Some W' \<and> released W' = released W @ rs
    \<and> (\<forall>r. count_of W' r = count_of W r - int (opens (drop i (fd_entry_base I)) r)
        \<and> count_list rs r = (if 0 < opens (drop i (fd_entry_base I)) r \<and> count_of W' r = 0 then 1 else 0))"
  using assms(2,3)
proof (induction n arbitrary: i W)
  case 0
  then show ?case using assms(1) by (auto simp: fd_ok_length)
next
  case (Suc n)
  let ?e = "fd_entry_base I ! i"
  have i: "i < 8" "get_entry I i = Some ?e" "drop i (fd_entry_base I) = ?e # drop (Suc i) (fd_entry_base I)"
    using Suc.prems assms(1) by (simp_all add: get_entry_ok Cons_nth_drop_Suc fd_ok_length)
  show ?case
  proof (cases "busy ?e")
    case True
    obtain err m V where V: "vfs_close (\<lambda>_. OK) (efile ?e) W = (err, m, V)" by (metis prod_cases3)
    have c: "count_of V r = count_of W r - (if r = f_remote (efile ?e) then 1 else 0)" for r using close_count [OF V] by simp
    have rel: "released V = released W @ (if 1 < count_of W (f_remote (efile ?e)) then [] else [f_remote (efile ?e)])" using close_released [OF V] by simp
    have "int (opens (drop (Suc i) (fd_entry_base I)) r) \<le> count_of V r" for r using Suc.prems(2) [of r] True i(3) c [of r] by (auto split: if_splits)
    then obtain W' rs where W': "destroy_loop (\<lambda>_. OK) n (Suc i) I V = Some W'" "released W' = released V @ rs"
      "\<And>r. count_of W' r = count_of V r - int (opens (drop (Suc i) (fd_entry_base I)) r)"
      "\<And>r. count_list rs r = (if 0 < opens (drop (Suc i) (fd_entry_base I)) r \<and> count_of W' r = 0 then 1 else 0)"
      using Suc.IH [of "Suc i" V] Suc.prems(1) by auto
    let ?rs = "(if 1 < count_of W (f_remote (efile ?e)) then [] else [f_remote (efile ?e)]) @ rs"
    have "count_list ?rs r = (if 0 < opens (drop i (fd_entry_base I)) r \<and> count_of W' r = 0 then 1 else 0)" for r
      using W'(3,4) [of r] c [of r] Suc.prems(2) [of r] True i(3) by (cases "r = f_remote (efile ?e)") auto
    then show ?thesis using W'(1-3) True i rel V c by (intro exI [of _ W'] exI [of _ ?rs]) auto
  next
    case False
    then show ?thesis using Suc.IH [of "Suc i" W] Suc.prems i by auto
  qed
qed

section \<open>Properties\<close>

lemma opens_cong: "length xs = length ys \<Longrightarrow> (\<And>j. j < length xs \<Longrightarrow> busy (xs ! j) = busy (ys ! j) \<and> (busy (ys ! j) \<longrightarrow> xs ! j = ys ! j)) \<Longrightarrow> opens xs r = opens ys r"
proof (induction xs ys rule: list_induct2)
  case (Cons x xs y ys)
  have "opens xs r = opens ys r" by (rule Cons.IH) (use Cons.prems [of "Suc _"] in auto)
  then show ?case using Cons.prems [of 0] by auto
qed simp

text \<open>
  C28: A child that inherits the open files of its parent and ends. \<^verbatim>\<open>task_fd_fork\<close> gives the child, whose table is empty, every descriptor that the parent has open under
  the same number, and takes one reference for each; \<^verbatim>\<open>task_fd_destroy\<close> of the child then gives back exactly these: every count is what it was, and no file is released. If
  the parent then ends too, each file that nobody else holds is released once, and no other.
\<close>

theorem task_fd_fork_exit:
  assumes "fd_ok src" and "fd_ok dst" and "\<And>j. j < 8 \<Longrightarrow> \<not> busy (fd_entry_base dst ! j)" and "\<And>r. int (opens (fd_entry_base src) r) \<le> count_of W r"
  shows "\<exists>child W1 W2 W3 rs. task_fd_fork dst src W = Some (child, W1) \<and> fd_ok child
    \<and> (\<forall>j<8. busy (fd_entry_base child ! j) = busy (fd_entry_base src ! j) \<and> (busy (fd_entry_base src ! j) \<longrightarrow> fd_entry_base child ! j = fd_entry_base src ! j))
    \<and> (\<forall>r. count_of W1 r = count_of W r + int (opens (fd_entry_base src) r))
    \<and> task_fd_destroy (\<lambda>_. OK) child W1 = Some (child\<lparr>fd_entry := False\<rparr>, W2) \<and> (\<forall>r. count_of W2 r = count_of W r) \<and> released W2 = released W
    \<and> task_fd_destroy (\<lambda>_. OK) src W2 = Some (src\<lparr>fd_entry := False\<rparr>, W3) \<and> released W3 = released W @ rs
    \<and> (\<forall>r. count_list rs r = (if 0 < opens (fd_entry_base src) r \<and> count_of W r = int (opens (fd_entry_base src) r) then 1 else 0))"
proof -
  obtain child W1 where f: "fork_loop 8 0 src dst W = Some (child, W1)" "fd_ok child" "released W1 = released W"
    "\<And>j. j < 8 \<Longrightarrow> fd_entry_base child ! j = (if busy (fd_entry_base src ! j) then fd_entry_base src ! j else fd_entry_base dst ! j)"
    "\<And>r. count_of W1 r = count_of W r + int (opens (fd_entry_base src) r)"
    using fork_loop_spec [OF assms(1,2), of 8 0 W] by auto
  have o: "opens (fd_entry_base child) r = opens (fd_entry_base src) r" for r
    by (rule opens_cong) (use f assms(1,3) in \<open>auto simp: fd_ok_length\<close>)
  have pos: "0 \<le> count_of W r" for r using assms(4) [of r] by linarith
  obtain W2 rs2 where c: "destroy_loop (\<lambda>_. OK) 8 0 child W1 = Some W2" "released W2 = released W @ rs2" "\<And>r. count_of W2 r = count_of W r"
    "\<And>r. count_list rs2 r = (if 0 < opens (fd_entry_base src) r \<and> count_of W r = 0 then 1 else 0)"
    using destroy_loop_spec [OF f(2), of 8 0 W1] f(3,5) pos o by auto
  have "count_list rs2 r = 0" for r using c(4) [of r] assms(4) [of r] by auto
  then have r: "rs2 = []" by (metis count_list_0_iff last_in_set)
  obtain W3 rs where p: "destroy_loop (\<lambda>_. OK) 8 0 src W2 = Some W3" "released W3 = released W @ rs"
    "\<And>r. count_list rs r = (if 0 < opens (fd_entry_base src) r \<and> count_of W r - int (opens (fd_entry_base src) r) = 0 then 1 else 0)"
    using destroy_loop_spec [OF assms(1), of 8 0 W2] c(2,3) r assms(4) by auto
  show ?thesis
    by (rule exI [of _ child], rule exI [of _ W1], rule exI [of _ W2], rule exI [of _ W3], rule exI [of _ rs])
      (use f c p r assms(1,3) in \<open>auto simp: task_fd_fork_def task_fd_destroy_def fd_ok_length\<close>)
qed

definition some_file :: "nat \<Rightarrow> vfs_file_s" where
  "some_file r = \<lparr>f_flags = VFS_O_RDONLY, f_remote = r, f_mapper = None\<rparr>"

definition some_table :: "bool \<Rightarrow> fd_info_s" where
  "some_table b = \<lparr>extended = False, max_nr = 8, fd_entry = True, fd_entry_base = \<lparr>busy = b, efile = some_file 5\<rparr> # replicate 7 \<lparr>busy = False, efile = some_file 0\<rparr>\<rparr>"

definition some_files :: files_s where
  "some_files = \<lparr>remote = (\<lambda>_. \<lparr>fr_offset = 0, fr_count = 1, fr_inode = None\<rparr>), inode_downs = [], released = []\<rparr>"

lemma some_table_ok: "fd_ok (some_table b)" "fd_entry_base (some_table b) ! 0 = \<lparr>busy = b, efile = some_file 5\<rparr>"
    "opens (fd_entry_base (some_table b)) r = (if b \<and> r = 5 then 1 else 0)" "count_of some_files r = 1" "released some_files = []"
  by (simp_all add: fd_ok_def some_table_def CONFIG_TASK_FILE_MAX_NR_def opens_def some_file_def some_files_def)

lemma some_table_free: "j < 8 \<Longrightarrow> \<not> busy (fd_entry_base (some_table False) ! j)"
  by (cases j) (auto simp: some_table_def)

theorem task_fd_fork_exit_witness:
  "\<exists>child W1 W2 W3. task_fd_fork (some_table False) (some_table True) some_files = Some (child, W1) \<and> count_of W1 5 = 2
     \<and> task_fd_destroy (\<lambda>_. OK) child W1 = Some (child\<lparr>fd_entry := False\<rparr>, W2) \<and> count_of W2 5 = 1 \<and> released W2 = []
     \<and> task_fd_destroy (\<lambda>_. OK) (some_table True) W2 = Some ((some_table True)\<lparr>fd_entry := False\<rparr>, W3) \<and> count_list (released W3) 5 = 1"
  using task_fd_fork_exit [of "some_table True" "some_table False" some_files] some_table_ok some_table_free by force

text \<open>The entry taken for a new file is the first that is free.\<close>

definition first_free :: "fd_info_s \<Rightarrow> nat option" where
  "first_free I = find (\<lambda>j. \<not> busy (fd_entry_base I ! j)) [0..<8]"

lemma first_free_iff: "first_free I = Some j \<longleftrightarrow> j < 8 \<and> \<not> busy (fd_entry_base I ! j) \<and> (\<forall>k<j. busy (fd_entry_base I ! k))"
proof -
  have "find P [0..<n] = Some j \<longleftrightarrow> j < n \<and> P j \<and> (\<forall>k<j. \<not> P k)" for P n by (auto simp: find_Some_iff)
  then show ?thesis unfolding first_free_def by (simp only: not_not)
qed

lemma task_fd_get_first:
  assumes "fd_ok I"
  shows "task_fd_get I = (case first_free I of
      None \<Rightarrow> Some (Inl EMFILE, I)
    | Some j \<Rightarrow> Some (Inr j, I\<lparr>fd_entry_base := (fd_entry_base I)[j := (fd_entry_base I ! j)\<lparr>busy := True\<rparr>]\<rparr>))"
  unfolding task_fd_get_def first_free_def fd_ok_length(2) [OF assms] by (rule get_loop_spec [OF assms]) simp

lemma entry_eq: "(x :: fd_entry_s)\<lparr>busy := b, efile := f\<rparr> = \<lparr>busy = b, efile = f\<rparr>"
  by (cases x) simp

lemma sys_open_lowest:
  assumes "fd_ok I"
  shows "case first_free I of
      None \<Rightarrow> sys_open vfs_open I W = Some (failed ENFILE, I, W)
    | Some j \<Rightarrow> (let (err, f, W') = vfs_open (efile (fd_entry_base I ! j)) W
                in sys_open vfs_open I W = Some (case err of None \<Rightarrow> (int j, None) | Some e \<Rightarrow> failed e,
                     I\<lparr>fd_entry_base := (fd_entry_base I)[j := \<lparr>busy = (err = None), efile = f\<rparr>]\<rparr>, W'))"
proof (cases "first_free I")
  case None
  then show ?thesis using task_fd_get_first [OF assms] by (simp add: sys_open_def)
next
  case (Some j)
  let ?e = "(fd_entry_base I ! j)\<lparr>busy := True\<rparr>"
  let ?I = "I\<lparr>fd_entry_base := (fd_entry_base I)[j := ?e]\<rparr>"
  have j: "j < 8" using Some by (simp add: first_free_iff)
  have ok: "fd_ok (I\<lparr>fd_entry_base := (fd_entry_base I)[j := e]\<rparr>)" for e using assms by (simp add: fd_ok_def)
  have g: "task_fd_get I = Some (Inr j, ?I)" "get_entry ?I j = Some ?e"
    using Some task_fd_get_first [OF assms] assms j get_entry_ok [OF ok j] by (simp_all add: fd_ok_length)
  obtain err f W' where v: "vfs_open (efile (fd_entry_base I ! j)) W = (err, f, W')" by (metis prod_cases3)
  have p: "task_fd_put j (I\<lparr>fd_entry_base := (fd_entry_base I)[j := x]\<rparr>) = Some (OK, I\<lparr>fd_entry_base := (fd_entry_base I)[j := x\<lparr>busy := False\<rparr>]\<rparr>)" for x
    using set_busy_ok [OF ok j] assms j by (simp add: task_fd_put_def fd_ok_length)
  have st: "set_entry ?I j (?e\<lparr>efile := f\<rparr>) = Some (I\<lparr>fd_entry_base := (fd_entry_base I)[j := \<lparr>busy = True, efile = f\<rparr>]\<rparr>)"
    using set_entry_ok [OF ok j] by (simp add: entry_eq)
  show ?thesis using Some v g st p [of "\<lparr>busy = True, efile = f\<rparr>"] by (cases err) (simp_all add: sys_open_def)
qed

lemma fd_file_ok: "fd_ok I \<Longrightarrow> fd_file fd I = Some (if fd < 8 then Inr (efile (fd_entry_base I ! fd)) else Inl EBADFD)"
  by (simp add: fd_file_def task_fd_lookup_def fd_ok_length get_entry_ok CONFIG_TASK_FILE_MAX_NR_def)

lemma sys_close_ok:
  assumes "fd_ok I" and "fd < 8"
  shows "sys_close op fd I W = Some ((0, None), I\<lparr>fd_entry_base := (fd_entry_base I)[fd := (fd_entry_base I ! fd)\<lparr>busy := False\<rparr>]\<rparr>, snd (snd (vfs_close op (efile (fd_entry_base I ! fd)) W)))"
  using assms set_busy_ok [OF assms] by (simp add: sys_close_def fd_file_ok vfs_close_def task_fd_put_def fd_ok_length split: prod.split)

text \<open>
  C38: Closing a descriptor that is not open. \<^verbatim>\<open>sys_close\<close> of an open descriptor drops one reference and frees the entry. A second \<^verbatim>\<open>sys_close\<close> of the same number
  also answers 0, since the entry is not tested and still holds the old file, and drops another reference, one that belongs to someone else: if the file was shared
  with one other task, the second call releases the file that the other task has open.
\<close>

theorem sys_close_twice:
  assumes "fd_ok I" and "fd < 8" and "busy (fd_entry_base I ! fd)" and "f_remote (efile (fd_entry_base I ! fd)) = r"
  shows "\<exists>I1 W1 W2. sys_close (\<lambda>_. OK) fd I W = Some ((0, None), I1, W1) \<and> fd_ok I1 \<and> \<not> busy (fd_entry_base I1 ! fd) \<and> count_of W1 r = count_of W r - 1
    \<and> sys_close (\<lambda>_. OK) fd I1 W1 = Some ((0, None), I1, W2) \<and> count_of W2 r = count_of W r - 2
    \<and> (count_of W r = 2 \<longrightarrow> released W1 = released W \<and> released W2 = released W @ [r])"
proof -
  let ?f = "efile (fd_entry_base I ! fd)"
  let ?I = "I\<lparr>fd_entry_base := (fd_entry_base I)[fd := (fd_entry_base I ! fd)\<lparr>busy := False\<rparr>]\<rparr>"
  obtain e1 n1 W1 where W1: "vfs_close (\<lambda>_. OK) ?f W = (e1, n1, W1)" by (metis prod_cases3)
  obtain e2 n2 W2 where W2: "vfs_close (\<lambda>_. OK) ?f W1 = (e2, n2, W2)" by (metis prod_cases3)
  have I: "fd_ok ?I" "fd_entry_base ?I ! fd = (fd_entry_base I ! fd)\<lparr>busy := False\<rparr>" using assms(1,2) by (simp_all add: fd_ok_def CONFIG_TASK_FILE_MAX_NR_def)
  have c: "count_of W1 r = count_of W r - 1" "count_of W2 r = count_of W1 r - 1"
    using close_count [OF W1, of r] close_count [OF W2, of r] assms(4) by simp_all
  have "sys_close (\<lambda>_. OK) fd I W = Some ((0, None), ?I, W1)" using sys_close_ok [OF assms(1,2)] W1 by simp
  moreover have "sys_close (\<lambda>_. OK) fd ?I W1 = Some ((0, None), ?I, W2)" using sys_close_ok [OF I(1) assms(2)] I(2) W2 by simp
  ultimately show ?thesis using I c close_released [OF W1] close_released [OF W2] assms(4) by (intro exI [of _ ?I] exI [of _ W1] exI [of _ W2]) auto
qed

theorem sys_close_twice_witness:
  "\<exists>I1 W1 W2. sys_close (\<lambda>_. OK) 0 (some_table True) (vfs_file_up (some_file 5) some_files) = Some ((0, None), I1, W1) \<and> released W1 = []
     \<and> sys_close (\<lambda>_. OK) 0 I1 W1 = Some ((0, None), I1, W2) \<and> count_of W2 5 = 0 \<and> released W2 = [5]"
proof -
  let ?W = "vfs_file_up (some_file 5) some_files"
  have f: "busy (fd_entry_base (some_table True) ! 0)" "f_remote (efile (fd_entry_base (some_table True) ! 0)) = 5" "count_of ?W 5 = 2" "released ?W = []"
    using some_table_ok(2) [of True] some_table_ok(4) [of 5] some_table_ok(5) by (simp_all add: some_file_def)
  obtain I1 W1 W2 where "sys_close (\<lambda>_. OK) 0 (some_table True) ?W = Some ((0, None), I1, W1)" "sys_close (\<lambda>_. OK) 0 I1 W1 = Some ((0, None), I1, W2)"
    "count_of W2 5 = count_of ?W 5 - 2" "count_of ?W 5 = 2 \<longrightarrow> released W1 = released ?W \<and> released W2 = released ?W @ [5]"
    using sys_close_twice [OF some_table_ok(1) [of True] _ f(1,2), of ?W] by auto
  then show ?thesis using f(3,4) by (intro exI [of _ I1] exI [of _ W1] exI [of _ W2]) simp
qed

text \<open>\<^verbatim>\<open>task_fd_put\<close> accepts the number one past the last entry, and writes there.\<close>

lemma task_fd_put_outside: "fd_ok I \<Longrightarrow> task_fd_put 8 I = None \<and> task_fd_put 9 I = Some (Some EBADF, I)"
  by (simp add: task_fd_put_def set_busy_def get_entry_def arr_get_def fd_ok_def CONFIG_TASK_FILE_MAX_NR_def)

text \<open>Writing to a file that is not open for writing answers 9, the number of \<^verbatim>\<open>EBADF\<close>, as the size written; reading one that is not open for reading is refused.\<close>

lemma sys_write_denied:
  assumes "fd_ok I" and "fd < 8" and "\<not> VFS_IS (f_flags (efile (fd_entry_base I ! fd))) VFS_O_DIRECTORY"
  shows "\<not> VFS_IS (f_flags (efile (fd_entry_base I ! fd))) VFS_O_WRONLY \<Longrightarrow> sys_write op fd I W = Some ((9, None), W)"
    and "\<not> VFS_IS (f_flags (efile (fd_entry_base I ! fd))) VFS_O_RDONLY \<Longrightarrow> sys_read op fd I W = Some ((-1, Some 9), W)"
  using assms by (simp_all add: sys_write_def sys_read_def sys_io_def fd_file_ok vfs_write_def vfs_read_def)

end
