(* ===== verification/Mm_Vmm.thy ===== *)
theory Mm_Vmm
  imports Mm_VmmFault Kern_TaskFd
begin

text \<open>
  Mapping and unmapping memory: \<^verbatim>\<open>vmm_mmap\<close>, \<^verbatim>\<open>vmm_munmap\<close>, \<^verbatim>\<open>vmm_sbrk\<close>, \<^verbatim>\<open>vmm_destroy\<close> and what they call in \<^verbatim>\<open>src/kernel/mm/vmm.c\<close> and \<^verbatim>\<open>vm_region.c\<close>, and the system calls of
  \<^verbatim>\<open>sys_mmap.c\<close>, \<^verbatim>\<open>sys_sbrk.c\<close> and \<^verbatim>\<open>sys_madvise.c\<close>. The descriptor that an allocation returns, the mapper of a shared anonymous region and the \<^verbatim>\<open>mmap\<close> operation of a file are
  parameters; \<^verbatim>\<open>vfs_default_mmap_file\<close> is the operation of ordinary files. What is given back to the allocator is recorded in a list. \<open>None\<close> is a wait for a
  reference count that nobody drops, or the use of a null pointer. Locks, counters of faults and pages, and messages are left out.
\<close>

section \<open>Model\<close>

definition VM_REG_FILE :: u32 where [kconfig]: "VM_REG_FILE = 0x0100"
definition VM_REG_INST :: u32 where [kconfig]: "VM_REG_INST = 0x1000"

text \<open>\<open>Mapper\<close>: the mapper inside a region, either destroyed or, by mistake, given back as if it had been allocated.\<close>

datatype freed = Region addr | Mapper addr | Destroyed addr

text \<open>\<open>m_refcount\<close> and \<open>m_reg_root\<close> are fields of the mapper inside each region.\<close>

record 'c task_s =
  vmm :: vmm_s
  vs :: "'c vm_state"
  heap_region :: addr
  heap_current :: u32
  text_start :: u32
  limit_addr :: u32
  fds :: fd_info_s
  files :: files_s
  m_refcount :: "addr \<Rightarrow> int"
  m_reg_root :: "addr \<Rightarrow> addr list"
  freed :: "freed list"

abbreviation get_region :: "'c task_s \<Rightarrow> addr \<Rightarrow> vm_region_s" where
  "get_region T r \<equiv> regs (vmm T) r"

definition set_region :: "addr \<Rightarrow> vm_region_s \<Rightarrow> 'c task_s \<Rightarrow> 'c task_s" where
  "set_region a r T = T\<lparr>vmm := (vmm T)\<lparr>regs := (regs (vmm T))(a := r)\<rparr>\<rparr>"

definition kmem_free :: "freed \<Rightarrow> 'c task_s \<Rightarrow> 'c task_s" where
  "kmem_free x T = T\<lparr>freed := freed T @ [x]\<rparr>"

definition vmm_init :: "bool \<Rightarrow> vmm_s \<Rightarrow> error_t \<times> vmm_s" where
  "vmm_init alloc V =
     (let V = V\<lparr>regions_root := [], regions_tree := (regions_tree V)\<lparr>rb_top := 0\<rparr>, last_mmap := 0\<rparr>;
          (err, db) = keysdb_init alloc (regions_db V) CONFIG_VM_REGION_KEYWIDTH
      in (err, V\<lparr>regions_db := db\<rparr>))"

definition vmm_check_address :: "u32 \<Rightarrow> u32 \<Rightarrow> 'c task_s \<Rightarrow> error_t" where
  "vmm_check_address a sz T = (if a < text_start T \<or> limit_addr T \<le> a + sz then Some EINVAL else OK)"

text \<open>\<^verbatim>\<open>vm_region_unmap\<close>: the entry of a page that is present is cleared, unless the region is lazy, and its frame loses a reference.\<close>

primrec unmap_loop :: "bool \<Rightarrow> nat \<Rightarrow> u32 \<Rightarrow> 'c vm_state \<Rightarrow> 'c vm_state" where
  "unmap_loop isLazy 0 vaddr s = s"
| "unmap_loop isLazy (Suc count) vaddr s =
     (let (a, p) = pmm_get_page vaddr (pmm s);
          s = (if flag_set a PMM_PRESENT
               then ppn_refcount_down p (if isLazy then s else set_pmm (snd (pmm_set_page None None vaddr (page_info 0 0) (pmm s))) s)
               else s)
      in unmap_loop isLazy count (vaddr + PMM_PAGE_SIZE) s)"

definition vm_region_unmap :: "vm_region_s \<Rightarrow> 'c vm_state \<Rightarrow> 'c vm_state" where
  "vm_region_unmap r s = unmap_loop (flag_set (vm_flags r) VM_REG_LAZY) (unat (drop_bit 12 (vm_limit r - vm_start r))) (vm_start r) s"

text \<open>
  The operations of the file of a region, which depend on its file system: \<^verbatim>\<open>close\<close>, and \<^verbatim>\<open>munmap\<close>, which may change the page tables. \<^verbatim>\<open>vfs_default_munmap_file\<close>, the one of ordinary files,
  does nothing.
\<close>

record 'c file_ops =
  fop_close :: "nat \<Rightarrow> error_t"
  fop_munmap :: "nat \<Rightarrow> vm_region_s \<Rightarrow> 'c vm_state \<Rightarrow> 'c vm_state"

definition vfs_default_munmap_file :: "nat \<Rightarrow> vm_region_s \<Rightarrow> 'c vm_state \<Rightarrow> 'c vm_state" where
  "vfs_default_munmap_file f region s = s"

text \<open>\<^verbatim>\<open>vm_region_detach\<close>; its first part is \<open>region_unlink\<close>.\<close>

definition detach_mapper :: "addr \<Rightarrow> 'c task_s \<Rightarrow> int \<times> 'c task_s" where
  "detach_mapper region T =
     (let count = m_refcount T region
      in (count, T\<lparr>m_refcount := (m_refcount T)(region := count - 1), m_reg_root := (m_reg_root T)(region := remove1 region (m_reg_root T region))\<rparr>))"

definition vm_region_detach :: "'c file_ops \<Rightarrow> addr \<Rightarrow> 'c task_s \<Rightarrow> 'c task_s option" where
  "vm_region_detach f_op region T = do {
     V \<leftarrow> region_unlink region (vmm T);
     let T = T\<lparr>vmm := V\<rparr>;
     let r = get_region T region;
     let isSharedAnon = (flag_set (vm_flags r) VM_REG_SHARED \<and> flag_set (vm_flags r) VM_REG_ANON);
     let (mapper_count, T) = (if isSharedAnon then detach_mapper region T else (0, T));
     if 1 < vm_refcount r then None
     else do {
       let T = (case vm_file r of
                  None \<Rightarrow> T
                | Some f \<Rightarrow> (let T = T\<lparr>vs := fop_munmap f_op f r (vs T)\<rparr> in T\<lparr>files := snd (vfs_file_remote_down (fop_close f_op) f (files T))\<rparr>));
       let T = T\<lparr>vs := vm_region_unmap r (vs T)\<rparr>;
       let T = (if isSharedAnon \<and> mapper_count = 1 then kmem_free (Destroyed region) T else T);
       Some (kmem_free (Region region) T) } }"

definition vm_region_split :: error_t where "vm_region_split = Some ENOSYS"
definition vm_region_resize :: error_t where "vm_region_resize = OK"

definition vmm_do_munmap :: "'c file_ops \<Rightarrow> addr \<Rightarrow> u32 \<Rightarrow> u32 \<Rightarrow> 'c task_s \<Rightarrow> (error_t \<times> 'c task_s) option" where
  "vmm_do_munmap f_op region a len T =
     (let addr_limit = a + len; r = get_region T region
      in if vm_start r = a \<and> vm_limit r = addr_limit then do { T \<leftarrow> vm_region_detach f_op region T; Some (OK, T) }
         else if vm_start r \<le> a \<and> addr_limit < vm_limit r then Some (vm_region_split, T)
         else Some (vm_region_resize, T))"

definition vmm_munmap :: "'c file_ops \<Rightarrow> u32 \<Rightarrow> u32 \<Rightarrow> 'c task_s \<Rightarrow> (error_t \<times> 'c task_s) option" where
  "vmm_munmap f_op vaddr len T = do {
     hit \<leftarrow> keysdb_lookup (regions_db (vmm T)) (drop_bit CONFIG_VM_REGION_KEYWIDTH vaddr);
     case hit of
       None \<Rightarrow> Some (Some EINVAL, T)
     | Some region \<Rightarrow>
         if vm_limit (get_region T region) < vaddr \<or> vaddr < vm_start (get_region T region) then Some (Some EINVAL, T)
         else vmm_do_munmap f_op region vaddr len T }"

text \<open>\<^verbatim>\<open>vmm_destroy\<close>: the regions are detached from the first on, each marked lazy before; the answer includes the records of the key database that are given back.\<close>

partial_function (option) destroy_regions :: "'c file_ops \<Rightarrow> 'c task_s \<Rightarrow> 'c task_s option" where
  "destroy_regions f_op T =
     (case regions_root (vmm T) of
        [] \<Rightarrow> Some T
      | region # _ \<Rightarrow> do {
          let r = get_region T region;
          T \<leftarrow> vm_region_detach f_op region (set_region region (r\<lparr>vm_flags := vm_flags r OR VM_REG_LAZY\<rparr>) T);
          destroy_regions f_op T })"

definition vmm_destroy :: "'c file_ops \<Rightarrow> 'c task_s \<Rightarrow> (nat list \<times> 'c task_s) option" where
  "vmm_destroy f_op T = do {
     T \<leftarrow> destroy_regions f_op T;
     Some (keysdb_destroy (regions_db (vmm T)), T\<lparr>vmm := (vmm T)\<lparr>last_region := 0\<rparr>\<rparr>) }"

declare destroy_regions.simps [code]

text \<open>
  What \<^verbatim>\<open>vmm_mmap\<close> is given by others: a descriptor, the mapper of a shared anonymous region (\<open>None\<close>: no memory), the \<^verbatim>\<open>mmap\<close> operation of a file, whether the records
  of the key database can be allocated, the other operations of files and the size of their inodes.
\<close>

record 'c mmap_env =
  new_region :: "addr option"
  new_mapper :: "nat option"
  file_mmap :: "vfs_file_s \<Rightarrow> vm_region_s \<Rightarrow> error_t \<times> vm_region_s"
  keys_alloc :: "nat \<Rightarrow> bool"
  fops :: "'c file_ops"
  inode_size :: "nat \<Rightarrow> u32"

definition vfs_default_mmap_file :: "nat \<Rightarrow> vfs_file_s \<Rightarrow> vm_region_s \<Rightarrow> error_t \<times> vm_region_s" where
  "vfs_default_mmap_file onln_clusters f r =
     (let r = r\<lparr>vm_mapper := f_mapper f, vm_file := Some (f_remote f)\<rparr>;
          r = (if flag_set (vm_flags r) VM_REG_PRIVATE then r\<lparr>vm_pgprot := (vm_pgprot r AND NOT PMM_WRITE) OR PMM_COW\<rparr> else r);
          r = (if flag_set (vm_flags r) VM_REG_SHARED \<and> flag_set (vm_flags r) VM_REG_INST \<and> 1 < onln_clusters
               then r\<lparr>vm_pgprot := (vm_pgprot r AND NOT PMM_PRESENT) OR PMM_MIGRATE\<rparr> else r)
      in (OK, r\<lparr>vm_flags := vm_flags r OR VM_REG_FILE\<rparr>))"

text \<open>On failure the mapper, which lies inside the region, is given back as if it had been allocated.\<close>

definition vmm_do_shared_anon_mapping :: "'c mmap_env \<Rightarrow> addr \<Rightarrow> 'c task_s \<Rightarrow> error_t \<times> 'c task_s" where
  "vmm_do_shared_anon_mapping env region T =
     (case new_mapper env of
        None \<Rightarrow> (Some ENOMEM, kmem_free (Mapper region) T)
      | Some m \<Rightarrow>
          (OK, set_region region ((get_region T region)\<lparr>vm_mapper := Some m, vm_file := None\<rparr>)
                 (T\<lparr>m_refcount := (m_refcount T)(region := 1), m_reg_root := (m_reg_root T)(region := [region])\<rparr>)))"

text \<open>What the region shows. The first component is false when the call gives up, which it can do with an error code of 0.\<close>

definition mmap_backing :: "'c mmap_env \<Rightarrow> vfs_file_s option \<Rightarrow> u32 \<Rightarrow> addr \<Rightarrow> 'c task_s \<Rightarrow> bool \<times> error_t \<times> 'c task_s" where
  "mmap_backing env f flags region T =
     (if flag_set flags VM_REG_SHARED \<and> flag_set flags VM_REG_ANON
      then let (err, T) = vmm_do_shared_anon_mapping env region T in (err = OK, err, T)
      else case f of
             Some f \<Rightarrow> (let (err, r) = file_mmap env f (get_region T region) in (err = OK, err, set_region region r T))
           | None \<Rightarrow> (\<not> flag_set flags VM_REG_SHARED, OK, T))"

text \<open>
  \<^verbatim>\<open>vmm_mmap\<close> answers the address (\<open>Inr\<close>), or \<^verbatim>\<open>VM_FAILED\<close> with the code stored in \<^verbatim>\<open>errno\<close> (\<open>Inl\<close>). The label \<^verbatim>\<open>MMAP_ERR2\<close> detaches the region, which gives the
  descriptor back, and falls through to \<^verbatim>\<open>MMAP_ERR1\<close>, which gives it back again.
\<close>

definition vmm_mmap :: "'c mmap_env \<Rightarrow> vfs_file_s option \<Rightarrow> u32 \<Rightarrow> u32 \<Rightarrow> u32 \<Rightarrow> u32 \<Rightarrow> u32 \<Rightarrow> 'c task_s \<Rightarrow> ((error_t + u32) \<times> 'c task_s) option" where
  "vmm_mmap env f asked_addr len proto flags offset T =
     (case new_region env of
        None \<Rightarrow> Some (Inl (Some ENOMEM), T)
      | Some region \<Rightarrow> do {
          let flags = flags OR VM_REG_INIT;
          let T = set_region region (vm_region_init asked_addr (asked_addr + len) proto offset flags) T;
          (err, V) \<leftarrow> vm_region_attach region (vmm T);
          let T = T\<lparr>vmm := V\<rparr>;
          if err \<noteq> OK then Some (Inl err, kmem_free (Region region) T)
          else do {
            let T = set_region region ((get_region T region)\<lparr>vm_op := Some vm_region_default_op\<rparr>) T;
            let (ok, err, T) = mmap_backing env f flags region T;
            if \<not> ok
            then do { T \<leftarrow> vm_region_detach (fops env) region T; Some (Inl err, kmem_free (Region region) T) }
            else do {
              let r = get_region T region;
              let T = set_region region (r\<lparr>vm_flags := vm_flags r AND NOT VM_REG_INIT\<rparr>) T;
              let T = (if flag_set flags VM_REG_HEAP then T\<lparr>heap_region := region\<rparr> else T);
              V \<leftarrow> vmm_keysdb_update (keys_alloc env) region (vmm T);
              Some (Inr (vm_start r), T\<lparr>vmm := V\<rparr>) } } })"

definition vmm_sbrk :: "u32 \<Rightarrow> u32 \<Rightarrow> 'c task_s \<Rightarrow> error_t \<times> 'c task_s" where
  "vmm_sbrk current sz T =
     (if current < heap_current T then (Some EAGAIN, T)
      else if CONFIG_TASK_HEAP_MAX_SIZE < heap_current T + sz then (Some ENOMEM, T)
      else let h = get_region T (heap_region T) in (OK, set_region (heap_region T) (h\<lparr>vm_limit := vm_limit h + sz\<rparr>) T))"

definition CONFIG_TASK_HEAP_MIN_SIZE :: u32 where [kconfig]: "CONFIG_TASK_HEAP_MIN_SIZE = 0x00010000"

text \<open>\<^verbatim>\<open>sys_sbrk\<close> answers a size for a request of 0, and otherwise the error of \<^verbatim>\<open>vmm_sbrk\<close>.\<close>

definition sys_sbrk :: "u32 \<Rightarrow> u32 \<Rightarrow> 'c task_s \<Rightarrow> (error_t + u32) \<times> 'c task_s" where
  "sys_sbrk current_heap_ptr sz T =
     (if sz = 0 then (Inr CONFIG_TASK_HEAP_MIN_SIZE, T)
      else let (err, T) = vmm_sbrk current_heap_ptr (sz * PMM_PAGE_SIZE) T in (Inl err, T))"

record mmap_attr_t =
  maddr :: u32
  mlength :: u32
  mprot :: u32
  mflags :: u32
  mfd :: nat
  moffset :: u32

text \<open>
  The argument of \<^verbatim>\<open>NOT_IN_USPACE\<close> is pasted after a cast to \<^verbatim>\<open>long\<close> that then covers only the first operand of a sum: the sum of two unsigned numbers is unsigned, and is compared so.
\<close>

definition sum_not_in_uspace :: "u32 \<Rightarrow> u32 \<Rightarrow> bool" where
  "sum_not_in_uspace a b \<longleftrightarrow> \<not> (CONFIG_USR_OFFSET \<le> a + b \<and> a + b \<le> CONFIG_USR_LIMIT)"

definition PMM_PAGE_MASK :: u32 where [kconfig]: "PMM_PAGE_MASK = 0x0FFF"

definition mmap_args_bad :: "mmap_attr_t \<Rightarrow> bool" where
  "mmap_args_bad at \<longleftrightarrow> flag_set (mflags at) VM_REG_HEAP \<or> mflags at AND VM_REG_PVSH = VM_REG_PVSH \<or> mflags at AND VM_REG_PVSH = 0
     \<or> mlength at = 0 \<or> flag_set (moffset at) PMM_PAGE_MASK
     \<or> maddr at \<noteq> 0 \<and> (flag_set (maddr at) PMM_PAGE_MASK \<or> sum_not_in_uspace (mlength at) (maddr at) \<or> NOT_IN_USPACE (maddr at))"

text \<open>\<^verbatim>\<open>SYS_MMAP_FILE_ERR\<close>: the reference is given back, and the descriptor is freed when the count that was answered is 1, the number of \<^verbatim>\<open>EPERM\<close> too.\<close>

definition mmap_file_err :: "'c mmap_env \<Rightarrow> vfs_file_s \<Rightarrow> nat \<Rightarrow> error_t \<Rightarrow> 'c task_s \<Rightarrow> ((error_t + u32) \<times> 'c task_s) option" where
  "mmap_file_err env f fd err T = do {
     let (_, count, W) = vfs_close (fop_close (fops env)) f (files T);
     let T = T\<lparr>files := W\<rparr>;
     if count = Count 1 \<or> count = Error EPERM
     then do { (_, I) \<leftarrow> task_fd_put fd (fds T); Some (Inl err, T\<lparr>fds := I\<rparr>) }
     else Some (Inl err, T) }"

text \<open>\<^verbatim>\<open>sys_mmap\<close>, after its argument was copied from user space.\<close>

definition sys_mmap :: "'c mmap_env \<Rightarrow> mmap_attr_t \<Rightarrow> 'c task_s \<Rightarrow> ((error_t + u32) \<times> 'c task_s) option" where
  "sys_mmap env at T =
     (if mmap_args_bad at then Some (Inl (Some EINVAL), T)
      else if flag_set (mflags at) VM_REG_ANON
      then vmm_mmap env None (if flag_set (mflags at) VM_REG_FIXED then maddr at else 0) (mlength at) (mprot at) (mflags at) 0 T
      else do {
        res \<leftarrow> fd_file (mfd at) (fds T);
        case res of
          Inl e \<Rightarrow> Some (Inl (Some EBADFD), T)
        | Inr f \<Rightarrow> do {
            let T = T\<lparr>files := vfs_file_up f (files T)\<rparr>;
            if inode_size env (f_remote f) < moffset at + mlength at then mmap_file_err env f (mfd at) (Some ERANGE) T
            else if flag_set (mprot at) VM_REG_RD \<and> \<not> VFS_IS (f_flags f) VFS_O_RDONLY \<or> flag_set (mprot at) VM_REG_WR \<and> \<not> VFS_IS (f_flags f) VFS_O_WRONLY
                 \<or> flag_set (mprot at) VM_REG_WR \<and> VFS_IS (f_flags f) VFS_O_APPEND
            then mmap_file_err env f (mfd at) (Some EACCES) T
            else do {
              (res, T) \<leftarrow> vmm_mmap env (Some f) (maddr at) (mlength at) (mprot at) (mflags at) (moffset at) T;
              case res of Inr a \<Rightarrow> Some (Inr a, T) | Inl err \<Rightarrow> mmap_file_err env f (mfd at) err T } } })"

text \<open>\<^verbatim>\<open>vmm_madvise_migrate\<close>: pages present are marked, to be moved by the next access.\<close>

primrec migrate_loop :: "nat \<Rightarrow> u32 \<Rightarrow> 'c vm_state \<Rightarrow> 'c vm_state" where
  "migrate_loop 0 vaddr s = s"
| "migrate_loop (Suc count) vaddr s =
     (let (a, p) = pmm_get_page vaddr (pmm s);
          s = (if flag_set a PMM_PRESENT
               then set_pmm (snd (pmm_set_page None None vaddr (page_info ((a AND NOT PMM_PRESENT) OR PMM_MIGRATE) p) (pmm s))) s
               else s)
      in migrate_loop count (vaddr + PMM_PAGE_SIZE) s)"

definition vmm_madvise_migrate :: "u32 \<Rightarrow> u32 \<Rightarrow> 'c vm_state \<Rightarrow> 'c vm_state" where
  "vmm_madvise_migrate start len s = migrate_loop (unat (drop_bit 12 (ARROUND_UP len PMM_PAGE_SIZE))) start s"

definition vmm_madvise_willneed :: error_t where "vmm_madvise_willneed = Some ENOSYS"

text \<open>\<^verbatim>\<open>vmm_set_auto_migrate\<close>: the regions from the one at an address on, in the order of the list.\<close>

definition MGRT_STACK :: u32 where [kconfig]: "MGRT_STACK = 0x1"

definition auto_skip :: "u32 \<Rightarrow> vm_region_s \<Rightarrow> bool" where
  "auto_skip flags r \<longleftrightarrow> flag_set (vm_flags r) VM_REG_INIT \<or> flag_set (vm_flags r) VM_REG_STACK \<and> \<not> flag_set flags MGRT_STACK
     \<or> flag_set (vm_flags r) VM_REG_SHARED \<or> flag_set (vm_flags r) VM_REG_DEV"

primrec auto_migrate_list :: "u32 \<Rightarrow> (addr \<Rightarrow> vm_region_s) \<Rightarrow> addr list \<Rightarrow> 'c vm_state \<Rightarrow> 'c vm_state" where
  "auto_migrate_list flags M [] s = s"
| "auto_migrate_list flags M (b # bs) s =
     auto_migrate_list flags M bs (if auto_skip flags (M b) then s else vmm_madvise_migrate (vm_start (M b)) (vm_limit (M b) - vm_start (M b)) s)"

definition vmm_set_auto_migrate :: "u32 \<Rightarrow> u32 \<Rightarrow> 'c task_s \<Rightarrow> (error_t \<times> 'c task_s) option" where
  "vmm_set_auto_migrate start flags T = do {
     region \<leftarrow> vm_region_find start (vmm T);
     if region = 0 \<or> vm_start (get_region T region) < start then Some (Some ESRCH, T)
     else Some (OK, T\<lparr>vs := auto_migrate_list flags (regs (vmm T)) (dropWhile (\<lambda>b. b \<noteq> region) (regions_root (vmm T))) (vs T)\<rparr>) }"

text \<open>
  \<^verbatim>\<open>sys_madvise\<close>: \<^verbatim>\<open>check_args\<close> computes an error and answers 0, and reads the last region used without testing that there is one (\<open>None\<close>), as does its caller with the region found.
\<close>

definition check_args :: "u32 \<Rightarrow> vmm_s \<Rightarrow> addr option" where
  "check_args start V =
     (let region = last_region V
      in if region = 0 then None
         else if vm_limit (regs V region) \<le> start \<or> start < vm_start (regs V region) then vm_region_find start V
         else Some region)"

definition MADV_WILLNEED :: u32 where [kconfig]: "MADV_WILLNEED = 0x3"
definition MADV_DONTNEED :: u32 where [kconfig]: "MADV_DONTNEED = 0x4"
definition MADV_MIGRATE :: u32 where [kconfig]: "MADV_MIGRATE = 0x5"

definition sys_madvise :: "u32 \<Rightarrow> u32 \<Rightarrow> u32 \<Rightarrow> 'c task_s \<Rightarrow> (error_t \<times> 'c task_s) option" where
  "sys_madvise start len advice T =
     (if start = 0 \<or> flag_set start PMM_PAGE_MASK then Some (Some EINVAL, T)
      else if sum_not_in_uspace start len then Some (Some EPERM, T)
      else do {
        region \<leftarrow> check_args start (vmm T);
        if region = 0 then None
        else if flag_set (vm_flags (get_region T region)) VM_REG_DEV \<or> flag_set (vm_flags (get_region T region)) VM_REG_SHARED then Some (OK, T)
        else if advice \<le> MADV_WILLNEED then Some (vmm_madvise_willneed, T)
        else if advice = MADV_DONTNEED then Some (OK, T)
        else if advice = MADV_MIGRATE then Some (OK, T\<lparr>vs := vmm_madvise_migrate start len (vs T)\<rparr>)
        else Some (Some EINVAL, T) })"

text \<open>A page of a shared region is taken out of the tables of one of the tasks that share it, and put back with another frame.\<close>

definition vmm_inval_shared_page :: "u32 option \<Rightarrow> u32 \<Rightarrow> u32 \<Rightarrow> pmm_s \<Rightarrow> error_t \<times> pmm_s" where
  "vmm_inval_shared_page alloc vaddr p P =
     (if snd (pmm_get_page vaddr P) \<noteq> p then (OK, P) else pmm_set_page alloc None vaddr (page_info 0 0) P)"

definition vmm_update_shared_page :: "u32 option \<Rightarrow> vm_region_s \<Rightarrow> u32 \<Rightarrow> u32 \<Rightarrow> pmm_s \<Rightarrow> error_t \<times> pmm_s" where
  "vmm_update_shared_page alloc region vaddr p P =
     (if fst (pmm_get_page vaddr P) \<noteq> 0 then (OK, P) else pmm_set_page alloc None vaddr (page_info (vm_pgprot region) p) P)"

section \<open>Mapping\<close>

lemma flag_or: "flag_set (a OR b) c \<longleftrightarrow> flag_set a c \<or> flag_set b c"
  by (simp add: flag_set_def bit.conj_disj_distrib2 or_eq_0_iff)

text \<open>Only the bounds of the attached regions matter for the order of an address space.\<close>

lemma layout_bounds: "(\<And>a. a \<in> set xs \<Longrightarrow> vm_begin (M a) = vm_begin (N a) \<and> vm_end (M a) = vm_end (N a)) \<Longrightarrow> layout M xs \<longleftrightarrow> layout N xs"
  by (induction xs) (auto simp: layout_Cons layout_def)

lemma vmm_ok_bounds:
  assumes "\<And>b. b \<in> set (regions_root V) \<Longrightarrow> vm_begin (M b) = vm_begin (regs V b) \<and> vm_end (M b) = vm_end (regs V b)"
  shows "vmm_ok (V\<lparr>regs := M\<rparr>) \<longleftrightarrow> vmm_ok V"
proof -
  have "layout M (regions_root V) \<longleftrightarrow> layout (regs V) (regions_root V)" using assms by (rule layout_bounds)
  moreover have "(r \<in> set (regions_root V) \<and> unat (vm_begin (M r)) \<le> n \<and> n < unat (vm_end (M r)))
      \<longleftrightarrow> (r \<in> set (regions_root V) \<and> unat (vm_begin (regs V r)) \<le> n \<and> n < unat (vm_end (regs V r)))" for r n using assms by auto
  moreover have "(\<forall>b\<in>set (regions_root V). whole_slots (M b)) \<longleftrightarrow> (\<forall>b\<in>set (regions_root V). whole_slots (regs V b))" using assms by (simp add: whole_slots_def)
  ultimately show ?thesis by (simp add: vmm_ok_def regions_ok_def keys_ok_def)
qed

lemma slot_rounding:
  assumes "65536 dvd (e :: nat)" and "e \<le> s"
  shows "e \<le> s - s mod 65536"
proof -
  obtain k where "e = 65536 * k" using assms(1) by (rule dvdE)
  then have "k \<le> s div 65536" using assms(2) by (simp add: less_eq_div_iff_mult_less_eq mult.commute)
  then have "65536 * k \<le> 65536 * (s div 65536)" by simp
  then show ?thesis using \<open>e = 65536 * k\<close> by (simp add: minus_mod_eq_mult_div)
qed

lemma first_fit_aligned:
  assumes "65536 dvd unat l" and "l \<le> s" and "sz \<le> CONFIG_USR_LIMIT" and "s \<le> CONFIG_USR_LIMIT - sz"
    and "regions_root V = as @ bs" and "\<forall>b\<in>set as. vm_end (regs V b) \<le> s" and "\<forall>b\<in>set bs. s + sz < vm_begin (regs V b)"
    and "\<forall>b\<in>set (regions_root V). whole_slots (regs V b)" and "\<And>s'. l \<le> s' \<Longrightarrow> s' < s \<Longrightarrow> blocked V sz s'"
  shows "65536 dvd unat s"
proof (rule ccontr)
  assume n: "\<not> 65536 dvd unat s"
  define s' where "s' = (of_nat (unat s - unat s mod 65536) :: u32)"
  have u: "unat s' = unat s - unat s mod 65536" unfolding s'_def by (rule unat_small) (use unat_bound [of s] in linarith)
  have "0 < unat s mod 65536" "unat s mod 65536 \<le> unat s" using n by (auto simp: dvd_eq_mod_eq_0)
  then have lt: "s' < s" using u by (simp add: word_less_nat_alt)
  have "l \<le> s'" using slot_rounding [OF assms(1)] assms(2) u by (simp add: word_le_nat_alt)
  then obtain b where b: "b \<in> set (as @ bs)" "s' < vm_end (regs V b)" "vm_begin (regs V b) \<le> s' + sz"
    using assms(5) assms(9) [of s'] lt by (auto simp: blocked_def)
  show False
  proof (cases "b \<in> set as")
    case True
    then have "65536 dvd unat (vm_end (regs V b))" "vm_end (regs V b) \<le> s" using assms(5,6,8) by (auto simp: whole_slots_def)
    then have "unat (vm_end (regs V b)) \<le> unat s'" using slot_rounding u by (simp add: word_le_nat_alt)
    then show False using b(2) by (simp add: word_less_nat_alt)
  next
    case False
    then have "s + sz < vm_begin (regs V b)" using b(1) assms(7) by auto
    moreover have "s' + sz \<le> s + sz" using no_wrap(4) [OF assms(3,4)] lt by simp
    ultimately show False using b(3) by (meson leD le_less_trans order_trans)
  qed
qed

lemma rounded:
  assumes "0 < len" and "len \<le> CONFIG_USR_LIMIT"
  shows "65536 dvd unat (ARROUND_UP len 65536)" and "len \<le> ARROUND_UP len 65536" and "ARROUND_UP len 65536 \<le> CONFIG_USR_LIMIT"
proof -
  have l: "unat len \<le> 2147483648" using assms(2) by (simp add: word_le_nat_alt CONFIG_USR_LIMIT_def)
  note r = ARROUND_UP_pow2 [of 16 len, simplified]
  show "65536 dvd unat (ARROUND_UP len 65536)" "len \<le> ARROUND_UP len 65536" using r l by (simp_all add: word_le_nat_alt)
  obtain k where k: "unat (ARROUND_UP len 65536) = 65536 * k" using r l by (auto elim: dvdE)
  then have "k \<le> 32768" using r l by simp
  then show "ARROUND_UP len 65536 \<le> CONFIG_USR_LIMIT" using k by (simp add: word_le_nat_alt CONFIG_USR_LIMIT_def)
qed

lemma init_flag [simp]:
  "flag_set (flags OR VM_REG_INIT) VM_REG_HEAP \<longleftrightarrow> flag_set flags VM_REG_HEAP" "flag_set (flags OR VM_REG_INIT) VM_REG_FIXED \<longleftrightarrow> flag_set flags VM_REG_FIXED"
  "flag_set (flags OR VM_REG_INIT) VM_REG_SHARED \<longleftrightarrow> flag_set flags VM_REG_SHARED" "flag_set (flags OR VM_REG_INIT) VM_REG_HUGETLB \<longleftrightarrow> flag_set flags VM_REG_HUGETLB"
  unfolding flag_or by (simp_all add: flag_set_def VM_REG_INIT_def VM_REG_HEAP_def VM_REG_FIXED_def VM_REG_SHARED_def VM_REG_HUGETLB_def)

text \<open>The descriptor that \<^verbatim>\<open>vmm_mmap\<close> leaves for an anonymous private mapping at \<open>a\<close>.\<close>

definition anon_region :: "u32 \<Rightarrow> u32 \<Rightarrow> u32 \<Rightarrow> u32 \<Rightarrow> vm_region_s" where
  "anon_region a len prot flags = (moved a (vm_region_init 0 len prot 0 (flags OR VM_REG_INIT)))\<lparr>vm_op := Some vm_region_default_op, vm_flags := (flags OR VM_REG_INIT) AND NOT VM_REG_INIT\<rparr>"

lemma init_bounds:
  assumes "\<not> flag_set flags VM_REG_HEAP"
  shows "vm_begin (vm_region_init 0 len prot 0 (flags OR VM_REG_INIT)) = 0" "vm_end (vm_region_init 0 len prot 0 (flags OR VM_REG_INIT)) = ARROUND_UP len 65536"
    "vm_start (vm_region_init 0 len prot 0 (flags OR VM_REG_INIT)) = 0" "vm_limit (vm_region_init 0 len prot 0 (flags OR VM_REG_INIT)) = len"
    "vm_flags (vm_region_init 0 len prot 0 (flags OR VM_REG_INIT)) = flags OR VM_REG_INIT"
  using assms by (simp_all add: vm_region_init_def Let_def CONFIG_VM_REGION_KEYWIDTH_def ARROUND_DOWN_def)

lemma placed_ok:
  assumes V: "vmm_ok V" and x: "x \<notin> set (regions_root V)" and root: "regions_root V = as @ bs" and as: "\<forall>b\<in>set as. vm_end (regs V b) \<le> s"
    and bs: "\<forall>b\<in>set bs. s + e < vm_begin (regs V b)" and t: "rb_tree t (as @ x # bs)" and "e \<le> CONFIG_USR_LIMIT" and "0 < e" and "65536 dvd unat e"
    and "s \<le> CONFIG_USR_LIMIT - e" and "65536 dvd unat s" and M: "vm_begin (M x) = s" "vm_end (M x) = s + e" "\<forall>b. b \<noteq> x \<longrightarrow> M b = regs V b"
  shows "vmm_ok (V\<lparr>regs := M, regions_tree := t, regions_root := as @ x # bs, last_mmap := s\<rparr>)"
proof -
  note w = no_wrap [OF assms(7,10)]
  have lt: "s < s + e" using w(1) assms(8) by (simp add: word_less_nat_alt)
  have old: "M b = regs V b" if "b \<in> set (as @ bs)" for b using that M(3) x root by auto
  have "layout (regs V) (as @ bs)" using V root by (simp add: vmm_ok_def regions_ok_def)
  then have "layout M (as @ bs)" using layout_cong [of "as @ bs" M "regs V"] old by simp
  moreover have "\<forall>b\<in>set as. vm_end (M b) \<le> vm_begin (M x)" using as old M(1) by simp
  moreover have sb: "\<forall>b\<in>set bs. s + e < vm_begin (M b)" using bs old by simp
  moreover have "\<forall>b\<in>set bs. vm_begin (M x) < vm_begin (M b)" using sb lt M(1) by (auto intro: less_trans)
  ultimately have "layout M (as @ x # bs)" using layout_insert [of M as bs x] M lt by (auto intro: less_imp_le)
  moreover have "keys_ok (V\<lparr>regs := M, regions_tree := t, regions_root := as @ x # bs, last_mmap := s\<rparr>)"
    using V old root by (auto simp: vmm_ok_def keys_ok_def)
  moreover have "whole_slots (M b)" if "b \<in> set (as @ x # bs)" for b
    using that V old root M assms(9,11) w(1) by (cases "b = x") (auto simp: vmm_ok_def whole_slots_def)
  ultimately show ?thesis using t by (simp add: vmm_ok_def regions_ok_def)
qed

lemma mmap_attached:
  fixes prot :: u32
  assumes "vmm_ok V" and "65536 dvd unat (last_mmap V)" and x: "x \<noteq> 0" "x \<notin> set (regions_root V)"
    and "0 < len" and "len \<le> CONFIG_USR_LIMIT" and "\<not> flag_set flags VM_REG_HEAP" and "\<not> flag_set flags VM_REG_FIXED"
  defines "r \<equiv> vm_region_init 0 len prot 0 (flags OR VM_REG_INIT)"
  defines "V0 \<equiv> V\<lparr>regs := (regs V)(x := r)\<rparr>"
  obtains (full) "vm_region_attach x V0 = Some (Some ENOMEM, V0)" "vmm_ok V0"
      "\<And>s. last_mmap V \<le> s \<Longrightarrow> s \<le> CONFIG_USR_LIMIT - ARROUND_UP len 65536 \<Longrightarrow> blocked V (ARROUND_UP len 65536) s"
  | (attached) s as bs t where "vm_region_attach x V0 = Some (OK, V\<lparr>regs := (regs V)(x := moved s r), regions_tree := t, regions_root := as @ x # bs, last_mmap := s\<rparr>)"
      "regions_root V = as @ bs" "65536 dvd unat s" "last_mmap V \<le> s" "s \<le> CONFIG_USR_LIMIT - ARROUND_UP len 65536"
      "\<And>M. vm_begin (M x) = s \<Longrightarrow> vm_end (M x) = s + ARROUND_UP len 65536 \<Longrightarrow> \<forall>b. b \<noteq> x \<longrightarrow> M b = regs V b \<Longrightarrow>
         vmm_ok (V\<lparr>regs := M, regions_tree := t, regions_root := as @ x # bs, last_mmap := s\<rparr>)"
proof -
  let ?e = "ARROUND_UP len 65536"
  note e = rounded [OF assms(5,6)]
  note i = init_bounds [OF assms(7), of len prot, folded r_def]
  have ok0: "vmm_ok V0" unfolding V0_def by (subst vmm_ok_bounds) (use assms(1) x(2) in auto)
  have V0: "vmm_ok V0" "regions_ok V0" "regions_root V0 = regions_root V" "regs V0 x = r" "last_mmap V0 = last_mmap V" "regions_db V0 = regions_db V"
    using ok0 by (simp_all add: V0_def vmm_ok_def)
  have bl: "blocked V0 ?e s \<longleftrightarrow> blocked V ?e s" for s using x(2) by (auto simp: blocked_def V0_def)
  have x0: "x \<notin> set (regions_root V0)" "\<not> flag_set (vm_flags (regs V0 x)) VM_REG_FIXED" "0 < vm_end (regs V0 x)" "vm_end (regs V0 x) \<le> CONFIG_USR_LIMIT"
    using x(2) V0(3,4) i e assms(5,8) by (auto intro: less_le_trans)
  show thesis
  proof (rule attach_anywhere_spec [OF V0(2) x(1) x0])
    assume "vm_region_attach x V0 = Some (Some ENOMEM, V0)"
      and "\<And>s. last_mmap V0 \<le> s \<Longrightarrow> s \<le> CONFIG_USR_LIMIT - vm_end (regs V0 x) \<Longrightarrow> blocked V0 (vm_end (regs V0 x)) s"
    then show thesis using full V0(1,4,5) i(2) bl by simp
  next
    fix s as bs t
    assume a: "vm_region_attach x V0 = Some (OK, V0\<lparr>regs := (regs V0)(x := moved s (regs V0 x)), regions_tree := t, regions_root := as @ x # bs, last_mmap := s\<rparr>)"
      "regions_root V0 = as @ bs" "rb_tree t (as @ x # bs)" "last_mmap V0 \<le> s" "s \<le> CONFIG_USR_LIMIT - vm_end (regs V0 x)"
      "\<forall>b\<in>set as. vm_end (regs V0 b) \<le> s" "\<forall>b\<in>set bs. s + vm_end (regs V0 x) < vm_begin (regs V0 b)"
      "\<And>s'. last_mmap V0 \<le> s' \<Longrightarrow> s' < s \<Longrightarrow> blocked V0 (vm_end (regs V0 x)) s'"
    have s: "s \<le> CONFIG_USR_LIMIT - ?e" "vm_end (regs V0 x) = ?e" using a(5) V0(4) i(2) by simp_all
    have w: "\<forall>b\<in>set (regions_root V0). whole_slots (regs V0 b)" using V0(1) by (simp add: vmm_ok_def)
    have al: "65536 dvd unat s"
      using first_fit_aligned [of "last_mmap V0" s ?e V0 as bs] a(2,4,6,7,8) assms(2) e(3) s w V0(5) by simp
    have old: "regs V0 b = regs V b" if "b \<in> set (as @ bs)" for b using that a(2) V0(3) x(2) by (auto simp: V0_def)
    have root: "regions_root V = as @ bs" "\<forall>b\<in>set as. vm_end (regs V b) \<le> s" "\<forall>b\<in>set bs. s + ?e < vm_begin (regs V b)"
      using a(2,6,7) V0(3) s(2) old by simp_all
    note ok = placed_ok [OF assms(1) x(2) root a(3) e(3) _ e(1) s(1) al, OF less_le_trans [OF assms(5) e(2)]]
    show thesis using attached [of s as bs t] a(1,2,4) s(1) al ok V0(3-5) by (simp add: V0_def)
  qed
qed

lemma not_init [simp]: "\<not> flag_set (f AND NOT VM_REG_INIT) VM_REG_INIT"
  by (simp add: flag_set_def VM_REG_INIT_def and.assoc)

lemma anon_bounds:
  assumes "\<not> flag_set flags VM_REG_HEAP"
  shows "vm_begin (anon_region a len prot flags) = a" "vm_end (anon_region a len prot flags) = a + ARROUND_UP len 65536"
    "vm_start (anon_region a len prot flags) = a" "vm_limit (anon_region a len prot flags) = a + len" "\<not> flag_set (vm_flags (anon_region a len prot flags)) VM_REG_INIT"
  using init_bounds [OF assms, of len prot] by (simp_all add: anon_region_def moved_def add.commute)

lemma mmap_result:
  fixes prot :: u32
  assumes "vmm_ok (vmm T)" and "65536 dvd unat (last_mmap (vmm T))" and "new_region env = Some x" and "x \<noteq> 0" and "x \<notin> set (regions_root (vmm T))"
    and "0 < len" and "len \<le> CONFIG_USR_LIMIT" and "\<not> flag_set flags VM_REG_HEAP" and "\<not> flag_set flags VM_REG_FIXED" and "\<not> flag_set flags VM_REG_SHARED"
  obtains (full) V where "vmm_mmap env None 0 len prot flags 0 T = Some (Inl (Some ENOMEM), T\<lparr>vmm := V, freed := freed T @ [Region x]\<rparr>)" "vmm_ok V"
      "V = (vmm T)\<lparr>regs := regs V\<rparr>" "\<And>b. b \<noteq> x \<Longrightarrow> regs V b = get_region T b"
      "\<And>s. last_mmap (vmm T) \<le> s \<Longrightarrow> s \<le> CONFIG_USR_LIMIT - ARROUND_UP len 65536 \<Longrightarrow> blocked (vmm T) (ARROUND_UP len 65536) s"
  | (mapped) a V where "vmm_mmap env None 0 len prot flags 0 T = Some (Inr a, T\<lparr>vmm := V\<rparr>)" "vmm_ok V" "last_mmap V = a" "regs V = (regs (vmm T))(x := anon_region a len prot flags)"
      "set (regions_root V) = insert x (set (regions_root (vmm T)))" "65536 dvd unat a" "unat a + unat (ARROUND_UP len 65536) \<le> unat CONFIG_USR_LIMIT" "last_mmap (vmm T) \<le> a"
proof (cases rule: mmap_attached [OF assms(1,2,4,5,6,7,8,9), of prot, case_names f m])
  case f
  then show thesis using full [of "(vmm T)\<lparr>regs := (regs (vmm T))(x := vm_region_init 0 len prot 0 (flags OR VM_REG_INIT))\<rparr>"] assms(3)
    by (auto simp: vmm_mmap_def set_region_def kmem_free_def Let_def)
next
  case (m s as bs t)
  let ?r = "vm_region_init 0 len prot 0 (flags OR VM_REG_INIT)" and ?R = "anon_region s len prot flags"
  let ?V = "(vmm T)\<lparr>regs := (regs (vmm T))(x := ?R), regions_tree := t, regions_root := as @ x # bs, last_mmap := s\<rparr>"
  have ok: "vmm_ok ?V" using m(6) [of "(regs (vmm T))(x := ?R)"] anon_bounds [OF assms(8)] by simp
  then obtain db where db: "vmm_keysdb_update (keys_alloc env) x ?V = Some (?V\<lparr>regions_db := db\<rparr>)" "vmm_ok (?V\<lparr>regions_db := db\<rparr>)"
    using keysdb_update_spec [of ?V x "keys_alloc env"] by auto
  have R: "(moved s ?r)\<lparr>vm_op := Some vm_region_default_op, vm_flags := vm_flags ?r AND NOT VM_REG_INIT\<rparr> = ?R" "vm_start (moved s ?r) = s" "vm_flags (moved s ?r) = vm_flags ?r"
    using init_bounds(5) [OF assms(8), of len prot] by (simp_all add: anon_region_def moved_def)
  have eq: "(vmm T)\<lparr>regions_tree := t, regions_root := as @ x # bs, last_mmap := s, regs := M\<rparr> = (vmm T)\<lparr>regs := M, regions_tree := t, regions_root := as @ x # bs, last_mmap := s\<rparr>" for M
    by simp
  have "vmm_mmap env None 0 len prot flags 0 T = Some (Inr s, T\<lparr>vmm := ?V\<lparr>regions_db := db\<rparr>\<rparr>)"
    using m(1) assms(3,8,10) db(1) R by (simp add: vmm_mmap_def mmap_backing_def set_region_def Let_def eq)
  moreover have "unat s + unat (ARROUND_UP len 65536) \<le> unat CONFIG_USR_LIMIT"
    using no_wrap(1,2) [OF rounded(3) [OF assms(6,7)] m(5)] by (simp add: word_le_nat_alt)
  ultimately show thesis using mapped [of s "?V\<lparr>regions_db := db\<rparr>"] db(2) m(2-4) by simp
qed

text \<open>
  C12: Mapping anonymous memory. For a private anonymous request without a fixed address, \<^verbatim>\<open>vmm_mmap\<close> returns. Either it answers an address \<open>a\<close>: the new region is attached and
  covers exactly the bytes from \<open>a\<close> to \<open>a\<close> plus the length, below the limit of user space, it overlaps no other region, the other regions and the page tables are
  untouched, and the address space with its key database is in order. Or it fails with \<^verbatim>\<open>ENOMEM\<close>, which happens only when every place above the last mapping is
  taken; then the descriptor is given back once and the address space is as before.
\<close>

theorem vmm_mmap_maps:
  assumes "vmm_ok (vmm T)" and "65536 dvd unat (last_mmap (vmm T))" and "new_region env = Some x" and "x \<noteq> 0" and "x \<notin> set (regions_root (vmm T))"
    and "0 < len" and "len \<le> CONFIG_USR_LIMIT" and "\<not> flag_set flags VM_REG_HEAP" and "\<not> flag_set flags VM_REG_FIXED" and "\<not> flag_set flags VM_REG_SHARED"
  shows "\<exists>res T'. vmm_mmap env None 0 len prot flags 0 T = Some (res, T') \<and> vs T' = vs T \<and> vmm_ok (vmm T') \<and> 65536 dvd unat (last_mmap (vmm T'))
    \<and> (\<forall>b. b \<noteq> x \<longrightarrow> get_region T' b = get_region T b)
    \<and> (case res of
         Inr a \<Rightarrow> freed T' = freed T \<and> set (regions_root (vmm T')) = insert x (set (regions_root (vmm T))) \<and> get_region T' x = anon_region a len prot flags
           \<and> 65536 dvd unat a \<and> unat a + unat len \<le> unat CONFIG_USR_LIMIT \<and> (\<forall>b\<in>set (regions_root (vmm T)). \<not> overlaps (get_region T' x) (get_region T b))
       | Inl err \<Rightarrow> err = Some ENOMEM \<and> freed T' = freed T @ [Region x] \<and> regions_root (vmm T') = regions_root (vmm T)
           \<and> (\<forall>s. last_mmap (vmm T) \<le> s \<and> s \<le> CONFIG_USR_LIMIT - ARROUND_UP len 65536 \<longrightarrow> blocked (vmm T) (ARROUND_UP len 65536) s))"
proof (cases rule: mmap_result [OF assms, of prot, case_names full mapped])
  case (full V)
  have "regions_root V = regions_root (vmm T)" "last_mmap V = last_mmap (vmm T)" by (subst full(3), simp)+
  then show ?thesis using full(1,2,4,5) assms(2) by auto
next
  case (mapped a V)
  have "\<not> overlaps (regs V x) (get_region T b)" if "b \<in> set (regions_root (vmm T))" for b
  proof -
    have "b \<noteq> x" using that assms(5) by auto
    then show ?thesis using layout_disjoint [of "regs V" "regions_root V" x b] mapped(2,4,5) that by (auto simp: vmm_ok_def regions_ok_def)
  qed
  moreover have "unat len \<le> unat (ARROUND_UP len 65536)" using rounded(2) [OF assms(6,7)] by (simp add: word_le_nat_alt)
  ultimately show ?thesis using mapped by auto
qed

definition some_task :: "nat task_s" where
  "some_task = \<lparr>vmm = space, vs = empty_state, heap_region = 0, heap_current = 0, text_start = 0, limit_addr = 0, fds = some_table False, files = some_files,
     m_refcount = (\<lambda>_. 0), m_reg_root = (\<lambda>_. []), freed = []\<rparr>"

definition plain_files :: "nat file_ops" where
  "plain_files = \<lparr>fop_close = (\<lambda>_. OK), fop_munmap = vfs_default_munmap_file\<rparr>"

definition some_env :: "nat mmap_env" where
  "some_env = \<lparr>new_region = Some 7, new_mapper = None, file_mmap = vfs_default_mmap_file 1, keys_alloc = (\<lambda>_. True), fops = plain_files, inode_size = (\<lambda>_. 0)\<rparr>"

lemma some_task_ok: "vmm_ok (vmm some_task)" "65536 dvd unat (last_mmap (vmm some_task))" "new_region some_env = Some 7" "7 \<noteq> (0 :: addr)" "7 \<notin> set (regions_root (vmm some_task))"
    "0 < (0x5000 :: u32)" "0x5000 \<le> CONFIG_USR_LIMIT" "\<not> flag_set 6 VM_REG_HEAP" "\<not> flag_set 6 VM_REG_FIXED" "\<not> flag_set 6 VM_REG_SHARED"
  using space_vmm_ok by (simp_all add: some_task_def some_env_def space_def CONFIG_USR_LIMIT_def flag_set_def VM_REG_HEAP_def VM_REG_FIXED_def VM_REG_SHARED_def)

theorem vmm_mmap_maps_witness:
  "\<exists>a T'. vmm_mmap some_env None 0 0x5000 VM_REG_WR 6 0 some_task = Some (Inr a, T') \<and> vmm_ok (vmm T') \<and> set (regions_root (vmm T')) = {1, 2, 3, 7}
     \<and> get_region T' 7 = anon_region a 0x5000 VM_REG_WR 6 \<and> \<not> overlaps (get_region T' 7) (get_region some_task 2)"
proof -
  obtain res T' where r: "vmm_mmap some_env None 0 0x5000 VM_REG_WR 6 0 some_task = Some (res, T')" "vmm_ok (vmm T')"
    "case res of
         Inr a \<Rightarrow> set (regions_root (vmm T')) = insert 7 (set (regions_root (vmm some_task))) \<and> get_region T' 7 = anon_region a 0x5000 VM_REG_WR 6
           \<and> (\<forall>b\<in>set (regions_root (vmm some_task)). \<not> overlaps (get_region T' 7) (get_region some_task b))
       | Inl err \<Rightarrow> \<forall>s. last_mmap (vmm some_task) \<le> s \<and> s \<le> CONFIG_USR_LIMIT - ARROUND_UP 0x5000 65536 \<longrightarrow> blocked (vmm some_task) (ARROUND_UP 0x5000 65536) s"
    using vmm_mmap_maps [OF some_task_ok, of VM_REG_WR] by (fastforce split: sum.splits)
  have "\<not> blocked space 0x10000 0x70000" by (simp add: blocked_def space_simps region_at_def)
  moreover have "ARROUND_UP 0x5000 65536 = 0x10000" by (simp add: ARROUND_UP_def)
  ultimately obtain a where "res = Inr a"
    using r(3) by (cases res) (auto simp: some_task_def space_def CONFIG_USR_LIMIT_def dest: spec [of _ "0x70000"])
  then show ?thesis using r by (auto simp: some_task_def space_simps)
qed

section \<open>Using what was mapped\<close>

lemma flag_none [simp]: "\<not> flag_set VM_REG_NON x"
  by (simp add: flag_set_def VM_REG_NON_def)

lemma flag_bit_clear: "flag_set a PMM_CLEAR \<longleftrightarrow> bit a 4"
  using flag_bit [of 4 a] by (simp add: PMM_CLEAR_def PMM_BIT_ORDER_def)

lemma anon_prot:
  "vm_prot (anon_region a len prot flags) = (if flag_set prot VM_REG_WR then prot OR VM_REG_RD else prot)" "vm_mapper (anon_region a len prot flags) = None"
  by (simp_all add: anon_region_def moved_def vm_region_init_def Let_def)

lemma anon_pgprot:
  assumes "\<not> flag_set flags VM_REG_HUGETLB"
  shows "small (vm_pgprot (anon_region a len prot flags))"
    and "prot \<noteq> VM_REG_NON \<Longrightarrow> bit (vm_pgprot (anon_region a len prot flags)) 31" and "bit (vm_pgprot (anon_region a len prot flags)) 26 \<longleftrightarrow> flag_set prot VM_REG_WR"
proof -
  let ?p = "if flag_set prot VM_REG_WR then prot OR VM_REG_RD else prot" and ?o = "PMM_USER OR PMM_CACHED OR PMM_ACCESSED OR PMM_DIRTY"
  define w where "w = (if flag_set prot VM_REG_WR then PMM_WRITE else 0)"
  define r where "r = (if flag_set ?p VM_REG_RD then PMM_READ else 0)"
  define e where "e = (if flag_set ?p VM_REG_EX then PMM_EXECUTE else 0)"
  define q where "q = (if ?p \<noteq> VM_REG_NON then PMM_PRESENT else 0)"
  have v: "vm_pgprot (anon_region a len prot flags) = ?o OR w OR r OR e OR q"
    using assms by (simp add: anon_region_def moved_def vm_region_init_def Let_def w_def r_def e_def q_def or.assoc)
  have o: "bit (PMM_BIT_ORDER k) n \<longleftrightarrow> n = k" if "k < 32" "n < 32" for k n
    using that bit_push_bit_1 [of k n] by (auto simp: PMM_BIT_ORDER_def simp del: push_bit_of_1)
  have b: "bit PMM_USER n \<longleftrightarrow> n = 24" "bit PMM_CACHED n \<longleftrightarrow> n = 27" "bit PMM_ACCESSED n \<longleftrightarrow> n = 28 \<or> n = 29" "bit PMM_DIRTY n \<longleftrightarrow> n = 22"
      "bit PMM_WRITE n \<longleftrightarrow> n = 26" "bit PMM_READ n \<longleftrightarrow> n = 31" "bit PMM_EXECUTE n \<longleftrightarrow> n = 25" "bit PMM_PRESENT n \<longleftrightarrow> n = 31"
    if "n < 32" for n
    unfolding PMM_USER_def PMM_CACHED_def PMM_ACCESSED_def PMM_DIRTY_def PMM_WRITE_def PMM_READ_def PMM_EXECUTE_def PMM_PRESENT_def bit_or_iff using that by (auto simp: o)
  show "small (vm_pgprot (anon_region a len prot flags))" unfolding v small_def flag_bit_clear
    by (simp add: bit_or_iff b w_def r_def e_def q_def)
  show "bit (vm_pgprot (anon_region a len prot flags)) 26 \<longleftrightarrow> flag_set prot VM_REG_WR" unfolding v by (simp add: bit_or_iff b w_def r_def e_def q_def)
  have "?p \<noteq> VM_REG_NON" if "prot \<noteq> VM_REG_NON" using that by (simp add: VM_REG_NON_def VM_REG_RD_def or_eq_0_iff)
  then show "bit (vm_pgprot (anon_region a len prot flags)) 31" if "prot \<noteq> VM_REG_NON" unfolding v using that by (simp add: bit_or_iff b q_def)
qed

text \<open>The access that a fault reports is one that the protection asked for allows; write access includes read access.\<close>

definition allowed :: "u32 \<Rightarrow> u32 \<Rightarrow> bool" where
  "allowed prot acc \<longleftrightarrow> \<not> pmm_except_isRights acc \<and> (pmm_except_isPresent acc \<longrightarrow> flag_set prot VM_REG_RD \<or> flag_set prot VM_REG_WR)
     \<and> (pmm_except_isWrite acc \<longrightarrow> flag_set prot VM_REG_WR) \<and> (pmm_except_isExecute acc \<longrightarrow> flag_set prot VM_REG_EX)"

lemma allowed_permitted: "allowed prot acc \<Longrightarrow> \<not> flag_set flags VM_REG_HEAP \<Longrightarrow> permitted (anon_region a len prot flags) acc"
  using anon_bounds(5) [of flags a len prot] by (auto simp: allowed_def permitted_def anon_prot flag_or) (simp_all add: flag_set_def VM_REG_RD_def)

text \<open>
  C10: Memory that was mapped can be used. After \<^verbatim>\<open>vmm_mmap\<close> has answered an address for a private anonymous request, the first access to any byte of the mapping, of a kind
  that the requested protection allows, is resolved by the page fault handler: a frame is mapped there, filled with zeroes, with one reference, writable exactly if writing was asked
  for, and nothing else is mapped or unmapped. The region, the tree, the key database, the page tables and the fault handler work together for this.
\<close>

theorem mmap_then_touch:
  fixes T :: "'c task_s"
  assumes "vmm_ok (vmm T)" and "65536 dvd unat (last_mmap (vmm T))" and "new_region env = Some x" and "x \<noteq> 0" and "x \<notin> set (regions_root (vmm T))"
    and "0 < len" and "len \<le> CONFIG_USR_LIMIT" and "\<not> flag_set flags VM_REG_HEAP" and "\<not> flag_set flags VM_REG_FIXED" and "\<not> flag_set flags VM_REG_SHARED"
    and "\<not> flag_set flags VM_REG_HUGETLB" and run: "vmm_mmap env None 0 len prot flags 0 T = Some (Inr a, T')"
    and v: "a \<le> v" "v < a + len" "\<not> NOT_IN_USPACE v" and "allowed prot acc" and "pmm_get_page v (pmm (vs T)) = (0, q)"
    and "ready (table res) v (pmm (vs T))" and "frame res = Some p" and "p AND MMU_PPN_MASK = p"
  shows "\<exists>V' s' at. vmm_fault_handler res m z alloc False v acc (vmm T') (vs T') = Some (VMM_ERESOLVED, V', s') \<and> vmm_ok V'
    \<and> content s' = (content (vs T))(p := z) \<and> refs s' = (refs (vs T))(p := 1)
    \<and> (\<forall>w. pmm_get_page w (pmm s') = (if same_page w v then (at, p) else pmm_get_page w (pmm (vs T))))
    \<and> (flag_set at PMM_WRITE \<longleftrightarrow> flag_set prot VM_REG_WR) \<and> (prot \<noteq> VM_REG_NON \<longrightarrow> flag_set at PMM_PRESENT)"
proof (cases rule: mmap_result [OF assms(1-10), of prot, case_names full mapped])
  case (mapped b V)
  let ?R = "anon_region a len prot flags"
  have T': "b = a" "vmm T' = V" "vs T' = vs T" using run mapped(1) by auto
  have V: "regs V x = ?R" "x \<in> set (regions_root V)" using mapped(4,5) T'(1) by auto
  have e: "unat (a + ARROUND_UP len 65536) = unat a + unat (ARROUND_UP len 65536)" "unat (a + len) = unat a + unat len" "unat len \<le> unat (ARROUND_UP len 65536)"
    using mapped(7) T'(1) rounded(2) [OF assms(6,7)] by (auto simp: unat_word_ariths word_le_nat_alt CONFIG_USR_LIMIT_def)
  have c: "contains (regs V x) v" "vm_start (regs V x) \<le> v" "v \<le> vm_limit (regs V x)"
    using v(1,2) e anon_bounds [OF assms(8)] V(1) by (simp_all add: contains_def word_less_nat_alt word_le_nat_alt)
  have u: "permitted (regs V x) acc" "vm_mapper (regs V x) = None" "small (vm_pgprot (regs V x))"
    using allowed_permitted [OF assms(16,8)] anon_prot anon_pgprot(1) [OF assms(11)] V(1) by simp_all
  have o: "vm_op (regs V x) = Some vm_region_default_op" using V(1) by (simp add: anon_region_def)
  obtain P where up: "vm_region_update res m z (regs V x) v acc (vs T) =
      Some (None, (vs T)\<lparr>pmm := P, content := (content (vs T))(p := z), refs := (refs (vs T))(p := 1), has_mapper := (has_mapper (vs T))(p := False)\<rparr>)"
      "remapped v (vm_pgprot ?R) p (pmm (vs T)) P"
    using update_aod [OF u(1) o assms(17) u(2) assms(18,19) u(3)] V(1) by metis
  obtain V' where "vmm_fault_handler res m z alloc False v acc V (vs T) = Some (VMM_ERESOLVED, V',
      (vs T)\<lparr>pmm := P, content := (content (vs T))(p := z), refs := (refs (vs T))(p := 1), has_mapper := (has_mapper (vs T))(p := False)\<rparr>)" "vmm_ok V'"
    using handler_update [OF mapped(2) v(3) V(2) c up(1), of alloc] by auto
  moreover have "flag_set (vm_pgprot ?R) PMM_WRITE \<longleftrightarrow> flag_set prot VM_REG_WR" "prot \<noteq> VM_REG_NON \<longrightarrow> flag_set (vm_pgprot ?R) PMM_PRESENT"
    using anon_pgprot(2,3) [OF assms(11)] by (simp_all add: PMM_WRITE_def flag_bit)
  ultimately show ?thesis using up(2) assms(20) T' by (intro exI [of _ V'] exI exI [of _ "vm_pgprot ?R"]) (auto simp: remapped_def)
qed (use run in simp)

lemma in_uspace: "CONFIG_USR_OFFSET \<le> a \<Longrightarrow> a < CONFIG_USR_LIMIT \<Longrightarrow> \<not> NOT_IN_USPACE a"
proof -
  assume a: "CONFIG_USR_OFFSET \<le> a" "a < CONFIG_USR_LIMIT"
  then have u: "0x4000 \<le> unat a" "unat a < 2147483648" by (simp_all add: word_le_nat_alt word_less_nat_alt CONFIG_USR_OFFSET_def CONFIG_USR_LIMIT_def)
  have "uint a = int (unat a)" by (rule uint_nat)
  then have i: "0x4000 \<le> uint a" "uint a < 2147483648" using u by linarith+
  then have "sint a = uint a" by (simp add: sint_uint signed_take_bit_int_eq_self_iff)
  then show ?thesis using a(2) i(1) less_imp_le [OF a(2)] by (simp add: NOT_IN_USPACE_def CONFIG_USR_OFFSET_def)
qed

theorem mmap_then_touch_witness:
  "\<exists>a T' V' s' at. vmm_mmap some_env None 0 0x5000 VM_REG_WR 6 0 some_task = Some (Inr a, T')
     \<and> vmm_fault_handler some_memory (\<lambda>_ _. 0) 0 (\<lambda>_. True) False a 0 (vmm T') (vs T') = Some (VMM_ERESOLVED, V', s') \<and> content s' 9 = 0
     \<and> pmm_get_page a (pmm s') = (at, 9) \<and> flag_set at PMM_WRITE"
proof (cases rule: mmap_result [OF some_task_ok, of VM_REG_WR, case_names full mapped])
  case (full V)
  have "\<not> blocked space 0x10000 0x70000" by (simp add: blocked_def space_simps region_at_def)
  moreover have "ARROUND_UP 0x5000 65536 = 0x10000" by (simp add: ARROUND_UP_def)
  ultimately show ?thesis using full(5) [of "0x70000"] by (simp add: some_task_def space_def CONFIG_USR_LIMIT_def)
next
  case (mapped a V)
  let ?T = "some_task\<lparr>vmm := V\<rparr>"
  have l: "ARROUND_UP 0x5000 65536 = 0x10000" by (simp add: ARROUND_UP_def)
  have a: "0x10000 \<le> a" "unat a + 65536 \<le> 2147483648" using mapped(7,8) by (simp_all add: l some_task_def space_def CONFIG_USR_LIMIT_def)
  have u: "\<not> NOT_IN_USPACE a" "a < a + 0x5000"
    using a in_uspace [of a] by (simp_all add: word_less_nat_alt word_le_nat_alt CONFIG_USR_LIMIT_def CONFIG_USR_OFFSET_def unat_word_ariths)
  have f: "\<not> flag_set 6 VM_REG_HUGETLB" "allowed VM_REG_WR 0" "(9 :: u32) AND MMU_PPN_MASK = 9" "frame some_memory = Some 9" "flag_set VM_REG_WR VM_REG_WR"
    by (simp_all add: flag_set_def kconfig allowed_def pmm_except_isRights_def pmm_except_isPresent_def pmm_except_isWrite_def pmm_except_isExecute_def some_memory_def)
  have g: "pmm_get_page a (pmm (vs some_task)) = (0, 0)" "ready (table some_memory) a (pmm (vs some_task))"
    using empty_ready [of a] by (simp_all add: some_task_def some_memory_def)
  show ?thesis
    using mmap_then_touch [OF some_task_ok f(1) mapped(1) order_refl u(2,1) f(2) g f(4,3), where m = "\<lambda>_ _. 0" and z = 0 and alloc = "\<lambda>_. True"] mapped(1) f(5)
    by (metis fun_upd_same same_page_refl)
qed

section \<open>Unmapping\<close>

definition no_huge :: "pmm_s \<Rightarrow> bool" where
  "no_huge P \<longleftrightarrow> (\<forall>i. pgdir P i = 0 \<or> is_table (pgdir P i))"

lemma set_present:
  assumes "pmm_ok P" and "no_huge P" and "bit (fst (pmm_get_page v P)) 31" and "small a"
  obtains Q where "pmm_set_page None None v (page_info a p) P = (OK, Q)" and "remapped v a p P Q" and "no_huge Q"
proof -
  have "pgdir P (MMU_PDE v) \<noteq> 0" using assms(3) by (auto simp: pmm_get_page_def)
  then have t: "is_table (pgdir P (MMU_PDE v))" using assms(2) by (auto simp: no_huge_def)
  then have nz: "pgdir P (MMU_PDE v) \<noteq> 0" "table_room None v P" by (auto simp: is_table_def table_room_def)
  obtain Q where Q: "pmm_set_page None None v (page_info a p) P = (OK, Q)" "remapped v a p P Q"
    using set_page_small [OF assms(1) nz(2), of "page_info a p"] assms(4) nz(1) by (auto simp: small_def page_info_def remapped_def)
  have "pgdir Q = pgdir P" using Q(1) nz(1) assms(4) by (auto simp: pmm_set_page_def get_table_def page_info_def small_def Let_def PMM_HUGE_def flag_bit split: if_splits)
  then show thesis using that Q assms(2) by (simp add: no_huge_def)
qed

text \<open>The frames of the pages that are present among \<open>n\<close> pages from \<open>v\<close> on.\<close>

primrec present_ppns :: "pmm_s \<Rightarrow> nat \<Rightarrow> u32 \<Rightarrow> u32 list" where
  "present_ppns P 0 v = []"
| "present_ppns P (Suc n) v = (if bit (fst (pmm_get_page v P)) 31 then [snd (pmm_get_page v P)] else []) @ present_ppns P n (v + PMM_PAGE_SIZE)"

definition in_pages :: "u32 \<Rightarrow> nat \<Rightarrow> u32 \<Rightarrow> bool" where
  "in_pages v n w \<longleftrightarrow> unat v \<le> unat w \<and> unat w < unat v + n * 4096"

lemma next_page: "unat v + Suc n * 4096 < 4294967296 \<Longrightarrow> unat (v + PMM_PAGE_SIZE) = unat v + 4096"
  by (simp add: unat_word_ariths PMM_PAGE_SIZE_def)

lemma div_eq_iff_range: "(n :: nat) div 4096 = k \<longleftrightarrow> 4096 * k \<le> n \<and> n < 4096 * k + 4096"
  by (auto simp: div_nat_eqI dest: sym)

lemma in_pages_Suc:
  assumes "4096 dvd unat v" and "unat v + Suc n * 4096 < 4294967296"
  shows "in_pages v (Suc n) w \<longleftrightarrow> same_page w v \<or> in_pages (v + PMM_PAGE_SIZE) n w" and "same_page w v \<Longrightarrow> \<not> in_pages (v + PMM_PAGE_SIZE) n w"
proof -
  obtain k where k: "unat v = 4096 * k" using assms(1) by (rule dvdE)
  have "same_page w v \<longleftrightarrow> unat v \<le> unat w \<and> unat w < unat v + 4096"
    unfolding same_page_def k by (simp add: div_eq_iff_range)
  then show "in_pages v (Suc n) w \<longleftrightarrow> same_page w v \<or> in_pages (v + PMM_PAGE_SIZE) n w" "same_page w v \<Longrightarrow> \<not> in_pages (v + PMM_PAGE_SIZE) n w"
    using next_page [OF assms(2)] by (auto simp: in_pages_def)
qed

lemma present_ppns_cong:
  assumes "4096 dvd unat v" and "unat v + n * 4096 < 4294967296" and "\<And>w. in_pages v n w \<Longrightarrow> pmm_get_page w Q = pmm_get_page w P"
  shows "present_ppns Q n v = present_ppns P n v"
  using assms
proof (induction n arbitrary: v)
  case (Suc n)
  have a: "4096 dvd unat (v + PMM_PAGE_SIZE)" "unat (v + PMM_PAGE_SIZE) + n * 4096 < 4294967296" using Suc.prems(1,2) next_page [OF Suc.prems(2)] by simp_all
  have "present_ppns Q n (v + PMM_PAGE_SIZE) = present_ppns P n (v + PMM_PAGE_SIZE)"
    by (rule Suc.IH [OF a]) (use Suc.prems(3) in_pages_Suc(1) [OF Suc.prems(1,2)] in blast)
  moreover have "pmm_get_page v Q = pmm_get_page v P" using Suc.prems(3) [of v] by (simp add: in_pages_def)
  ultimately show ?case by simp
qed simp

text \<open>The loop of \<^verbatim>\<open>vm_region_unmap\<close> as one update: what the pages of the range become, and how many references the frames lose.\<close>

definition unmapped :: "bool \<Rightarrow> nat \<Rightarrow> u32 \<Rightarrow> 'c vm_state \<Rightarrow> 'c vm_state \<Rightarrow> bool" where
  "unmapped isLazy n v s s' \<longleftrightarrow> pmm_ok (pmm s') \<and> no_huge (pmm s') \<and> content s' = content s \<and> has_mapper s' = has_mapper s
     \<and> (\<forall>w. pmm_get_page w (pmm s') = (if \<not> isLazy \<and> in_pages v n w \<and> bit (fst (pmm_get_page w (pmm s))) 31 then (0, 0) else pmm_get_page w (pmm s)))
     \<and> (\<forall>p. refs s' p = refs s p - count_list (present_ppns (pmm s) n v) p)"

lemma get_same_page: "same_page w v \<Longrightarrow> no_huge P \<Longrightarrow> pmm_get_page w P = pmm_get_page v P"
proof -
  assume a: "same_page w v" "no_huge P"
  then have e: "MMU_PDE w = MMU_PDE v" "idx w = idx v" by (simp_all add: same_page_iff)
  then have p: "pte_of d w = pte_of d v" for d by (simp add: word_unat_eq_iff unat_pte_of)
  show ?thesis
  proof (cases "pgdir P (MMU_PDE v) = 0")
    case False
    then have "is_table (pgdir P (MMU_PDE v))" using a(2) by (auto simp: no_huge_def)
    then show ?thesis using get_small [of P w] get_small [of P v] e(1) p by simp
  qed (simp add: pmm_get_page_def e(1))
qed

lemma unmap_loop_spec:
  assumes "pmm_ok (pmm s)" and "no_huge (pmm s)" and "4096 dvd unat v" and "unat v + n * 4096 < 4294967296"
  shows "unmapped isLazy n v s (unmap_loop isLazy n v s)"
  using assms
proof (induction n arbitrary: v s)
  case 0
  then show ?case by (auto simp: unmapped_def in_pages_def)
next
  case (Suc n)
  obtain a p where g: "pmm_get_page v (pmm s) = (a, p)" by fastforce
  let ?v = "v + PMM_PAGE_SIZE"
  have v: "4096 dvd unat ?v" "unat ?v + n * 4096 < 4294967296" using Suc.prems(3,4) next_page [OF Suc.prems(4)] by simp_all
  note ip = in_pages_Suc [OF Suc.prems(3,4)]
  show ?case
  proof (cases "bit a 31")
    case False
    have "\<not> bit (fst (pmm_get_page w (pmm s))) 31" if "same_page w v" for w using get_same_page [OF that Suc.prems(2)] g False by simp
    moreover have "unmapped isLazy n ?v s (unmap_loop isLazy n ?v s)" using Suc.IH [OF Suc.prems(1,2) v] .
    ultimately show ?thesis using False g ip by (auto simp: unmapped_def)
  next
    case True
    obtain Q where Q: "pmm_set_page None None v (page_info 0 0) (pmm s) = (OK, Q)" "remapped v 0 0 (pmm s) Q" "no_huge Q"
      using set_present [OF Suc.prems(1,2), of v 0 0] g True by (auto simp: small_def flag_set_def)
    let ?P = "if isLazy then pmm s else Q"
    let ?s = "ppn_refcount_down p (s\<lparr>pmm := ?P\<rparr>)"
    have P: "pmm_ok ?P" "no_huge ?P" "\<And>w. pmm_get_page w ?P = (if \<not> isLazy \<and> same_page w v then (0, 0) else pmm_get_page w (pmm s))"
      using Q(2,3) Suc.prems(1,2) by (auto simp: remapped_def)
    have step: "unmap_loop isLazy (Suc n) v s = unmap_loop isLazy n ?v ?s" using True g Q(1) by (simp add: ppn_refcount_down_def)
    have c: "present_ppns ?P n ?v = present_ppns (pmm s) n ?v" by (rule present_ppns_cong [OF v]) (use P(3) ip(2) in auto)
    have b: "bit (fst (pmm_get_page w (pmm s))) 31" if "same_page w v" for w using get_same_page [OF that Suc.prems(2)] g True by simp
    have u: "unmapped isLazy n ?v ?s (unmap_loop isLazy n ?v ?s)" using Suc.IH [of ?s ?v] P(1,2) v by (simp add: ppn_refcount_down_def)
    then have "pmm_get_page w (pmm (unmap_loop isLazy n ?v ?s)) =
        (if \<not> isLazy \<and> in_pages v (Suc n) w \<and> bit (fst (pmm_get_page w (pmm s))) 31 then (0, 0) else pmm_get_page w (pmm s))" for w
      using P(3) [of w] ip [of w] b [of w] by (auto simp: unmapped_def ppn_refcount_down_def)
    moreover have "refs (unmap_loop isLazy n ?v ?s) q = refs s q - count_list (present_ppns (pmm s) (Suc n) v) q" for q
      using u c True g by (simp add: unmapped_def ppn_refcount_down_def)
    ultimately show ?thesis using u step by (simp add: unmapped_def ppn_refcount_down_def)
  qed
qed

lemma slot_of_region:
  fixes b e k :: nat
  assumes "65536 dvd b" and "65536 dvd e" and "b \<le> k * 65536" and "k * 65536 < e"
  shows "b div 65536 \<le> k \<and> k < b div 65536 + (e - b) div 65536"
proof -
  obtain m n where "b = 65536 * m" "e = 65536 * n" using assms(1,2) by (auto elim!: dvdE)
  moreover from this have "(e - b) div 65536 = n - m" by (simp add: flip: right_diff_distrib')
  ultimately show ?thesis using assms(3,4) by simp
qed

lemma unlink_ok:
  assumes "vmm_ok V" and "regions_root V = as @ x # bs" and "\<not> flag_set (vm_flags (regs V x)) VM_REG_LAZY"
  obtains V' where "region_unlink x V = Some V'" and "vmm_ok V'" and "regions_root V' = as @ bs" and "regs V' = regs V"
    and "65536 dvd unat (last_mmap V) \<Longrightarrow> 65536 dvd unat (last_mmap V')" and "\<And>k. slot (regions_db V') k \<noteq> Some x"
proof -
  let ?r = "regs V x" and ?n = "unat (drop_bit 16 (vm_end (regs V x) - vm_begin (regs V x)))"
  have r: "rb_tree (regions_tree V) (as @ x # bs)" "layout (regs V) (as @ x # bs)" "db_ok (regions_db V)" "whole_slots ?r" "vm_begin ?r < vm_end ?r"
    using assms(1,2) by (auto simp: vmm_ok_def regions_ok_def keys_ok_def layout_def)
  have d: "x \<notin> set as" "x \<notin> set bs" using r(1) rb_tree_distinct by fastforce+
  then have rm: "remove1 x (as @ x # bs) = as @ bs" by (simp add: remove1_append)
  obtain t where t: "rb_erase x (regions_tree V) = Some t" "rb_tree t (as @ bs)" using rbi.del_law [OF r(1)] by blast
  have k: "unat (drop_bit 16 (vm_begin ?r)) = unat (vm_begin ?r) div 65536" "?n = (unat (vm_end ?r) - unat (vm_begin ?r)) div 65536"
    using r(5) by (simp_all add: unat_drop unat_sub less_imp_le)
  have "unat (vm_begin ?r) div 65536 + (unat (vm_end ?r) - unat (vm_begin ?r)) div 65536 \<le> 65536"
    using unat_bound [of "vm_end ?r"] r(5) by (simp add: word_less_nat_alt)
  then obtain db where db: "keysdb_unbind (regions_db V) (drop_bit 16 (vm_begin ?r)) ?n = Some db" "db_ok db" "slot db = bound (unat (vm_begin ?r) div 65536) ?n None (slot (regions_db V))"
    using keysdb_unbind_eq [OF r(3), of "drop_bit 16 (vm_begin ?r)" ?n] k by auto
  have old: "slot (regions_db V) j = Some y" "\<not> (unat (vm_begin ?r) div 65536 \<le> j \<and> j < unat (vm_begin ?r) div 65536 + ?n)" if "slot db j = Some y" for j y
    using that db(3) by (auto simp: bound_def split: if_splits)
  have nx: "slot db j \<noteq> Some x" for j
  proof
    assume a: "slot db j = Some x"
    then have "unat (vm_begin ?r) \<le> j * 65536" "j * 65536 < unat (vm_end ?r)" using old(1) assms(1) by (auto simp: vmm_ok_def keys_ok_def)
    then show False using slot_of_region [of "unat (vm_begin ?r)" "unat (vm_end ?r)" j] r(4) old(2) [OF a] k(2) by (simp add: whole_slots_def)
  qed
  define V' where "V' = (let V = V\<lparr>regions_root := as @ bs, regions_tree := t\<rparr>; V = (if last_region V = x then V\<lparr>last_region := 0\<rparr> else V);
      V = (if vm_end ?r < last_mmap V then V\<lparr>last_mmap := vm_begin ?r\<rparr> else V) in V\<lparr>regions_db := db\<rparr>)"
  have f: "regions_root V' = as @ bs" "regions_tree V' = t" "regs V' = regs V" "regions_db V' = db" "last_mmap V' \<in> {last_mmap V, vm_begin ?r}"
    by (auto simp: V'_def Let_def)
  have "region_unlink x V = Some V'"
    using t(1) db(1) assms(2,3) rm by (simp add: region_unlink_def V'_def Let_def CONFIG_VM_REGION_KEYWIDTH_def)
  moreover have "y \<in> set (as @ bs) \<and> unat (vm_begin (regs V y)) \<le> j * 65536 \<and> j * 65536 < unat (vm_end (regs V y))" if "slot db j = Some y" for j y
  proof -
    have "y \<noteq> x" using nx that by auto
    then show ?thesis using old(1) [OF that] assms(1,2) by (auto simp: vmm_ok_def keys_ok_def)
  qed
  then have "vmm_ok V'" using f t(2) layout_remove [OF r(2)] db(2) assms(1,2) by (auto simp: vmm_ok_def regions_ok_def keys_ok_def)
  ultimately show thesis using that [of V'] f nx r(4) by (auto simp: whole_slots_def)
qed

text \<open>
  C14: Unmapping a whole private region. \<^verbatim>\<open>vmm_munmap\<close> of exactly the bytes of a region finds it through the key database and removes it from the tree, the list and the key
  database, which stay in order; the descriptor is given back once. Every page that lies wholly in the region and was present is no longer mapped, its frame has
  lost one reference for each such page, and no other page changes. That includes the last page of a region whose length is not a multiple of the page size: it stays
  mapped, with its frame.
\<close>

theorem vmm_munmap_whole:
  fixes T :: "'c task_s"
  assumes "vmm_ok (vmm T)" and "x \<in> set (regions_root (vmm T))" and "get_region T x = r" and "slot (regions_db (vmm T)) (unat (vm_start r) div 65536) = Some x"
    and "\<not> flag_set (vm_flags r) VM_REG_LAZY" and "\<not> flag_set (vm_flags r) VM_REG_SHARED" and "vm_file r = None" and "vm_refcount r = 1"
    and "vm_limit r = vm_start r + len" and "4096 dvd unat (vm_start r)" and "unat (vm_start r) + unat len < 4294967296" and "pmm_ok (pmm (vs T))" and "no_huge (pmm (vs T))"
  shows "\<exists>T'. vmm_munmap op (vm_start r) len T = Some (OK, T') \<and> vmm_ok (vmm T') \<and> set (regions_root (vmm T')) = set (regions_root (vmm T)) - {x}
    \<and> (\<forall>k. slot (regions_db (vmm T')) k \<noteq> Some x) \<and> regs (vmm T') = regs (vmm T) \<and> freed T' = freed T @ [Region x] \<and> content (vs T') = content (vs T)
    \<and> (\<forall>w. pmm_get_page w (pmm (vs T')) =
         (if unat (vm_start r) \<le> unat w \<and> unat w < unat (vm_start r) + unat len div 4096 * 4096 \<and> flag_set (fst (pmm_get_page w (pmm (vs T)))) PMM_PRESENT
          then (0, 0) else pmm_get_page w (pmm (vs T))))
    \<and> (\<forall>p. refs (vs T') p = refs (vs T) p - count_list (present_ppns (pmm (vs T)) (unat len div 4096) (vm_start r)) p)"
proof -
  obtain as bs where root: "regions_root (vmm T) = as @ x # bs" using assms(2) by (auto simp: in_set_conv_decomp)
  then have "rb_tree (regions_tree (vmm T)) (as @ x # bs)" using assms(1) by (simp add: vmm_ok_def regions_ok_def)
  then have d: "x \<notin> set (as @ bs)" using rb_tree_distinct by fastforce
  obtain V where V: "region_unlink x (vmm T) = Some V" "vmm_ok V" "regions_root V = as @ bs" "regs V = regs (vmm T)" "\<And>k. slot (regions_db V) k \<noteq> Some x"
    using unlink_ok [OF assms(1) root] assms(3,5) by metis
  have k: "unat (drop_bit 16 (vm_start r)) = unat (vm_start r) div 65536" "unat (vm_start r) div 65536 < 65536"
    using unat_bound [of "vm_start r"] by (simp_all add: unat_drop div_less_iff_less_mult)
  have l: "keysdb_lookup (regions_db (vmm T)) (drop_bit 16 (vm_start r)) = Some (Some x)"
    using keysdb_lookup_eq [of "regions_db (vmm T)" "drop_bit 16 (vm_start r)"] assms(1,4) k by (simp add: vmm_ok_def keys_ok_def)
  have lim: "unat (vm_start r + len) = unat (vm_start r) + unat len" using assms(11) by (simp add: unat_word_ariths)
  then have le: "\<not> vm_start r + len < vm_start r" by (simp add: word_less_nat_alt)
  have n: "unat (drop_bit 12 (vm_limit r - vm_start r)) = unat len div 4096" using assms(9) by (simp add: unat_drop)
  have u: "unmapped False (unat len div 4096) (vm_start r) (vs T) (vm_region_unmap r (vs T))"
    using unmap_loop_spec [OF assms(12,13,10), of "unat len div 4096" False] assms(5,11) n by (simp add: vm_region_unmap_def flag_set_def le_less_trans [OF add_left_mono [OF div_times_less_eq_dividend]])
  have "vmm_munmap op (vm_start r) len T = Some (OK, T\<lparr>vmm := V, vs := vm_region_unmap r (vs T), freed := freed T @ [Region x]\<rparr>)"
    using l V(1,4) le assms(3,6-9) by (simp add: vmm_munmap_def vmm_do_munmap_def vm_region_detach_def kmem_free_def CONFIG_VM_REGION_KEYWIDTH_def Let_def)
  then show ?thesis using V u root d by (auto simp: unmapped_def in_pages_def)
qed

text \<open>The second region of the example, known to the key database, with its first page present.\<close>

definition keyed_task :: "nat task_s" where
  "keyed_task = some_task\<lparr>vmm := space\<lparr>regions_db := (regions_db space)\<lparr>kroot := (replicate 1024 None)[0 := Some ((replicate 64 None)[3 := Some 2])]\<rparr>\<rparr>,
     vs := empty_state\<lparr>pmm := one_page\<lparr>pmem := (\<lambda>_. 0)(0x7180 := 0x84000000, 0x7184 := 9)\<rparr>, refs := (\<lambda>_. 1)\<rparr>\<rparr>"

lemma keyed_slot: "slot (regions_db (vmm keyed_task)) k = (if k = 3 then Some 2 else None)"
proof (cases "k div 64 = 0")
  case True
  then have "k < 64" by (simp add: div_eq_0_iff)
  then show ?thesis by (simp add: slot_def keyed_task_def space_def nth_list_update)
next
  case False
  then have "k \<noteq> 3" by auto
  then show ?thesis using False by (simp add: slot_def keyed_task_def space_def nth_list_update)
qed

lemma keyed_ok: "vmm_ok (vmm keyed_task)" "pmm_ok (pmm (vs keyed_task))" "no_huge (pmm (vs keyed_task))" "pmm_get_page 0x30000 (pmm (vs keyed_task)) = (0x84000000, 9)"
proof -
  have "db_ok (regions_db (vmm keyed_task))" by (auto simp: db_ok_def keyed_task_def space_def KEYS_PER_REC_def set_update_subset_insert dest!: subsetD [OF set_update_subset_insert])
  then have "keys_ok (vmm keyed_task)" unfolding keys_ok_def keyed_slot by (simp add: keyed_task_def space_simps region_at_def)
  then show "vmm_ok (vmm keyed_task)" using space_vmm_ok by (simp add: vmm_ok_def regions_ok_def keyed_task_def)
  let ?P = "pmm (vs keyed_task)"
  have P: "pgdir ?P = pgdir one_page" by (simp add: keyed_task_def)
  show "pmm_ok ?P" using one_page_facts(1) by (simp add: pmm_ok_def P)
  have t: "is_table (pgdir ?P 0)" unfolding P by (simp add: one_page_def new_entry(1))
  show "no_huge ?P" using t by (auto simp: no_huge_def P one_page_def)
  have i: "MMU_PDE 0x30000 = 0" by (simp add: word_unat_eq_iff unat_PDE)
  have "pte_of (pgdir ?P 0) 0x30000 = 0x7180"
    unfolding P by (simp add: one_page_def word_unat_eq_iff unat_pte_of new_entry(2)) (simp add: tbl_def idx_def)
  then show "pmm_get_page 0x30000 ?P = (0x84000000, 9)" using get_small [of ?P "0x30000"] t i by (simp add: keyed_task_def MMU_PPN_MASK_def PMM_BIT_ORDER_def)
qed

theorem vmm_munmap_whole_witness:
  "\<exists>T'. vmm_munmap plain_files 0x30000 0x10000 keyed_task = Some (OK, T') \<and> vmm_ok (vmm T') \<and> set (regions_root (vmm T')) = {1, 3} \<and> freed T' = [Region 2]
     \<and> pmm_get_page 0x30000 (pmm (vs T')) = (0, 0)"
proof -
  let ?r = "region_at 0x30000 0x40000 0"
  have r: "2 \<in> set (regions_root (vmm keyed_task))" "get_region keyed_task 2 = ?r" "slot (regions_db (vmm keyed_task)) (unat (vm_start ?r) div 65536) = Some 2"
    "\<not> flag_set (vm_flags ?r) VM_REG_LAZY" "\<not> flag_set (vm_flags ?r) VM_REG_SHARED" "vm_file ?r = None" "vm_refcount ?r = 1" "vm_limit ?r = vm_start ?r + 0x10000"
    "4096 dvd unat (vm_start ?r)" "unat (vm_start ?r) + unat (0x10000 :: u32) < 4294967296"
    unfolding keyed_slot by (simp_all add: keyed_task_def space_simps region_at_def flag_set_def)
  have s: "vm_start ?r = 0x30000" "set (regions_root (vmm keyed_task)) = {1, 2, 3}" "freed keyed_task = []" "bit (0x84000000 :: u32) 31"
    by (simp_all add: region_at_def keyed_task_def space_simps some_task_def)
  show ?thesis using vmm_munmap_whole [OF keyed_ok(1) r keyed_ok(2,3), of plain_files] s keyed_ok(4) by auto
qed

section \<open>The end of an address space\<close>

definition regions_freed :: "'c task_s \<Rightarrow> addr list" where
  "regions_freed T = concat (map (\<lambda>x. case x of Region r \<Rightarrow> [r] | _ \<Rightarrow> []) (freed T))"

lemma detach_lazy:
  assumes "regions_ok (vmm T)" and "regions_root (vmm T) = x # bs" and "vm_refcount (get_region T x) \<le> 1"
  obtains T' where "vm_region_detach op x (set_region x ((get_region T x)\<lparr>vm_flags := vm_flags (get_region T x) OR VM_REG_LAZY\<rparr>) T) = Some T'"
    and "regions_ok (vmm T')" and "regions_root (vmm T') = bs" and "\<And>b. b \<noteq> x \<Longrightarrow> get_region T' b = get_region T b" and "regions_freed T' = regions_freed T @ [x]"
proof -
  let ?r = "(get_region T x)\<lparr>vm_flags := vm_flags (get_region T x) OR VM_REG_LAZY\<rparr>"
  let ?V = "(vmm T)\<lparr>regs := (regs (vmm T))(x := ?r)\<rparr>"
  have lz: "flag_set (vm_flags ?r) VM_REG_LAZY" by (simp add: flag_or) (simp add: flag_set_def VM_REG_LAZY_def)
  have "layout (regs ?V) (regions_root ?V) \<longleftrightarrow> layout (regs (vmm T)) (regions_root (vmm T))" by (simp, rule layout_bounds) simp
  then have ok: "regions_ok ?V" using assms(1) by (simp add: regions_ok_def)
  obtain V where V: "region_unlink x ?V = Some V" "regions_ok V" "regions_root V = bs" "regs V = regs ?V"
    using region_unlink_spec [OF ok, of "[]" x bs] assms(2) lz by auto
  have "\<exists>T'. vm_region_detach op x (T\<lparr>vmm := ?V\<rparr>) = Some T' \<and> vmm T' = V \<and> regions_freed T' = regions_freed T @ [x]"
    using V(1,4) assms(3)
    by (cases "vm_file (get_region T x)"; cases "flag_set (vm_flags ?r) VM_REG_SHARED \<and> flag_set (vm_flags ?r) VM_REG_ANON")
      (simp_all add: vm_region_detach_def detach_mapper_def kmem_free_def regions_freed_def Let_def)
  then obtain T' where "vm_region_detach op x (T\<lparr>vmm := ?V\<rparr>) = Some T'" "vmm T' = V" "regions_freed T' = regions_freed T @ [x]" by blast
  then show thesis using that [of T'] V by (simp add: set_region_def)
qed

lemma destroy_regions_spec:
  assumes "regions_ok (vmm T)" and "\<forall>b\<in>set (regions_root (vmm T)). vm_refcount (get_region T b) \<le> 1"
  shows "\<exists>T'. destroy_regions op T = Some T' \<and> regions_root (vmm T') = [] \<and> regions_freed T' = regions_freed T @ regions_root (vmm T)"
  using assms
proof (induction "regions_root (vmm T)" arbitrary: T)
  case Nil
  then show ?case by (subst destroy_regions.simps) (simp flip: Nil(1))
next
  case (Cons x bs)
  have "vm_refcount (get_region T x) \<le> 1" using Cons.prems(2) Cons.hyps(2) by (metis list.set_intros(1))
  then obtain U where U: "vm_region_detach op x (set_region x ((get_region T x)\<lparr>vm_flags := vm_flags (get_region T x) OR VM_REG_LAZY\<rparr>) T) = Some U"
      "regions_ok (vmm U)" "regions_root (vmm U) = bs" "\<And>b. b \<noteq> x \<Longrightarrow> get_region U b = get_region T b" "regions_freed U = regions_freed T @ [x]"
    using detach_lazy [OF Cons.prems(1) Cons.hyps(2) [symmetric]] by metis
  have "distinct (x # bs)" using Cons.prems(1) Cons.hyps(2) rb_tree_distinct by (metis regions_ok_def)
  then have "\<forall>b\<in>set bs. vm_refcount (get_region U b) \<le> 1" using U(4) Cons.prems(2) Cons.hyps(2) by (metis distinct.simps(2) list.set_intros(2))
  then obtain T' where "destroy_regions op U = Some T'" "regions_root (vmm T') = []" "regions_freed T' = regions_freed U @ bs"
    using Cons.hyps(1) [of U] U(2,3) by auto
  then show ?case using U(1,5) Cons.hyps(2) [symmetric] by (subst destroy_regions.simps) (simp add: Let_def)
qed

text \<open>
  C30: Destroying an address space comes to an end. If the address space is in order and nobody else holds a reference on one of its regions, \<^verbatim>\<open>vmm_destroy\<close> returns; then no
  region is attached, and each region that was attached has been given back exactly once, in the order of the list.
\<close>

theorem vmm_destroy_ends:
  assumes "regions_ok (vmm T)" and "\<forall>b\<in>set (regions_root (vmm T)). vm_refcount (get_region T b) \<le> 1"
  shows "\<exists>recs T'. vmm_destroy op T = Some (recs, T') \<and> regions_root (vmm T') = [] \<and> last_region (vmm T') = 0
    \<and> regions_freed T' = regions_freed T @ regions_root (vmm T) \<and> distinct (regions_root (vmm T))"
proof -
  obtain U where U: "destroy_regions op T = Some U" "regions_root (vmm U) = []" "regions_freed U = regions_freed T @ regions_root (vmm T)"
    using destroy_regions_spec [OF assms] by blast
  have "distinct (regions_root (vmm T))" using assms(1) rb_tree_distinct by (metis regions_ok_def)
  then show ?thesis using U by (simp add: vmm_destroy_def regions_freed_def)
qed

theorem vmm_destroy_ends_witness:
  "\<exists>recs T'. vmm_destroy plain_files some_task = Some (recs, T') \<and> regions_freed T' = [1, 2, 3]"
proof -
  have "regions_ok (vmm some_task)" "\<forall>b\<in>set (regions_root (vmm some_task)). vm_refcount (get_region some_task b) \<le> 1" "regions_freed some_task = []"
    "regions_root (vmm some_task) = [1, 2, 3]"
    using space_ok by (simp_all add: some_task_def space_simps region_at_def regions_freed_def)
  then show ?thesis using vmm_destroy_ends [of some_task plain_files] by auto
qed

section \<open>Where the code falls short\<close>

text \<open>
  A request for shared memory that is neither anonymous nor backed by a file fails after the region was attached: the descriptor is given back twice, and the error code is 0.
\<close>

lemma mmap_frees_twice:
  fixes prot :: u32
  assumes "vmm_ok (vmm T)" and "65536 dvd unat (last_mmap (vmm T))" and "new_region env = Some x" and "x \<noteq> 0" and "x \<notin> set (regions_root (vmm T))"
    and "0 < len" and "len \<le> CONFIG_USR_LIMIT" and "\<not> flag_set flags VM_REG_HEAP" and "\<not> flag_set flags VM_REG_FIXED" and "flag_set flags VM_REG_SHARED" and "\<not> flag_set flags VM_REG_ANON"
    and "\<not> flag_set flags VM_REG_LAZY"
  shows "\<exists>err T'. vmm_mmap env None 0 len prot flags 0 T = Some (Inl err, T') \<and> (err = Some ENOMEM \<and> freed T' = freed T @ [Region x] \<or> err = OK \<and> freed T' = freed T @ [Region x, Region x])"
proof (cases rule: mmap_attached [OF assms(1,2,4,5,6,7,8,9), of prot, case_names full attached])
  case full
  then show ?thesis using assms(3) by (auto simp: vmm_mmap_def set_region_def kmem_free_def Let_def)
next
  case (attached s as bs t)
  let ?r = "vm_region_init 0 len prot 0 (flags OR VM_REG_INIT)"
  let ?R = "(moved s ?r)\<lparr>vm_op := Some vm_region_default_op\<rparr>"
  let ?V = "(vmm T)\<lparr>regs := (regs (vmm T))(x := ?R), regions_tree := t, regions_root := as @ x # bs, last_mmap := s\<rparr>"
  have R: "vm_flags ?R = flags OR VM_REG_INIT" "vm_refcount ?R = 1" "vm_file ?R = None" "vm_begin ?R = s" "vm_end ?R = s + ARROUND_UP len 65536"
    using init_bounds [OF assms(8), of len prot] by (simp_all add: moved_def vm_region_init_def Let_def)
  have ok: "vmm_ok ?V" using attached(6) [of "(regs (vmm T))(x := ?R)"] R(4,5) by simp
  have lz: "\<not> flag_set (flags OR VM_REG_INIT) VM_REG_LAZY" "\<not> flag_set (flags OR VM_REG_INIT) VM_REG_ANON"
    unfolding flag_or using assms(11,12) by (simp_all add: flag_set_def VM_REG_INIT_def VM_REG_LAZY_def VM_REG_ANON_def)
  have "regions_root ?V = as @ x # bs" "\<not> flag_set (vm_flags (regs ?V x)) VM_REG_LAZY" using R(1) lz(1) by simp_all
  then obtain V where V: "region_unlink x ?V = Some V" "regs V = regs ?V" by (rule unlink_ok [OF ok])
  have eq: "(vmm T)\<lparr>regions_tree := t, regions_root := as @ x # bs, last_mmap := s, regs := M\<rparr> = (vmm T)\<lparr>regs := M, regions_tree := t, regions_root := as @ x # bs, last_mmap := s\<rparr>" for M
    by simp
  show ?thesis using attached(1) assms(3,10) V R(1-3) lz
    by (auto simp: vmm_mmap_def mmap_backing_def vm_region_detach_def set_region_def kmem_free_def Let_def eq)
qed

text \<open>\<^verbatim>\<open>vmm_sbrk\<close> never moves \<^verbatim>\<open>heap_current\<close>: if a request is granted once it is granted any number of times, and the limit of the heap moves past every bound.\<close>

lemma sbrk_unbounded:
  assumes "heap_current T \<le> current" and "heap_current T + sz \<le> CONFIG_TASK_HEAP_MAX_SIZE"
  shows "\<exists>T'. ((\<lambda>T. snd (vmm_sbrk current sz T)) ^^ n) T = T' \<and> fst (vmm_sbrk current sz T') = OK \<and> heap_current T' = heap_current T \<and> heap_region T' = heap_region T
    \<and> vm_limit (get_region T' (heap_region T')) = vm_limit (get_region T (heap_region T)) + of_nat n * sz"
  using assms by (induction n) (auto simp: vmm_sbrk_def set_region_def Let_def algebra_simps)

text \<open>Unmapping a part of a region that includes its end answers success and does nothing.\<close>

lemma munmap_tail_ignored:
  assumes "vm_start (get_region T x) < a" and "vm_limit (get_region T x) \<le> a + len"
  shows "vmm_do_munmap op x a len T = Some (OK, T)"
  using assms by (auto simp: vmm_do_munmap_def vm_region_resize_def Let_def)

end
