(* ===== verification/Spec2Isabelle.thy ===== *)
theory Spec2Isabelle
  imports Kernel_Prelude Libk_Bits Libk_List Libk_Memory Libk_String Libk_Rbtree Rbtree_Rep Rbtree_Insert Rbtree_Erase Rbtree_Tree Rbtree_Ops Rbtree_Packed
    Kern_Atomic Kern_WaitQueue Kern_Semaphore Kern_RwLock Kern_CondVar Ring_Buffer Kern_Kfifo Kern_RemoteFifo Kern_Mwmr
    Kern_Sched Kern_SchedOrder Kern_SchedDb Kern_Spinlock Kern_Barrier Kern_Keysdb
    Mm_Pmm Mm_VmRegion Mm_VmmFault Mm_Heap Buddy_Blocks Mm_Page Mm_Ppm Mm_PpmInit
    Vfs_File Kern_TaskFd Mm_Vmm
begin

text \<open>
  A verification of the kernel of ALMOS-MK, an operating system for many-core machines without cache coherence between clusters (\<^verbatim>\<open>src/kernel\<close>). The kernel
  is C; the model translates it function by function for the 32-bit TSAR target, as functions on records of the state of each component.

  \<^bold>\<open>Conventions.\<close> \<^verbatim>\<open>uint_t\<close> is a 32-bit word and wraps around. An error code is an option: \<^verbatim>\<open>None\<close> is 0. An access to an array is checked and an
  access outside of it is the value \<^verbatim>\<open>None\<close> of the operation; where an operation can also fail to return (a spin, a loop over pointers), it is a partial
  function and not returning is \<^verbatim>\<open>None\<close> too. So every theorem that an operation answers \<^verbatim>\<open>Some\<close> includes that it stays inside its arrays and returns. Fuel
  is used in three places: in \<^verbatim>\<open>list_foreach\<close> of \<^verbatim>\<open>Libk_List\<close>, where the number of entries of the list is enough and is what the theorems supply, in
  \<^verbatim>\<open>reserve_boot\<close> of \<^verbatim>\<open>Mm_PpmInit\<close>, where the number of pages of the address space is enough, and in \<^verbatim>\<open>sync_all_pages\<close> of \<^verbatim>\<open>Mm_Page\<close>. A failed \<^verbatim>\<open>assert\<close> prints and the
  function goes on, as in the source. Code that
  other processors run meanwhile is modelled by splitting an operation at its accesses to shared memory into the steps of a relation (\<^verbatim>\<open>Kern_Kfifo\<close>, \<^verbatim>\<open>Kern_Spinlock\<close>,
  \<^verbatim>\<open>Kern_Barrier\<close>, \<^verbatim>\<open>Kern_Sched\<close>), or by an explicit list of interfering writes (\<^verbatim>\<open>Kern_Atomic\<close>); an operation that runs under a lock is one step. Answers of
  allocators, of devices and of the architecture are parameters.

  \<^bold>\<open>Libraries\<close> (\<^verbatim>\<open>src/kernel/libk\<close>). \<^verbatim>\<open>Kernel_Prelude\<close> has the types, the error codes and the shared lemmas. \<^verbatim>\<open>Libk_Bits\<close> is \<^verbatim>\<open>bits.c\<close> and \<^verbatim>\<open>bits.h\<close>: bitmaps,
  the two range operations and the two searches through one locale each (\<^verbatim>\<open>masked_update\<close>, \<^verbatim>\<open>word_scan\<close>). \<^verbatim>\<open>Libk_List\<close> is \<^verbatim>\<open>list.h\<close> on a heap of entries, with
  the interface \<^verbatim>\<open>kernel_queue\<close>. \<^verbatim>\<open>Libk_Memory\<close> is \<^verbatim>\<open>memcpy.c\<close> and \<^verbatim>\<open>memset.c\<close>, every loop of them, equal to the byte-wise copy and fill.
  \<^verbatim>\<open>Libk_String\<close> is \<^verbatim>\<open>strlen.c\<close> to \<^verbatim>\<open>atoi.c\<close> and \<^verbatim>\<open>ctype.c\<close>. \<^verbatim>\<open>Libk_Rbtree\<close> is \<^verbatim>\<open>rbtree.c\<close>; \<^verbatim>\<open>Rbtree_Rep\<close> says which tree a store of nodes holds, seen from a node in it,
  \<^verbatim>\<open>Rbtree_Insert\<close> and \<^verbatim>\<open>Rbtree_Erase\<close> follow the two recolouring loops, \<^verbatim>\<open>Rbtree_Tree\<close> the removal of a node with two children, and \<^verbatim>\<open>Rbtree_Ops\<close> states what a client sees:
  insertion, removal, replacement and traversal on the sequence of nodes, red-black rules kept, all loops ending. \<^verbatim>\<open>Rbtree_Packed\<close> shows that the packed
  parent and colour word of \<^verbatim>\<open>rbtree.h\<close> behaves as two fields.

  \<^bold>\<open>Synchronization and communication\<close> (\<^verbatim>\<open>src/kernel/kern\<close>). \<^verbatim>\<open>Kern_Atomic\<close> is \<^verbatim>\<open>atomic.c\<close>. \<^verbatim>\<open>Kern_WaitQueue\<close> is \<^verbatim>\<open>wait_queue.c\<close> and holds the interface \<^verbatim>\<open>blocking_lock\<close>, from
  which mutual exclusion and first-come first-served order follow for the mutexes of \<^verbatim>\<open>Kern_Semaphore\<close> (\<^verbatim>\<open>semaphore.c\<close>) and the page lock of \<^verbatim>\<open>Mm_Page\<close>.
  \<^verbatim>\<open>Kern_RwLock\<close> (\<^verbatim>\<open>rwlock.c\<close>), \<^verbatim>\<open>Kern_CondVar\<close> (\<^verbatim>\<open>cond_var.c\<close>, with the mutex it releases and takes again) and \<^verbatim>\<open>Kern_Barrier\<close> (\<^verbatim>\<open>barrier.c\<close>) have step relations and invariants.
  \<^verbatim>\<open>Kern_Spinlock\<close> is \<^verbatim>\<open>spinlock.c\<close> split at its accesses to the lock word. \<^verbatim>\<open>Ring_Buffer\<close> is the theory of ring buffers and the interface \<^verbatim>\<open>bounded_fifo\<close>, implemented by
  \<^verbatim>\<open>Kern_Kfifo\<close> (\<^verbatim>\<open>kfifo.c\<close>) and \<^verbatim>\<open>Kern_RemoteFifo\<close> (\<^verbatim>\<open>remote_fifo.c\<close>, on the memories of all clusters); \<^verbatim>\<open>Kern_Kfifo\<close> also has the lock-free single producer, single consumer run. \<^verbatim>\<open>Kern_Mwmr\<close> is
  \<^verbatim>\<open>mwmr.c\<close>, a byte stream. \<^verbatim>\<open>Kern_Keysdb\<close> is \<^verbatim>\<open>keysdb.c\<close>, a map from 16-bit keys.

  \<^bold>\<open>Scheduling\<close> (\<^verbatim>\<open>src/kernel/kern\<close>). \<^verbatim>\<open>Kern_Sched\<close> is \<^verbatim>\<open>scheduler.c\<close> and \<^verbatim>\<open>rr-sched_locked.c\<close>: the queues, the election and every operation on threads, with the
  invariant that every thread is at exactly one place. \<^verbatim>\<open>Kern_SchedOrder\<close> shows what threads can rely on: no wake-up is lost, round-robin order, quanta.
  \<^verbatim>\<open>Kern_SchedDb\<close> is the table of local thread numbers.

  \<^bold>\<open>Memory\<close> (\<^verbatim>\<open>src/kernel/mm\<close>, \<^verbatim>\<open>src/kernel/arch/tsar\<close>). \<^verbatim>\<open>Mm_Page\<close> is \<^verbatim>\<open>page.c\<close> and \<^verbatim>\<open>page.h\<close>. \<^verbatim>\<open>Buddy_Blocks\<close> is the arithmetic of buddy blocks, \<^verbatim>\<open>Mm_Ppm\<close> and \<^verbatim>\<open>Mm_PpmInit\<close> are \<^verbatim>\<open>ppm.c\<close>: the buddy
  allocator hands out disjoint blocks, merges them on release and counts exactly, over every sequence of operations. \<^verbatim>\<open>Mm_Heap\<close> is \<^verbatim>\<open>heap_manager.c\<close>. \<^verbatim>\<open>Mm_Pmm\<close> is \<^verbatim>\<open>arch/tsar/pmm.c\<close>: the two-level
  page tables. \<^verbatim>\<open>Mm_VmRegion\<close> is \<^verbatim>\<open>vm_region.c\<close>: the regions of an address space in the red-black tree and in the list. \<^verbatim>\<open>Mm_VmmFault\<close> is the page fault path
  of \<^verbatim>\<open>vmm.c\<close>, which composes regions, key database and page tables and calls the page fault operation of the region. \<^verbatim>\<open>Mm_Vmm\<close> is the rest of \<^verbatim>\<open>vmm.c\<close> and \<^verbatim>\<open>vm_region.c\<close> with \<^verbatim>\<open>sys_mmap.c\<close>, \<^verbatim>\<open>sys_sbrk.c\<close> and
  \<^verbatim>\<open>sys_madvise.c\<close>: mapping, unmapping and the end of an address space, up to the theorem that memory that was mapped can be touched.

  \<^bold>\<open>Open files\<close> (\<^verbatim>\<open>src/kernel/vfs\<close>, \<^verbatim>\<open>src/kernel/kern\<close>). \<^verbatim>\<open>Vfs_File\<close> is \<^verbatim>\<open>vfs_file.c\<close> and the operations on an open file of \<^verbatim>\<open>vfs.c\<close>: reference counts and seeking. \<^verbatim>\<open>Kern_TaskFd\<close> is the descriptor table
  of a task and the system calls on it, with the descriptors a child inherits.

  \<^bold>\<open>What the properties show.\<close> Functional correctness on every branch of the allocators, the tree, the page tables, the regions and the fault handlers; exclusion, order
  and freedom from lost wake-ups for the synchronization objects and the scheduler, under every interleaving of the modelled steps; refinement of queues
  by the two ring buffers; equality of the optimised routines with byte-wise ones and of the tree search with the list scan. Some properties state
  what the code does where that is not what it means to do; those are listed as findings next to the development.

  \<^bold>\<open>Not modelled.\<close> Assembly, boot code, interrupt tables and device drivers: register-level effects. The kernel shell, printing and traces: console output
  only. File systems, inodes and path lookup of the virtual file system, the page mappers, program loading, creation and migration of tasks and threads, remote procedure calls,
  and the load balancing tree: they work on disk layouts, machine contexts or messages between clusters, and what the modelled parts need of them is a
  parameter. User libraries, applications and host tools run outside the kernel.
\<close>

end
